(* ===== verification/Vmm_Prelude.thy ===== *)
theory Vmm_Prelude
  imports Main "HOL-Library.Word"
begin

text \<open>
  Shared vocabulary of the development: the outcome of a piece of kernel code (a value, or the
  reason it never returns), the sequencing operator that threads outcomes, the C integer types at
  their widths, bit-field access on machine words, and the generic lemmas the components rely on.
\<close>

unbundle bit_operations_syntax

named_theorems outcome_simps \<open>rewriting an equation between outcomes into its parts\<close>
named_theorems vm_frame \<open>what an operation leaves unchanged\<close>

section \<open>Outcomes\<close>

text \<open>
  \<^verbatim>\<open>kassert\<close> is \<^verbatim>\<open>assert\<close> and \<^verbatim>\<open>kfatal\<close> prints and loops for ever: neither returns. Code that has
  no defined behaviour in C (a list macro applied to an element that is not on the list, a field
  that was never initialised) is a third way of not returning a meaningful result, \<open>Undefined\<close>.
\<close>

datatype panic = Kassert string | Kfatal string | Undefined string

datatype 'a outcome = Ok 'a | Err panic

fun bnd :: "'a outcome \<Rightarrow> ('a \<Rightarrow> 'b outcome) \<Rightarrow> 'b outcome" where
  "bnd (Ok x) f = f x"
| "bnd (Err e) f = Err e"

definition kassert :: "bool \<Rightarrow> string \<Rightarrow> 'a outcome \<Rightarrow> 'a outcome" where
  "kassert b msg k = (if b then k else Err (Kassert msg))"

definition kfatal :: "string \<Rightarrow> 'a outcome" where
  "kfatal msg = Err (Kfatal msg)"

definition defined_if :: "bool \<Rightarrow> string \<Rightarrow> 'a outcome \<Rightarrow> 'a outcome" where
  "defined_if b msg k = (if b then k else Err (Undefined msg))"

lemma bnd_cong [fundef_cong]:
  "r = r' \<Longrightarrow> (\<And>x. r' = Ok x \<Longrightarrow> f x = g x) \<Longrightarrow> bnd r f = bnd r' g"
  by (cases r') auto

lemma kassert_cong [fundef_cong]:
  "b = b' \<Longrightarrow> msg = msg' \<Longrightarrow> (b' \<Longrightarrow> k = k') \<Longrightarrow> kassert b msg k = kassert b' msg' k'"
  by (simp add: kassert_def)

lemma defined_if_cong [fundef_cong]:
  "b = b' \<Longrightarrow> msg = msg' \<Longrightarrow> (b' \<Longrightarrow> k = k') \<Longrightarrow> defined_if b msg k = defined_if b' msg' k'"
  by (simp add: defined_if_def)

lemma bnd_Ok_iff [outcome_simps, simp]: "bnd r f = Ok y \<longleftrightarrow> (\<exists>x. r = Ok x \<and> f x = Ok y)"
  by (cases r) auto

lemma kassert_Ok_iff [outcome_simps, simp]: "kassert b msg k = Ok y \<longleftrightarrow> b \<and> k = Ok y"
  by (simp add: kassert_def)

lemma defined_if_Ok_iff [outcome_simps, simp]: "defined_if b msg k = Ok y \<longleftrightarrow> b \<and> k = Ok y"
  by (simp add: defined_if_def)

lemma kfatal_not_Ok [outcome_simps, simp]: "kfatal msg \<noteq> Ok y"
  by (simp add: kfatal_def)

lemma kassert_True [simp]: "kassert True msg k = k"
  by (simp add: kassert_def)

lemma defined_if_True [simp]: "defined_if True msg k = k"
  by (simp add: defined_if_def)

lemma bnd_assoc: "bnd (bnd r f) g = bnd r (\<lambda>x. bnd (f x) g)"
  by (cases r) auto

lemma bnd_kassert [simp]: "bnd (kassert b msg k) f = kassert b msg (bnd k f)"
  by (simp add: kassert_def)

lemma bnd_defined_if [simp]: "bnd (defined_if b msg k) f = defined_if b msg (bnd k f)"
  by (simp add: defined_if_def)

lemma option_eqI: "(\<And>x. a = Some x \<longleftrightarrow> b = Some x) \<Longrightarrow> a = b"
  by (cases a; cases b) auto

section \<open>Machine integers\<close>

type_synonym uint8_t = "8 word"
type_synonym uint16_t = "16 word"
type_synonym uint32_t = "32 word"
type_synonym uint64_t = "64 word"
type_synonym size_t = "64 word"

text \<open>\<^verbatim>\<open>vaddr_t\<close> is compared and subtracted at its width, so it is a word. Physical addresses are
  offsets into the \<open>SOFT_NPAGES * PGSIZE\<close> bytes of simulated memory; they are natural numbers, and
  the one place where a 64-bit shift could lose bits (\<open>vmp_pfn_to_paddr\<close>) writes the reduction out.\<close>

type_synonym vaddr = "64 word"
type_synonym paddr = nat
type_synonym page_ptr = nat \<comment> \<open>index into \<^verbatim>\<open>mypages\<close>: a \<^verbatim>\<open>vm_page_t *\<close>\<close>

section \<open>Bit fields\<close>

text \<open>Reading and assigning the bit field of \<open>len\<close> bits that starts at bit \<open>lo\<close>.\<close>

definition get_field :: "nat \<Rightarrow> nat \<Rightarrow> 'a::len word \<Rightarrow> 'a word" where
  "get_field lo len w = take_bit len (drop_bit lo w)"

definition set_field :: "nat \<Rightarrow> nat \<Rightarrow> 'a::len word \<Rightarrow> 'a word \<Rightarrow> 'a word" where
  "set_field lo len v w = (w AND NOT (push_bit lo (mask len))) OR push_bit lo (take_bit len v)"

lemma bit_get_field:
  "bit (get_field lo len (w::'a::len word)) n \<longleftrightarrow> n < len \<and> bit w (lo + n)"
  by (auto simp: get_field_def bit_simps)

lemma bit_set_field:
  "bit (set_field lo len v (w::'a::len word)) n \<longleftrightarrow> n < LENGTH('a) \<and>
     (if lo \<le> n \<and> n < lo + len then bit v (n - lo) else bit w n)"
  unfolding set_field_def bit_simps by auto

lemma get_set_field_same [simp]:
  fixes w :: "'a::len word"
  assumes "lo + len \<le> LENGTH('a)"
  shows "get_field lo len (set_field lo len v w) = take_bit len v"
  by (rule bit_word_eqI) (use assms in \<open>auto simp: bit_get_field bit_set_field bit_simps\<close>)

lemma get_set_field_other [simp]:
  fixes w :: "'a::len word"
  assumes "lo + len \<le> lo' \<or> lo' + len' \<le> lo"
  shows "get_field lo len (set_field lo' len' v w) = get_field lo len w"
  by (rule bit_word_eqI)
    (use assms in \<open>auto simp: bit_get_field bit_set_field dest: bit_imp_le_length\<close>)

end
