(* ===== verification/Tailq.thy ===== *)
theory Tailq
  imports Vmm_Prelude
begin

text \<open>
  The tail queues of \<^verbatim>\<open>kdk/queue.h\<close>. The macros work on pointers: a head holds the address of the
  first element and the address of the last \<open>tqe_next\<close> cell, an element the address of its
  successor and of the cell that points at it. The pointer-level model keeps all heads and links of
  one link field in one store, because the page queues of the memory manager share
  \<^verbatim>\<open>vm_page::queue_link\<close>; the refinement shows that each macro acts on the queue it is given as a
  list operation and leaves every other queue of the store alone. The clients of the queues use the
  list operations, with the macros' contract (an inserted element is on no queue, a removed element
  is on the queue it is removed from) as a definedness condition.
\<close>

section \<open>The macros on pointers\<close>

datatype ('h, 'a) nextref = First 'h | Next 'a \<comment> \<open>a \<^verbatim>\<open>struct type **\<close>\<close>

record ('h, 'a) tailqs =
  tqh_first :: "'h \<Rightarrow> 'a option"
  tqh_last :: "'h \<Rightarrow> ('h, 'a) nextref"
  tqe_next :: "'a \<Rightarrow> 'a option"
  tqe_prev :: "'a \<Rightarrow> ('h, 'a) nextref"

fun deref :: "('h, 'a) tailqs \<Rightarrow> ('h, 'a) nextref \<Rightarrow> 'a option" where
  "deref s (First h) = tqh_first s h"
| "deref s (Next x) = tqe_next s x"

fun store :: "('h, 'a) nextref \<Rightarrow> 'a option \<Rightarrow> ('h, 'a) tailqs \<Rightarrow> ('h, 'a) tailqs" where
  "store (First h) v s = s\<lparr>tqh_first := (tqh_first s)(h := v)\<rparr>"
| "store (Next x) v s = s\<lparr>tqe_next := (tqe_next s)(x := v)\<rparr>"

definition set_prev :: "'a \<Rightarrow> ('h, 'a) nextref \<Rightarrow> ('h, 'a) tailqs \<Rightarrow> ('h, 'a) tailqs" where
  "set_prev x r s = s\<lparr>tqe_prev := (tqe_prev s)(x := r)\<rparr>"

definition set_last :: "'h \<Rightarrow> ('h, 'a) nextref \<Rightarrow> ('h, 'a) tailqs \<Rightarrow> ('h, 'a) tailqs" where
  "set_last h r s = s\<lparr>tqh_last := (tqh_last s)(h := r)\<rparr>"

definition ptr_TAILQ_INIT :: "'h \<Rightarrow> ('h, 'a) tailqs \<Rightarrow> ('h, 'a) tailqs" where
  "ptr_TAILQ_INIT h s = set_last h (First h) (store (First h) None s)"

definition ptr_TAILQ_FIRST :: "'h \<Rightarrow> ('h, 'a) tailqs \<Rightarrow> 'a option" where
  "ptr_TAILQ_FIRST h s = tqh_first s h"

definition ptr_TAILQ_INSERT_HEAD :: "'h \<Rightarrow> 'a \<Rightarrow> ('h, 'a) tailqs \<Rightarrow> ('h, 'a) tailqs" where
  "ptr_TAILQ_INSERT_HEAD h x s =
     (let s = store (Next x) (tqh_first s h) s;
          s = (case tqe_next s x of
                 Some y \<Rightarrow> set_prev y (Next x) s
               | None \<Rightarrow> set_last h (Next x) s);
          s = store (First h) (Some x) s
      in set_prev x (First h) s)"

definition ptr_TAILQ_INSERT_TAIL :: "'h \<Rightarrow> 'a \<Rightarrow> ('h, 'a) tailqs \<Rightarrow> ('h, 'a) tailqs" where
  "ptr_TAILQ_INSERT_TAIL h x s =
     (let s = store (Next x) None s;
          s = set_prev x (tqh_last s h) s;
          s = store (tqh_last s h) (Some x) s
      in set_last h (Next x) s)"

definition ptr_TAILQ_REMOVE :: "'h \<Rightarrow> 'a \<Rightarrow> ('h, 'a) tailqs \<Rightarrow> ('h, 'a) tailqs" where
  "ptr_TAILQ_REMOVE h x s =
     (let s = (case tqe_next s x of
                 Some y \<Rightarrow> set_prev y (tqe_prev s x) s
               | None \<Rightarrow> set_last h (tqe_prev s x) s)
      in store (tqe_prev s x) (tqe_next s x) s)"

text \<open>\<^verbatim>\<open>TAILQ_FOREACH\<close> visits the elements from the first along \<open>tqe_next\<close>; a bound on the number of
  steps keeps the walk finite, and a queue of \<open>n\<close> elements needs \<open>n\<close>.\<close>

fun ptr_TAILQ_WALK :: "nat \<Rightarrow> 'a option \<Rightarrow> ('h, 'a) tailqs \<Rightarrow> 'a list" where
  "ptr_TAILQ_WALK (Suc n) (Some x) s = x # ptr_TAILQ_WALK n (tqe_next s x) s"
| "ptr_TAILQ_WALK _ _ s = []"

section \<open>The macros on lists\<close>

definition TAILQ_FIRST :: "'a list \<Rightarrow> 'a option" where
  "TAILQ_FIRST q = (case q of [] \<Rightarrow> None | x # _ \<Rightarrow> Some x)"

definition TAILQ_INSERT_HEAD :: "'a \<Rightarrow> 'a list \<Rightarrow> 'a list outcome" where
  "TAILQ_INSERT_HEAD x q = defined_if (x \<notin> set q) ''TAILQ_INSERT_HEAD'' (Ok (x # q))"

definition TAILQ_INSERT_TAIL :: "'a \<Rightarrow> 'a list \<Rightarrow> 'a list outcome" where
  "TAILQ_INSERT_TAIL x q = defined_if (x \<notin> set q) ''TAILQ_INSERT_TAIL'' (Ok (q @ [x]))"

definition TAILQ_REMOVE :: "'a \<Rightarrow> 'a list \<Rightarrow> 'a list outcome" where
  "TAILQ_REMOVE x q = defined_if (x \<in> set q) ''TAILQ_REMOVE'' (Ok (remove1 x q))"

lemmas TAILQ_list_defs = TAILQ_INSERT_HEAD_def TAILQ_INSERT_TAIL_def TAILQ_REMOVE_def

lemma TAILQ_FIRST_simps [simp]:
  "TAILQ_FIRST [] = None"
  "TAILQ_FIRST (x # q) = Some x"
  by (simp_all add: TAILQ_FIRST_def)

lemma TAILQ_FIRST_None_iff [simp]: "TAILQ_FIRST q = None \<longleftrightarrow> q = []"
  by (cases q) auto

lemma TAILQ_FIRST_Some_in: "TAILQ_FIRST q = Some x \<Longrightarrow> x \<in> set q"
  by (cases q) auto

section \<open>Representation of a queue in the store\<close>

text \<open>\<open>links s r xs e\<close>: following the cells from the reference \<open>r\<close> visits exactly \<open>xs\<close>, each element
  pointing back at the cell it was reached from, and \<open>e\<close> is the cell after the last one.\<close>

fun links :: "('h, 'a) tailqs \<Rightarrow> ('h, 'a) nextref \<Rightarrow> 'a list \<Rightarrow> ('h, 'a) nextref \<Rightarrow> bool" where
  "links s r [] e \<longleftrightarrow> e = r"
| "links s r (x # xs) e \<longleftrightarrow> deref s r = Some x \<and> tqe_prev s x = r \<and> links s (Next x) xs e"

definition represents :: "('h, 'a) tailqs \<Rightarrow> 'h \<Rightarrow> 'a list \<Rightarrow> bool" where
  "represents s h xs \<longleftrightarrow>
     distinct xs \<and> links s (First h) xs (tqh_last s h) \<and> deref s (tqh_last s h) = None"

definition all_represent :: "('h, 'a) tailqs \<Rightarrow> ('h \<Rightarrow> 'a list) \<Rightarrow> bool" where
  "all_represent s q \<longleftrightarrow> (\<forall>h. represents s h (q h)) \<and>
     (\<forall>h h'. h \<noteq> h' \<longrightarrow> set (q h) \<inter> set (q h') = {})"

lemma links_append:
  "links s r (xs @ ys) e \<longleftrightarrow> (\<exists>m. links s r xs m \<and> links s m ys e)"
  by (induction xs arbitrary: r) auto

lemma links_end: "links s r xs e \<Longrightarrow> e = last (r # map Next xs)"
  by (induction xs arbitrary: r) (auto split: if_splits)

lemma links_frame:
  assumes "\<forall>y\<in>set xs. tqe_prev s' y = tqe_prev s y"
    and "\<forall>r'\<in>set (butlast (r # map Next xs)). deref s' r' = deref s r'"
  shows "links s' r xs e \<longleftrightarrow> links s r xs e"
  using assms by (induction xs arbitrary: r) auto

lemma links_end_mem: "links s (First h) xs e \<Longrightarrow> e = First h \<or> (\<exists>y\<in>set xs. e = Next y)"
  by (cases xs rule: rev_cases) (auto dest: links_end)

lemma deref_store [simp]: "deref (store r v s) r' = (if r' = r then v else deref s r')"
  by (cases r; cases r') auto

lemma store_fields [simp]:
  "tqe_next (store r v s) x = (if r = Next x then v else tqe_next s x)"
  "tqh_first (store r v s) h = (if r = First h then v else tqh_first s h)"
  "tqe_prev (store r v s) = tqe_prev s"
  "tqh_last (store r v s) = tqh_last s"
  by (cases r; simp)+

declare store.simps [simp del]

lemma set_prev_fields [simp]:
  "deref (set_prev x r s) r' = deref s r'"
  "tqe_prev (set_prev x r s) = (tqe_prev s)(x := r)"
  "tqh_last (set_prev x r s) = tqh_last s"
  "tqe_next (set_prev x r s) = tqe_next s"
  "tqh_first (set_prev x r s) = tqh_first s"
  by (cases r'; simp add: set_prev_def)+

lemma set_last_fields [simp]:
  "deref (set_last h r s) r' = deref s r'"
  "tqe_prev (set_last h r s) = tqe_prev s"
  "tqh_last (set_last h r s) = (tqh_last s)(h := r)"
  "tqe_next (set_last h r s) = tqe_next s"
  "tqh_first (set_last h r s) = tqh_first s"
  by (cases r'; simp add: set_last_def)+

text \<open>The cells of a queue: what an operation may write without disturbing the others.\<close>

lemma represents_frame:
  assumes "represents s h xs"
    and "tqh_last s' h = tqh_last s h"
    and "\<forall>y\<in>set xs. tqe_prev s' y = tqe_prev s y \<and> deref s' (Next y) = deref s (Next y)"
    and "deref s' (First h) = deref s (First h)"
  shows "represents s' h xs"
proof -
  from assms(1) have d: "distinct xs" and l: "links s (First h) xs (tqh_last s h)"
    and n: "deref s (tqh_last s h) = None"
    by (auto simp: represents_def)
  have "links s' (First h) xs (tqh_last s h)"
    using l by (subst links_frame [where s = s]) (use assms(3,4) in \<open>auto dest!: in_set_butlastD\<close>)
  moreover have "deref s' (tqh_last s h) = None"
    using links_end_mem [OF l] n assms(3,4) by auto
  ultimately show ?thesis using d assms(2) by (simp add: represents_def)
qed

lemma last_ref_fresh:
  assumes "distinct xs" and "links s (First h) xs e"
  shows "e \<notin> set (butlast (First h # map Next xs))"
proof -
  let ?refs = "First h # map Next xs"
  have "distinct (butlast ?refs @ [last ?refs])"
    using assms(1) by (subst append_butlast_last_id) (auto simp: distinct_map inj_on_def)
  then show ?thesis using links_end [OF assms(2)] by simp
qed

section \<open>Each macro is its list operation\<close>

lemma deref_INSERT_TAIL:
  "deref (ptr_TAILQ_INSERT_TAIL h x s) r =
    (if r = tqh_last s h then Some x else if r = Next x then None else deref s r)"
  by (simp add: ptr_TAILQ_INSERT_TAIL_def Let_def)

lemmas cells_INSERT_TAIL =
  deref_INSERT_TAIL [where r = "First z" for z, unfolded deref.simps]
  deref_INSERT_TAIL [where r = "Next z" for z, unfolded deref.simps]

lemma fields_INSERT_TAIL:
  "tqe_prev (ptr_TAILQ_INSERT_TAIL h x s) = (tqe_prev s)(x := tqh_last s h)"
  "tqh_last (ptr_TAILQ_INSERT_TAIL h x s) = (tqh_last s)(h := Next x)"
  by (simp_all add: ptr_TAILQ_INSERT_TAIL_def Let_def)

lemma represents_INSERT_TAIL:
  assumes rep: "represents s h xs" and x: "x \<notin> set xs"
  shows "represents (ptr_TAILQ_INSERT_TAIL h x s) h (xs @ [x])"
proof -
  let ?s' = "ptr_TAILQ_INSERT_TAIL h x s" and ?e = "tqh_last s h"
  from rep have d: "distinct xs" and l: "links s (First h) xs ?e"
    by (auto simp: represents_def)
  have "links ?s' (First h) xs ?e"
    using l last_ref_fresh [OF d l] x
    by (subst links_frame [where s = s])
      (auto simp: deref_INSERT_TAIL cells_INSERT_TAIL fields_INSERT_TAIL dest: in_set_butlastD)
  then show ?thesis
    using d x links_end_mem [OF l]
    by (auto simp: represents_def links_append deref_INSERT_TAIL cells_INSERT_TAIL fields_INSERT_TAIL)
qed

lemma deref_INSERT_HEAD:
  "deref (ptr_TAILQ_INSERT_HEAD h x s) r =
    (if r = First h then Some x else if r = Next x then tqh_first s h else deref s r)"
  by (auto simp: ptr_TAILQ_INSERT_HEAD_def Let_def split: option.splits)

lemmas cells_INSERT_HEAD =
  deref_INSERT_HEAD [where r = "First z" for z, unfolded deref.simps]
  deref_INSERT_HEAD [where r = "Next z" for z, unfolded deref.simps]

lemma fields_INSERT_HEAD:
  "tqe_prev (ptr_TAILQ_INSERT_HEAD h x s) =
    (case tqh_first s h of None \<Rightarrow> tqe_prev s | Some y \<Rightarrow> (tqe_prev s)(y := Next x))(x := First h)"
  "tqh_last (ptr_TAILQ_INSERT_HEAD h x s) =
    (case tqh_first s h of None \<Rightarrow> (tqh_last s)(h := Next x) | Some y \<Rightarrow> tqh_last s)"
  by (auto simp: ptr_TAILQ_INSERT_HEAD_def Let_def split: option.splits)

lemma represents_INSERT_HEAD:
  assumes rep: "represents s h xs" and x: "x \<notin> set xs"
  shows "represents (ptr_TAILQ_INSERT_HEAD h x s) h (x # xs)"
proof (cases xs)
  case Nil
  with rep show ?thesis
    by (auto simp: represents_def cells_INSERT_HEAD fields_INSERT_HEAD)
next
  case (Cons y ys)
  let ?s' = "ptr_TAILQ_INSERT_HEAD h x s"
  from rep Cons have f: "tqh_first s h = Some y" and d: "y \<notin> set ys" "distinct ys"
    and l: "links s (Next y) ys (tqh_last s h)" and e: "links s (First h) xs (tqh_last s h)"
    and n: "deref s (tqh_last s h) = None"
    by (auto simp: represents_def)
  have neq: "tqh_last s h \<noteq> First h" "tqh_last s h \<noteq> Next x"
    using links_end_mem [OF e] x n f by auto
  have "links ?s' (Next y) ys (tqh_last s h)"
    using l x d Cons
    by (subst links_frame [where s = s])
      (auto simp: deref_INSERT_HEAD fields_INSERT_HEAD f dest!: in_set_butlastD split: if_splits)
  with Cons x d f neq n show ?thesis
    by (auto simp: represents_def deref_INSERT_HEAD cells_INSERT_HEAD fields_INSERT_HEAD)
qed

lemma deref_REMOVE:
  "deref (ptr_TAILQ_REMOVE h x s) r =
    (if r = (case tqe_next s x of None \<Rightarrow> tqe_prev s x
                | Some y \<Rightarrow> ((tqe_prev s)(y := tqe_prev s x)) x)
     then tqe_next s x else deref s r)"
  by (auto simp: ptr_TAILQ_REMOVE_def Let_def split: option.splits)

lemmas cells_REMOVE =
  deref_REMOVE [where r = "First z" for z, unfolded deref.simps]
  deref_REMOVE [where r = "Next z" for z, unfolded deref.simps]

lemma fields_REMOVE:
  "tqe_prev (ptr_TAILQ_REMOVE h x s) =
    (case tqe_next s x of None \<Rightarrow> tqe_prev s | Some y \<Rightarrow> (tqe_prev s)(y := tqe_prev s x))"
  "tqh_last (ptr_TAILQ_REMOVE h x s) =
    (case tqe_next s x of None \<Rightarrow> (tqh_last s)(h := tqe_prev s x) | Some y \<Rightarrow> tqh_last s)"
  by (auto simp: ptr_TAILQ_REMOVE_def Let_def split: option.splits)

lemma represents_split:
  assumes "represents s h (xs @ x # ys)"
  obtains m where "links s (First h) xs m" "deref s m = Some x" "tqe_prev s x = m"
    "links s (Next x) ys (tqh_last s h)" "deref s (tqh_last s h) = None"
    "tqe_next s x = (case ys of [] \<Rightarrow> None | y # _ \<Rightarrow> Some y)"
  using assms by (cases ys) (auto simp: represents_def links_append)

lemma represents_REMOVE:
  assumes rep: "represents s h (xs @ x # ys)"
  shows "represents (ptr_TAILQ_REMOVE h x s) h (xs @ ys)"
proof -
  let ?s' = "ptr_TAILQ_REMOVE h x s"
  from rep obtain m where m: "links s (First h) xs m" "deref s m = Some x" "tqe_prev s x = m"
    and l: "links s (Next x) ys (tqh_last s h)" and n: "deref s (tqh_last s h) = None"
    and nx: "tqe_next s x = (case ys of [] \<Rightarrow> None | y # _ \<Rightarrow> Some y)"
    by (rule represents_split)
  from rep have d: "distinct xs" "distinct ys" "x \<notin> set xs" "x \<notin> set ys" "set xs \<inter> set ys = {}"
    by (auto simp: represents_def)
  have dr: "deref ?s' r = (if r = m then tqe_next s x else deref s r)" for r
    using d(4) m(3) nx by (cases ys) (auto simp: deref_REMOVE)
  have mm: "m = First h \<or> (\<exists>y\<in>set xs. m = Next y)"
    using links_end_mem [OF m(1)] .
  have pre: "links ?s' (First h) xs m"
    using m(1) last_ref_fresh [OF d(1) m(1)] d(5) nx
    by (subst links_frame [where s = s]) (auto simp: dr fields_REMOVE split: list.splits)
  show ?thesis
  proof (cases ys)
    case Nil
    with pre d n m nx show ?thesis
      by (auto simp: represents_def dr fields_REMOVE links_append)
  next
    case (Cons y zs)
    have lz: "links ?s' (Next y) zs (tqh_last s h)"
      using l mm d Cons nx
      by (subst links_frame [where s = s])
        (auto simp: dr fields_REMOVE dest!: in_set_butlastD split: if_splits)
    have "tqh_last s h \<noteq> m"
      using n m(2) by auto
    with pre lz d m nx Cons n show ?thesis
      by (auto simp: represents_def dr fields_REMOVE links_append)
  qed
qed

lemma represents_INIT: "represents (ptr_TAILQ_INIT h s) h []"
  by (simp add: represents_def ptr_TAILQ_INIT_def)

lemma links_WALK:
  "links s r xs e \<Longrightarrow> deref s e = None \<Longrightarrow> length xs \<le> n \<Longrightarrow> ptr_TAILQ_WALK n (deref s r) s = xs"
proof (induction xs arbitrary: r n)
  case Nil
  then show ?case by (cases n) auto
next
  case (Cons x xs)
  then obtain k where "n = Suc k" by (cases n) auto
  with Cons Cons.IH [of "Next x" k] show ?case by auto
qed

section \<open>All queues of a store\<close>

lemma all_representD:
  assumes "all_represent s q"
  shows "represents s h (q h)" and "distinct (q h)"
    and "x \<in> set (q h) \<Longrightarrow> h \<noteq> h' \<Longrightarrow> x \<notin> set (q h')"
  using assms by (auto simp: all_represent_def represents_def)

lemma last_ref_owner:
  assumes "all_represent s q" and "h' \<noteq> h"
  shows "tqh_last s h \<noteq> First h'" and "y \<in> set (q h') \<Longrightarrow> tqh_last s h \<noteq> Next y"
proof -
  have "links s (First h) (q h) (tqh_last s h)"
    using assms(1) by (auto simp: all_represent_def represents_def)
  from links_end_mem [OF this] assms
  show "tqh_last s h \<noteq> First h'" and "y \<in> set (q h') \<Longrightarrow> tqh_last s h \<noteq> Next y"
    by (auto dest: all_representD(3))
qed

lemma first_ref_owner:
  assumes "all_represent s q"
  shows "tqh_first s h = TAILQ_FIRST (q h)"
  using all_representD(1) [OF assms, of h] by (cases "q h") (auto simp: represents_def)

lemma all_represent_FIRST:
  assumes "all_represent s q"
  shows "ptr_TAILQ_FIRST h s = TAILQ_FIRST (q h)"
  using first_ref_owner [OF assms] by (simp add: ptr_TAILQ_FIRST_def)

lemma all_representI:
  assumes "all_represent s q"
    and "represents s' h xs"
    and "\<And>h' y. h' \<noteq> h \<Longrightarrow> y \<in> set (q h') \<Longrightarrow> y \<notin> set xs"
    and "\<And>h'. h' \<noteq> h \<Longrightarrow> tqh_last s' h' = tqh_last s h'"
    and "\<And>h' y. h' \<noteq> h \<Longrightarrow> y \<in> set (q h') \<Longrightarrow>
      tqe_prev s' y = tqe_prev s y \<and> deref s' (Next y) = deref s (Next y)"
    and "\<And>h'. h' \<noteq> h \<Longrightarrow> deref s' (First h') = deref s (First h')"
  shows "all_represent s' (q(h := xs))"
proof -
  have "represents s' h' ((q(h := xs)) h')" for h'
  proof (cases "h' = h")
    case False
    then have "represents s' h' (q h')"
      by (intro represents_frame [OF all_representD(1) [OF assms(1)]]) (use assms in auto)
    with False show ?thesis by simp
  qed (use assms(2) in simp)
  moreover have "set ((q(h := xs)) h1) \<inter> set ((q(h := xs)) h2) = {}" if "h1 \<noteq> h2" for h1 h2
    using that assms(3) [of h1] assms(3) [of h2] assms(1)
    by (cases "h1 = h"; cases "h2 = h") (auto simp: all_represent_def disjoint_iff)
  ultimately show ?thesis
    by (simp add: all_represent_def)
qed

lemma all_represent_INSERT_TAIL:
  assumes "all_represent s q" and "\<forall>h'. x \<notin> set (q h')"
  shows "all_represent (ptr_TAILQ_INSERT_TAIL h x s) (q(h := q h @ [x]))"
  using assms last_ref_owner [OF assms(1)]
  by (intro all_representI)
    (auto simp: fields_INSERT_TAIL cells_INSERT_TAIL eq_commute [of _ "tqh_last s h"]
      dest: all_representD intro!: represents_INSERT_TAIL)

lemma all_represent_INSERT_HEAD:
  assumes "all_represent s q" and "\<forall>h'. x \<notin> set (q h')"
  shows "all_represent (ptr_TAILQ_INSERT_HEAD h x s) (q(h := x # q h))"
  using assms
  by (intro all_representI)
    (auto simp: fields_INSERT_HEAD cells_INSERT_HEAD first_ref_owner dest: all_representD
      dest!: TAILQ_FIRST_Some_in intro!: represents_INSERT_HEAD split: option.splits)

lemma all_represent_REMOVE:
  assumes all: "all_represent s q" and x: "x \<in> set (q h)"
  shows "all_represent (ptr_TAILQ_REMOVE h x s) (q(h := remove1 x (q h)))"
proof -
  from x obtain xs ys where q: "q h = xs @ x # ys" by (auto dest: split_list)
  with all_representD(2) [OF all, of h] have r: "remove1 x (q h) = xs @ ys"
    by (simp add: remove1_append)
  have rep: "represents s h (xs @ x # ys)"
    using all_representD(1) [OF all, of h] q by simp
  then obtain m where m: "links s (First h) xs m" "tqe_prev s x = m"
    and nx: "tqe_next s x = (case ys of [] \<Rightarrow> None | y # _ \<Rightarrow> Some y)"
    by (rule represents_split)
  have own: "y \<notin> set (q h')" if "y \<in> set (q h)" "h' \<noteq> h" for y h'
    using that all_representD(3) [OF all] by metis
  have "all_represent (ptr_TAILQ_REMOVE h x s) (q(h := xs @ ys))"
    using rep links_end_mem [OF m(1)] m(2) nx own q all_representD(2) [OF all, of h]
    by (intro all_representI [OF all represents_REMOVE])
      (auto simp: fields_REMOVE cells_REMOVE split: list.splits)
  with r show ?thesis by simp
qed

section \<open>The interface the page queues rely on\<close>

text \<open>What the memory manager relies on when it uses the macros on several queues that share one
  link field.\<close>

locale shared_queues =
  fixes shows_lists :: "'s \<Rightarrow> ('h \<Rightarrow> 'a list) \<Rightarrow> bool"
    and first :: "'h \<Rightarrow> 's \<Rightarrow> 'a option"
    and insert_head :: "'h \<Rightarrow> 'a \<Rightarrow> 's \<Rightarrow> 's"
    and insert_tail :: "'h \<Rightarrow> 'a \<Rightarrow> 's \<Rightarrow> 's"
    and remove :: "'h \<Rightarrow> 'a \<Rightarrow> 's \<Rightarrow> 's"
  assumes first_law: "shows_lists s q \<Longrightarrow> first h s = TAILQ_FIRST (q h)"
    and distinct_law: "shows_lists s q \<Longrightarrow> distinct (q h)"
    and disjoint_law: "shows_lists s q \<Longrightarrow> x \<in> set (q h) \<Longrightarrow> h \<noteq> h' \<Longrightarrow> x \<notin> set (q h')"
    and insert_head_law: "shows_lists s q \<Longrightarrow> \<forall>h'. x \<notin> set (q h') \<Longrightarrow>
      shows_lists (insert_head h x s) (q(h := x # q h))"
    and insert_tail_law: "shows_lists s q \<Longrightarrow> \<forall>h'. x \<notin> set (q h') \<Longrightarrow>
      shows_lists (insert_tail h x s) (q(h := q h @ [x]))"
    and remove_law: "shows_lists s q \<Longrightarrow> x \<in> set (q h) \<Longrightarrow>
      shows_lists (remove h x s) (q(h := remove1 x (q h)))"
begin

lemma removed_is_fresh:
  assumes "shows_lists s q" and "x \<in> set (q h)"
  shows "x \<notin> set ((q(h := remove1 x (q h))) h')"
  using assms distinct_law [OF assms(1), of h] disjoint_law [OF assms] by auto

lemma requeue_tail:
  assumes "shows_lists s q" and "x \<in> set (q h)" and "h \<noteq> h'"
  shows "shows_lists (insert_tail h' x (remove h x s))
    (q(h := remove1 x (q h), h' := q h' @ [x]))"
proof -
  let ?q = "q(h := remove1 x (q h))"
  have "shows_lists (remove h x s) ?q"
    using assms(1,2) by (rule remove_law)
  then have "shows_lists (insert_tail h' x (remove h x s)) (?q(h' := ?q h' @ [x]))"
    using removed_is_fresh [OF assms(1,2)] by (blast intro: insert_tail_law)
  with assms(3) show ?thesis by simp
qed

lemma dequeue_first:
  assumes "shows_lists s q" and "first h s = Some x"
  shows "shows_lists (remove h x s) (q(h := tl (q h)))" and "q h = x # tl (q h)"
proof -
  from assms first_law [OF assms(1), of h] show *: "q h = x # tl (q h)"
    by (cases "q h") auto
  then have "x \<in> set (q h)" by (metis list.set_intros(1))
  moreover have "remove1 x (q h) = tl (q h)" using * by (metis remove1.simps(2))
  ultimately show "shows_lists (remove h x s) (q(h := tl (q h)))"
    using remove_law [OF assms(1)] by metis
qed

end

interpretation ptrq: shared_queues all_represent ptr_TAILQ_FIRST
  ptr_TAILQ_INSERT_HEAD ptr_TAILQ_INSERT_TAIL ptr_TAILQ_REMOVE
  by unfold_locales
    (auto simp: all_represent_FIRST all_represent_INSERT_TAIL all_represent_INSERT_HEAD
      all_represent_REMOVE dest: all_representD)

section \<open>Sequences of queue operations\<close>

datatype ('h, 'a) tailq_op = InsertHead 'h 'a | InsertTail 'h 'a | Remove 'h 'a

fun ptr_step :: "('h, 'a) tailq_op \<Rightarrow> ('h, 'a) tailqs \<Rightarrow> ('h, 'a) tailqs" where
  "ptr_step (InsertHead h x) s = ptr_TAILQ_INSERT_HEAD h x s"
| "ptr_step (InsertTail h x) s = ptr_TAILQ_INSERT_TAIL h x s"
| "ptr_step (Remove h x) s = ptr_TAILQ_REMOVE h x s"

text \<open>The abstract machine: the list operations, under the macros' contract.\<close>

inductive list_step :: "('h, 'a) tailq_op \<Rightarrow> ('h \<Rightarrow> 'a list) \<Rightarrow> ('h \<Rightarrow> 'a list) \<Rightarrow> bool" where
  insert_head: "\<forall>h'. x \<notin> set (q h') \<Longrightarrow> TAILQ_INSERT_HEAD x (q h) = Ok l \<Longrightarrow>
     list_step (InsertHead h x) q (q(h := l))"
| insert_tail: "\<forall>h'. x \<notin> set (q h') \<Longrightarrow> TAILQ_INSERT_TAIL x (q h) = Ok l \<Longrightarrow>
     list_step (InsertTail h x) q (q(h := l))"
| remove: "TAILQ_REMOVE x (q h) = Ok l \<Longrightarrow> list_step (Remove h x) q (q(h := l))"

inductive list_steps :: "('h, 'a) tailq_op list \<Rightarrow> ('h \<Rightarrow> 'a list) \<Rightarrow> ('h \<Rightarrow> 'a list) \<Rightarrow> bool" where
  none: "list_steps [] q q"
| more: "list_step op q q' \<Longrightarrow> list_steps ops q' q'' \<Longrightarrow> list_steps (op # ops) q q''"

inductive_simps list_step_simps [simp]:
  "list_step (InsertHead h x) q q'"
  "list_step (InsertTail h x) q q'"
  "list_step (Remove h x) q q'"

inductive_simps list_steps_simps [simp]:
  "list_steps [] q q'"
  "list_steps (op # ops) q q'"

lemma list_step_simulation:
  "list_step op q q' \<Longrightarrow> all_represent s q \<Longrightarrow> all_represent (ptr_step op s) q'"
  by (cases op)
    (auto simp: TAILQ_list_defs ptrq.insert_head_law ptrq.insert_tail_law ptrq.remove_law)

text \<open>Whatever sequence of queue operations the memory manager performs within the macros'
  contract, the pointer code computes the list operations on every queue: the store it leaves
  represents the lists the abstract machine reaches, and walking a queue with
  \<^verbatim>\<open>TAILQ_FOREACH\<close> visits exactly its list.\<close>

theorem tailq_macros_refine_lists:
  assumes "list_steps ops q q'" and "all_represent s q"
  shows "all_represent (fold ptr_step ops s) q'
    \<and> (\<forall>h n. length (q' h) \<le> n \<longrightarrow>
          ptr_TAILQ_WALK n (ptr_TAILQ_FIRST h (fold ptr_step ops s)) (fold ptr_step ops s) = q' h)"
proof -
  have rep: "all_represent (fold ptr_step ops s) q'"
    using assms by (induction arbitrary: s rule: list_steps.induct) (auto dest: list_step_simulation)
  have "ptr_TAILQ_WALK n (ptr_TAILQ_FIRST h (fold ptr_step ops s)) (fold ptr_step ops s) = q' h"
    if "length (q' h) \<le> n" for h n
    using all_representD(1) [OF rep, of h] that
      links_WALK [of "fold ptr_step ops s" "First h" "q' h"]
    by (auto simp: represents_def ptr_TAILQ_FIRST_def)
  with rep show ?thesis by blast
qed

definition empty_store :: "('h, 'a) tailqs" where
  "empty_store = \<lparr>tqh_first = \<lambda>_. None, tqh_last = First, tqe_next = \<lambda>_. None, tqe_prev = Next\<rparr>"

lemma empty_store_represents: "all_represent empty_store (\<lambda>_. [])"
  by (simp add: all_represent_def represents_def empty_store_def)

theorem tailq_macros_refine_lists_witness:
  "ptr_TAILQ_WALK 2 (ptr_TAILQ_FIRST True (fold ptr_step
      [InsertTail False (1::nat), InsertTail False 2, Remove False 1, InsertHead True 1]
      empty_store)) (fold ptr_step
      [InsertTail False (1::nat), InsertTail False 2, Remove False 1, InsertHead True 1]
      empty_store) = [1]"
proof -
  let ?ops = "[InsertTail False (1::nat), InsertTail False 2, Remove False 1, InsertHead True 1]"
  have "list_step (InsertTail False 1) (case_bool [] []) (case_bool [] [1::nat])"
    "list_step (InsertTail False 2) (case_bool [] [1]) (case_bool [] [1, 2::nat])"
    "list_step (Remove False 1) (case_bool [] [1, 2]) (case_bool [] [2::nat])"
    "list_step (InsertHead True 1) (case_bool [] [2]) (case_bool [1] [2::nat])"
    by (auto simp: TAILQ_list_defs fun_eq_iff split: bool.splits)
  then have "list_steps ?ops (case_bool [] []) (case_bool [1] [2])"
    by (blast intro: list_steps.intros)
  moreover have "all_represent empty_store (case_bool [] ([] :: nat list))"
    by (auto simp: all_represent_def represents_def empty_store_def split: bool.splits)
  ultimately show ?thesis
    using tailq_macros_refine_lists [of ?ops "case_bool [] []" "case_bool [1] [2]"
        "empty_store :: (bool, nat) tailqs"] by simp
qed

end
