(* ===== verification/Rank_Tree.thy ===== *)
theory Rank_Tree
  imports Vmm_Prelude
begin

text \<open>
  The rank-balanced trees of \<^verbatim>\<open>kdk/tree.h\<close> (\<^verbatim>\<open>RB_GENERATE\<close>), which hold the working-set entries and
  the virtual address descriptors of a process. A node keeps, in the two low bits of its parent
  pointer, whether its left and its right edge are long; the model stores the two bits in the node.
  The upward walks along parent pointers (\<^verbatim>\<open>RB_INSERT_COLOR\<close>, \<^verbatim>\<open>RB_REMOVE_COLOR\<close>) work on the path
  from the hole to the root, innermost frame first; a frame is a node without one of its subtrees.
  Augmentation is off (\<^verbatim>\<open>RB_AUGMENT_CHECK(x)\<close> is 0) and \<^verbatim>\<open>RB_STRICT_HST\<close> is 0, as in the build.
\<close>

section \<open>Nodes, directions and paths\<close>

datatype dir = DirL | DirR

fun opp :: "dir \<Rightarrow> dir" where
  "opp DirL = DirR"
| "opp DirR = DirL"

datatype 'a rbtree = Null | Elm bool bool "'a rbtree" 'a "'a rbtree"
  \<comment> \<open>left edge long, right edge long, left subtree, element, right subtree\<close>

text \<open>\<open>mk d be bs te a ts\<close> is the node with subtree \<open>te\<close> on side \<open>d\<close> and \<open>ts\<close> on the other side.\<close>

fun mk :: "dir \<Rightarrow> bool \<Rightarrow> bool \<Rightarrow> 'a rbtree \<Rightarrow> 'a \<Rightarrow> 'a rbtree \<Rightarrow> 'a rbtree" where
  "mk DirL be bs te a ts = Elm be bs te a ts"
| "mk DirR be bs te a ts = Elm bs be ts a te"

text \<open>A non-null node seen from side \<open>d\<close>: the two bits, the two subtrees and the element.\<close>

fun view :: "dir \<Rightarrow> 'a rbtree \<Rightarrow> (bool \<times> bool \<times> 'a rbtree \<times> 'a \<times> 'a rbtree) option" where
  "view d Null = None"
| "view DirL (Elm lb rb l a r) = Some (lb, rb, l, a, r)"
| "view DirR (Elm lb rb l a r) = Some (rb, lb, r, a, l)"

datatype 'a frame = Frame dir bool bool 'a "'a rbtree"
  \<comment> \<open>side of the hole, its edge long, the other edge long, element, the other subtree\<close>

fun plug :: "'a frame list \<Rightarrow> 'a rbtree \<Rightarrow> 'a rbtree" where
  "plug [] t = t"
| "plug (Frame d be bs a sib # p) t = plug p (mk d be bs t a sib)"

fun inorder :: "'a rbtree \<Rightarrow> 'a list" where
  "inorder Null = []"
| "inorder (Elm lb rb l a r) = inorder l @ a # inorder r"

fun clear_bits :: "'a rbtree \<Rightarrow> 'a rbtree" where
  "clear_bits Null = Null"
| "clear_bits (Elm lb rb l a r) = Elm False False l a r"

section \<open>The operations\<close>

fun RB_FIND :: "('k \<Rightarrow> 'a \<Rightarrow> int) \<Rightarrow> 'k \<Rightarrow> 'a rbtree \<Rightarrow> 'a option" where
  "RB_FIND cmp k Null = None"
| "RB_FIND cmp k (Elm lb rb l a r) =
     (let comp = cmp k a in
      if comp < 0 then RB_FIND cmp k l
      else if comp > 0 then RB_FIND cmp k r
      else Some a)"

text \<open>The search loop of \<^verbatim>\<open>RB_INSERT\<close>, and the location of the node that \<^verbatim>\<open>RB_REMOVE\<close> is given:
  the subtree where it stops and the path to it.\<close>

fun descend :: "('k \<Rightarrow> 'a \<Rightarrow> int) \<Rightarrow> 'k \<Rightarrow> 'a frame list \<Rightarrow> 'a rbtree \<Rightarrow> 'a frame list \<times> 'a rbtree" where
  "descend cmp k p Null = (p, Null)"
| "descend cmp k p (Elm lb rb l a r) =
     (let comp = cmp k a in
      if comp < 0 then descend cmp k (Frame DirL lb rb a r # p) l
      else if comp > 0 then descend cmp k (Frame DirR rb lb a l # p) r
      else (p, Elm lb rb l a r))"

text \<open>\<^verbatim>\<open>RB_INSERT_COLOR\<close>: the tree \<open>elm\<close> in the hole has grown by one rank. Where the code
  dereferences \<open>child\<close> it is the subtree of \<open>elm\<close> that grew, on the side away from \<open>elmdir\<close>.\<close>

fun RB_INSERT_COLOR :: "'a frame list \<Rightarrow> 'a rbtree \<Rightarrow> 'a rbtree" where
  "RB_INSERT_COLOR [] elm = elm"
| "RB_INSERT_COLOR (Frame d be bs a sib # p) elm =
     (if be then plug p (mk d False bs elm a sib)
      else if \<not> bs then RB_INSERT_COLOR p (mk d False True elm a sib)
      else
        (case view d elm of
           None \<Rightarrow> plug p (mk d be bs elm a sib)
         | Some (ed, es, w, e, child) \<Rightarrow>
             if ed then
               (case view d child of
                  None \<Rightarrow> plug p (mk d be bs elm a sib)
                | Some (cd, cs, x, c, y) \<Rightarrow>
                    plug p (mk d False False
                      (mk d False cd w e x) c
                      (mk d cs False y a sib)))
             else plug p (mk d False False w e (mk d False False child a sib))))"

definition RB_INSERT_FINISH :: "'a frame list \<Rightarrow> 'a \<Rightarrow> 'a rbtree" where
  "RB_INSERT_FINISH p e = RB_INSERT_COLOR p (Elm False False Null e Null)"

text \<open>\<^verbatim>\<open>RB_INSERT\<close> returns the element already in the tree, or \<^verbatim>\<open>NULL\<close> after inserting.\<close>

definition RB_INSERT :: "('a \<Rightarrow> 'a \<Rightarrow> int) \<Rightarrow> 'a \<Rightarrow> 'a rbtree \<Rightarrow> 'a option \<times> 'a rbtree" where
  "RB_INSERT cmp e t =
     (case descend cmp e [] t of
        (p, Null) \<Rightarrow> (None, RB_INSERT_FINISH p e)
      | (p, Elm lb rb l a r) \<Rightarrow> (Some a, t))"

text \<open>The loop of \<^verbatim>\<open>RB_REMOVE_COLOR\<close>: the tree \<open>elm\<close> in the hole has shrunk by one rank.\<close>

fun remove_color_loop :: "'a frame list \<Rightarrow> 'a rbtree \<Rightarrow> 'a rbtree" where
  "remove_color_loop [] elm = elm"
| "remove_color_loop (Frame d be bs a sib # p) elm =
     (if \<not> be then plug p (mk d True bs elm a sib)
      else if bs then remove_color_loop p (mk d True False elm a sib)
      else
        (case view d sib of
           None \<Rightarrow> plug p (mk d be bs elm a sib)
         | Some (sd, ss, x, b, z) \<Rightarrow>
             if sd \<and> ss then
               remove_color_loop p (mk d True False elm a (mk d False False x b z))
             else if ss then
               (case view d x of
                  None \<Rightarrow> plug p (mk d be bs elm a sib)
                | Some (ed, es, u, c, v) \<Rightarrow>
                    plug p (mk d True True
                      (mk d False ed elm a u) c
                      (mk d es False v b z)))
             else plug p (mk d sd True (mk d (\<not> sd) False elm a x) b z)))"

fun RB_REMOVE_COLOR :: "'a frame list \<Rightarrow> 'a rbtree \<Rightarrow> 'a rbtree" where
  "RB_REMOVE_COLOR (Frame d be bs a Null # p) Null =
     remove_color_loop p (Elm False False Null a Null)"
| "RB_REMOVE_COLOR p elm = remove_color_loop p elm"

text \<open>The leftmost node of a subtree: its element, its right subtree and the path to it.\<close>

fun leftmost :: "'a frame list \<Rightarrow> bool \<Rightarrow> bool \<Rightarrow> 'a rbtree \<Rightarrow> 'a \<Rightarrow> 'a rbtree \<Rightarrow>
    'a \<times> 'a rbtree \<times> 'a frame list" where
  "leftmost p lb rb Null a r = (a, r, p)"
| "leftmost p lb rb (Elm lb' rb' l' a' r') a r = leftmost (Frame DirL lb rb a r # p) lb' rb' l' a' r'"

text \<open>\<^verbatim>\<open>RB_REMOVE\<close> of the node found at the end of path \<open>p\<close>. With two children, its successor \<open>inn\<close>
  takes its place together with its rank bits.\<close>

fun remove_node :: "'a frame list \<Rightarrow> 'a rbtree \<Rightarrow> 'a rbtree" where
  "remove_node p Null = plug p Null"
| "remove_node p (Elm lb rb Null a r) = RB_REMOVE_COLOR p (clear_bits r)"
| "remove_node p (Elm lb rb l a Null) = RB_REMOVE_COLOR p (clear_bits l)"
| "remove_node p (Elm lb rb l a (Elm lb' rb' l' a' r')) =
     (case leftmost [] lb' rb' l' a' r' of
        (inn, child, q) \<Rightarrow>
          RB_REMOVE_COLOR (q @ Frame DirR rb lb inn l # p) (clear_bits child))"

definition RB_REMOVE :: "('k \<Rightarrow> 'a \<Rightarrow> int) \<Rightarrow> 'k \<Rightarrow> 'a rbtree \<Rightarrow> ('a \<times> 'a rbtree) option" where
  "RB_REMOVE cmp k t =
     (case descend cmp k [] t of
        (p, Null) \<Rightarrow> None
      | (p, Elm lb rb l a r) \<Rightarrow> Some (a, remove_node p (Elm lb rb l a r)))"

text \<open>\<^verbatim>\<open>RB_RANK\<close>, the diagnostic check: the rank, or -1 when the tree is not rank-balanced.\<close>

fun RB_RANK :: "'a rbtree \<Rightarrow> int" where
  "RB_RANK Null = 0"
| "RB_RANK (Elm lb rb l a r) =
     (let left_rank = (if lb then 2 else 1) + RB_RANK l;
          right_rank = (if rb then 2 else 1) + RB_RANK r
      in if left_rank \<noteq> right_rank \<or> (left_rank = 2 \<and> l = Null \<and> r = Null) then -1
         else left_rank)"

fun RB_MINMAX :: "dir \<Rightarrow> 'a rbtree \<Rightarrow> 'a option" where
  "RB_MINMAX d Null = None"
| "RB_MINMAX DirL (Elm lb rb l a r) = (if l = Null then Some a else RB_MINMAX DirL l)"
| "RB_MINMAX DirR (Elm lb rb l a r) = (if r = Null then Some a else RB_MINMAX DirR r)"

section \<open>Rank balance\<close>

definition edge :: "bool \<Rightarrow> nat" where
  "edge long = (if long then 2 else 1)"

fun rank :: "'a rbtree \<Rightarrow> nat" where
  "rank Null = 0"
| "rank (Elm lb rb l a r) = edge lb + rank l"

text \<open>Both edges reach down to the same rank, and a leaf has rank 1.\<close>

fun balanced :: "'a rbtree \<Rightarrow> bool" where
  "balanced Null \<longleftrightarrow> True"
| "balanced (Elm lb rb l a r) \<longleftrightarrow> balanced l \<and> balanced r \<and>
     edge lb + rank l = edge rb + rank r \<and> \<not> (l = Null \<and> r = Null \<and> lb)"

text \<open>A path that accepts a subtree of rank \<open>n\<close> in its hole.\<close>

fun accepts :: "'a frame list \<Rightarrow> nat \<Rightarrow> bool" where
  "accepts [] n \<longleftrightarrow> True"
| "accepts (Frame d be bs a sib # p) n \<longleftrightarrow> balanced sib \<and> edge be + n = edge bs + rank sib \<and>
     \<not> (n = 0 \<and> sib = Null \<and> be) \<and> accepts p (edge be + n)"

lemma edge_simps [simp]: "edge True = 2" "edge False = 1"
  by (simp_all add: edge_def)

lemma edge_1_iff [simp]: "edge b = Suc 0 \<longleftrightarrow> \<not> b" "Suc 0 = edge b \<longleftrightarrow> \<not> b"
  by (auto simp: edge_def)

lemma edge_pos [simp]: "0 < edge b"
  by (simp add: edge_def)

lemma rank_0_iff [simp]: "rank t = 0 \<longleftrightarrow> t = Null"
  by (cases t) auto

lemma mk_not_Null [simp]: "mk d be bs te a ts \<noteq> Null" "Null \<noteq> mk d be bs te a ts"
  by (cases d; simp)+

lemma balanced_mk [simp]:
  "balanced (mk d be bs te a ts) \<longleftrightarrow> balanced te \<and> balanced ts \<and>
     edge be + rank te = edge bs + rank ts \<and> \<not> (te = Null \<and> ts = Null \<and> be)"
  by (cases d) (auto simp: edge_def split: if_splits)

lemma rank_mk:
  "edge be + rank te = edge bs + rank ts \<Longrightarrow> rank (mk d be bs te a ts) = edge be + rank te"
  by (cases d) auto

lemma view_mk [simp]: "view d (mk d be bs te a ts) = Some (be, bs, te, a, ts)"
  by (cases d) auto

lemma view_Some_iff [simp]: "view d t = Some (be, bs, te, a, ts) \<longleftrightarrow> t = mk d be bs te a ts"
  by (cases d; cases t) auto

lemma view_None_iff [simp]: "view d t = None \<longleftrightarrow> t = Null"
  by (cases d; cases t) auto

lemma balanced_plug:
  "balanced t \<Longrightarrow> accepts p (rank t) \<Longrightarrow> balanced (plug p t)"
proof (induction p t rule: plug.induct)
  case (2 d be bs a sib p t)
  then have "balanced (mk d be bs t a sib)" by auto
  with 2 show ?case by (auto simp: rank_mk)
qed simp

lemma balanced_clear_bits: "balanced t \<Longrightarrow> rank t \<le> 1 \<Longrightarrow> clear_bits t = t"
  by (cases t) (auto simp: edge_def split: if_splits)

lemma RB_RANK_eq_rank: "balanced t \<Longrightarrow> RB_RANK t = int (rank t)"
  by (induction t) (auto simp: Let_def edge_def split: if_splits)

fun uneven :: "'a rbtree \<Rightarrow> bool" where
  "uneven Null \<longleftrightarrow> False"
| "uneven (Elm lb rb l a r) \<longleftrightarrow> lb \<noteq> rb"

lemma uneven_mk [simp]: "uneven (mk d be bs te a ts) \<longleftrightarrow> be \<noteq> bs"
  by (cases d) auto

lemma mk_cases: obtains (Null) "t = Null" | (mk) be bs te a ts where "t = mk d be bs te a ts"
  by (cases "view d t") auto

lemma balanced_INSERT_COLOR:
  assumes "balanced elm" and "rank elm = Suc n" and "accepts p n" and "n = 0 \<or> uneven elm"
  shows "balanced (RB_INSERT_COLOR p elm)"
  using assms
proof (induction p elm arbitrary: n rule: RB_INSERT_COLOR.induct)
  case (2 d be bs a sib p elm)
  consider (long) "be" | (short) "\<not> be" "\<not> bs" | (rotate) "\<not> be" "bs" by blast
  then show ?case
  proof cases
    case long
    with "2.prems" show ?thesis
      by (auto intro!: balanced_plug simp: rank_mk)
  next
    case short
    let ?t = "mk d False True elm a sib"
    have t: "balanced ?t" "rank ?t = Suc (Suc n)"
      using 2 short by (auto simp: rank_mk)
    have "balanced (RB_INSERT_COLOR p ?t)"
      by (rule "2.IH" [of "Suc n"]) (use 2 short t in auto)
    with short show ?thesis by simp
  next
    case rotate
    have "elm \<noteq> Null" using "2.prems" by auto
    then obtain ed es w e child where elm: "elm = mk d ed es w e child"
      by (metis mk_cases)
    with "2.prems" rotate have es: "es = (\<not> ed)" by auto
    with elm "2.prems" rotate have z: "n = Suc (rank sib)" "edge ed + rank w = Suc n"
        "edge (\<not> ed) + rank child = Suc n"
      by (auto simp: rank_mk)
    show ?thesis
    proof (cases ed)
      case True
      with z obtain cd cs x c y where child: "child = mk d cd cs x c y"
        by (cases child rule: mk_cases [where d = d]) auto
      with "2.prems" elm have "balanced child" by simp
      with child z True have "edge cd + rank x = n" "edge cs + rank y = n"
        by (auto simp: rank_mk)
      with "2.prems" z elm True child rotate show ?thesis
        by (auto intro!: balanced_plug simp: rank_mk edge_def split: if_splits)
    next
      case False
      with "2.prems" z elm rotate show ?thesis
        by (auto intro!: balanced_plug simp: rank_mk)
    qed
  qed
qed simp

lemma balanced_remove_color_loop:
  assumes "balanced elm" and "accepts p (Suc (rank elm))"
    and "elm = Null \<Longrightarrow> p = [] \<or> (\<exists>d be bs a sib q. p = Frame d be bs a sib # q \<and> sib \<noteq> Null)"
  shows "balanced (remove_color_loop p elm)"
  using assms
proof (induction p elm rule: remove_color_loop.induct)
  case (2 d be bs a sib p elm)
  consider (lengthen) "\<not> be" | (demote) "be" "bs" | (sibling) "be" "\<not> bs" by blast
  then show ?case
  proof cases
    case lengthen
    with "2.prems" show ?thesis
      by (auto intro!: balanced_plug simp: rank_mk)
  next
    case demote
    let ?t = "mk d True False elm a sib"
    have t: "balanced ?t" "rank ?t = Suc (Suc (rank elm))"
      using 2 demote by (auto simp: rank_mk)
    have "balanced (remove_color_loop p ?t)"
      by (rule "2.IH"(1)) (use 2 demote t in auto)
    with demote show ?thesis by simp
  next
    case sibling
    with "2.prems" have rs: "rank sib = Suc (Suc (rank elm))" "balanced sib"
      and acc: "accepts p (Suc (Suc (Suc (rank elm))))"
      by auto
    then obtain sd ss x b z where sib: "sib = mk d sd ss x b z"
      by (cases sib rule: mk_cases [where d = d]) auto
    with rs have xz: "edge sd + rank x = Suc (Suc (rank elm))" "balanced x"
        "edge ss + rank z = Suc (Suc (rank elm))" "balanced z"
      by (auto simp: rank_mk)
    consider (both) "sd" "ss" | (double) "\<not> sd" "ss" | (single) "\<not> ss" by blast
    then show ?thesis
    proof cases
      case both
      let ?t = "mk d True False elm a (mk d False False x b z)"
      have t: "balanced ?t" "rank ?t = Suc (Suc (rank elm))"
        using 2 both xz by (auto simp: rank_mk)
      with both sibling sib acc "2.IH"(2) [of "(sd, ss, x, b, z)"] show ?thesis by simp
    next
      case double
      with xz obtain ed es u c v where x: "x = mk d ed es u c v"
        by (cases x rule: mk_cases [where d = d]) auto
      with xz double have "edge ed + rank u = Suc (rank elm)" "edge es + rank v = Suc (rank elm)"
          "balanced u" "balanced v"
        by (auto simp: rank_mk)
      with double xz x sib sibling acc "2.prems"(1) show ?thesis
        by (auto intro!: balanced_plug simp: rank_mk edge_def split: if_splits)
    next
      case single
      with xz sib sibling acc "2.prems"(1) show ?thesis
        by (auto intro!: balanced_plug simp: rank_mk edge_def split: if_splits)
    qed
  qed
qed simp

lemma balanced_REMOVE_COLOR:
  assumes "balanced elm" and "accepts p (Suc (rank elm))"
  shows "balanced (RB_REMOVE_COLOR p elm)"
proof (cases "\<exists>d be bs a q. elm = Null \<and> p = Frame d be bs a Null # q")
  case True
  then obtain d be bs a q where p: "elm = Null" "p = Frame d be bs a Null # q" by blast
  with assms have "accepts q 2" by (auto simp: edge_def numeral_2_eq_2 split: if_splits)
  with p show ?thesis by (auto intro!: balanced_remove_color_loop simp: numeral_2_eq_2)
next
  case False
  then have eq: "RB_REMOVE_COLOR p elm = remove_color_loop p elm"
    by (cases "(p, elm)" rule: RB_REMOVE_COLOR.cases) auto
  have "p = [] \<or> (\<exists>d be bs a sib q. p = Frame d be bs a sib # q \<and> sib \<noteq> Null)" if "elm = Null"
  proof (cases p)
    case (Cons f q)
    then show ?thesis using False that by (cases f) auto
  qed simp
  then show ?thesis unfolding eq using assms by (rule balanced_remove_color_loop [rotated 2])
qed

lemma leftmost_append:
  "leftmost (p @ p') lb rb l a r = (case leftmost p lb rb l a r of (x, c, q) \<Rightarrow> (x, c, q @ p'))"
  by (induction p lb rb l a r rule: leftmost.induct) auto

lemma leftmost_balanced:
  assumes "leftmost p lb rb l a r = (x, c, q)"
    and "balanced (Elm lb rb l a r)" and "accepts p (rank (Elm lb rb l a r))"
  shows "balanced c \<and> rank c \<le> 1 \<and> accepts q (Suc (rank c))"
  using assms
proof (induction p lb rb l a r rule: leftmost.induct)
  case (1 p lb rb a r)
  then have "balanced r" "edge lb = edge rb + rank r" "\<not> (r = Null \<and> lb)" by auto
  then have "rank r \<le> 1" "Suc (rank r) = edge lb"
    using rank_0_iff [of r] by (cases lb; cases rb; auto simp del: rank_0_iff)+
  moreover have "accepts p (edge lb)" using 1 by simp
  ultimately show ?case using 1 \<open>balanced r\<close> by (metis leftmost.simps(1) prod.inject)
qed auto

text \<open>Removing a node that has at most one child shrinks its subtree by exactly one rank.\<close>

lemma single_child_balanced:
  assumes "balanced (Elm lb rb l a r)" and "l = Null \<or> r = Null"
  defines "c \<equiv> (if l = Null then r else l)"
  shows "balanced c" and "rank c \<le> 1" and "rank (Elm lb rb l a r) = Suc (rank c)"
proof -
  have "rank l = 0 \<or> rank r = 0" "lb \<longrightarrow> rank l \<noteq> 0 \<or> rank r \<noteq> 0"
    using assms by auto
  moreover have "edge lb + rank l = edge rb + rank r" using assms by simp
  moreover have "rank c = rank l + rank r" using assms(2) by (auto simp: c_def)
  ultimately show "rank c \<le> 1" and "rank (Elm lb rb l a r) = Suc (rank c)"
    by (auto simp: edge_def simp del: rank_0_iff split: if_splits)
  show "balanced c" using assms(1) by (auto simp: c_def)
qed

lemma balanced_remove_node:
  assumes "balanced t" and "t \<noteq> Null" and "accepts p (rank t)"
  shows "balanced (remove_node p t)"
  using assms
proof (cases "(p, t)" rule: remove_node.cases)
  case (2 p lb rb a r)
  with assms single_child_balanced [of lb rb Null a r] show ?thesis
    by (auto intro!: balanced_REMOVE_COLOR simp: balanced_clear_bits)
next
  case (3 p' lb rb lb' rb' l' a' r' a)
  let ?c = "Elm lb' rb' l' a' r'"
  have c: "balanced ?c" "rank ?c \<le> 1" "rank t = Suc (rank ?c)"
    using assms 3 single_child_balanced [of lb rb ?c a Null] by auto
  have "remove_node p t = RB_REMOVE_COLOR p ?c"
    using 3 balanced_clear_bits [OF c(1,2)] by simp
  then show ?thesis
    using balanced_REMOVE_COLOR [OF c(1)] assms(3) c(3) by simp
next
  case (4 p' lb rb ll rl l m lr a lb' rb' l' a' r')
  obtain x c q where lm: "leftmost [] lb' rb' l' a' r' = (x, c, q)"
    by (cases "leftmost [] lb' rb' l' a' r'") auto
  let ?f = "Frame DirR rb lb x (Elm ll rl l m lr)"
  have "leftmost (?f # p) lb' rb' l' a' r' = (x, c, q @ ?f # p)"
    using leftmost_append [of "[]" "?f # p"] lm by simp
  moreover have "accepts (?f # p) (rank (Elm lb' rb' l' a' r'))"
    using assms 4 by auto
  ultimately have "balanced c \<and> rank c \<le> 1 \<and> accepts (q @ ?f # p) (Suc (rank c))"
    using assms 4 by (intro leftmost_balanced [where p = "?f # p"]) auto
  then show ?thesis
    using lm 4 by (auto intro!: balanced_REMOVE_COLOR simp: balanced_clear_bits)
qed auto

section \<open>The element sequence\<close>

fun lefts :: "'a frame list \<Rightarrow> 'a list" where
  "lefts [] = []"
| "lefts (Frame DirL be bs a sib # p) = lefts p"
| "lefts (Frame DirR be bs a sib # p) = lefts p @ inorder sib @ [a]"

fun rights :: "'a frame list \<Rightarrow> 'a list" where
  "rights [] = []"
| "rights (Frame DirL be bs a sib # p) = a # inorder sib @ rights p"
| "rights (Frame DirR be bs a sib # p) = rights p"

lemma inorder_plug: "inorder (plug p t) = lefts p @ inorder t @ rights p"
proof (induction p t rule: plug.induct)
  case (2 d be bs a sib p t)
  then show ?case by (cases d) auto
qed simp

lemma inorder_INSERT_COLOR: "inorder (RB_INSERT_COLOR p elm) = lefts p @ inorder elm @ rights p"
proof (induction p elm rule: RB_INSERT_COLOR.induct)
  case (2 d be bs a sib p elm)
  then show ?case by (cases d) (auto simp: inorder_plug split: option.splits)
qed simp

lemma inorder_remove_color_loop:
  "inorder (remove_color_loop p elm) = lefts p @ inorder elm @ rights p"
proof (induction p elm rule: remove_color_loop.induct)
  case (2 d be bs a sib p elm)
  then show ?case by (cases d) (auto simp: inorder_plug split: option.splits)
qed simp

lemma inorder_REMOVE_COLOR: "inorder (RB_REMOVE_COLOR p elm) = lefts p @ inorder elm @ rights p"
proof (cases "(p, elm)" rule: RB_REMOVE_COLOR.cases)
  case (1 d be bs a q)
  then show ?thesis by (cases d) (auto simp: inorder_remove_color_loop)
qed (auto simp: inorder_remove_color_loop simp del: remove_color_loop.simps)

lemma inorder_clear_bits [simp]: "inorder (clear_bits t) = inorder t"
  by (cases t) auto

lemma leftmost_inorder:
  "leftmost p lb rb l a r = (x, c, q) \<Longrightarrow>
     lefts q = lefts p \<and> x # inorder c @ rights q = inorder l @ a # inorder r @ rights p"
  by (induction p lb rb l a r rule: leftmost.induct) auto

lemma lefts_append: "lefts (q @ p) = lefts p @ lefts q"
  by (induction q rule: lefts.induct) auto

lemma rights_append: "rights (q @ p) = rights q @ rights p"
  by (induction q rule: rights.induct) auto

lemma inorder_remove_node:
  "inorder (remove_node p (Elm lb rb l a r)) = lefts p @ inorder l @ inorder r @ rights p"
  by (cases "(p, Elm lb rb l a r)" rule: remove_node.cases)
    (auto simp: inorder_REMOVE_COLOR inorder_remove_color_loop lefts_append rights_append
      split: prod.splits dest!: leftmost_inorder)

section \<open>Searching\<close>

text \<open>A search key splits a sequence when its elements are first greater than, then equal to, then
  less than the key, as the comparison function sees it. This is what a search needs of the order;
  it holds for a total order on sorted sequences, and for the interval comparison of the virtual
  address descriptors when they do not overlap.\<close>

definition bisects :: "('k \<Rightarrow> 'a \<Rightarrow> int) \<Rightarrow> 'k \<Rightarrow> 'a list \<Rightarrow> bool" where
  "bisects cmp k xs \<longleftrightarrow>
     sorted_wrt (\<lambda>x y. (cmp k x \<le> 0 \<longrightarrow> cmp k y \<le> 0) \<and> (cmp k x < 0 \<longrightarrow> cmp k y < 0)) xs"

lemma bisects_Elm:
  assumes "bisects cmp k (inorder (Elm lb rb l a r))"
  shows "bisects cmp k (inorder l)" and "bisects cmp k (inorder r)"
    and "cmp k a > 0 \<Longrightarrow> \<forall>x\<in>set (inorder l). cmp k x > 0"
    and "cmp k a < 0 \<Longrightarrow> \<forall>x\<in>set (inorder r). cmp k x < 0"
  using assms by (force simp: bisects_def sorted_wrt_append)+

lemma RB_FIND_descend:
  "RB_FIND cmp k t = (case descend cmp k p t of (q, Null) \<Rightarrow> None | (q, Elm lb rb l a r) \<Rightarrow> Some a)"
  by (induction cmp k p t rule: descend.induct) (auto simp: Let_def)

lemma descend_plug: "descend cmp k p t = (q, u) \<Longrightarrow> plug q u = plug p t"
  by (induction cmp k p t rule: descend.induct) (auto simp: Let_def split: if_splits)

lemma descend_balanced:
  "descend cmp k p t = (q, u) \<Longrightarrow> balanced t \<Longrightarrow> accepts p (rank t) \<Longrightarrow>
     balanced u \<and> accepts q (rank u)"
proof (induction cmp k p t rule: descend.induct)
  case (2 cmp k p lb rb l a r)
  have "accepts (Frame DirL lb rb a r # p) (rank l)" "accepts (Frame DirR rb lb a l # p) (rank r)"
    using 2 by auto
  with 2 show ?case by (auto simp: Let_def simp del: accepts.simps split: if_splits)
qed auto

lemma descend_order:
  assumes "descend cmp k p t = (q, u)" and "bisects cmp k (inorder t)"
  shows "\<exists>as bs. lefts q = lefts p @ as \<and> rights q = bs @ rights p \<and> inorder t = as @ inorder u @ bs \<and>
    (\<forall>x\<in>set as. cmp k x > 0) \<and> (\<forall>x\<in>set bs. cmp k x < 0) \<and>
    (case u of Null \<Rightarrow> True | Elm lb rb l a r \<Rightarrow> cmp k a = 0)"
  using assms
proof (induction cmp k p t rule: descend.induct)
  case (2 cmp k p lb rb l a r)
  note bis = bisects_Elm [OF "2.prems"(2)]
  consider (lt) "cmp k a < 0" | (gt) "cmp k a > 0" | (eq) "cmp k a = 0" by linarith
  then show ?case
  proof cases
    case lt
    with 2 bis obtain as bs where "lefts q = lefts p @ as" "rights q = bs @ a # inorder r @ rights p"
      "inorder l = as @ inorder u @ bs" "\<forall>x\<in>set as. cmp k x > 0" "\<forall>x\<in>set bs. cmp k x < 0"
      "case u of Null \<Rightarrow> True | Elm lb rb l a r \<Rightarrow> cmp k a = 0"
      by fastforce
    with lt bis(4) show ?thesis
      by (intro exI [of _ as] exI [of _ "bs @ a # inorder r"]) auto
  next
    case gt
    with 2 bis obtain as bs where "lefts q = (lefts p @ inorder l @ [a]) @ as" "rights q = bs @ rights p"
      "inorder r = as @ inorder u @ bs" "\<forall>x\<in>set as. cmp k x > 0" "\<forall>x\<in>set bs. cmp k x < 0"
      "case u of Null \<Rightarrow> True | Elm lb rb l a r \<Rightarrow> cmp k a = 0"
      by fastforce
    with gt bis(3) show ?thesis
      by (intro exI [of _ "inorder l @ a # as"] exI [of _ bs]) auto
  next
    case eq
    with 2 show ?thesis by auto
  qed
qed auto

lemma RB_FIND_correct:
  assumes "bisects cmp k (inorder t)"
  shows "case RB_FIND cmp k t of
      Some x \<Rightarrow> x \<in> set (inorder t) \<and> cmp k x = 0
    | None \<Rightarrow> \<forall>x\<in>set (inorder t). cmp k x \<noteq> 0"
proof -
  obtain q u where d: "descend cmp k [] t = (q, u)" by (cases "descend cmp k [] t")
  from descend_order [OF d assms] show ?thesis
    using RB_FIND_descend [of cmp k t "[]"] d by (cases u) auto
qed

lemma RB_INSERT_correct:
  assumes "bisects cmp e (inorder t)" and "RB_FIND cmp e t = None"
  obtains t' as bs where "RB_INSERT cmp e t = (None, t')" and "inorder t = as @ bs"
    and "inorder t' = as @ e # bs" and "\<forall>x\<in>set as. cmp e x > 0" and "\<forall>x\<in>set bs. cmp e x < 0"
    and "balanced t \<Longrightarrow> balanced t'"
proof -
  obtain q u where d: "descend cmp e [] t = (q, u)" by (cases "descend cmp e [] t")
  have u: "u = Null" using RB_FIND_descend [of cmp e t "[]"] d assms(2) by (cases u) auto
  from descend_order [OF d assms(1)] u obtain as bs where
    "lefts q = as" "rights q = bs" "inorder t = as @ bs"
    "\<forall>x\<in>set as. cmp e x > 0" "\<forall>x\<in>set bs. cmp e x < 0" by auto
  moreover have "balanced (RB_INSERT_FINISH q e)" if "balanced t"
    using descend_balanced [OF d that] u
    by (auto simp: RB_INSERT_FINISH_def intro!: balanced_INSERT_COLOR)
  ultimately show thesis
    using that d u by (auto simp: RB_INSERT_def RB_INSERT_FINISH_def inorder_INSERT_COLOR)
qed

lemma RB_INSERT_duplicate: "RB_FIND cmp e t = Some x \<Longrightarrow> RB_INSERT cmp e t = (Some x, t)"
  using RB_FIND_descend [of cmp e t "[]"]
  by (auto simp: RB_INSERT_def split: prod.splits rbtree.splits)

lemma RB_REMOVE_correct:
  assumes "bisects cmp k (inorder t)" and "RB_FIND cmp k t = Some x"
  obtains t' as bs where "RB_REMOVE cmp k t = Some (x, t')" and "inorder t = as @ x # bs"
    and "inorder t' = as @ bs" and "balanced t \<Longrightarrow> balanced t'"
proof -
  obtain q u where d: "descend cmp k [] t = (q, u)" by (cases "descend cmp k [] t")
  obtain lb rb l r where u: "u = Elm lb rb l x r"
    using RB_FIND_descend [of cmp k t "[]"] d assms(2) by (cases u) auto
  from descend_order [OF d assms(1)] u obtain as bs where
    "lefts q = as" "rights q = bs" "inorder t = as @ inorder u @ bs" by auto
  moreover have "balanced (remove_node q u)" if "balanced t"
    using descend_balanced [OF d that] u by (intro balanced_remove_node) auto
  ultimately show thesis
    using that [of "remove_node q u" "as @ inorder l" "inorder r @ bs"] d u
    by (simp add: RB_REMOVE_def inorder_remove_node)
qed

section \<open>Trees ordered by a key\<close>

definition tree_ok :: "('a \<Rightarrow> 'k::linorder) \<Rightarrow> ('a \<Rightarrow> bool) \<Rightarrow> 'a rbtree \<Rightarrow> bool" where
  "tree_ok key valid t \<longleftrightarrow> balanced t \<and> sorted_wrt (\<lambda>x y. key x < key y) (inorder t) \<and>
     (\<forall>x\<in>set (inorder t). valid x)"

lemma tree_ok_Null [simp]: "tree_ok key valid Null"
  by (simp add: tree_ok_def)

lemma tree_ok_key_eq:
  assumes "tree_ok key valid t" and "x \<in> set (inorder t)" and "y \<in> set (inorder t)"
    and "key x = key y"
  shows "x = y"
proof -
  have "sorted_wrt (<) (map key (inorder t))"
    using assms(1) by (simp add: tree_ok_def sorted_wrt_map)
  then have "distinct (map key (inorder t))"
    using strict_sorted_iff by blast
  with assms show ?thesis by (auto simp: distinct_map dest: inj_onD)
qed

text \<open>The comparison function of a tree agrees with a key on the elements that occur in it.\<close>

locale keyed_tree =
  fixes cmp :: "'a \<Rightarrow> 'a \<Rightarrow> int"
    and key :: "'a \<Rightarrow> 'k::linorder"
    and valid :: "'a \<Rightarrow> bool"
  assumes cmp_neg: "valid x \<Longrightarrow> valid y \<Longrightarrow> cmp x y < 0 \<longleftrightarrow> key x < key y"
    and cmp_pos: "valid x \<Longrightarrow> valid y \<Longrightarrow> cmp x y > 0 \<longleftrightarrow> key y < key x"
begin

lemma cmp_zero: "valid x \<Longrightarrow> valid y \<Longrightarrow> cmp x y = 0 \<longleftrightarrow> key x = key y"
  using cmp_neg [of x y] cmp_pos [of x y] by (metis less_irrefl linorder_neqE)

lemma bisects_ok:
  assumes "tree_ok key valid t" and "valid k"
  shows "bisects cmp k (inorder t)"
proof -
  have s: "sorted_wrt (\<lambda>x y. key x < key y) (inorder t)" and v: "\<forall>x\<in>set (inorder t). valid x"
    using assms(1) by (auto simp: tree_ok_def)
  have le: "cmp k x \<le> 0 \<longleftrightarrow> key k \<le> key x" if "valid x" for x
    using cmp_pos [OF assms(2) that] by (meson linorder_not_less)
  show ?thesis
    unfolding bisects_def
    by (rule sorted_wrt_mono_rel [OF _ s]) (use v le cmp_neg [OF assms(2)] in auto)
qed

lemma find_Some_iff:
  assumes "tree_ok key valid t" and "valid k"
  shows "RB_FIND cmp k t = Some x \<longleftrightarrow> x \<in> set (inorder t) \<and> key x = key k"
proof -
  have v: "\<forall>x\<in>set (inorder t). valid x" using assms(1) by (auto simp: tree_ok_def)
  show ?thesis
    using RB_FIND_correct [OF bisects_ok [OF assms]] cmp_zero [OF assms(2)] v
      tree_ok_key_eq [OF assms(1)]
    by (cases "RB_FIND cmp k t") auto
qed

lemma find_None_iff:
  assumes "tree_ok key valid t" and "valid k"
  shows "RB_FIND cmp k t = None \<longleftrightarrow> (\<forall>x\<in>set (inorder t). key x \<noteq> key k)"
  using find_Some_iff [OF assms] by (metis not_None_eq)

lemma insert_fresh:
  assumes t: "tree_ok key valid t" and "valid e" and "RB_FIND cmp e t = None"
  obtains t' where "RB_INSERT cmp e t = (None, t')" and "tree_ok key valid t'"
    and "set (inorder t') = insert e (set (inorder t))"
    and "length (inorder t') = Suc (length (inorder t))"
proof -
  obtain t' as bs where i: "RB_INSERT cmp e t = (None, t')" "inorder t = as @ bs"
      "inorder t' = as @ e # bs" "\<forall>x\<in>set as. cmp e x > 0" "\<forall>x\<in>set bs. cmp e x < 0"
      "balanced t \<Longrightarrow> balanced t'"
    using RB_INSERT_correct [OF bisects_ok [OF assms(1,2)] assms(3)] by blast
  have "tree_ok key valid t'"
    using t i assms(2) cmp_neg [OF assms(2)] cmp_pos [OF assms(2)]
    by (auto simp: tree_ok_def sorted_wrt_append)
  with i that show thesis by auto
qed

lemma remove_member:
  assumes t: "tree_ok key valid t" and "x \<in> set (inorder t)"
  obtains t' where "RB_REMOVE cmp x t = Some (x, t')" and "tree_ok key valid t'"
    and "set (inorder t') = set (inorder t) - {x}"
    and "length (inorder t) = Suc (length (inorder t'))"
proof -
  have v: "valid x" using assms by (auto simp: tree_ok_def)
  then have "RB_FIND cmp x t = Some x" using find_Some_iff [OF t] assms(2) by simp
  then obtain t' as bs where r: "RB_REMOVE cmp x t = Some (x, t')" "inorder t = as @ x # bs"
      "inorder t' = as @ bs" "balanced t \<Longrightarrow> balanced t'"
    using RB_REMOVE_correct [OF bisects_ok [OF t v]] by blast
  have "tree_ok key valid t'" and "x \<notin> set (as @ bs)"
    using t r by (auto simp: tree_ok_def sorted_wrt_append)
  with r that show thesis by auto
qed

lemma find_after_insert:
  assumes "tree_ok key valid t" and "valid e" and "RB_FIND cmp e t = None" and "valid k"
  shows "RB_FIND cmp k (snd (RB_INSERT cmp e t)) =
    (if key k = key e then Some e else RB_FIND cmp k t)"
proof -
  obtain t' where t': "RB_INSERT cmp e t = (None, t')" "tree_ok key valid t'"
    "set (inorder t') = insert e (set (inorder t))"
    using insert_fresh [OF assms(1-3)] by blast
  have "RB_FIND cmp k t' = Some x \<longleftrightarrow> (if key k = key e then Some e else RB_FIND cmp k t) = Some x" for x
    using find_Some_iff [OF t'(2) assms(4)] find_Some_iff [OF assms(1,4)]
      find_None_iff [OF assms(1,2)] assms(3) t'(3) by auto
  then show ?thesis unfolding t'(1) snd_conv by (rule option_eqI)
qed

lemma find_after_remove:
  assumes "tree_ok key valid t" and "x \<in> set (inorder t)" and "RB_REMOVE cmp x t = Some (y, t')"
    and "valid k"
  shows "RB_FIND cmp k t' = (if key k = key x then None else RB_FIND cmp k t)"
proof -
  obtain u where "RB_REMOVE cmp x t = Some (x, u)" "tree_ok key valid u"
    "set (inorder u) = set (inorder t) - {x}"
    by (rule remove_member [OF assms(1,2)])
  with assms(3) have t': "tree_ok key valid t'" "set (inorder t') = set (inorder t) - {x}"
    by auto
  have eq: "z = x" if "z \<in> set (inorder t)" "key z = key x" for z
    using tree_ok_key_eq [OF assms(1) that(1) assms(2) that(2)] .
  have f': "RB_FIND cmp k t' = Some z \<longleftrightarrow> z \<in> set (inorder t) \<and> z \<noteq> x \<and> key z = key k" for z
    unfolding find_Some_iff [OF t'(1) assms(4)] t'(2) by blast
  have "RB_FIND cmp k t' = Some z \<longleftrightarrow> (if key k = key x then None else RB_FIND cmp k t) = Some z" for z
    unfolding f' using eq [of z] find_Some_iff [OF assms(1,4), of z]
    by (cases "key k = key x") (simp, blast, simp, metis)
  then show ?thesis by (rule option_eqI)
qed

end

section \<open>What the trees guarantee\<close>

fun depth :: "'a rbtree \<Rightarrow> nat" where
  "depth Null = 0"
| "depth (Elm lb rb l a r) = Suc (max (depth l) (depth r))"

lemma depth_le_rank: "balanced t \<Longrightarrow> depth t \<le> rank t"
proof (induction t)
  case (Elm lb rb l a r)
  then have "depth l \<le> rank l" "depth r \<le> rank r" "edge lb + rank l = edge rb + rank r" by auto
  moreover have "1 \<le> edge lb" "1 \<le> edge rb" by (auto simp: edge_def)
  ultimately show ?case by auto
qed simp

lemma exp_rank_le_size: "balanced t \<Longrightarrow> 2 ^ ((rank t + 1) div 2) \<le> Suc (length (inorder t))"
proof (induction t)
  case (Elm lb rb l a r)
  then have IH: "2 ^ ((rank l + 1) div 2) \<le> Suc (length (inorder l))"
    "2 ^ ((rank r + 1) div 2) \<le> Suc (length (inorder r))"
    and eq: "edge lb + rank l = edge rb + rank r" by auto
  define n where "n = (rank (Elm lb rb l a r) + 1) div 2"
  have "n \<le> Suc ((rank l + 1) div 2)" "n \<le> Suc ((rank r + 1) div 2)"
    using eq by (auto simp: n_def edge_def split: if_splits)
  then have "(2::nat) ^ n \<le> 2 * 2 ^ ((rank l + 1) div 2)" "(2::nat) ^ n \<le> 2 * 2 ^ ((rank r + 1) div 2)"
    by (metis one_le_numeral power_Suc power_increasing)+
  with IH show ?case by (simp add: n_def)
qed simp

text \<open>The trees that a program can build with the generated functions, whatever its comparison
  function does.\<close>

inductive built :: "('a \<Rightarrow> 'a \<Rightarrow> int) \<Rightarrow> 'a rbtree \<Rightarrow> bool" for cmp where
  init: "built cmp Null"
| insert: "built cmp t \<Longrightarrow> built cmp (snd (RB_INSERT cmp e t))"
| remove: "built cmp t \<Longrightarrow> RB_REMOVE cmp k t = Some (x, t') \<Longrightarrow> built cmp t'"

lemma balanced_RB_INSERT: "balanced t \<Longrightarrow> balanced (snd (RB_INSERT cmp e t))"
  using descend_balanced [of cmp e "[]" t]
  by (auto simp: RB_INSERT_def RB_INSERT_FINISH_def split: prod.splits rbtree.splits
      intro!: balanced_INSERT_COLOR)

lemma balanced_RB_REMOVE: "balanced t \<Longrightarrow> RB_REMOVE cmp k t = Some (x, t') \<Longrightarrow> balanced t'"
  using descend_balanced [of cmp k "[]" t]
  by (auto simp: RB_REMOVE_def split: prod.splits rbtree.splits intro!: balanced_remove_node)

text \<open>C21. Every tree built by insertions and removals is rank-balanced: the diagnostic
  \<^verbatim>\<open>RB_RANK\<close> never reports -1, and a search visits at most about twice the logarithm of the number
  of elements, so lookups of working-set entries and address descriptors stay logarithmic.\<close>

theorem built_trees_balanced:
  assumes "built cmp t"
  shows "balanced t \<and> RB_RANK t = int (rank t)
    \<and> 2 ^ ((depth t + 1) div 2) \<le> Suc (length (inorder t))"
proof -
  have b: "balanced t"
    using assms by (induction) (auto simp: balanced_RB_INSERT balanced_RB_REMOVE)
  have "(2::nat) ^ ((depth t + 1) div 2) \<le> 2 ^ ((rank t + 1) div 2)"
    using depth_le_rank [OF b] by (intro power_increasing div_le_mono) auto
  then show ?thesis
    using b exp_rank_le_size [OF b] RB_RANK_eq_rank [OF b] by linarith
qed

definition int_cmp :: "int \<Rightarrow> int \<Rightarrow> int" where
  "int_cmp x y = x - y"

definition sample_tree :: "int rbtree" where
  "sample_tree = fold (\<lambda>e t. snd (RB_INSERT int_cmp e t)) [1, 2, 3, 4, 5] Null"

theorem built_trees_balanced_witness:
  "depth sample_tree = 3 \<and> (2::nat) ^ ((depth sample_tree + 1) div 2) \<le> 6"
proof -
  have "built int_cmp sample_tree"
    by (auto simp: sample_tree_def intro!: built.intros)
  moreover have "depth sample_tree = 3" "inorder sample_tree = [1, 2, 3, 4, 5]"
    by code_simp+
  ultimately show ?thesis
    using built_trees_balanced [of int_cmp sample_tree] by simp
qed

end
