(* ===== verification/Vmp_Soft.thy ===== *)
theory Vmp_Soft
  imports Vmm_Prelude
begin

text \<open>
  The software page-table format of \<^verbatim>\<open>vm/vmpsoft.h\<close> and the address macros of \<^verbatim>\<open>kdk/soft.h\<close> and
  \<^verbatim>\<open>vm/vmp.h\<close>. A page-table entry is a 64-bit word that several bit-field structs overlay: \<open>hw\<close>
  (valid at bit 0, writeable at bit 1, 40 bits of page number from bit 12) and the software formats
  \<open>swap\<close>, \<open>busy\<close> and \<open>trans\<close> (valid at bit 0, a 61-bit payload from bit 1, a 2-bit kind at bit 62).
  The layout is the one the System V ABI gives these structs on a 64-bit little-endian machine.
\<close>

section \<open>Constants\<close>

abbreviation PGSIZE :: nat where "PGSIZE \<equiv> 4096"
abbreviation SOFT_NPAGES :: nat where "SOFT_NPAGES \<equiv> 32"
abbreviation VMP_TABLE_LEVELS :: nat where "VMP_TABLE_LEVELS \<equiv> 4"
abbreviation VMP_PAGE_SHIFT :: nat where "VMP_PAGE_SHIFT \<equiv> 12"
abbreviation PTE_SIZE :: nat where "PTE_SIZE \<equiv> 8"

section \<open>Page-table entries\<close>

type_synonym pte = uint64_t

datatype vmp_soft_pte_kind = kSoftPteKindSwap | kSoftPteKindBusy | kSoftPteKindTrans

fun soft_kind_bits :: "vmp_soft_pte_kind \<Rightarrow> pte" where
  "soft_kind_bits kSoftPteKindSwap = 0"
| "soft_kind_bits kSoftPteKindBusy = 1"
| "soft_kind_bits kSoftPteKindTrans = 2"

datatype vmp_pte_kind = kPTEKindZero | kPTEKindTrans | kPTEKindSwap | kPTEKindBusy | kPTEKindValid

definition pte_valid :: "pte \<Rightarrow> bool" where
  "pte_valid pte \<longleftrightarrow> get_field 0 1 pte = 1"

definition vmp_pte_hw_is_writeable :: "pte \<Rightarrow> bool" where
  "vmp_pte_hw_is_writeable pte \<longleftrightarrow> get_field 1 1 pte = 1"

definition pte_set_writeable :: "pte \<Rightarrow> pte" where
  "pte_set_writeable pte = set_field 1 1 1 pte"

definition vmp_pte_hw_pfn :: "pte \<Rightarrow> uint64_t" where
  "vmp_pte_hw_pfn pte = get_field 12 40 pte"

definition soft_payload :: "pte \<Rightarrow> uint64_t" where
  "soft_payload pte = get_field 1 61 pte"

definition soft_kind :: "pte \<Rightarrow> uint64_t" where
  "soft_kind pte = get_field 62 2 pte"

definition vmp_pte_characterise :: "pte \<Rightarrow> vmp_pte_kind outcome" where
  "vmp_pte_characterise pte =
     (if pte = 0 then Ok kPTEKindZero
      else if pte_valid pte then Ok kPTEKindValid
      else if soft_kind pte = soft_kind_bits kSoftPteKindBusy then Ok kPTEKindBusy
      else if soft_kind pte = soft_kind_bits kSoftPteKindTrans then Ok kPTEKindTrans
      else kassert (soft_kind pte = soft_kind_bits kSoftPteKindSwap)
             ''pte->swap.kind == kSoftPteKindSwap'' (Ok kPTEKindSwap))"

definition vmp_pte_hw_create :: "uint64_t \<Rightarrow> bool \<Rightarrow> pte" where
  "vmp_pte_hw_create pfn writeable =
     (let newpte = 0;
          newpte = set_field 0 1 1 newpte;
          newpte = set_field 1 1 (of_bool writeable) newpte
      in set_field 12 40 pfn newpte)"

definition vmp_pte_zero_create :: pte where
  "vmp_pte_zero_create = 0"

text \<open>The software entries are assembled in an uninitialised local variable \<open>newpte\<close>; its
  indeterminate value is the first argument.\<close>

definition soft_pte_create :: "pte \<Rightarrow> vmp_soft_pte_kind \<Rightarrow> uint64_t \<Rightarrow> pte" where
  "soft_pte_create newpte kind payload =
     (let newpte = set_field 0 1 0 newpte;
          newpte = set_field 62 2 (soft_kind_bits kind) newpte
      in set_field 1 61 payload newpte)"

definition vmp_pte_trans_create :: "pte \<Rightarrow> uint64_t \<Rightarrow> pte" where
  "vmp_pte_trans_create newpte pfn = soft_pte_create newpte kSoftPteKindTrans pfn"

definition vmp_pte_busy_create :: "pte \<Rightarrow> uint64_t \<Rightarrow> pte" where
  "vmp_pte_busy_create newpte state = soft_pte_create newpte kSoftPteKindBusy (drop_bit 3 state)"

definition vmp_pte_swap_create :: "pte \<Rightarrow> uint64_t \<Rightarrow> pte" where
  "vmp_pte_swap_create newpte drumslot = soft_pte_create newpte kSoftPteKindSwap drumslot"

section \<open>Addresses\<close>

text \<open>\<open>unpacked[0]\<close> is the offset in the page, \<open>unpacked[level]\<close> the index into the table of that level.\<close>

definition vmp_addr_unpack :: "vaddr \<Rightarrow> nat list" where
  "vmp_addr_unpack v = [unat (get_field 0 12 v), unat (get_field 12 9 v), unat (get_field 21 9 v),
     unat (get_field 30 9 v), unat (get_field 39 9 v)]"

definition vmp_pfn_to_paddr :: "uint64_t \<Rightarrow> paddr" where
  "vmp_pfn_to_paddr pfn = unat (push_bit VMP_PAGE_SHIFT pfn)"

definition vmp_pte_hw_paddr :: "pte \<Rightarrow> paddr" where
  "vmp_pte_hw_paddr pte = vmp_pfn_to_paddr (vmp_pte_hw_pfn pte)"

definition vmp_pte_trans_paddr :: "pte \<Rightarrow> paddr" where
  "vmp_pte_trans_paddr pte = vmp_pfn_to_paddr (soft_payload pte)"

text \<open>\<^verbatim>\<open>P2V\<close> and \<^verbatim>\<open>V2P\<close> translate between offsets into \<^verbatim>\<open>SOFT_pages\<close> and addresses; \<open>base\<close> is the
  address of \<^verbatim>\<open>SOFT_pages\<close>.\<close>

definition P2V :: "vaddr \<Rightarrow> paddr \<Rightarrow> vaddr" where
  "P2V base p = of_nat p + base"

definition V2P :: "vaddr \<Rightarrow> vaddr \<Rightarrow> paddr" where
  "V2P base v = unat (v - base)"

section \<open>Entries read back\<close>

lemma get_field_1: "get_field lo (Suc 0) (w::'a::len word) = 1 \<longleftrightarrow> bit w lo"
  by (simp add: get_field_def bit_iff_odd_drop_bit take_bit_Suc odd_iff_mod_2_eq_one)

lemma pte_valid_bit: "pte_valid p \<longleftrightarrow> bit p 0"
  by (simp add: pte_valid_def get_field_1)

lemma writeable_bit: "vmp_pte_hw_is_writeable p \<longleftrightarrow> bit p 1"
  by (simp add: vmp_pte_hw_is_writeable_def get_field_1)

lemma hw_create_valid [simp]: "pte_valid (vmp_pte_hw_create pfn w)"
  by (simp add: pte_valid_bit vmp_pte_hw_create_def bit_set_field)

lemma valid_nonzero [simp]: "pte_valid p \<Longrightarrow> p \<noteq> 0"
  by (auto simp: pte_valid_bit)

lemma not_valid_0 [simp]: "\<not> pte_valid 0"
  by (simp add: pte_valid_bit)

lemma characterise_valid_iff [simp]: "vmp_pte_characterise p = Ok kPTEKindValid \<longleftrightarrow> pte_valid p"
  by (auto simp: vmp_pte_characterise_def)

lemma characterise_zero_iff [simp]: "vmp_pte_characterise p = Ok kPTEKindZero \<longleftrightarrow> p = 0"
  by (auto simp: vmp_pte_characterise_def)

lemma hw_create_writeable [simp]: "vmp_pte_hw_is_writeable (vmp_pte_hw_create pfn w) = w"
  by (simp add: writeable_bit vmp_pte_hw_create_def bit_set_field)

lemma hw_create_pfn [simp]: "vmp_pte_hw_pfn (vmp_pte_hw_create pfn w) = take_bit 40 pfn"
  by (simp add: vmp_pte_hw_pfn_def vmp_pte_hw_create_def)

lemma set_writeable_simps [simp]:
  "pte_valid (pte_set_writeable p) = pte_valid p"
  "vmp_pte_hw_is_writeable (pte_set_writeable p)"
  "vmp_pte_hw_pfn (pte_set_writeable p) = vmp_pte_hw_pfn p"
  by (auto simp: pte_valid_bit writeable_bit pte_set_writeable_def bit_set_field vmp_pte_hw_pfn_def)

lemma soft_create_simps [simp]:
  "\<not> pte_valid (soft_pte_create u k v)"
  "soft_kind (soft_pte_create u k v) = soft_kind_bits k"
  "soft_payload (soft_pte_create u k v) = take_bit 61 v"
  by (cases k; simp add: pte_valid_bit soft_pte_create_def bit_set_field soft_kind_def
      soft_payload_def take_bit_Suc)+

lemma soft_create_indep: "soft_pte_create u k v = soft_pte_create u' k v"
  by (rule bit_word_eqI) (auto simp: soft_pte_create_def bit_set_field)

lemma soft_create_0_iff:
  "soft_pte_create u k v = 0 \<longleftrightarrow> k = kSoftPteKindSwap \<and> take_bit 61 v = 0"
proof
  assume z: "soft_pte_create u k v = 0"
  have "soft_kind_bits k = 0" and "take_bit 61 v = 0"
    using soft_create_simps(2,3) [of u k v] unfolding z
    by (simp_all add: soft_kind_def soft_payload_def get_field_def)
  then show "k = kSoftPteKindSwap \<and> take_bit 61 v = 0" by (cases k) auto
next
  assume a: "k = kSoftPteKindSwap \<and> take_bit 61 v = 0"
  have "\<not> bit v n" if "n < 61" for n
    using a that by (metis bit_0_eq bit_take_bit_iff bot_apply bot_bool_def)
  with a show "soft_pte_create u k v = 0"
    by (intro bit_word_eqI) (auto simp: soft_pte_create_def bit_set_field)
qed

lemma small_pfn: "p < SOFT_NPAGES \<Longrightarrow> take_bit 40 (of_nat p :: uint64_t) = of_nat p"
  by (simp add: take_bit_of_nat take_bit_nat_eq_self)

lemma unat_get_field_less:
  "len < LENGTH('a) \<Longrightarrow> unat (get_field lo len (w::'a::len word)) < 2 ^ len"
  by (simp add: get_field_def unsigned_take_bit_eq)

lemma pfn_to_paddr_of_nat [simp]:
  assumes "p < SOFT_NPAGES"
  shows "vmp_pfn_to_paddr (of_nat p) = p * PGSIZE"
proof -
  have "push_bit 12 (of_nat p :: uint64_t) = of_nat (p * PGSIZE)"
    by (simp add: push_bit_eq_mult)
  moreover have "take_bit 64 (p * PGSIZE) = p * PGSIZE"
    using assms by (simp add: take_bit_nat_eq_self)
  ultimately show ?thesis
    by (simp add: vmp_pfn_to_paddr_def unsigned_of_nat del: of_nat_mult)
qed

lemma hw_paddr_of_nat [simp]:
  "p < SOFT_NPAGES \<Longrightarrow> vmp_pte_hw_paddr (vmp_pte_hw_create (of_nat p) w) = p * PGSIZE"
  by (simp add: vmp_pte_hw_paddr_def small_pfn)

lemma V2P_P2V [simp]: "p < 2 ^ 64 \<Longrightarrow> V2P base (P2V base p) = p"
  by (simp add: V2P_def P2V_def unsigned_of_nat take_bit_nat_eq_self)

lemma P2V_inj: "p < 2 ^ 64 \<Longrightarrow> q < 2 ^ 64 \<Longrightarrow> P2V base p = P2V base q \<Longrightarrow> p = q"
  by (metis V2P_P2V)

lemma length_unpack [simp]: "length (vmp_addr_unpack v) = 5"
  by (simp add: vmp_addr_unpack_def)

lemma unpack_index_less:
  assumes "0 < level" and "level \<le> VMP_TABLE_LEVELS"
  shows "vmp_addr_unpack v ! level < 512"
proof -
  have "level = 1 \<or> level = 2 \<or> level = 3 \<or> level = 4" using assms by auto
  moreover have "unat (get_field lo 9 v) < 512" for lo
    using unat_get_field_less [of 9 lo v] by simp
  ultimately show ?thesis by (auto simp: vmp_addr_unpack_def)
qed

section \<open>Properties of the page-table format\<close>

text \<open>C26. The hardware, transition and busy formats read back as what was written: the entry is
  recognised as its kind, the page number (40 bits in hardware format, 61 in transition format), the
  write permission and an 8-byte aligned pager-state pointer are recovered. The three software
  entries do not depend on the uninitialised local they are assembled in.\<close>

theorem pte_formats_roundtrip:
  "vmp_pte_characterise (vmp_pte_hw_create pfn w) = Ok kPTEKindValid
   \<and> vmp_pte_hw_pfn (vmp_pte_hw_create pfn w) = take_bit 40 pfn
   \<and> vmp_pte_hw_is_writeable (vmp_pte_hw_create pfn w) = w
   \<and> vmp_pte_characterise (vmp_pte_trans_create u pfn) = Ok kPTEKindTrans
   \<and> soft_payload (vmp_pte_trans_create u pfn) = take_bit 61 pfn
   \<and> vmp_pte_characterise (vmp_pte_busy_create u state) = Ok kPTEKindBusy
   \<and> push_bit 3 (soft_payload (vmp_pte_busy_create u state)) = state AND NOT (mask 3)
   \<and> vmp_pte_trans_create u pfn = vmp_pte_trans_create u' pfn
   \<and> vmp_pte_busy_create u state = vmp_pte_busy_create u' state"
proof -
  have "push_bit 3 (take_bit 61 (drop_bit 3 state)) = state AND NOT (mask 3)"
    by (rule bit_word_eqI) (auto simp: bit_simps)
  moreover have "soft_pte_create u kSoftPteKindTrans v \<noteq> 0" "soft_pte_create u kSoftPteKindBusy v \<noteq> 0"
    for v by (simp_all add: soft_create_0_iff)
  ultimately show ?thesis
    by (simp add: vmp_pte_trans_create_def vmp_pte_busy_create_def vmp_pte_characterise_def
        soft_create_indep [of u _ _ u'])
qed

text \<open>C27. A swap entry gives its drum slot back, but it is recognised as a swap entry only when the
  slot number is not zero: the entry for slot 0 is the all-zero word, which reads as a page that was
  never touched. Slot 0 is the first slot \<open>vmp_pagefile_alloc\<close> hands out, so the page written there
  is later demand-zeroed instead of being read back.\<close>

theorem swap_pte_roundtrip_except_slot_0:
  "soft_payload (vmp_pte_swap_create u slot) = take_bit 61 slot
   \<and> vmp_pte_characterise (vmp_pte_swap_create u slot) =
       Ok (if take_bit 61 slot = 0 then kPTEKindZero else kPTEKindSwap)
   \<and> vmp_pte_characterise (vmp_pte_swap_create u 0) = Ok kPTEKindZero"
  by (simp add: vmp_pte_swap_create_def vmp_pte_characterise_def soft_create_0_iff)

text \<open>The table indices and the page offset determine the low 48 bits of a virtual address, and
  every table index is within the 512 entries of a table.\<close>

theorem addr_unpack_injective:
  assumes "vmp_addr_unpack v = vmp_addr_unpack w"
  shows "take_bit 48 v = take_bit 48 w"
proof (rule bit_word_eqI)
  fix n assume "n < LENGTH(64)"
  have eq: "get_field lo len v = get_field lo len w"
    if "(lo, len) \<in> {(0, 12), (12, 9), (21, 9), (30, 9), (39, 9)}" for lo len
    using assms that by (auto simp: vmp_addr_unpack_def word_unat_eq_iff)
  have *: "bit v n = bit w n" if "(lo, len) \<in> {(0, 12), (12, 9), (21, 9), (30, 9), (39, 9)}"
    "lo \<le> n" "n < lo + len" for lo len
    using eq [OF that(1)] bit_get_field [of lo len v "n - lo"] bit_get_field [of lo len w "n - lo"] that
    by auto
  have "n < 12 \<or> 12 \<le> n \<and> n < 21 \<or> 21 \<le> n \<and> n < 30 \<or> 30 \<le> n \<and> n < 39 \<or> 39 \<le> n \<and> n < 48 \<or> 48 \<le> n"
    by linarith
  then show "bit (take_bit 48 v) n = bit (take_bit 48 w) n"
    using * [of 0 12] * [of 12 9] * [of 21 9] * [of 30 9] * [of 39 9] by (auto simp: bit_take_bit_iff)
qed

theorem addr_unpack_injective_witness:
  "vmp_addr_unpack 0x12345678 = vmp_addr_unpack (0x12345678 + push_bit 48 1)
   \<and> take_bit 48 (0x12345678 :: vaddr) = take_bit 48 (0x12345678 + push_bit 48 1)"
proof -
  have "vmp_addr_unpack 0x12345678 = vmp_addr_unpack (0x12345678 + push_bit 48 1)" by code_simp
  with addr_unpack_injective show ?thesis by blast
qed

end
