(* ===== verification/Vmm_State.thy ===== *)
theory Vmm_State
  imports Tailq Rank_Tree Vmp_Soft
begin

text \<open>
  The state of the memory manager: the page frame database element of \<^verbatim>\<open>kdk/vm.h\<close>, the process of
  \<^verbatim>\<open>kdk/executive.h\<close> with its working set list (\<^verbatim>\<open>vm/ws.c\<close>) and address descriptors (\<^verbatim>\<open>vm/vmp.h\<close>),
  the statistics, parameters and page file of \<^verbatim>\<open>vm/vmp.h\<close>, the events of \<^verbatim>\<open>kdk/nanokern.h\<close>, and one
  record that holds the global variables. A page pointer is the index of its element in
  \<^verbatim>\<open>mypages\<close>; a pointer to a page-table entry is the physical address of the entry. Simulated
  memory is an array of 64-bit words indexed by the physical address of the word. A process is
  named by a number, \<open>0\<close> being \<^verbatim>\<open>kernel_ps\<close>.
\<close>

section \<open>Page frames\<close>

datatype vm_page_use =
    kPageUseInvalid | kPageUsePFNDB | kPageUseFree | kPageUseDeleted | kPageUseKWired
  | kPageUseAnonPrivate | kPageUseAnonShared | kPageUseFileShared | kPageUseForkPage
  | kPageUsePML1 | kPageUsePML2 | kPageUsePML3 | kPageUsePML4

text \<open>\<open>kPageUsePML1 + (level - 1)\<close>, for the levels of the page-table tree.\<close>

definition use_of_level :: "nat \<Rightarrow> vm_page_use" where
  "use_of_level level =
     (if level = 1 then kPageUsePML1 else if level = 2 then kPageUsePML2
      else if level = 3 then kPageUsePML3 else if level = 4 then kPageUsePML4
      else kPageUseInvalid)"

record vm_page =
  pfn :: uint64_t
  "use" :: vm_page_use
  dirty :: bool
  nonzero_ptes :: uint16_t
  nonswap_ptes :: uint16_t
  refcnt :: uint16_t
  referent_pte :: paddr
  process :: nat
  drumslot :: uint64_t

record vm_mdl =
  mdl_nentries :: size_t
  mdl_offset :: size_t
  mdl_pages :: "page_ptr option list"

section \<open>Working sets, address descriptors, processes\<close>

record vmp_wsle =
  wsle_vaddr :: vaddr
  is_pagetable :: bool

record vmp_wsl =
  wsl_queue :: "vmp_wsle list"
  wsl_tree :: "vmp_wsle rbtree"
  nlocked :: size_t
  nentries :: size_t
  wsl_max :: size_t

record vm_vad =
  vad_writeable :: bool
  vad_max_protection :: bool
  vad_inherit_shared :: bool
  vad_cow :: bool
  vad_offset :: uint64_t
  vad_start :: vaddr
  vad_end :: vaddr
  vad_section :: "nat option"

record eprocess =
  vad_tree :: "vm_vad rbtree"
  pml4 :: paddr
  pml4_page :: page_ptr
  wsl :: vmp_wsl

section \<open>Globals\<close>

record vm_stat =
  nfree :: size_t
  nmodified :: size_t
  nstandby :: size_t
  nactive :: size_t
  ntotal :: size_t

record vm_param =
  ws_page_expansion_count :: size_t
  min_avail_for_expansion :: size_t
  min_avail_for_alloc :: size_t

record vmp_pagefile =
  pf_vnode :: "int option" \<comment> \<open>the file descriptor of \<^verbatim>\<open>vnode_t\<close>\<close>
  pf_bitmap :: "uint8_t list"
  total_slots :: size_t
  free_slots :: size_t
  next_free :: size_t

text \<open>The simulated memory holds 64-bit words. All code under \<^verbatim>\<open>vm/\<close> reads and writes it at aligned addresses:
  page-table entries through \<^verbatim>\<open>pte_t *\<close>, and whole pages by \<^verbatim>\<open>memset\<close> and by the transfers of the page file. So
  \<open>SOFT_pages\<close> gives the word at each aligned address; its values at other addresses stand for nothing,
  and what a program does to memory is modelled for aligned words (\<open>word_aligned\<close> in \<^verbatim>\<open>Memory_Refinement\<close>).\<close>

record vmm =
  mypages :: "page_ptr \<Rightarrow> vm_page"
  SOFT_pages :: "paddr \<Rightarrow> uint64_t"
  SOFT_pages_base :: vaddr
  free_pgq :: "page_ptr list"
  standby_pgq :: "page_ptr list"
  modified_pgq :: "page_ptr list"
  vmstat :: vm_stat
  vmparam :: vm_param
  vmp_was_shortage :: bool
  vmp_sufficient_pages_event :: bool
  vmp_pgwriter_event :: bool
  vmp_balancer_event :: bool
  vmp_pagefile_state :: vmp_pagefile
  procs :: "nat \<Rightarrow> eprocess"

definition page_update :: "page_ptr \<Rightarrow> (vm_page \<Rightarrow> vm_page) \<Rightarrow> vmm \<Rightarrow> vmm" where
  "page_update p f s = s\<lparr>mypages := (mypages s)(p := f (mypages s p))\<rparr>"

definition wsl_update_ps :: "nat \<Rightarrow> (vmp_wsl \<Rightarrow> vmp_wsl) \<Rightarrow> vmm \<Rightarrow> vmm" where
  "wsl_update_ps ps f s = s\<lparr>procs := (procs s)(ps := (procs s ps)\<lparr>wsl := f (wsl (procs s ps))\<rparr>)\<rparr>"

definition write_pte :: "paddr \<Rightarrow> pte \<Rightarrow> vmm \<Rightarrow> vmm" where
  "write_pte a v s = s\<lparr>SOFT_pages := (SOFT_pages s)(a := v)\<rparr>"

text \<open>Access to simulated memory outside \<^verbatim>\<open>SOFT_pages\<close> has no defined behaviour.\<close>

definition in_soft_pages :: "paddr \<Rightarrow> bool" where
  "in_soft_pages a \<longleftrightarrow> a + PTE_SIZE \<le> SOFT_NPAGES * PGSIZE"

definition vmp_page_paddr :: "page_ptr \<Rightarrow> vmm \<Rightarrow> paddr" where
  "vmp_page_paddr page s = vmp_pfn_to_paddr (pfn (mypages s page))"

text \<open>The direct-map address of a page, \<^verbatim>\<open>P2V(vmp_page_paddr(page))\<close>: the key of a page table in a
  working set list.\<close>

definition page_vaddr :: "page_ptr \<Rightarrow> vmm \<Rightarrow> vaddr" where
  "page_vaddr page s = P2V (SOFT_pages_base s) (vmp_page_paddr page s)"

definition memset_page :: "page_ptr \<Rightarrow> vmm \<Rightarrow> vmm" where
  "memset_page page s =
     s\<lparr>SOFT_pages := (\<lambda>a. if vmp_page_paddr page s \<le> a \<and> a < vmp_page_paddr page s + PGSIZE
                          then 0 else SOFT_pages s a)\<rparr>"

lemma page_update_simps [simp]:
  "mypages (page_update p f s) = (mypages s)(p := f (mypages s p))"
  "SOFT_pages (page_update p f s) = SOFT_pages s"
  "SOFT_pages_base (page_update p f s) = SOFT_pages_base s"
  "free_pgq (page_update p f s) = free_pgq s"
  "standby_pgq (page_update p f s) = standby_pgq s"
  "modified_pgq (page_update p f s) = modified_pgq s"
  "vmstat (page_update p f s) = vmstat s"
  "vmparam (page_update p f s) = vmparam s"
  "vmp_was_shortage (page_update p f s) = vmp_was_shortage s"
  "vmp_pagefile_state (page_update p f s) = vmp_pagefile_state s"
  "procs (page_update p f s) = procs s"
  by (simp_all add: page_update_def)

lemma wsl_update_simps [simp]:
  "mypages (wsl_update_ps ps f s) = mypages s"
  "SOFT_pages (wsl_update_ps ps f s) = SOFT_pages s"
  "SOFT_pages_base (wsl_update_ps ps f s) = SOFT_pages_base s"
  "free_pgq (wsl_update_ps ps f s) = free_pgq s"
  "standby_pgq (wsl_update_ps ps f s) = standby_pgq s"
  "modified_pgq (wsl_update_ps ps f s) = modified_pgq s"
  "vmstat (wsl_update_ps ps f s) = vmstat s"
  "vmparam (wsl_update_ps ps f s) = vmparam s"
  "vmp_was_shortage (wsl_update_ps ps f s) = vmp_was_shortage s"
  "vmp_pagefile_state (wsl_update_ps ps f s) = vmp_pagefile_state s"
  "procs (wsl_update_ps ps f s) =
     (procs s)(ps := (procs s ps)\<lparr>wsl := f (wsl (procs s ps))\<rparr>)"
  by (simp_all add: wsl_update_ps_def)

lemma write_pte_simps [simp]:
  "mypages (write_pte a v s) = mypages s"
  "SOFT_pages (write_pte a v s) = (SOFT_pages s)(a := v)"
  "SOFT_pages_base (write_pte a v s) = SOFT_pages_base s"
  "free_pgq (write_pte a v s) = free_pgq s"
  "standby_pgq (write_pte a v s) = standby_pgq s"
  "modified_pgq (write_pte a v s) = modified_pgq s"
  "vmstat (write_pte a v s) = vmstat s"
  "vmparam (write_pte a v s) = vmparam s"
  "vmp_was_shortage (write_pte a v s) = vmp_was_shortage s"
  "vmp_pagefile_state (write_pte a v s) = vmp_pagefile_state s"
  "procs (write_pte a v s) = procs s"
  by (simp_all add: write_pte_def)

lemma memset_page_simps [simp]:
  "mypages (memset_page p s) = mypages s"
  "SOFT_pages_base (memset_page p s) = SOFT_pages_base s"
  "free_pgq (memset_page p s) = free_pgq s"
  "standby_pgq (memset_page p s) = standby_pgq s"
  "modified_pgq (memset_page p s) = modified_pgq s"
  "vmstat (memset_page p s) = vmstat s"
  "vmparam (memset_page p s) = vmparam s"
  "vmp_was_shortage (memset_page p s) = vmp_was_shortage s"
  "vmp_pagefile_state (memset_page p s) = vmp_pagefile_state s"
  "procs (memset_page p s) = procs s"
  by (simp_all add: memset_page_def)

end
