(* ===== verification/Resident.thy ===== *)
theory Resident
  imports Vmm_State
begin

text \<open>
  The page frame database of \<^verbatim>\<open>vm/resident.c\<close>: initialisation, the shortage check, retaining and
  releasing a page, and memory descriptor lists. (Allocation, which may steal a page and so reaches
  into page tables and working sets, is in \<open>Page_Alloc\<close>.) The invariant \<open>pfndb\<close> says where every page
  is: a page is on the free queue, on the standby queue, on the modified queue, or active, according
  to its fields alone, and the statistics count the pages of each kind.
\<close>

section \<open>The page queues\<close>

datatype pageq = QFree | QStandby | QModified

instantiation pageq :: enum
begin

definition enum_pageq :: "pageq list" where
  "enum_pageq = [QFree, QStandby, QModified]"

definition enum_all_pageq :: "(pageq \<Rightarrow> bool) \<Rightarrow> bool" where
  "enum_all_pageq P \<longleftrightarrow> P QFree \<and> P QStandby \<and> P QModified"

definition enum_ex_pageq :: "(pageq \<Rightarrow> bool) \<Rightarrow> bool" where
  "enum_ex_pageq P \<longleftrightarrow> P QFree \<or> P QStandby \<or> P QModified"

instance
proof
  show "(UNIV :: pageq set) = set enum_class.enum"
    using pageq.exhaust by (auto simp: enum_pageq_def)
  show "distinct (enum_class.enum :: pageq list)"
    by (simp add: enum_pageq_def)
  show "enum_class.enum_all P \<longleftrightarrow> Ball (UNIV :: pageq set) P" for P
    by (auto simp: enum_all_pageq_def) (metis pageq.exhaust)
  show "enum_class.enum_ex P \<longleftrightarrow> Bex (UNIV :: pageq set) P" for P
    by (auto simp: enum_ex_pageq_def) (metis pageq.exhaust)
qed

end

fun queue_of :: "pageq \<Rightarrow> vmm \<Rightarrow> page_ptr list" where
  "queue_of QFree s = free_pgq s"
| "queue_of QStandby s = standby_pgq s"
| "queue_of QModified s = modified_pgq s"

fun set_queue :: "pageq \<Rightarrow> page_ptr list \<Rightarrow> vmm \<Rightarrow> vmm" where
  "set_queue QFree l s = s\<lparr>free_pgq := l\<rparr>"
| "set_queue QStandby l s = s\<lparr>standby_pgq := l\<rparr>"
| "set_queue QModified l s = s\<lparr>modified_pgq := l\<rparr>"

text \<open>The three queues share \<^verbatim>\<open>vm_page::queue_link\<close>, so a page that is inserted must be on none.\<close>

definition on_no_queue :: "page_ptr \<Rightarrow> vmm \<Rightarrow> bool" where
  "on_no_queue p s \<longleftrightarrow> p \<notin> set (free_pgq s) \<and> p \<notin> set (standby_pgq s) \<and> p \<notin> set (modified_pgq s)"

definition pgq_insert_head :: "pageq \<Rightarrow> page_ptr \<Rightarrow> vmm \<Rightarrow> vmm outcome" where
  "pgq_insert_head q p s = defined_if (on_no_queue p s) ''page already queued''
     (bnd (TAILQ_INSERT_HEAD p (queue_of q s)) (\<lambda>l. Ok (set_queue q l s)))"

definition pgq_insert_tail :: "pageq \<Rightarrow> page_ptr \<Rightarrow> vmm \<Rightarrow> vmm outcome" where
  "pgq_insert_tail q p s = defined_if (on_no_queue p s) ''page already queued''
     (bnd (TAILQ_INSERT_TAIL p (queue_of q s)) (\<lambda>l. Ok (set_queue q l s)))"

definition pgq_remove :: "pageq \<Rightarrow> page_ptr \<Rightarrow> vmm \<Rightarrow> vmm outcome" where
  "pgq_remove q p s = bnd (TAILQ_REMOVE p (queue_of q s)) (\<lambda>l. Ok (set_queue q l s))"

section \<open>The operations\<close>

definition vmp_page_shortage :: "vmm \<Rightarrow> bool" where
  "vmp_page_shortage s \<longleftrightarrow>
     nfree (vmstat s) + nstandby (vmstat s) \<le> min_avail_for_alloc (vmparam s)"

definition vmp_page_sufficience :: "vmm \<Rightarrow> bool" where
  "vmp_page_sufficience s \<longleftrightarrow>
     nfree (vmstat s) + nstandby (vmstat s) \<ge> min_avail_for_alloc (vmparam s) * 2"

text \<open>\<^verbatim>\<open>ke_event_signal\<close> and \<^verbatim>\<open>ke_event_clear\<close> set the state of an event.\<close>

definition check_shortage :: "vmm \<Rightarrow> bool \<times> vmm" where
  "check_shortage s =
     (if vmp_page_shortage s then
        let s = s\<lparr>vmp_was_shortage := True, vmp_sufficient_pages_event := False\<rparr>;
            s = (if nmodified (vmstat s) > 4 then s\<lparr>vmp_pgwriter_event := True\<rparr> else s);
            s = (if nmodified (vmstat s) + nstandby (vmstat s) < min_avail_for_alloc (vmparam s) * 2
                 then s\<lparr>vmp_balancer_event := True\<rparr> else s)
        in (True, s)
      else (False, s))"

definition vmp_page_retain_locked :: "page_ptr \<Rightarrow> vmm \<Rightarrow> vmm outcome" where
  "vmp_page_retain_locked page s =
     (let was = refcnt (mypages s page);
          s = page_update page (\<lambda>pg. pg\<lparr>refcnt := refcnt pg + 1\<rparr>) s
      in if was = 0 then
           kassert (use (mypages s page) \<noteq> kPageUseDeleted) ''page->use != kPageUseDeleted''
             (if dirty (mypages s page) then
                bnd (pgq_remove QModified page s) (\<lambda>s.
                Ok (vmstat_update (\<lambda>st. st\<lparr>nmodified := nmodified st - 1, nactive := nactive st + 1\<rparr>) s))
              else
                bnd (pgq_remove QStandby page s) (\<lambda>s.
                Ok (vmstat_update (\<lambda>st. st\<lparr>nstandby := nstandby st - 1, nactive := nactive st + 1\<rparr>) s)))
         else Ok s)"

text \<open>The tail of \<^verbatim>\<open>vmp_page_release_locked\<close>: a pageable page that became inactive.\<close>

definition requeue_pageable :: "page_ptr \<Rightarrow> vmm \<Rightarrow> vmm outcome" where
  "requeue_pageable page s =
     bnd (if dirty (mypages s page) then
            bnd (pgq_insert_tail QModified page s) (\<lambda>s.
            Ok (vmstat_update (\<lambda>st. st\<lparr>nmodified := nmodified st + 1\<rparr>) s))
          else
            bnd (pgq_insert_tail QStandby page s) (\<lambda>s.
            Ok (vmstat_update (\<lambda>st. st\<lparr>nstandby := nstandby st + 1\<rparr>) s))) (\<lambda>s.
     let s = snd (check_shortage s) in
     if vmp_was_shortage s \<and> vmp_page_sufficience s then
       Ok (s\<lparr>vmp_was_shortage := False, vmp_sufficient_pages_event := True\<rparr>)
     else Ok s)"

definition vmp_page_release_locked :: "page_ptr \<Rightarrow> vmm \<Rightarrow> vmm outcome" where
  "vmp_page_release_locked page s =
     kassert (page \<le> SOFT_NPAGES) ''page >= mypages && page <= &mypages[SOFT_NPAGES]''
     (defined_if (page < SOFT_NPAGES) ''mypages[SOFT_NPAGES]''
     (kassert (refcnt (mypages s page) > 0) ''page->refcnt > 0''
     (kassert (use (mypages s page) \<noteq> kPageUseFree) ''page->use != kPageUseFree''
     (let was = refcnt (mypages s page);
          s = page_update page (\<lambda>pg. pg\<lparr>refcnt := refcnt pg - 1\<rparr>) s
      in if was = 1 then
           let s = vmstat_update (\<lambda>st. st\<lparr>nactive := nactive st - 1\<rparr>) s in
           case use (mypages s page) of
             kPageUseDeleted \<Rightarrow>
               bnd (pgq_insert_head QFree page s) (\<lambda>s.
               Ok (page_update page (\<lambda>pg. pg\<lparr>use := kPageUseFree\<rparr>)
                 (vmstat_update (\<lambda>st. st\<lparr>nfree := nfree st + 1\<rparr>) s)))
           | kPageUseAnonPrivate \<Rightarrow> requeue_pageable page s
           | _ \<Rightarrow> kfatal ''Release page of unexpected type''
         else Ok s))))"

definition vmp_paddr_to_page :: "paddr \<Rightarrow> page_ptr outcome" where
  "vmp_paddr_to_page paddr =
     kassert (paddr mod PGSIZE = 0) ''paddr % PGSIZE == 0''
     (kassert (paddr div PGSIZE < SOFT_NPAGES) ''paddr / PGSIZE < SOFT_NPAGES''
     (Ok (paddr div PGSIZE)))"

definition vm_mdl_alloc :: "size_t \<Rightarrow> vm_mdl" where
  "vm_mdl_alloc npages =
     \<lparr>mdl_nentries = npages, mdl_offset = 0, mdl_pages = replicate (unat npages) None\<rparr>"

text \<open>The loop of \<^verbatim>\<open>vm_mdl_release_pages\<close>: the first \<open>n\<close> entries, in order. A \<^verbatim>\<open>NULL\<close> entry, or an index
  beyond the allocated array, makes the code follow an invalid pointer.\<close>

fun mdl_release_from :: "nat \<Rightarrow> nat \<Rightarrow> vm_mdl \<times> vmm \<Rightarrow> (vm_mdl \<times> vmm) outcome" where
  "mdl_release_from i 0 (mdl, s) = Ok (mdl, s)"
| "mdl_release_from i (Suc n) (mdl, s) =
     defined_if (i < length (mdl_pages mdl)) ''mdl->pages[i]''
     (case mdl_pages mdl ! i of
        None \<Rightarrow> Err (Undefined ''vmp_page_release_locked(NULL)'')
      | Some page \<Rightarrow>
          bnd (vmp_page_release_locked page s) (\<lambda>s.
          mdl_release_from (Suc i) n (mdl\<lparr>mdl_pages := (mdl_pages mdl)[i := None]\<rparr>, s)))"

definition vm_mdl_release_pages :: "vm_mdl \<Rightarrow> vmm \<Rightarrow> (vm_mdl \<times> vmm) outcome" where
  "vm_mdl_release_pages mdl s = mdl_release_from 0 (unat (mdl_nentries mdl)) (mdl, s)"

text \<open>\<^verbatim>\<open>SIM_pages_init\<close>: the loop over the page array, from index \<open>i\<close>.\<close>

fun pages_init_from :: "nat \<Rightarrow> nat \<Rightarrow> vmm \<Rightarrow> vmm outcome" where
  "pages_init_from i 0 s = Ok s"
| "pages_init_from i (Suc n) s =
     bnd (pgq_insert_tail QFree i
       (page_update i (\<lambda>pg. pg\<lparr>pfn := of_nat i, dirty := False, referent_pte := 0,
          nonzero_ptes := 0, refcnt := 0, use := kPageUseFree\<rparr>) s)) (\<lambda>s.
     pages_init_from (Suc i) n s)"

definition SIM_pages_init :: "vmm \<Rightarrow> vmm outcome" where
  "SIM_pages_init s =
     bnd (pages_init_from 0 SOFT_NPAGES s) (\<lambda>s.
     Ok (vmstat_update (\<lambda>st. st\<lparr>nfree := of_nat SOFT_NPAGES\<rparr>) s))"

definition vm_page_use_str :: "vm_page_use \<Rightarrow> string" where
  "vm_page_use_str u = (case u of
       kPageUseFree \<Rightarrow> ''free'' | kPageUseAnonPrivate \<Rightarrow> ''anon-private''
     | kPageUsePML4 \<Rightarrow> ''PML4'' | kPageUsePML3 \<Rightarrow> ''PML3''
     | kPageUsePML2 \<Rightarrow> ''PML2'' | kPageUsePML1 \<Rightarrow> ''PML1''
     | _ \<Rightarrow> ''BAD'')"

section \<open>Where a page is\<close>

text \<open>The queue a page belongs to, read off its fields; \<open>None\<close> for an active page.\<close>

definition place :: "vm_page \<Rightarrow> pageq option" where
  "place pg =
     (if use pg = kPageUseFree then Some QFree
      else if refcnt pg \<noteq> 0 then None
      else if dirty pg then Some QModified else Some QStandby)"

fun qcount :: "pageq option \<Rightarrow> vm_stat \<Rightarrow> size_t" where
  "qcount (Some QFree) st = nfree st"
| "qcount (Some QStandby) st = nstandby st"
| "qcount (Some QModified) st = nmodified st"
| "qcount None st = nactive st"

definition members :: "(page_ptr \<Rightarrow> vm_page) \<Rightarrow> pageq option \<Rightarrow> page_ptr set" where
  "members P w = set (filter (\<lambda>p. place (P p) = w) [0..<SOFT_NPAGES])"

definition page_wf :: "page_ptr \<Rightarrow> vm_page \<Rightarrow> bool" where
  "page_wf p pg \<longleftrightarrow> pfn pg = of_nat p \<and> (use pg = kPageUseFree \<longrightarrow> refcnt pg = 0)"

definition pfndb :: "vmm \<Rightarrow> bool" where
  "pfndb s \<longleftrightarrow>
     (\<forall>q. distinct (queue_of q s) \<and> set (queue_of q s) = members (mypages s) (Some q)) \<and>
     (\<forall>w. qcount w (vmstat s) = of_nat (card (members (mypages s) w))) \<and>
     (\<forall>p < SOFT_NPAGES. page_wf p (mypages s p))"

lemma finite_members [simp]: "finite (members P w)"
  by (simp add: members_def)

lemma in_members: "p \<in> members P w \<longleftrightarrow> p < SOFT_NPAGES \<and> place (P p) = w"
  by (auto simp: members_def)

lemma pfndb_queue_iff:
  "pfndb s \<Longrightarrow> p \<in> set (queue_of q s) \<longleftrightarrow> p < SOFT_NPAGES \<and> place (mypages s p) = Some q"
  by (simp add: pfndb_def in_members)

lemma members_fun_upd:
  "members (P(p := pg)) w =
     (if p < SOFT_NPAGES \<and> place pg = w then insert p (members P w) else members P w - {p})"
  by (auto simp: in_members split: if_splits)

text \<open>Replacing the record of one page: the queues and counters must follow the change of place.\<close>

lemma pfndbI:
  assumes "pfndb s" and p: "p < SOFT_NPAGES" and "page_wf p pg"
    and "mypages t = (mypages s)(p := pg)"
    and w: "place (mypages s p) = w" and w': "place pg = w'"
    and q: "\<And>q. distinct (queue_of q t)"
    and q_same: "\<And>q. w = w' \<Longrightarrow> set (queue_of q t) = set (queue_of q s)"
    and q_move: "\<And>q. w \<noteq> w' \<Longrightarrow> set (queue_of q t) =
      (if w = Some q then set (queue_of q s) - {p}
       else if w' = Some q then insert p (set (queue_of q s)) else set (queue_of q s))"
    and c_same: "\<And>x. w = w' \<Longrightarrow> qcount x (vmstat t) = qcount x (vmstat s)"
    and c_move: "\<And>x. w \<noteq> w' \<Longrightarrow> qcount x (vmstat t) =
      (if x = w then qcount x (vmstat s) - 1
       else if x = w' then qcount x (vmstat s) + 1 else qcount x (vmstat s))"
  shows "pfndb t"
proof -
  have inv: "\<And>q. distinct (queue_of q s)" "\<And>q. set (queue_of q s) = members (mypages s) (Some q)"
    "\<And>x. qcount x (vmstat s) = of_nat (card (members (mypages s) x))"
    "\<And>p. p < SOFT_NPAGES \<Longrightarrow> page_wf p (mypages s p)"
    using assms(1) by (auto simp: pfndb_def)
  have m: "members (mypages t) x =
      (if x = w' then insert p (members (mypages s) x) else members (mypages s) x - {p})" for x
    using assms(4) p w' by (auto simp: members_fun_upd)
  have pw: "p \<in> members (mypages s) x \<longleftrightarrow> x = w" for x
    using p w by (auto simp: in_members)
  have "set (queue_of q t) = members (mypages t) (Some q)" for q
  proof (cases "w = w'")
    case True
    with q_same [of q] m [of "Some q"] pw [of "Some q"] inv(2) [of q] show ?thesis
      by (auto simp: insert_absorb)
  next
    case False
    with q_move [of q] m [of "Some q"] pw [of "Some q"] inv(2) [of q] show ?thesis
      by auto
  qed
  moreover have "qcount x (vmstat t) = of_nat (card (members (mypages t) x))" for x
  proof (cases "w = w'")
    case True
    with c_same [of x] m [of x] pw [of x] inv(3) [of x] show ?thesis by (auto simp: insert_absorb)
  next
    case False
    have "card (members (mypages s) w) > 0" using pw [of w] by (auto simp: card_gt_0_iff)
    with False c_move [of x] m [of x] pw [of x] inv(3) [of x] show ?thesis
      by (auto simp: card_Diff_singleton of_nat_diff)
  qed
  ultimately show ?thesis
    using q inv(4) assms(3,4) by (auto simp: pfndb_def)
qed

lemma queue_of_set_queue [simp]: "queue_of q (set_queue q' l s) = (if q = q' then l else queue_of q s)"
  by (cases q; cases q') auto

lemma queue_of_vmstat_update [simp]: "queue_of q (vmstat_update f s) = queue_of q s"
  by (cases q) auto

lemma queue_of_events [simp]:
  "queue_of q (vmp_was_shortage_update f s) = queue_of q s"
  "queue_of q (vmp_sufficient_pages_event_update f s) = queue_of q s"
  by (cases q; simp)+

lemma queue_of_page_update [simp]: "queue_of q (page_update p f s) = queue_of q s"
  by (cases q) auto

lemma set_queue_simps [simp]:
  "mypages (set_queue q l s) = mypages s"
  "SOFT_pages (set_queue q l s) = SOFT_pages s"
  "SOFT_pages_base (set_queue q l s) = SOFT_pages_base s"
  "vmstat (set_queue q l s) = vmstat s"
  "vmparam (set_queue q l s) = vmparam s"
  "vmp_was_shortage (set_queue q l s) = vmp_was_shortage s"
  "vmp_pagefile_state (set_queue q l s) = vmp_pagefile_state s"
  "procs (set_queue q l s) = procs s"
  by (cases q; simp)+

text \<open>What the page frame database operations never touch.\<close>

definition rest_unchanged :: "vmm \<Rightarrow> vmm \<Rightarrow> bool" where
  "rest_unchanged s t \<longleftrightarrow> SOFT_pages t = SOFT_pages s \<and> SOFT_pages_base t = SOFT_pages_base s \<and>
     vmparam t = vmparam s \<and> vmp_pagefile_state t = vmp_pagefile_state s \<and> procs t = procs s"

lemma rest_unchanged_refl [simp]: "rest_unchanged s s"
  by (simp add: rest_unchanged_def)

lemma rest_unchanged_trans: "rest_unchanged s t \<Longrightarrow> rest_unchanged t u \<Longrightarrow> rest_unchanged s u"
  by (simp add: rest_unchanged_def)

text \<open>\<open>check_shortage\<close> only signals: it changes the shortage flag and the events.\<close>

lemma check_shortage_frame [simp]:
  "mypages (snd (check_shortage s)) = mypages s"
  "vmstat (snd (check_shortage s)) = vmstat s"
  "queue_of q (snd (check_shortage s)) = queue_of q s"
  "rest_unchanged s (snd (check_shortage s))"
  by (cases q; simp add: check_shortage_def Let_def rest_unchanged_def)+

lemma check_shortage_result [simp]: "fst (check_shortage s) = vmp_page_shortage s"
  by (simp add: check_shortage_def Let_def)

lemma pfndb_cong:
  assumes "mypages t = mypages s" and "\<And>q. queue_of q t = queue_of q s" and "vmstat t = vmstat s"
  shows "pfndb t = pfndb s"
  using assms by (simp add: pfndb_def)

lemma on_no_queue_iff:
  assumes "pfndb s" and "p < SOFT_NPAGES"
  shows "on_no_queue p s \<longleftrightarrow> place (mypages s p) = None"
proof -
  have "p \<in> set (queue_of q s) \<longleftrightarrow> place (mypages s p) = Some q" for q
    using assms by (auto simp: pfndb_def in_members)
  from this [of QFree] this [of QStandby] this [of QModified] show ?thesis
    by (cases "place (mypages s p)") (auto simp: on_no_queue_def intro: pageq.exhaust)
qed

lemma on_no_queue_cong:
  "(\<And>q. queue_of q t = queue_of q s) \<Longrightarrow> on_no_queue p t = on_no_queue p s"
  by (metis on_no_queue_def queue_of.simps)

section \<open>Retaining and releasing\<close>

text \<open>The abstract effect of the two operations on the reference count.\<close>

abbreviation bump_ref :: "vm_page \<Rightarrow> vm_page" where
  "bump_ref pg \<equiv> pg\<lparr>refcnt := refcnt pg + 1\<rparr>"

abbreviation drop_ref :: "vm_page \<Rightarrow> vm_page" where
  "drop_ref pg \<equiv> pg\<lparr>refcnt := refcnt pg - 1\<rparr>"

definition released :: "vm_page \<Rightarrow> vm_page" where
  "released pg = (if refcnt pg = 1 \<and> use pg = kPageUseDeleted
     then (drop_ref pg)\<lparr>use := kPageUseFree\<rparr> else drop_ref pg)"

lemma retain_ok:
  assumes inv: "pfndb s" and p: "p < SOFT_NPAGES"
    and u: "use (mypages s p) \<noteq> kPageUseFree" and no_wrap: "refcnt (mypages s p) + 1 \<noteq> 0"
    and d: "refcnt (mypages s p) = 0 \<Longrightarrow> use (mypages s p) \<noteq> kPageUseDeleted"
  obtains t where "vmp_page_retain_locked p s = Ok t" and "pfndb t"
    and "mypages t = (mypages s)(p := bump_ref (mypages s p))" and "rest_unchanged s t"
    and "vmp_was_shortage t = vmp_was_shortage s"
proof -
  let ?pg = "mypages s p"
  have wf: "page_wf p (bump_ref ?pg)" and here: "place (bump_ref ?pg) = None"
    using inv p u no_wrap by (auto simp: pfndb_def page_wf_def place_def)
  have q: "distinct (queue_of q s)" "p \<in> set (queue_of q s) \<longleftrightarrow> place ?pg = Some q" for q
    using inv p by (auto simp: pfndb_def in_members)
  show thesis
  proof (cases "refcnt ?pg = 0")
    case False
    let ?t = "page_update p bump_ref s"
    have "vmp_page_retain_locked p s = Ok ?t"
      using False by (simp add: vmp_page_retain_locked_def Let_def)
    moreover have "pfndb ?t"
      by (rule pfndbI [OF inv p wf _ refl here])
        (use False u q in \<open>auto simp: place_def\<close>)
    ultimately show thesis using that by (simp add: rest_unchanged_def)
  next
    case True
    define w where "w = (if dirty ?pg then QModified else QStandby)"
    have pl: "place ?pg = Some w" using True u by (simp add: place_def w_def)
    let ?t = "vmstat_update (\<lambda>st. if dirty ?pg
        then st\<lparr>nmodified := nmodified st - 1, nactive := nactive st + 1\<rparr>
        else st\<lparr>nstandby := nstandby st - 1, nactive := nactive st + 1\<rparr>)
      (set_queue w (remove1 p (queue_of w s)) (page_update p bump_ref s))"
    have "vmp_page_retain_locked p s = Ok ?t"
      using True d q(2) [of w] pl
      by (simp add: vmp_page_retain_locked_def Let_def pgq_remove_def TAILQ_REMOVE_def w_def
          split: if_splits)
    moreover have "pfndb ?t"
    proof (rule pfndbI [OF inv p wf _ pl here])
      show "qcount x (vmstat ?t) = (if x = Some w then qcount x (vmstat s) - 1
          else if x = None then qcount x (vmstat s) + 1 else qcount x (vmstat s))" for x
        by (cases "(x, vmstat s)" rule: qcount.cases) (auto simp: w_def)
    qed (use q in \<open>auto simp: fun_eq_iff\<close>)
    ultimately show thesis using that by (simp add: rest_unchanged_def)
  qed
qed

lemma requeue_ok:
  assumes on: "on_no_queue p s"
  defines "w \<equiv> (if dirty (mypages s p) then QModified else QStandby)"
  obtains t where "requeue_pageable p s = Ok t" and "mypages t = mypages s" and "rest_unchanged s t"
    and "\<forall>q. queue_of q t = (if q = w then queue_of q s @ [p] else queue_of q s)"
    and "vmstat t = (if dirty (mypages s p) then (vmstat s)\<lparr>nmodified := nmodified (vmstat s) + 1\<rparr>
           else (vmstat s)\<lparr>nstandby := nstandby (vmstat s) + 1\<rparr>)"
proof -
  let ?st = "\<lambda>st. if dirty (mypages s p) then st\<lparr>nmodified := nmodified st + 1\<rparr>
      else st\<lparr>nstandby := nstandby st + 1\<rparr>"
  let ?u = "vmstat_update ?st (set_queue w (queue_of w s @ [p]) s)"
  let ?v = "snd (check_shortage ?u)"
  let ?t = "if vmp_was_shortage ?v \<and> vmp_page_sufficience ?v
      then ?v\<lparr>vmp_was_shortage := False, vmp_sufficient_pages_event := True\<rparr> else ?v"
  have "p \<notin> set (modified_pgq s)" "p \<notin> set (standby_pgq s)"
    using on by (simp_all add: on_no_queue_def)
  then have "requeue_pageable p s = Ok ?t"
    using on by (cases "dirty (mypages s p)")
      (simp_all add: requeue_pageable_def pgq_insert_tail_def TAILQ_INSERT_TAIL_def w_def Let_def)
  moreover have "queue_of q ?t = (if q = w then queue_of q s @ [p] else queue_of q s)" for q
  proof -
    have "queue_of q ?t = queue_of q ?v" by simp
    then show ?thesis by simp
  qed
  moreover have "rest_unchanged s ?t"
    using check_shortage_frame(4) [of ?u] by (auto simp: rest_unchanged_def)
  moreover have "mypages ?t = mypages s" by simp
  moreover have "vmstat ?t = ?st (vmstat s)" by simp
  ultimately show thesis by (intro that allI) (simp_all only:)
qed

lemma release_ok:
  assumes inv: "pfndb s" and p: "p < SOFT_NPAGES"
    and r: "refcnt (mypages s p) \<noteq> 0" and u: "use (mypages s p) \<noteq> kPageUseFree"
    and last: "refcnt (mypages s p) = 1 \<Longrightarrow> use (mypages s p) \<in> {kPageUseAnonPrivate, kPageUseDeleted}"
  obtains t where "vmp_page_release_locked p s = Ok t" and "pfndb t" and "rest_unchanged s t"
    and "mypages t = (mypages s)(p := released (mypages s p))"
proof -
  let ?pg = "mypages s p"
  have gt: "refcnt ?pg > 0" using r by (simp add: word_neq_0_conv)
  have pl: "place ?pg = None" using r u by (simp add: place_def)
  have on: "on_no_queue p s" using on_no_queue_iff [OF inv p] pl by simp
  have q: "distinct (queue_of q s)" "p \<notin> set (queue_of q s)" for q
    using inv p pl by (auto simp: pfndb_def in_members)
  have pf: "pfn ?pg = of_nat p" using inv p by (auto simp: pfndb_def page_wf_def)
  let ?d = "page_update p drop_ref s"
  let ?e = "vmstat_update (\<lambda>st. st\<lparr>nactive := nactive st - 1\<rparr>) ?d"
  consider (many) "refcnt ?pg \<noteq> 1" | (anon) "refcnt ?pg = 1" "use ?pg = kPageUseAnonPrivate"
    | (deleted) "refcnt ?pg = 1" "use ?pg = kPageUseDeleted" using last by auto
  then show thesis
  proof cases
    case many
    have "vmp_page_release_locked p s = Ok ?d"
      using many p u gt by (simp add: vmp_page_release_locked_def Let_def)
    moreover have "pfndb ?d"
      by (rule pfndbI [OF inv p _ _ pl])
        (use many u q pf in \<open>auto simp: place_def page_wf_def\<close>)
    ultimately show thesis using that many by (simp add: rest_unchanged_def released_def)
  next
    case anon
    have on': "on_no_queue p ?e" using on by (simp add: on_no_queue_def)
    obtain t where t: "requeue_pageable p ?e = Ok t" "mypages t = mypages ?e" "rest_unchanged ?e t"
      "\<forall>q. queue_of q t = (if q = (if dirty (mypages ?e p) then QModified else QStandby)
          then queue_of q ?e @ [p] else queue_of q ?e)"
      "vmstat t = (if dirty (mypages ?e p) then (vmstat ?e)\<lparr>nmodified := nmodified (vmstat ?e) + 1\<rparr>
           else (vmstat ?e)\<lparr>nstandby := nstandby (vmstat ?e) + 1\<rparr>)"
      by (rule requeue_ok [OF on'])
    have "vmp_page_release_locked p s = Ok t"
      using anon p gt t(1) by (simp add: vmp_page_release_locked_def Let_def)
    moreover have "pfndb t"
    proof (rule pfndbI [OF inv p _ _ pl])
      let ?w = "Some (if dirty ?pg then QModified else QStandby)"
      show "mypages t = (mypages s)(p := drop_ref ?pg)" using t(2) by simp
      show "place (drop_ref ?pg) = ?w" using anon by (simp add: place_def)
      show "page_wf p (drop_ref ?pg)" using anon pf by (simp add: page_wf_def)
      show "qcount x (vmstat t) = (if x = None then qcount x (vmstat s) - 1
          else if x = ?w then qcount x (vmstat s) + 1 else qcount x (vmstat s))" for x
        unfolding t(5) by (cases "(x, vmstat s)" rule: qcount.cases) auto
    qed (use t(4) q in auto)
    ultimately show thesis using that anon t(2,3) by (simp add: rest_unchanged_def released_def)
  next
    case deleted
    let ?t = "page_update p (\<lambda>pg. pg\<lparr>use := kPageUseFree\<rparr>)
      (vmstat_update (\<lambda>st. st\<lparr>nfree := nfree st + 1\<rparr>) (set_queue QFree (p # queue_of QFree s) ?e))"
    have on': "on_no_queue p ?e" using on by (simp add: on_no_queue_def)
    then have "vmp_page_release_locked p s = Ok ?t"
      using deleted p gt q(2) [of QFree]
      by (simp add: vmp_page_release_locked_def Let_def pgq_insert_head_def TAILQ_INSERT_HEAD_def)
    moreover have "pfndb ?t"
    proof (rule pfndbI [OF inv p _ _ pl])
      let ?pg' = "(drop_ref ?pg)\<lparr>use := kPageUseFree\<rparr>"
      show "mypages ?t = (mypages s)(p := ?pg')" by simp
      show "place ?pg' = Some QFree" by (simp add: place_def)
      show "page_wf p ?pg'" using deleted pf by (simp add: page_wf_def)
      show "qcount x (vmstat ?t) = (if x = None then qcount x (vmstat s) - 1
          else if x = Some QFree then qcount x (vmstat s) + 1 else qcount x (vmstat s))" for x
        by (cases "(x, vmstat s)" rule: qcount.cases) auto
    qed (use q q [of QFree] in \<open>auto simp del: set_queue.simps\<close>)
    ultimately show thesis using that deleted by (simp add: rest_unchanged_def released_def)
  qed
qed

lemma pfndb_pfn: "pfndb s \<Longrightarrow> p < SOFT_NPAGES \<Longrightarrow> pfn (mypages s p) = of_nat p"
  by (auto simp: pfndb_def page_wf_def)

lemma pfndb_page_paddr: "pfndb s \<Longrightarrow> p < SOFT_NPAGES \<Longrightarrow> vmp_page_paddr p s = p * PGSIZE"
  by (simp add: vmp_page_paddr_def pfndb_pfn)

lemma paddr_to_page_of_page [simp]: "p < SOFT_NPAGES \<Longrightarrow> vmp_paddr_to_page (p * PGSIZE) = Ok p"
  by (simp add: vmp_paddr_to_page_def)

lemma pfndb_total:
  assumes "pfndb s"
  shows "nfree (vmstat s) + nstandby (vmstat s) + nmodified (vmstat s) + nactive (vmstat s) = 32"
proof -
  let ?M = "members (mypages s)"
  have u: "{..<SOFT_NPAGES} = ?M (Some QFree) \<union> ?M (Some QStandby) \<union> ?M (Some QModified) \<union> ?M None"
    by (auto simp: in_members place_def split: if_splits)
  have "card {..<SOFT_NPAGES} =
      card (?M (Some QFree)) + card (?M (Some QStandby)) + card (?M (Some QModified)) + card (?M None)"
    unfolding u by (subst card_Un_disjoint; (subst card_Un_disjoint)?; (subst card_Un_disjoint)?)
      (auto simp: in_members)
  then have "of_nat (card (?M (Some QFree)) + card (?M (Some QStandby)) + card (?M (Some QModified)) +
      card (?M None)) = (32 :: size_t)"
    by simp
  moreover have "\<forall>w. qcount w (vmstat s) = of_nat (card (?M w))"
    using assms by (simp add: pfndb_def)
  then have "nfree (vmstat s) = of_nat (card (?M (Some QFree)))"
    "nstandby (vmstat s) = of_nat (card (?M (Some QStandby)))"
    "nmodified (vmstat s) = of_nat (card (?M (Some QModified)))"
    "nactive (vmstat s) = of_nat (card (?M None))"
    by (metis qcount.simps)+
  ultimately show ?thesis by simp
qed

section \<open>Initialisation\<close>

lemma pages_init_from_ok:
  assumes "free_pgq s = [0..<i]" and "standby_pgq s = []" and "modified_pgq s = []"
  shows "\<exists>t. pages_init_from i n s = Ok t \<and> free_pgq t = [0..<i + n] \<and> standby_pgq t = [] \<and>
    modified_pgq t = [] \<and> vmstat t = vmstat s \<and> rest_unchanged s t \<and>
    (\<forall>p. mypages t p = (if i \<le> p \<and> p < i + n then (mypages s p)\<lparr>pfn := of_nat p, dirty := False,
       referent_pte := 0, nonzero_ptes := 0, refcnt := 0, use := kPageUseFree\<rparr> else mypages s p))"
  using assms
proof (induction n arbitrary: i s)
  case (Suc n)
  let ?f = "\<lambda>pg. pg\<lparr>pfn := of_nat i, dirty := False, referent_pte := 0,
      nonzero_ptes := 0, refcnt := 0, use := kPageUseFree\<rparr>"
  let ?s = "set_queue QFree (free_pgq s @ [i]) (page_update i ?f s)"
  have step: "pages_init_from i (Suc n) s = pages_init_from (Suc i) n ?s"
    using Suc.prems by (simp add: pgq_insert_tail_def on_no_queue_def TAILQ_INSERT_TAIL_def)
  have "free_pgq ?s = [0..<Suc i]" "standby_pgq ?s = []" "modified_pgq ?s = []"
    using Suc.prems by simp_all
  from Suc.IH [OF this] obtain t where t: "pages_init_from (Suc i) n ?s = Ok t"
    "free_pgq t = [0..<Suc i + n]" "standby_pgq t = []" "modified_pgq t = []" "vmstat t = vmstat s"
    "rest_unchanged ?s t"
    "\<forall>p. mypages t p = (if Suc i \<le> p \<and> p < Suc i + n then (mypages ?s p)\<lparr>pfn := of_nat p, dirty := False,
       referent_pte := 0, nonzero_ptes := 0, refcnt := 0, use := kPageUseFree\<rparr> else mypages ?s p)"
    by auto
  have "rest_unchanged s t" using t(6) by (simp add: rest_unchanged_def)
  with t show ?case unfolding step by (auto simp: fun_upd_apply)
qed auto

lemma SIM_pages_init_ok:
  assumes "free_pgq s = []" and "standby_pgq s = []" and "modified_pgq s = []"
    and "nstandby (vmstat s) = 0" and "nmodified (vmstat s) = 0" and "nactive (vmstat s) = 0"
  obtains t where "SIM_pages_init s = Ok t" and "pfndb t" and "free_pgq t = [0..<SOFT_NPAGES]"
    and "nfree (vmstat t) = 32" and "rest_unchanged s t"
    and "\<forall>p. mypages t p = (if p < SOFT_NPAGES then (mypages s p)\<lparr>pfn := of_nat p, dirty := False,
       referent_pte := 0, nonzero_ptes := 0, refcnt := 0, use := kPageUseFree\<rparr> else mypages s p)"
proof -
  from pages_init_from_ok [of s 0 SOFT_NPAGES] assms
  obtain u where u: "pages_init_from 0 SOFT_NPAGES s = Ok u" "free_pgq u = [0..<SOFT_NPAGES]"
    "standby_pgq u = []" "modified_pgq u = []" "vmstat u = vmstat s" "rest_unchanged s u"
    and pg: "\<forall>p. mypages u p = (if p < SOFT_NPAGES then (mypages s p)\<lparr>pfn := of_nat p, dirty := False,
       referent_pte := 0, nonzero_ptes := 0, refcnt := 0, use := kPageUseFree\<rparr> else mypages s p)"
    by auto
  let ?t = "vmstat_update (\<lambda>st. st\<lparr>nfree := of_nat SOFT_NPAGES\<rparr>) u"
  have m: "members (mypages u) w = (if w = Some QFree then {..<SOFT_NPAGES} else {})" for w
    using pg by (auto simp: in_members place_def)
  have "queue_of q ?t = (if q = QFree then [0..<SOFT_NPAGES] else [])" for q
    using u by (cases q) auto
  moreover have "qcount w (vmstat ?t) = (if w = Some QFree then 32 else 0)" for w
    using u assms by (cases "(w, vmstat u)" rule: qcount.cases) auto
  ultimately have "pfndb ?t"
    using pg by (auto simp: pfndb_def m page_wf_def)
  moreover have "SIM_pages_init s = Ok ?t"
    unfolding SIM_pages_init_def u(1) bnd.simps ..
  moreover have "rest_unchanged s ?t" using u(6) by (simp add: rest_unchanged_def)
  ultimately show thesis using u pg that by simp
qed
section \<open>Properties of the page frame database\<close>

text \<open>C23. \<open>SIM_pages_init\<close> on empty queues and zero statistics puts every page frame on the free
  queue, in order, and establishes the invariant of the page frame database.\<close>

theorem SIM_pages_init_establishes_pfndb:
  assumes "free_pgq s = []" and "standby_pgq s = []" and "modified_pgq s = []"
    and "nstandby (vmstat s) = 0" and "nmodified (vmstat s) = 0" and "nactive (vmstat s) = 0"
  shows "\<exists>t. SIM_pages_init s = Ok t \<and> pfndb t \<and> free_pgq t = [0..<SOFT_NPAGES] \<and> nfree (vmstat t) = 32"
  by (rule SIM_pages_init_ok [OF assms]) blast

definition zero_page :: vm_page where
  "zero_page = \<lparr>pfn = 0, use = kPageUseInvalid, dirty = False, nonzero_ptes = 0, nonswap_ptes = 0,
     refcnt = 0, referent_pte = 0, process = 0, drumslot = 0\<rparr>"

definition zero_process :: eprocess where
  "zero_process = \<lparr>vad_tree = Null, pml4 = 0, pml4_page = 0, wsl =
     \<lparr>wsl_queue = [], wsl_tree = Null, nlocked = 0, nentries = 0, wsl_max = 0\<rparr>\<rparr>"

text \<open>The zero-initialised globals of the program before \<^verbatim>\<open>main\<close> runs, with \<^verbatim>\<open>SOFT_pages\<close> at \<open>base\<close>.\<close>

definition boot_state :: "vaddr \<Rightarrow> vmm" where
  "boot_state base = \<lparr>mypages = (\<lambda>_. zero_page), SOFT_pages = (\<lambda>_. 0), SOFT_pages_base = base,
     free_pgq = [], standby_pgq = [], modified_pgq = [],
     vmstat = \<lparr>nfree = 0, nmodified = 0, nstandby = 0, nactive = 0, ntotal = 0\<rparr>,
     vmparam = \<lparr>ws_page_expansion_count = 0, min_avail_for_expansion = 0, min_avail_for_alloc = 0\<rparr>,
     vmp_was_shortage = False, vmp_sufficient_pages_event = False, vmp_pgwriter_event = False,
     vmp_balancer_event = False,
     vmp_pagefile_state = \<lparr>pf_vnode = None, pf_bitmap = [], total_slots = 0, free_slots = 0, next_free = 0\<rparr>,
     procs = (\<lambda>_. zero_process)\<rparr>"

theorem SIM_pages_init_establishes_pfndb_witness:
  "\<exists>t. SIM_pages_init (boot_state 0) = Ok t \<and> pfndb t \<and> free_pgq t = [0..<SOFT_NPAGES] \<and> nfree (vmstat t) = 32"
  by (rule SIM_pages_init_establishes_pfndb) (simp_all add: boot_state_def)

text \<open>A state reached by code from the boot state, for evaluating the model on concrete inputs.\<close>

definition ok_or_boot :: "vmm outcome \<Rightarrow> vmm" where
  "ok_or_boot r = (case r of Ok s \<Rightarrow> s | Err e \<Rightarrow> boot_state 0)"

text \<open>Two pages in use: page 0 held twice, page 1 clean and inactive on the standby queue.\<close>

definition sample_pages :: vmm where
  "sample_pages = (let s = ok_or_boot (SIM_pages_init (boot_state 0)) in
     s\<lparr>mypages := (mypages s)(0 := (mypages s 0)\<lparr>use := kPageUseAnonPrivate, refcnt := 2\<rparr>,
                             1 := (mypages s 1)\<lparr>use := kPageUseAnonPrivate\<rparr>),
       free_pgq := [2..<SOFT_NPAGES], standby_pgq := [1],
       vmstat := \<lparr>nfree = 30, nmodified = 0, nstandby = 1, nactive = 1, ntotal = 0\<rparr>\<rparr>)"

lemma sample_pages_pfndb: "pfndb sample_pages"
  by code_simp

text \<open>C24. Retaining a page that is in use counts one more reference and nothing else changes in the
  database; retaining the first time takes an inactive page off the queue it waits on (modified when
  dirty, else standby) and makes it active. The partition of the pages over the queues and the
  statistics stays exact.\<close>

theorem retain_keeps_pfndb:
  assumes "pfndb s" and "p < SOFT_NPAGES" and "use (mypages s p) \<noteq> kPageUseFree"
    and "refcnt (mypages s p) = 0 \<Longrightarrow> use (mypages s p) \<noteq> kPageUseDeleted"
    and "refcnt (mypages s p) \<noteq> - 1"
  shows "\<exists>t. vmp_page_retain_locked p s = Ok t \<and> pfndb t
    \<and> mypages t = (mypages s)(p := bump_ref (mypages s p)) \<and> on_no_queue p t \<and> rest_unchanged s t"
proof -
  have "refcnt (mypages s p) + 1 \<noteq> 0"
    using assms(5) by (metis add.commute add_diff_cancel_left' diff_0)
  then obtain t where t: "vmp_page_retain_locked p s = Ok t" "pfndb t"
    "mypages t = (mypages s)(p := bump_ref (mypages s p))" "rest_unchanged s t"
    using retain_ok [OF assms(1-3)] assms(4) by blast
  moreover have "place (mypages t p) = None"
    using t(3) assms(3) \<open>refcnt (mypages s p) + 1 \<noteq> 0\<close> by (simp add: place_def)
  ultimately show ?thesis using on_no_queue_iff [OF t(2) assms(2)] by blast
qed

theorem retain_keeps_pfndb_witness:
  "\<exists>t. vmp_page_retain_locked 1 sample_pages = Ok t \<and> pfndb t \<and> on_no_queue 1 t
     \<and> refcnt (mypages t 1) = 1"
proof -
  have "use (mypages sample_pages 1) \<noteq> kPageUseFree" "use (mypages sample_pages 1) \<noteq> kPageUseDeleted"
    "refcnt (mypages sample_pages 1) = 0"
    by code_simp+
  with retain_keeps_pfndb [OF sample_pages_pfndb, of 1] show ?thesis by auto
qed

text \<open>C25. Releasing a reference to a page in use, on every non-failing path: while other references
  remain only the count drops; the last reference to a private anonymous page puts it on the modified
  or the standby queue, and the last reference to a deleted page frees it. The database invariant and
  the statistics stay exact.\<close>

theorem release_keeps_pfndb:
  assumes "pfndb s" and "p < SOFT_NPAGES" and "refcnt (mypages s p) \<noteq> 0"
    and "use (mypages s p) \<noteq> kPageUseFree"
    and "refcnt (mypages s p) = 1 \<Longrightarrow> use (mypages s p) \<in> {kPageUseAnonPrivate, kPageUseDeleted}"
  shows "\<exists>t. vmp_page_release_locked p s = Ok t \<and> pfndb t \<and> rest_unchanged s t
    \<and> mypages t = (mypages s)(p := released (mypages s p))
    \<and> (\<forall>q. p \<in> set (queue_of q t) \<longleftrightarrow> refcnt (mypages s p) = 1 \<and>
          q = (if use (mypages s p) = kPageUseDeleted then QFree
               else if dirty (mypages s p) then QModified else QStandby))"
proof -
  obtain t where t: "vmp_page_release_locked p s = Ok t" "pfndb t" "rest_unchanged s t"
    "mypages t = (mypages s)(p := released (mypages s p))"
    using release_ok [OF assms(1-4)] assms(5) by blast
  have "p \<in> set (queue_of q t) \<longleftrightarrow> place (released (mypages s p)) = Some q" for q
    using t(2,4) assms(2) by (simp add: pfndb_def in_members)
  moreover have "place (released (mypages s p)) = Some q \<longleftrightarrow> refcnt (mypages s p) = 1 \<and>
      q = (if use (mypages s p) = kPageUseDeleted then QFree
           else if dirty (mypages s p) then QModified else QStandby)" for q
    using assms(3-5) by (auto simp: released_def place_def)
  ultimately show ?thesis using t by blast
qed

theorem release_keeps_pfndb_witness:
  "\<exists>t. vmp_page_release_locked 0 sample_pages = Ok t \<and> pfndb t \<and> refcnt (mypages t 0) = 1"
proof -
  have "refcnt (mypages sample_pages 0) = 2" "use (mypages sample_pages 0) = kPageUseAnonPrivate"
    by code_simp+
  with release_keeps_pfndb [OF sample_pages_pfndb, of 0] show ?thesis
    by (auto simp: released_def)
qed

text \<open>The failing paths: releasing a page nobody holds or a free page trips an assertion,
  releasing the last reference of a page table or of any use other than private anonymous or deleted
  stops the machine, and a deleted page that nobody holds cannot be revived.\<close>

theorem retain_release_failures:
  "(refcnt (mypages s p) = 0 \<longrightarrow> (\<forall>t. vmp_page_release_locked p s \<noteq> Ok t))
   \<and> (use (mypages s p) = kPageUseFree \<longrightarrow> (\<forall>t. vmp_page_release_locked p s \<noteq> Ok t))
   \<and> (p < SOFT_NPAGES \<longrightarrow> refcnt (mypages s p) = 1
       \<longrightarrow> use (mypages s p) \<notin> {kPageUseFree, kPageUseAnonPrivate, kPageUseDeleted}
       \<longrightarrow> vmp_page_release_locked p s = kfatal ''Release page of unexpected type'')
   \<and> (refcnt (mypages s p) = 0 \<longrightarrow> use (mypages s p) = kPageUseDeleted
       \<longrightarrow> vmp_page_retain_locked p s = Err (Kassert ''page->use != kPageUseDeleted''))"
  by (auto simp: vmp_page_release_locked_def vmp_page_retain_locked_def Let_def kassert_def
      defined_if_def split: vm_page_use.split)

theorem retain_release_failures_witness:
  "vmp_page_release_locked 1 sample_pages = Err (Kassert ''page->refcnt > 0'')
   \<and> (\<forall>t. vmp_page_release_locked 1 sample_pages \<noteq> Ok t)"
proof -
  have "refcnt (mypages sample_pages 1) = 0" by code_simp
  with retain_release_failures [of sample_pages 1] show ?thesis
    by (auto simp: vmp_page_release_locked_def kassert_def)
qed

text \<open>The counters of the statistics always add up to the number of page frames, so the
  shortage test compares what is really available: pages are available exactly when they are free
  or on standby.\<close>

theorem statistics_partition_memory:
  assumes "pfndb s"
  shows "nfree (vmstat s) + nstandby (vmstat s) + nmodified (vmstat s) + nactive (vmstat s) = 32
    \<and> unat (nfree (vmstat s) + nstandby (vmstat s)) = length (free_pgq s) + length (standby_pgq s)
    \<and> (vmp_page_shortage s \<longleftrightarrow>
         length (free_pgq s) + length (standby_pgq s) \<le> unat (min_avail_for_alloc (vmparam s)))"
proof -
  have q: "set (queue_of q s) \<subseteq> {..<SOFT_NPAGES}" "distinct (queue_of q s)"
    "qcount (Some q) (vmstat s) = of_nat (length (queue_of q s))" for q
    using assms by (auto simp: pfndb_def in_members distinct_card [symmetric])
  have len: "length (queue_of q s) \<le> 32" for q
    using card_mono [OF _ q(1) [of q]] distinct_card [OF q(2) [of q]] by simp
  have "nfree (vmstat s) + nstandby (vmstat s) = of_nat (length (free_pgq s) + length (standby_pgq s))"
    using q(3) [of QFree] q(3) [of QStandby] by simp
  then have u: "unat (nfree (vmstat s) + nstandby (vmstat s)) = length (free_pgq s) + length (standby_pgq s)"
    using len [of QFree] len [of QStandby] by (simp add: unsigned_of_nat take_bit_nat_eq_self del: of_nat_add)
  then show ?thesis
    using pfndb_total [OF assms] by (simp add: vmp_page_shortage_def word_le_nat_alt)
qed

theorem statistics_partition_memory_witness:
  "unat (nfree (vmstat sample_pages) + nstandby (vmstat sample_pages)) = 31
   \<and> (vmp_page_shortage sample_pages \<longleftrightarrow> False)"
proof -
  have "length (free_pgq sample_pages) + length (standby_pgq sample_pages) = 31"
    "min_avail_for_alloc (vmparam sample_pages) = 0"
    by code_simp+
  with statistics_partition_memory [OF sample_pages_pfndb] show ?thesis by simp
qed

end
