(* ===== verification/Wsl.thy ===== *)
theory Wsl
  imports Resident
begin

text \<open>
  Working set lists (\<^verbatim>\<open>vm/ws.c\<close>): the entries of a process are kept in a tree by virtual address;
  the entries that may be evicted are also on a queue, oldest first, and a locked entry is off the
  queue. This theory has the comparison function, the lookup, and the operations that lock, unlock
  and remove an entry; insertion and trimming, which evict pages, are in \<open>Working_Set\<close>. Page tables
  appear in the list under their direct-map address. An entry is the value of its fields: the tree
  holds at most one entry per address, so the address identifies it.
\<close>

section \<open>Entries and their order\<close>

definition wsle_cmp :: "vmp_wsle \<Rightarrow> vmp_wsle \<Rightarrow> int" where
  "wsle_cmp x y = sint (wsle_vaddr x - wsle_vaddr y)"

text \<open>Addresses whose differences fit the signed result of the comparison.\<close>

definition low_vaddr :: "vaddr \<Rightarrow> bool" where
  "low_vaddr v \<longleftrightarrow> v < 2 ^ 63"

definition low_wsle :: "vmp_wsle \<Rightarrow> bool" where
  "low_wsle e \<longleftrightarrow> low_vaddr (wsle_vaddr e)"

lemma sint_diff_low:
  assumes "low_vaddr x" and "low_vaddr y"
  shows "sint (x - y) = uint x - uint y"
proof -
  have x: "uint x < 2 ^ 63" "uint y < 2 ^ 63"
    using assms by (simp_all add: low_vaddr_def word_less_def)
  have "x - y = word_of_int (uint x - uint y)" by simp
  then have "sint (x - y) = signed_take_bit 63 (uint x - uint y)"
    using sint_sbintrunc' [of "uint x - uint y", where 'a = 64] by simp
  also have "\<dots> = uint x - uint y"
  proof (rule signed_take_bit_int_eq_self)
    show "- (2 ^ 63) \<le> uint x - uint y" using x uint_ge_0 [of x] by linarith
    show "uint x - uint y < 2 ^ 63" using x uint_ge_0 [of y] by linarith
  qed
  finally show ?thesis .
qed

interpretation wslt: keyed_tree wsle_cmp wsle_vaddr low_wsle
  by unfold_locales (auto simp: wsle_cmp_def low_wsle_def sint_diff_low word_less_def)

section \<open>The operations\<close>

definition wsle_key :: "vaddr \<Rightarrow> vmp_wsle" where
  "wsle_key vaddr = \<lparr>wsle_vaddr = vaddr, is_pagetable = False\<rparr>"

definition wsl_find :: "vaddr \<Rightarrow> vmp_wsl \<Rightarrow> vmp_wsle option" where
  "wsl_find vaddr w = RB_FIND wsle_cmp (wsle_key vaddr) (wsl_tree w)"

definition vmp_wsl_find :: "nat \<Rightarrow> vaddr \<Rightarrow> vmm \<Rightarrow> vmp_wsle option" where
  "vmp_wsl_find ps vaddr s = wsl_find vaddr (wsl (procs s ps))"

text \<open>\<^verbatim>\<open>RB_REMOVE\<close> and \<^verbatim>\<open>TAILQ_REMOVE\<close> of an entry given by pointer: it must be in the container.\<close>

definition wsl_tree_remove :: "vmp_wsle \<Rightarrow> vmp_wsl \<Rightarrow> vmp_wsl outcome" where
  "wsl_tree_remove e w =
     (case RB_REMOVE wsle_cmp e (wsl_tree w) of
        None \<Rightarrow> Err (Undefined ''RB_REMOVE'')
      | Some (_, t) \<Rightarrow> Ok (w\<lparr>wsl_tree := t\<rparr>))"

definition wsl_queue_remove :: "vmp_wsle \<Rightarrow> vmp_wsl \<Rightarrow> vmp_wsl outcome" where
  "wsl_queue_remove e w = bnd (TAILQ_REMOVE e (wsl_queue w)) (\<lambda>q. Ok (w\<lparr>wsl_queue := q\<rparr>))"

definition wsl_queue_insert :: "vmp_wsle \<Rightarrow> vmp_wsl \<Rightarrow> vmp_wsl outcome" where
  "wsl_queue_insert e w = bnd (TAILQ_INSERT_TAIL e (wsl_queue w)) (\<lambda>q. Ok (w\<lparr>wsl_queue := q\<rparr>))"

definition wsl_remove :: "vaddr \<Rightarrow> vmp_wsl \<Rightarrow> vmp_wsl outcome" where
  "wsl_remove vaddr w =
     (case wsl_find vaddr w of
        None \<Rightarrow> Err (Kassert ''wsle != NULL'')
      | Some e \<Rightarrow> bnd (wsl_tree_remove e w) (wsl_queue_remove e))"

definition wsl_lock_entry :: "vaddr \<Rightarrow> vmp_wsl \<Rightarrow> vmp_wsl outcome" where
  "wsl_lock_entry vaddr w =
     (case wsl_find vaddr w of
        None \<Rightarrow> Err (Kassert ''wsle != NULL'')
      | Some e \<Rightarrow> bnd (wsl_queue_remove e w) (\<lambda>w. Ok (w\<lparr>nlocked := nlocked w + 1\<rparr>)))"

definition wsl_unlock_entry :: "vaddr \<Rightarrow> vmp_wsl \<Rightarrow> vmp_wsl outcome" where
  "wsl_unlock_entry vaddr w =
     (case wsl_find vaddr w of
        None \<Rightarrow> Err (Kassert ''wsle != NULL'')
      | Some e \<Rightarrow> bnd (wsl_queue_insert e w) (\<lambda>w. Ok (w\<lparr>nlocked := nlocked w - 1\<rparr>)))"

text \<open>The exported functions act on the list of a process.\<close>

definition on_wsl :: "(vmp_wsl \<Rightarrow> vmp_wsl outcome) \<Rightarrow> nat \<Rightarrow> vmm \<Rightarrow> vmm outcome" where
  "on_wsl f ps s = bnd (f (wsl (procs s ps))) (\<lambda>w. Ok (wsl_update_ps ps (\<lambda>_. w) s))"

definition vmp_wsl_remove :: "nat \<Rightarrow> vaddr \<Rightarrow> vmm \<Rightarrow> vmm outcome" where
  "vmp_wsl_remove ps vaddr s = on_wsl (wsl_remove vaddr) ps s"

definition vmp_wsl_lock_entry :: "nat \<Rightarrow> vaddr \<Rightarrow> vmm \<Rightarrow> vmm outcome" where
  "vmp_wsl_lock_entry ps vaddr s = on_wsl (wsl_lock_entry vaddr) ps s"

definition vmp_wsl_unlock_entry :: "nat \<Rightarrow> vaddr \<Rightarrow> vmm \<Rightarrow> vmm outcome" where
  "vmp_wsl_unlock_entry ps vaddr s = on_wsl (wsl_unlock_entry vaddr) ps s"

section \<open>The invariant\<close>

abbreviation entries :: "vmp_wsl \<Rightarrow> vmp_wsle list" where
  "entries w \<equiv> inorder (wsl_tree w)"

definition wsl_ok :: "vmp_wsl \<Rightarrow> bool" where
  "wsl_ok w \<longleftrightarrow> tree_ok wsle_vaddr low_wsle (wsl_tree w) \<and> distinct (wsl_queue w) \<and>
     set (wsl_queue w) \<subseteq> set (entries w) \<and>
     nlocked w + of_nat (length (wsl_queue w)) = of_nat (length (entries w))"

text \<open>The locked entries: in the tree and off the queue.\<close>

definition locked_entries :: "vmp_wsl \<Rightarrow> vmp_wsle set" where
  "locked_entries w = set (entries w) - set (wsl_queue w)"

lemma wsl_okD:
  assumes "wsl_ok w"
  shows "tree_ok wsle_vaddr low_wsle (wsl_tree w)" and "distinct (wsl_queue w)"
    and "set (wsl_queue w) \<subseteq> set (entries w)" and "distinct (entries w)"
proof -
  show t: "tree_ok wsle_vaddr low_wsle (wsl_tree w)" and "distinct (wsl_queue w)"
    "set (wsl_queue w) \<subseteq> set (entries w)"
    using assms by (auto simp: wsl_ok_def)
  have "sorted_wrt (<) (map wsle_vaddr (entries w))"
    using t by (simp add: tree_ok_def sorted_wrt_map)
  then show "distinct (entries w)"
    using strict_sorted_iff distinct_map by blast
qed

lemma wsl_find_iff:
  assumes "wsl_ok w" and "low_vaddr v"
  shows "wsl_find v w = Some e \<longleftrightarrow> e \<in> set (entries w) \<and> wsle_vaddr e = v"
  using wslt.find_Some_iff [OF wsl_okD(1) [OF assms(1)], of "wsle_key v" e] assms(2)
  by (simp add: wsl_find_def wsle_key_def low_wsle_def)

lemma wsl_find_None_iff:
  assumes "wsl_ok w" and "low_vaddr v"
  shows "wsl_find v w = None \<longleftrightarrow> (\<forall>e\<in>set (entries w). wsle_vaddr e \<noteq> v)"
  using wsl_find_iff [OF assms] by (metis not_None_eq)

text \<open>The number of locked entries is what \<open>nlocked\<close> counts.\<close>

lemma nlocked_counts:
  assumes "wsl_ok w"
  shows "nlocked w = of_nat (card (locked_entries w))"
proof -
  have "card (locked_entries w) + length (wsl_queue w) = length (entries w)"
    using wsl_okD [OF assms] card_mono [of "set (entries w)" "set (wsl_queue w)"]
    by (simp add: locked_entries_def card_Diff_subset distinct_card)
  then have "of_nat (card (locked_entries w)) + of_nat (length (wsl_queue w)) =
      (of_nat (length (entries w)) :: size_t)"
    by (metis of_nat_add)
  with assms show ?thesis by (simp add: wsl_ok_def) (metis add_right_cancel)
qed

section \<open>Each operation keeps the invariant\<close>

lemma wsl_lock_ok:
  assumes ok: "wsl_ok w" and v: "low_vaddr v" and e: "e \<in> set (wsl_queue w)" "wsle_vaddr e = v"
  shows "wsl_lock_entry v w = Ok (w\<lparr>wsl_queue := remove1 e (wsl_queue w), nlocked := nlocked w + 1\<rparr>)"
    and "wsl_ok (w\<lparr>wsl_queue := remove1 e (wsl_queue w), nlocked := nlocked w + 1\<rparr>)"
proof -
  note D = wsl_okD [OF ok]
  have "wsl_find v w = Some e" using wsl_find_iff [OF ok v] e D(3) by auto
  with e show "wsl_lock_entry v w =
      Ok (w\<lparr>wsl_queue := remove1 e (wsl_queue w), nlocked := nlocked w + 1\<rparr>)"
    by (simp add: wsl_lock_entry_def wsl_queue_remove_def TAILQ_REMOVE_def)
  obtain n where "length (wsl_queue w) = Suc n" using e(1) by (cases "wsl_queue w") auto
  with ok e D show "wsl_ok (w\<lparr>wsl_queue := remove1 e (wsl_queue w), nlocked := nlocked w + 1\<rparr>)"
    by (auto simp: wsl_ok_def length_remove1 add.assoc dest: notin_set_remove1)
qed

lemma wsl_unlock_ok:
  assumes ok: "wsl_ok w" and v: "low_vaddr v" and e: "e \<in> locked_entries w" "wsle_vaddr e = v"
  shows "wsl_unlock_entry v w = Ok (w\<lparr>wsl_queue := wsl_queue w @ [e], nlocked := nlocked w - 1\<rparr>)"
    and "wsl_ok (w\<lparr>wsl_queue := wsl_queue w @ [e], nlocked := nlocked w - 1\<rparr>)"
proof -
  have "wsl_find v w = Some e" using wsl_find_iff [OF ok v] e by (auto simp: locked_entries_def)
  with e show "wsl_unlock_entry v w = Ok (w\<lparr>wsl_queue := wsl_queue w @ [e], nlocked := nlocked w - 1\<rparr>)"
    by (simp add: wsl_unlock_entry_def wsl_queue_insert_def TAILQ_INSERT_TAIL_def locked_entries_def)
  show "wsl_ok (w\<lparr>wsl_queue := wsl_queue w @ [e], nlocked := nlocked w - 1\<rparr>)"
    using ok e by (auto simp: wsl_ok_def locked_entries_def algebra_simps)
qed

lemma wsl_tree_remove_ok:
  assumes ok: "tree_ok wsle_vaddr low_wsle (wsl_tree w)" and e: "e \<in> set (entries w)"
  obtains t where "wsl_tree_remove e w = Ok (w\<lparr>wsl_tree := t\<rparr>)"
    and "tree_ok wsle_vaddr low_wsle t" and "set (inorder t) = set (entries w) - {e}"
    and "length (entries w) = Suc (length (inorder t))"
proof -
  obtain t where t: "RB_REMOVE wsle_cmp e (wsl_tree w) = Some (e, t)"
    "tree_ok wsle_vaddr low_wsle t" "set (inorder t) = set (entries w) - {e}"
    "length (entries w) = Suc (length (inorder t))"
    by (rule wslt.remove_member [OF ok e])
  then have "wsl_tree_remove e w = Ok (w\<lparr>wsl_tree := t\<rparr>)"
    by (simp add: wsl_tree_remove_def)
  then show thesis using t(2-4) by (rule that)
qed

lemma wsl_remove_ok:
  assumes ok: "wsl_ok w" and v: "low_vaddr v" and e: "e \<in> set (wsl_queue w)" "wsle_vaddr e = v"
  obtains t where "wsl_remove v w = Ok (w\<lparr>wsl_tree := t, wsl_queue := remove1 e (wsl_queue w)\<rparr>)"
    and "wsl_ok (w\<lparr>wsl_tree := t, wsl_queue := remove1 e (wsl_queue w)\<rparr>)"
    and "set (inorder t) = set (entries w) - {e}"
    and "length (entries w) = Suc (length (inorder t))"
proof -
  note D = wsl_okD [OF ok]
  have f: "wsl_find v w = Some e" using wsl_find_iff [OF ok v] e D(3) by auto
  obtain t where t: "wsl_tree_remove e w = Ok (w\<lparr>wsl_tree := t\<rparr>)"
    "tree_ok wsle_vaddr low_wsle t" "set (inorder t) = set (entries w) - {e}"
    "length (entries w) = Suc (length (inorder t))"
    using wsl_tree_remove_ok [OF D(1)] e D(3) by blast
  obtain n where n: "length (wsl_queue w) = Suc n" using e(1) by (cases "wsl_queue w") auto
  have "wsl_remove v w = Ok (w\<lparr>wsl_tree := t, wsl_queue := remove1 e (wsl_queue w)\<rparr>)"
    using f t(1) e by (simp add: wsl_remove_def wsl_queue_remove_def TAILQ_REMOVE_def)
  moreover have "wsl_ok (w\<lparr>wsl_tree := t, wsl_queue := remove1 e (wsl_queue w)\<rparr>)"
    using ok t e D n by (auto simp: wsl_ok_def length_remove1 dest: notin_set_remove1)
  ultimately show thesis using that t by blast
qed

section \<open>Properties of working set lists\<close>

lemma on_wsl_Ok_iff:
  "on_wsl f ps s = Ok t \<longleftrightarrow>
     (\<exists>w. f (wsl (procs s ps)) = Ok w \<and> t = wsl_update_ps ps (\<lambda>_. w) s)"
  by (auto simp: on_wsl_def)

lemma on_wsl_Err:
  "f (wsl (procs s ps)) = Err e \<Longrightarrow> on_wsl f ps s = Err e"
  by (simp add: on_wsl_def)

text \<open>C22. The tree of a working set list is a map from virtual addresses to entries, for addresses
  below \<open>2 ^ 63\<close> (there the difference of two addresses, which the comparison function returns, has the
  right sign): after inserting an entry with a new address a lookup finds it, after removing an entry
  a lookup of its address fails, and lookups of other addresses are not affected.\<close>

theorem working_set_tree_is_a_map:
  assumes "tree_ok wsle_vaddr low_wsle t" and "low_wsle k"
  shows "(low_wsle e \<and> RB_FIND wsle_cmp e t = None \<longrightarrow>
      (\<exists>t'. RB_INSERT wsle_cmp e t = (None, t') \<and> tree_ok wsle_vaddr low_wsle t' \<and>
         RB_FIND wsle_cmp k t' =
           (if wsle_vaddr k = wsle_vaddr e then Some e else RB_FIND wsle_cmp k t)))
    \<and> (x \<in> set (inorder t) \<longrightarrow>
      (\<exists>t'. RB_REMOVE wsle_cmp x t = Some (x, t') \<and> tree_ok wsle_vaddr low_wsle t' \<and>
         RB_FIND wsle_cmp k t' =
           (if wsle_vaddr k = wsle_vaddr x then None else RB_FIND wsle_cmp k t)))"
proof (intro conjI impI)
  assume a: "low_wsle e \<and> RB_FIND wsle_cmp e t = None"
  then obtain t' where "RB_INSERT wsle_cmp e t = (None, t')" "tree_ok wsle_vaddr low_wsle t'"
    using wslt.insert_fresh [OF assms(1)] by blast
  with wslt.find_after_insert [OF assms(1) _ _ assms(2), of e] a
  show "\<exists>t'. RB_INSERT wsle_cmp e t = (None, t') \<and> tree_ok wsle_vaddr low_wsle t' \<and>
      RB_FIND wsle_cmp k t' = (if wsle_vaddr k = wsle_vaddr e then Some e else RB_FIND wsle_cmp k t)"
    by simp
next
  assume x: "x \<in> set (inorder t)"
  then obtain t' where "RB_REMOVE wsle_cmp x t = Some (x, t')" "tree_ok wsle_vaddr low_wsle t'"
    using wslt.remove_member [OF assms(1)] by blast
  with wslt.find_after_remove [OF assms(1) x _ assms(2)]
  show "\<exists>t'. RB_REMOVE wsle_cmp x t = Some (x, t') \<and> tree_ok wsle_vaddr low_wsle t' \<and>
      RB_FIND wsle_cmp k t' = (if wsle_vaddr k = wsle_vaddr x then None else RB_FIND wsle_cmp k t)"
    by blast
qed

text \<open>A list of three entries, the second locked.\<close>

definition sample_wsl :: vmp_wsl where
  "sample_wsl = \<lparr>wsl_queue = [wsle_key 0x3000, wsle_key 0x1000],
     wsl_tree = foldr (\<lambda>v t. snd (RB_INSERT wsle_cmp (wsle_key v) t)) [0x1000, 0x2000, 0x3000] Null,
     nlocked = 1, nentries = 3, wsl_max = 4\<rparr>"

lemma sample_wsl_ok: "wsl_ok sample_wsl"
  by code_simp

theorem working_set_tree_is_a_map_witness:
  "\<exists>t'. RB_REMOVE wsle_cmp (wsle_key 0x2000) (wsl_tree sample_wsl) = Some (wsle_key 0x2000, t')
     \<and> RB_FIND wsle_cmp (wsle_key 0x2000) t' = None"
proof -
  have "wsle_key 0x2000 \<in> set (entries sample_wsl)" "low_wsle (wsle_key 0x2000)" by code_simp+
  with working_set_tree_is_a_map [OF wsl_okD(1) [OF sample_wsl_ok], of "wsle_key 0x2000"]
  show ?thesis by (metis (full_types))
qed

text \<open>C28. Locking an evictable entry of a process and unlocking it again: the lock takes the entry off
  the eviction queue and counts it, the unlock puts it back at the tail, as the youngest entry, and
  restores the count. The tree is untouched and the list invariant holds throughout.\<close>

theorem lock_unlock_entry:
  assumes ok: "wsl_ok (wsl (procs s ps))" and v: "low_vaddr (wsle_vaddr e)"
    and e: "e \<in> set (wsl_queue (wsl (procs s ps)))"
  shows "\<exists>t u. vmp_wsl_lock_entry ps (wsle_vaddr e) s = Ok t \<and> wsl_ok (wsl (procs t ps))
    \<and> locked_entries (wsl (procs t ps)) = insert e (locked_entries (wsl (procs s ps)))
    \<and> nlocked (wsl (procs t ps)) = nlocked (wsl (procs s ps)) + 1
    \<and> vmp_wsl_unlock_entry ps (wsle_vaddr e) t = Ok u \<and> wsl_ok (wsl (procs u ps))
    \<and> wsl (procs u ps) = (wsl (procs s ps))
        \<lparr>wsl_queue := remove1 e (wsl_queue (wsl (procs s ps))) @ [e]\<rparr>"
proof -
  let ?w = "wsl (procs s ps)"
  let ?l = "?w\<lparr>wsl_queue := remove1 e (wsl_queue ?w), nlocked := nlocked ?w + 1\<rparr>"
  let ?t = "wsl_update_ps ps (\<lambda>_. ?l) s"
  note lock = wsl_lock_ok [OF ok v e refl]
  have le: "locked_entries ?l = insert e (locked_entries ?w)"
    using e wsl_okD(2,3) [OF ok] by (auto simp: locked_entries_def)
  have l: "e \<in> locked_entries ?l" unfolding le by simp
  have t: "vmp_wsl_lock_entry ps (wsle_vaddr e) s = Ok ?t"
    unfolding vmp_wsl_lock_entry_def on_wsl_def lock(1) by simp
  note unlock = wsl_unlock_ok [OF lock(2) v l refl]
  have "vmp_wsl_unlock_entry ps (wsle_vaddr e) ?t =
      Ok (wsl_update_ps ps (\<lambda>_. ?l\<lparr>wsl_queue := wsl_queue ?l @ [e], nlocked := nlocked ?l - 1\<rparr>) ?t)"
    unfolding vmp_wsl_unlock_entry_def on_wsl_def by (simp add: unlock(1) del: vmp_wsl.simps)
  then show ?thesis
    using t lock(2) unlock(2) le by auto
qed

definition sample_wsl_state :: vmm where
  "sample_wsl_state = wsl_update_ps 0 (\<lambda>_. sample_wsl) (boot_state 0)"

theorem lock_unlock_entry_witness:
  "\<exists>t u. vmp_wsl_lock_entry 0 0x3000 sample_wsl_state = Ok t
     \<and> nlocked (wsl (procs t 0)) = 2 \<and> vmp_wsl_unlock_entry 0 0x3000 t = Ok u
     \<and> wsl_queue (wsl (procs u 0)) = [wsle_key 0x1000, wsle_key 0x3000]"
proof -
  have w: "wsl (procs sample_wsl_state 0) = sample_wsl" by (simp add: sample_wsl_state_def)
  have q: "wsl_queue sample_wsl = [wsle_key 0x3000, wsle_key 0x1000]" "nlocked sample_wsl = 1"
    by (simp_all add: sample_wsl_def)
  have "low_vaddr (wsle_vaddr (wsle_key 0x3000))" by code_simp
  with lock_unlock_entry [of sample_wsl_state 0 "wsle_key 0x3000"] show ?thesis
    using sample_wsl_ok by (auto simp: w q) (auto simp: wsle_key_def)
qed

text \<open>Removing an evictable entry takes it out of the tree and off the queue and keeps the tree,
  the queue and the lock count consistent; but the number of entries that the limit of the list is
  compared with is not reduced, so every removal shrinks the working set by one for good.\<close>

theorem wsl_remove_leaks_an_entry_count:
  assumes ok: "wsl_ok (wsl (procs s ps))" and v: "low_vaddr (wsle_vaddr e)"
    and e: "e \<in> set (wsl_queue (wsl (procs s ps)))"
  shows "\<exists>t. vmp_wsl_remove ps (wsle_vaddr e) s = Ok t \<and> wsl_ok (wsl (procs t ps))
    \<and> vmp_wsl_find ps (wsle_vaddr e) t = None
    \<and> set (entries (wsl (procs t ps))) = set (entries (wsl (procs s ps))) - {e}
    \<and> length (entries (wsl (procs s ps))) = Suc (length (entries (wsl (procs t ps))))
    \<and> nentries (wsl (procs t ps)) = nentries (wsl (procs s ps))"
proof -
  let ?w = "wsl (procs s ps)"
  obtain tr where r: "wsl_remove (wsle_vaddr e) ?w = Ok (?w\<lparr>wsl_tree := tr, wsl_queue := remove1 e (wsl_queue ?w)\<rparr>)"
    "wsl_ok (?w\<lparr>wsl_tree := tr, wsl_queue := remove1 e (wsl_queue ?w)\<rparr>)"
    "set (inorder tr) = set (entries ?w) - {e}" "length (entries ?w) = Suc (length (inorder tr))"
    by (rule wsl_remove_ok [OF ok v e refl])
  let ?l = "?w\<lparr>wsl_tree := tr, wsl_queue := remove1 e (wsl_queue ?w)\<rparr>"
  have "e \<in> set (entries ?w)" using e wsl_okD(3) [OF ok] by blast
  then have "\<forall>x\<in>set (entries ?w) - {e}. wsle_vaddr x \<noteq> wsle_vaddr e"
    using tree_ok_key_eq [OF wsl_okD(1) [OF ok]] by blast
  then have "wsl_find (wsle_vaddr e) ?l = None"
    using wsl_find_None_iff [OF r(2) v] r(3) by simp
  with r show ?thesis
    by (auto simp: vmp_wsl_remove_def on_wsl_def vmp_wsl_find_def)
qed

theorem wsl_remove_leaks_an_entry_count_witness:
  "\<exists>t. vmp_wsl_remove 0 0x3000 sample_wsl_state = Ok t \<and> vmp_wsl_find 0 0x3000 t = None
     \<and> length (entries (wsl (procs t 0))) = 2 \<and> nentries (wsl (procs t 0)) = 3"
proof -
  have w: "wsl (procs sample_wsl_state 0) = sample_wsl" by (simp add: sample_wsl_state_def)
  have q: "wsl_queue sample_wsl = [wsle_key 0x3000, wsle_key 0x1000]" "nentries sample_wsl = 3"
    by (simp_all add: sample_wsl_def)
  have n: "length (entries sample_wsl) = 3" "low_vaddr (wsle_vaddr (wsle_key 0x3000))"
    by code_simp+
  from wsl_remove_leaks_an_entry_count [of sample_wsl_state 0 "wsle_key 0x3000"] show ?thesis
    using sample_wsl_ok n by (auto simp: w q) (auto simp: wsle_key_def)
qed

text \<open>The three operations insist that the address is in the list, and locking or removing an
  entry that is already locked takes an element off a queue it is not on, which has no defined
  effect.\<close>

theorem wsl_operations_on_bad_entries:
  assumes ok: "wsl_ok (wsl (procs s ps))" and v: "low_vaddr v"
  shows "(vmp_wsl_find ps v s = None \<longrightarrow>
      vmp_wsl_lock_entry ps v s = Err (Kassert ''wsle != NULL'')
      \<and> vmp_wsl_unlock_entry ps v s = Err (Kassert ''wsle != NULL'')
      \<and> vmp_wsl_remove ps v s = Err (Kassert ''wsle != NULL''))
    \<and> (vmp_wsl_find ps v s = Some e \<longrightarrow> e \<in> locked_entries (wsl (procs s ps)) \<longrightarrow>
      vmp_wsl_lock_entry ps v s = Err (Undefined ''TAILQ_REMOVE'')
      \<and> vmp_wsl_remove ps v s = Err (Undefined ''TAILQ_REMOVE''))"
proof (intro conjI impI)
  let ?w = "wsl (procs s ps)"
  assume f: "vmp_wsl_find ps v s = Some e" and l: "e \<in> locked_entries ?w"
  have m: "e \<in> set (entries ?w)" using l by (simp add: locked_entries_def)
  obtain t where t: "wsl_tree_remove e ?w = Ok (?w\<lparr>wsl_tree := t\<rparr>)"
    by (rule wsl_tree_remove_ok [OF wsl_okD(1) [OF ok] m])
  have n: "e \<notin> set (wsl_queue ?w)" using l by (simp add: locked_entries_def)
  show "vmp_wsl_lock_entry ps v s = Err (Undefined ''TAILQ_REMOVE'')"
    using f n by (simp add: vmp_wsl_lock_entry_def on_wsl_def wsl_lock_entry_def vmp_wsl_find_def
        wsl_queue_remove_def TAILQ_REMOVE_def defined_if_def)
  show "vmp_wsl_remove ps v s = Err (Undefined ''TAILQ_REMOVE'')"
    using f n t by (simp add: vmp_wsl_remove_def on_wsl_def wsl_remove_def vmp_wsl_find_def
        wsl_queue_remove_def TAILQ_REMOVE_def defined_if_def)
qed (simp_all add: vmp_wsl_lock_entry_def vmp_wsl_unlock_entry_def vmp_wsl_remove_def on_wsl_def
    wsl_lock_entry_def wsl_unlock_entry_def wsl_remove_def vmp_wsl_find_def)

theorem wsl_operations_on_bad_entries_witness:
  "vmp_wsl_lock_entry 0 0x4000 sample_wsl_state = Err (Kassert ''wsle != NULL'')
   \<and> vmp_wsl_lock_entry 0 0x2000 sample_wsl_state = Err (Undefined ''TAILQ_REMOVE'')"
proof -
  have "low_vaddr 0x4000" "low_vaddr 0x2000" "vmp_wsl_find 0 0x4000 sample_wsl_state = None"
    "vmp_wsl_find 0 0x2000 sample_wsl_state = Some (wsle_key 0x2000)"
    "wsle_key 0x2000 \<in> locked_entries (wsl (procs sample_wsl_state 0))"
    "wsl_ok (wsl (procs sample_wsl_state 0))"
    by code_simp+
  with wsl_operations_on_bad_entries [of sample_wsl_state 0] show ?thesis by blast
qed

end
