(* ===== verification/Tables.thy ===== *)
theory Tables
  imports Wsl
begin

text \<open>
  The accounting of page-table pages in \<^verbatim>\<open>vm/tables.c\<close>. A table page counts its entries that are not
  zero and those that are not in swap; each of the latter holds a reference to the page and keeps the
  page locked in the working set of its process. When the last entry becomes zero the table is
  deleted: it leaves the working set, the entry that points to it is zeroed, which may delete the
  directory above in turn, and the page is freed. Walking and wiring tables, which allocates pages,
  is in \<open>Wire\<close>.
\<close>

section \<open>The operations\<close>

definition page_is_root_table :: "page_ptr \<Rightarrow> vmm \<Rightarrow> bool" where
  "page_is_root_table page s \<longleftrightarrow> use (mypages s page) = use_of_level VMP_TABLE_LEVELS"

definition vmp_pagetable_page_nonswap_pte_created ::
    "nat \<Rightarrow> page_ptr \<Rightarrow> bool \<Rightarrow> vmm \<Rightarrow> vmm outcome" where
  "vmp_pagetable_page_nonswap_pte_created ps page is_new s =
     bnd (vmp_page_retain_locked page s) (\<lambda>s.
     let s = (if is_new then page_update page (\<lambda>pg. pg\<lparr>nonzero_ptes := nonzero_ptes pg + 1\<rparr>) s else s);
         was = nonswap_ptes (mypages s page);
         s = page_update page (\<lambda>pg. pg\<lparr>nonswap_ptes := nonswap_ptes pg + 1\<rparr>) s
     in if was = 0 \<and> \<not> page_is_root_table page s
        then vmp_wsl_lock_entry ps (page_vaddr page s) s
        else Ok s)"

definition vmp_pagetable_page_pte_became_swap :: "nat \<Rightarrow> page_ptr \<Rightarrow> vmm \<Rightarrow> vmm outcome" where
  "vmp_pagetable_page_pte_became_swap ps page s =
     (let was = nonswap_ptes (mypages s page);
          s = page_update page (\<lambda>pg. pg\<lparr>nonswap_ptes := nonswap_ptes pg - 1\<rparr>) s
      in bnd (if was = 1 \<and> \<not> page_is_root_table page s
              then vmp_wsl_unlock_entry ps (page_vaddr page s) s else Ok s)
           (vmp_page_release_locked page))"

text \<open>Removing the working set entry of a table page that is being deleted.\<close>

definition deleted_table_leaves_wsl :: "nat \<Rightarrow> page_ptr \<Rightarrow> vmm \<Rightarrow> vmm outcome" where
  "deleted_table_leaves_wsl ps page s =
     (if nonswap_ptes (mypages s page) = 1 then
        bnd (vmp_wsl_unlock_entry ps (page_vaddr page s) s) (\<lambda>s.
        vmp_wsl_remove ps (page_vaddr page s) s)
      else if nonswap_ptes (mypages s page) = 0 then
        vmp_wsl_remove ps (page_vaddr page s) s
      else kfatal ''expectex nonswap_ptes to be 0 or 1'')"

lemma on_wsl_mypages: "on_wsl f ps s = Ok t \<Longrightarrow> mypages t = mypages s"
  by (auto simp: on_wsl_def)

lemma deleted_table_leaves_wsl_mypages:
  "deleted_table_leaves_wsl ps page s = Ok t \<Longrightarrow> mypages t = mypages s"
  by (auto simp: deleted_table_leaves_wsl_def vmp_wsl_unlock_entry_def vmp_wsl_remove_def
      split: if_splits dest!: on_wsl_mypages)

lemma paddr_to_page_less: "vmp_paddr_to_page a = Ok p \<Longrightarrow> p < SOFT_NPAGES"
  by (auto simp: vmp_paddr_to_page_def)

text \<open>The two functions call each other up the tree of tables. Each deletion takes a page from one
  non-zero entry to none, so the number of pages with exactly one bounds the depth.\<close>

definition lone_tables :: "vmm \<Rightarrow> nat" where
  "lone_tables s = card {p. p < SOFT_NPAGES \<and> nonzero_ptes (mypages s p) = 1}"

lemma lone_tables_cong: "mypages t = mypages s \<Longrightarrow> lone_tables t = lone_tables s"
  by (simp add: lone_tables_def)

lemma lone_tables_less:
  assumes "p < SOFT_NPAGES" and "nonzero_ptes (mypages s p) = 1"
    and "mypages t = (mypages s)(p := pg)" and "nonzero_ptes pg = 0"
  shows "lone_tables t < lone_tables s"
proof -
  have "finite {q. q < SOFT_NPAGES \<and> nonzero_ptes (mypages s q) = 1}"
    by (rule finite_subset [of _ "{..<SOFT_NPAGES}"]) auto
  moreover have "{q. q < SOFT_NPAGES \<and> nonzero_ptes (mypages t q) = 1} \<subset>
      {q. q < SOFT_NPAGES \<and> nonzero_ptes (mypages s q) = 1}"
    using assms by (auto split: if_splits)
  ultimately show ?thesis unfolding lone_tables_def by (rule psubset_card_mono)
qed

function vmp_pagetable_page_pte_deleted :: "nat \<Rightarrow> page_ptr \<Rightarrow> bool \<Rightarrow> vmm \<Rightarrow> vmm outcome"
  and vmp_md_delete_table_pointers :: "nat \<Rightarrow> page_ptr \<Rightarrow> paddr \<Rightarrow> vmm \<Rightarrow> vmm outcome" where
  "vmp_pagetable_page_pte_deleted ps page was_swap s =
     defined_if (page < SOFT_NPAGES) ''page''
     (let was = nonzero_ptes (mypages s page);
          s1 = page_update page (\<lambda>pg. pg\<lparr>nonzero_ptes := nonzero_ptes pg - 1\<rparr>) s
      in if was = 1 \<and> \<not> page_is_root_table page s1 then
           bnd (deleted_table_leaves_wsl ps page
                  (page_update page (\<lambda>pg. pg\<lparr>use := kPageUseDeleted\<rparr>) s1)) (\<lambda>s2.
           bnd (vmp_paddr_to_page (referent_pte (mypages s2 page))) (\<lambda>dirpage.
           bnd (vmp_md_delete_table_pointers ps dirpage (referent_pte (mypages s2 page)) s2) (\<lambda>s3.
           bnd (vmp_page_release_locked page
                  (page_update page (\<lambda>pg. pg\<lparr>nonswap_ptes := 0, referent_pte := 0\<rparr>) s3)) (\<lambda>s4.
           vmp_page_release_locked page s4))))
         else
           let was_nonswap = nonswap_ptes (mypages s1 page);
               s2 = (if was_swap then s1
                     else page_update page (\<lambda>pg. pg\<lparr>nonswap_ptes := nonswap_ptes pg - 1\<rparr>) s1)
           in bnd (if \<not> was_swap \<and> was_nonswap = 1 \<and> \<not> page_is_root_table page s2
                   then vmp_wsl_unlock_entry ps (page_vaddr page s2) s2 else Ok s2)
                (vmp_page_release_locked page))"
| "vmp_md_delete_table_pointers ps dirpage dirpte s =
     bnd (vmp_pte_characterise (SOFT_pages s dirpte)) (\<lambda>kind.
     kassert (kind = kPTEKindValid \<or> kind = kPTEKindTrans) ''valid or trans''
     (vmp_pagetable_page_pte_deleted ps dirpage False (write_pte dirpte vmp_pte_zero_create s)))"
  by pat_completeness auto

termination
proof (relation "measure (case_sum (\<lambda>(ps, page, was_swap, s). 2 * lone_tables s)
    (\<lambda>(ps, dirpage, dirpte, s). 2 * lone_tables s + 1))", goal_cases)
  case 1 then show ?case by simp
next
  case (2 ps page was_swap s was s1 s2 dirpage)
  have "mypages s2 = (mypages s)(page := (mypages s page)
      \<lparr>nonzero_ptes := nonzero_ptes (mypages s page) - 1, use := kPageUseDeleted\<rparr>)"
    using deleted_table_leaves_wsl_mypages [OF 2(5)] 2(2,3) by simp
  then have "lone_tables s2 < lone_tables s"
    by (rule lone_tables_less [rotated 2]) (use 2 in auto)
  then show ?case by simp
next
  case 3 then show ?case by (simp add: lone_tables_def)
qed

declare vmp_pagetable_page_pte_deleted.simps [simp del] vmp_md_delete_table_pointers.simps [simp del]

definition vmp_md_transition_table_pointers :: "nat \<Rightarrow> page_ptr \<Rightarrow> page_ptr \<Rightarrow> vmm \<Rightarrow> vmm outcome" where
  "vmp_md_transition_table_pointers ps dirpage tablepage s = kfatal ''Implement me!''"

definition vmp_md_setup_table_pointers ::
    "nat \<Rightarrow> page_ptr \<Rightarrow> page_ptr \<Rightarrow> paddr \<Rightarrow> bool \<Rightarrow> vmm \<Rightarrow> vmm outcome" where
  "vmp_md_setup_table_pointers ps dirpage tablepage dirpte is_new s =
     bnd (vmp_pagetable_page_nonswap_pte_created ps dirpage is_new s) (\<lambda>s.
     Ok (write_pte dirpte (vmp_pte_hw_create (pfn (mypages s tablepage)) True) s))"

record vmp_pte_wire_state =
  ws_ps :: nat
  ws_pte :: paddr
  ws_pages :: "page_ptr option list" \<comment> \<open>\<^verbatim>\<open>VMP_TABLE_LEVELS\<close> elements, \<open>None\<close> for \<^verbatim>\<open>NULL\<close>\<close>

fun wire_release_pages :: "nat \<Rightarrow> page_ptr option list \<Rightarrow> vmm \<Rightarrow> vmm outcome" where
  "wire_release_pages ps [] s = Ok s"
| "wire_release_pages ps (None # pages) s = wire_release_pages ps pages s"
| "wire_release_pages ps (Some page # pages) s =
     bnd (vmp_pagetable_page_pte_deleted ps page False s) (wire_release_pages ps pages)"

definition vmp_pte_wire_state_release :: "vmp_pte_wire_state \<Rightarrow> vmm \<Rightarrow> vmm outcome" where
  "vmp_pte_wire_state_release state s =
     wire_release_pages (ws_ps state) (take VMP_TABLE_LEVELS (ws_pages state)) s"

section \<open>The invariant of table pages\<close>

definition is_table :: "vm_page_use \<Rightarrow> bool" where
  "is_table u \<longleftrightarrow> u \<in> {kPageUsePML1, kPageUsePML2, kPageUsePML3, kPageUsePML4}"

definition table_entry :: "page_ptr \<Rightarrow> vmm \<Rightarrow> vmp_wsle" where
  "table_entry p s = \<lparr>wsle_vaddr = page_vaddr p s, is_pagetable = True\<rparr>"

text \<open>A table page is referenced once by the working set and once by every entry that is not in swap,
  and it can be evicted only when it has no such entry. (Tables have 512 entries; the bound leaves
  room for as many wirings as the counters can hold.)\<close>

definition table_ok :: "nat \<Rightarrow> vmm \<Rightarrow> page_ptr \<Rightarrow> bool" where
  "table_ok ps s p \<longleftrightarrow>
     refcnt (mypages s p) = nonswap_ptes (mypages s p) + 1 \<and> nonswap_ptes (mypages s p) < 0x8000 \<and>
     (\<not> page_is_root_table p s \<longrightarrow>
        table_entry p s \<in> (if nonswap_ptes (mypages s p) = 0 then set (wsl_queue (wsl (procs s ps)))
                           else locked_entries (wsl (procs s ps))))"

definition low_base :: "vmm \<Rightarrow> bool" where
  "low_base s \<longleftrightarrow> SOFT_pages_base s < 2 ^ 62"

definition table_of :: "nat \<Rightarrow> vmm \<Rightarrow> page_ptr \<Rightarrow> bool" where
  "table_of ps s p \<longleftrightarrow> p < SOFT_NPAGES \<and> is_table (use (mypages s p)) \<and> process (mypages s p) = ps"

definition tables_ok :: "nat \<Rightarrow> vmm \<Rightarrow> bool" where
  "tables_ok ps s \<longleftrightarrow> wsl_ok (wsl (procs s ps)) \<and> low_base s \<and>
     (\<forall>p < SOFT_NPAGES. table_of ps s p \<longrightarrow> table_ok ps s p)"

text \<open>The eviction queue without the entries of tables.\<close>

definition data_queue :: "vmp_wsl \<Rightarrow> vmp_wsle list" where
  "data_queue w = filter (\<lambda>e. \<not> is_pagetable e) (wsl_queue w)"

text \<open>What the accounting leaves alone: memory, parameters, page file, the other processes, and of the
  working set list everything but the place of the tables in the queue and the lock count.\<close>

definition tables_frame :: "nat \<Rightarrow> vmm \<Rightarrow> vmm \<Rightarrow> bool" where
  "tables_frame ps s t \<longleftrightarrow> SOFT_pages t = SOFT_pages s \<and> SOFT_pages_base t = SOFT_pages_base s \<and>
     vmparam t = vmparam s \<and> vmp_pagefile_state t = vmp_pagefile_state s \<and>
     (\<exists>q n. procs t = (procs s)(ps := (procs s ps)\<lparr>wsl := (wsl (procs s ps))\<lparr>wsl_queue := q, nlocked := n\<rparr>\<rparr>)) \<and>
     data_queue (wsl (procs t ps)) = data_queue (wsl (procs s ps))"

lemma tables_frameI_rest: "rest_unchanged s t \<Longrightarrow> tables_frame ps s t"
  unfolding rest_unchanged_def tables_frame_def
  by (intro conjI exI [of _ "wsl_queue (wsl (procs s ps))"] exI [of _ "nlocked (wsl (procs s ps))"]) simp_all

lemma tables_frame_refl [simp]: "tables_frame ps s s"
  by (simp add: tables_frameI_rest)

lemma tables_frame_trans: "tables_frame ps s t \<Longrightarrow> tables_frame ps t u \<Longrightarrow> tables_frame ps s u"
  by (fastforce simp: tables_frame_def)

lemma tables_frame_page_update [simp]:
  "tables_frame ps s (page_update p f t) = tables_frame ps s t"
  "tables_frame ps (page_update p f s) t = tables_frame ps s t"
  by (simp_all add: tables_frame_def)

lemma page_vaddr_page: "pfndb s \<Longrightarrow> p < SOFT_NPAGES \<Longrightarrow> page_vaddr p s = of_nat (p * PGSIZE) + SOFT_pages_base s"
  by (simp add: page_vaddr_def pfndb_page_paddr P2V_def)

lemma page_vaddr_low:
  assumes "pfndb s" and "low_base s" and "p < SOFT_NPAGES"
  shows "low_vaddr (page_vaddr p s)"
proof -
  let ?b = "SOFT_pages_base s"
  have b: "unat ?b < 2 ^ 62" using assms(2) by (simp add: low_base_def word_less_nat_alt)
  have "page_vaddr p s = of_nat (p * PGSIZE + unat ?b)"
    using page_vaddr_page [OF assms(1,3)] by simp
  moreover have "p * PGSIZE + unat ?b < 2 ^ 63" using b assms(3) by simp
  ultimately show ?thesis
    by (simp add: low_vaddr_def word_less_nat_alt unsigned_of_nat take_bit_nat_eq_self del: of_nat_add of_nat_mult)
qed

lemma page_vaddr_inj:
  assumes "pfndb s" and "p < SOFT_NPAGES" and "q < SOFT_NPAGES" and "page_vaddr p s = page_vaddr q s"
  shows "p = q"
proof -
  have "P2V (SOFT_pages_base s) (p * PGSIZE) = P2V (SOFT_pages_base s) (q * PGSIZE)"
    using assms(4) unfolding page_vaddr_def pfndb_page_paddr [OF assms(1,2)] pfndb_page_paddr [OF assms(1,3)] .
  from P2V_inj [OF _ _ this] assms(2,3) show ?thesis by simp
qed

lemma page_vaddr_cong:
  "pfn (mypages t p) = pfn (mypages s p) \<Longrightarrow> SOFT_pages_base t = SOFT_pages_base s \<Longrightarrow>
     page_vaddr p t = page_vaddr p s"
  by (simp add: page_vaddr_def vmp_page_paddr_def)

lemma table_entry_cong:
  "pfn (mypages t p) = pfn (mypages s p) \<Longrightarrow> SOFT_pages_base t = SOFT_pages_base s \<Longrightarrow>
     table_entry p t = table_entry p s"
  by (simp add: table_entry_def page_vaddr_cong [of t p s])

lemma table_entry_inj:
  "pfndb s \<Longrightarrow> p < SOFT_NPAGES \<Longrightarrow> q < SOFT_NPAGES \<Longrightarrow> table_entry p s = table_entry q s \<Longrightarrow> p = q"
  by (auto simp: table_entry_def dest: page_vaddr_inj)

lemma pfndb_wsl_update [simp]: "pfndb (wsl_update_ps ps f s) = pfndb s"
proof -
  have "queue_of q (wsl_update_ps ps f s) = queue_of q s" for q by (cases q) simp_all
  then show ?thesis by (intro pfndb_cong) simp_all
qed

lemma pfndb_write_pte [simp]: "pfndb (write_pte a v s) = pfndb s"
proof -
  have "queue_of q (write_pte a v s) = queue_of q s" for q by (cases q) simp_all
  then show ?thesis by (intro pfndb_cong) simp_all
qed

text \<open>Updating fields the database does not depend on.\<close>

definition same_place :: "vm_page \<Rightarrow> vm_page \<Rightarrow> bool" where
  "same_place pg pg' \<longleftrightarrow> pfn pg' = pfn pg \<and> use pg' = use pg \<and> dirty pg' = dirty pg \<and> refcnt pg' = refcnt pg"

lemma pfndb_page_update:
  assumes "pfndb s" and "p < SOFT_NPAGES" and "same_place (mypages s p) (f (mypages s p))"
  shows "pfndb (page_update p f s)"
proof (rule pfndbI [OF assms(1,2), where w = "place (mypages s p)" and w' = "place (mypages s p)"])
  show "mypages (page_update p f s) = (mypages s)(p := f (mypages s p))" by simp
  show "place (f (mypages s p)) = place (mypages s p)"
    using assms(3) by (simp add: same_place_def place_def)
  show "page_wf p (f (mypages s p))"
    using assms by (auto simp: same_place_def page_wf_def pfndb_def)
qed (use assms(1) in \<open>auto simp: pfndb_def\<close>)

text \<open>The invariant depends on the page records and the working set list only.\<close>

lemma tables_ok_cong:
  assumes "mypages t = mypages s" and "procs t = procs s" and "SOFT_pages_base t = SOFT_pages_base s"
  shows "tables_ok ps t = tables_ok ps s"
proof -
  have "table_entry p t = table_entry p s" for p by (rule table_entry_cong) (use assms in simp_all)
  then have "table_ok ps t p = table_ok ps s p" for p
    using assms by (simp add: table_ok_def page_is_root_table_def cong: if_cong)
  then show ?thesis using assms by (simp add: tables_ok_def table_of_def low_base_def)
qed

lemma tables_ok_write_pte [simp]: "tables_ok ps (write_pte a v s) = tables_ok ps s"
  by (rule tables_ok_cong) simp_all

lemma table_okD:
  assumes "tables_ok ps s" and "table_of ps s p"
  shows "table_ok ps s p" and "wsl_ok (wsl (procs s ps))" and "low_base s"
  using assms by (auto simp: tables_ok_def table_of_def)

section \<open>Locking and unlocking the entry of a table\<close>

lemma lock_table_ok:
  assumes "pfndb s" and "wsl_ok (wsl (procs s ps))" and "low_base s" and "p < SOFT_NPAGES"
    and "table_entry p s \<in> set (wsl_queue (wsl (procs s ps)))"
  obtains t where "vmp_wsl_lock_entry ps (page_vaddr p s) s = Ok t" and "tables_frame ps s t"
    and "mypages t = mypages s" and "pfndb t" and "wsl_ok (wsl (procs t ps))"
    and "set (wsl_queue (wsl (procs t ps))) = set (wsl_queue (wsl (procs s ps))) - {table_entry p s}"
    and "locked_entries (wsl (procs t ps)) = insert (table_entry p s) (locked_entries (wsl (procs s ps)))"
proof -
  let ?w = "wsl (procs s ps)" and ?e = "table_entry p s"
  let ?l = "?w\<lparr>wsl_queue := remove1 ?e (wsl_queue ?w), nlocked := nlocked ?w + 1\<rparr>"
  note l = wsl_lock_ok [OF assms(2) page_vaddr_low [OF assms(1,3,4)] assms(5)]
  have v: "wsle_vaddr ?e = page_vaddr p s" by (simp add: table_entry_def)
  show thesis
  proof (rule that [of "wsl_update_ps ps (\<lambda>_. ?l) s"])
    show "vmp_wsl_lock_entry ps (page_vaddr p s) s = Ok (wsl_update_ps ps (\<lambda>_. ?l) s)"
      using l(1) [OF v] by (simp add: vmp_wsl_lock_entry_def on_wsl_def)
    show "tables_frame ps s (wsl_update_ps ps (\<lambda>_. ?l) s)"
      by (auto simp: tables_frame_def data_queue_def table_entry_def filter_remove1 remove1_idem)
    show "set (wsl_queue (wsl (procs (wsl_update_ps ps (\<lambda>_. ?l) s) ps))) = set (wsl_queue ?w) - {?e}"
      using wsl_okD(2) [OF assms(2)] by simp
    show "locked_entries (wsl (procs (wsl_update_ps ps (\<lambda>_. ?l) s) ps)) = insert ?e (locked_entries ?w)"
      using wsl_okD(2,3) [OF assms(2)] assms(5) by (auto simp: locked_entries_def)
  qed (use l(2) [OF v] assms(1) in simp_all)
qed

lemma unlock_table_ok:
  assumes "pfndb s" and "wsl_ok (wsl (procs s ps))" and "low_base s" and "p < SOFT_NPAGES"
    and "table_entry p s \<in> locked_entries (wsl (procs s ps))"
  obtains t where "vmp_wsl_unlock_entry ps (page_vaddr p s) s = Ok t" and "tables_frame ps s t"
    and "mypages t = mypages s" and "pfndb t" and "wsl_ok (wsl (procs t ps))"
    and "set (wsl_queue (wsl (procs t ps))) = insert (table_entry p s) (set (wsl_queue (wsl (procs s ps))))"
    and "locked_entries (wsl (procs t ps)) = locked_entries (wsl (procs s ps)) - {table_entry p s}"
proof -
  let ?w = "wsl (procs s ps)" and ?e = "table_entry p s"
  let ?l = "?w\<lparr>wsl_queue := wsl_queue ?w @ [?e], nlocked := nlocked ?w - 1\<rparr>"
  note l = wsl_unlock_ok [OF assms(2) page_vaddr_low [OF assms(1,3,4)] assms(5)]
  have v: "wsle_vaddr ?e = page_vaddr p s" by (simp add: table_entry_def)
  show thesis
  proof (rule that [of "wsl_update_ps ps (\<lambda>_. ?l) s"])
    show "vmp_wsl_unlock_entry ps (page_vaddr p s) s = Ok (wsl_update_ps ps (\<lambda>_. ?l) s)"
      using l(1) [OF v] by (simp add: vmp_wsl_unlock_entry_def on_wsl_def)
    show "tables_frame ps s (wsl_update_ps ps (\<lambda>_. ?l) s)"
      by (auto simp: tables_frame_def data_queue_def table_entry_def filter_remove1 remove1_idem)
    show "locked_entries (wsl (procs (wsl_update_ps ps (\<lambda>_. ?l) s) ps)) = locked_entries ?w - {?e}"
      by (auto simp: locked_entries_def)
  qed (use l(2) [OF v] assms(1) in simp_all)
qed

text \<open>Changing the record of one table page: every other table keeps its invariant when its entry
  stays where it is in the working set.\<close>

lemma tables_okI:
  assumes s: "tables_ok ps s" "pfndb s" and p: "table_of ps s p"
    and t: "mypages t = (mypages s)(p := pg)" "pfn pg = pfn (mypages s p)"
      and b: "SOFT_pages_base t = SOFT_pages_base s"
    and w: "wsl_ok (wsl (procs t ps))"
    and e: "\<forall>e. e \<noteq> table_entry p s \<longrightarrow>
       (e \<in> set (wsl_queue (wsl (procs t ps))) \<longleftrightarrow> e \<in> set (wsl_queue (wsl (procs s ps)))) \<and>
       (e \<in> locked_entries (wsl (procs t ps)) \<longleftrightarrow> e \<in> locked_entries (wsl (procs s ps)))"
    and ok: "table_of ps t p \<Longrightarrow> table_ok ps t p"
  shows "tables_ok ps t"
  unfolding tables_ok_def
proof (intro conjI allI impI w)
  show "low_base t" using s(1) b by (simp add: tables_ok_def low_base_def)
  fix q assume q: "q < SOFT_NPAGES" "table_of ps t q"
  show "table_ok ps t q"
  proof (cases "q = p")
    case True with ok q show ?thesis by simp
  next
    case False
    have "table_entry q t = table_entry q s"
      using False t(1,2) b by (intro table_entry_cong) auto
    moreover have "table_entry q s \<noteq> table_entry p s"
      using table_entry_inj [OF s(2), of q p] False q p by (auto simp: table_of_def)
    moreover have "table_ok ps s q"
      using table_okD(1) [OF s(1), of q] q(2) False t(1) by (simp add: table_of_def)
    ultimately show ?thesis
      using False t(1) e by (auto simp: table_ok_def page_is_root_table_def split: if_splits)
  qed
qed

abbreviation one_if :: "bool \<Rightarrow> uint16_t" where
  "one_if b \<equiv> (if b then 1 else 0)"

lemma table_use:
  assumes "table_of ps s p"
  shows "p < SOFT_NPAGES" and "use (mypages s p) \<noteq> kPageUseFree" and "use (mypages s p) \<noteq> kPageUseDeleted"
  using assms by (auto simp: table_of_def is_table_def)

lemma small_count:
  assumes "(n :: uint16_t) < 0x8000"
  shows "n + 1 \<noteq> 0" and "n + 1 + 1 \<noteq> 0"
proof -
  have "unat n < 0x8000" using assms by (simp add: word_less_nat_alt)
  then have "unat (n + 1) = unat n + 1" and "unat (n + 1 + 1) = unat n + 2"
    by (simp_all add: unat_word_ariths(1))
  then show "n + 1 \<noteq> 0" and "n + 1 + 1 \<noteq> 0" by (metis add_is_0 one_neq_zero unsigned_0,
      metis add_is_0 unsigned_0 zero_neq_numeral)
qed

lemma nonswap_created_ok:
  assumes s: "pfndb s" "tables_ok ps s" "table_of ps s p"
    and room: "nonswap_ptes (mypages s p) + 1 < 0x8000"
  obtains t where "vmp_pagetable_page_nonswap_pte_created ps p is_new s = Ok t"
    and "pfndb t" and "tables_ok ps t" and "tables_frame ps s t"
    and "mypages t = (mypages s)(p := (mypages s p)\<lparr>refcnt := refcnt (mypages s p) + 1,
        nonzero_ptes := nonzero_ptes (mypages s p) + one_if is_new,
        nonswap_ptes := nonswap_ptes (mypages s p) + 1\<rparr>)"
proof -
  let ?pg = "mypages s p" and ?W = "\<lambda>s. wsl (procs s ps)"
  note T = table_okD [OF s(2,3)] and u = table_use [OF s(3)]
  have n: "nonswap_ptes ?pg < 0x8000" "refcnt ?pg = nonswap_ptes ?pg + 1"
    using T(1) by (auto simp: table_ok_def)
  have no_wrap: "refcnt ?pg + 1 \<noteq> 0" and nz: "nonswap_ptes ?pg + 1 \<noteq> 0"
    using small_count [OF n(1)] n(2) by simp_all
  obtain r where r: "vmp_page_retain_locked p s = Ok r" "pfndb r"
    "mypages r = (mypages s)(p := bump_ref ?pg)" "rest_unchanged s r"
    using retain_ok [OF s(1) u(1,2) no_wrap] u(3) by blast
  let ?f = "\<lambda>pg. pg\<lparr>nonzero_ptes := nonzero_ptes pg + one_if is_new\<rparr>"
    and ?g = "\<lambda>pg. pg\<lparr>nonswap_ptes := nonswap_ptes pg + 1\<rparr>"
  let ?r = "page_update p ?g (page_update p ?f r)"
  have r2: "pfndb ?r" using r u by (intro pfndb_page_update) (auto simp: same_place_def)
  have fr: "tables_frame ps s ?r" using tables_frameI_rest [OF r(4)] by simp
  have w: "?W ?r = ?W s" "SOFT_pages_base ?r = SOFT_pages_base s" using r(4) by (simp_all add: rest_unchanged_def)
  have pg: "mypages ?r = (mypages s)(p := ?pg\<lparr>refcnt := refcnt ?pg + 1,
        nonzero_ptes := nonzero_ptes ?pg + one_if is_new, nonswap_ptes := nonswap_ptes ?pg + 1\<rparr>)"
    using r(3) by simp
  have lb: "low_base ?r" using T(3) w by (simp add: low_base_def)
  have te: "table_entry p t = table_entry p s" if "mypages t = mypages ?r" "SOFT_pages_base t = SOFT_pages_base s" for t
    using that pg w by (intro table_entry_cong) auto
  have code: "vmp_pagetable_page_nonswap_pte_created ps p is_new s =
      (if nonswap_ptes ?pg = 0 \<and> \<not> page_is_root_table p ?r then vmp_wsl_lock_entry ps (page_vaddr p ?r) ?r
       else Ok ?r)"
  proof -
    have "(if is_new then page_update p (\<lambda>pg. pg\<lparr>nonzero_ptes := nonzero_ptes pg + 1\<rparr>) r else r) = page_update p ?f r"
      by (simp add: page_update_def)
    then show ?thesis
      unfolding vmp_pagetable_page_nonswap_pte_created_def r(1) bnd.simps Let_def using r(3) by simp
  qed
  have root: "page_is_root_table p t = page_is_root_table p s" if "mypages t = mypages ?r" for t
    using that pg by (simp add: page_is_root_table_def)
  show thesis
  proof (cases "nonswap_ptes ?pg = 0 \<and> \<not> page_is_root_table p s")
    case True
    then have q: "table_entry p ?r \<in> set (wsl_queue (?W ?r))"
      using T(1) w te [of ?r] by (auto simp: table_ok_def)
    obtain t where t: "vmp_wsl_lock_entry ps (page_vaddr p ?r) ?r = Ok t" "tables_frame ps ?r t"
      "mypages t = mypages ?r" "pfndb t" "wsl_ok (?W t)"
      "set (wsl_queue (?W t)) = set (wsl_queue (?W ?r)) - {table_entry p ?r}"
      "locked_entries (?W t) = insert (table_entry p ?r) (locked_entries (?W ?r))"
      by (rule lock_table_ok [OF r2 _ lb u(1) q]) (use T(2) w in simp)
    have b: "SOFT_pages_base t = SOFT_pages_base s" using t(2) w by (simp add: tables_frame_def)
    have f: "tables_frame ps s t" by (rule tables_frame_trans [OF fr t(2)])
    have ok: "table_ok ps t p"
      using n nz room t(7) te [OF t(3) b] te [of ?r] w t(3) pg unfolding table_ok_def by simp
    have "tables_ok ps t"
    proof (rule tables_okI [OF s(2,1,3) t(3) [unfolded pg] _ b t(5) _ ok])
      show "\<forall>e. e \<noteq> table_entry p s \<longrightarrow>
         (e \<in> set (wsl_queue (?W t)) \<longleftrightarrow> e \<in> set (wsl_queue (?W s))) \<and>
         (e \<in> locked_entries (?W t) \<longleftrightarrow> e \<in> locked_entries (?W s))"
        using t(6,7) te [of ?r] w by simp
    qed simp
    then show thesis using that [of t] code True t root [of ?r] pg f by simp
  next
    case False
    have ok: "table_ok ps ?r p"
      using n nz room False T(1) root [of ?r] te [of ?r] w pg unfolding table_ok_def by auto
    have "tables_ok ps ?r"
      by (rule tables_okI [OF s(2,1,3) pg _ w(2) _ _ ok]) (use w T(2) in simp_all)
    then show thesis using that [of ?r] code False root [of ?r] pg fr r2 by simp
  qed
qed

text \<open>An entry that is no longer in core gives its reference back; with the last one the table becomes
  evictable. Both ways of losing an entry share this step.\<close>

lemma nonswap_dropped_ok:
  assumes s: "pfndb s" "tables_ok ps s" "table_of ps s p" and nz: "nonswap_ptes (mypages s p) \<noteq> 0"
    and f: "same_place (mypages s p) (f (mypages s p))" "process (f (mypages s p)) = process (mypages s p)"
      "nonswap_ptes (f (mypages s p)) = nonswap_ptes (mypages s p) - 1"
  obtains t where
    "bnd (if nonswap_ptes (mypages s p) = 1 \<and> \<not> page_is_root_table p (page_update p f s)
          then vmp_wsl_unlock_entry ps (page_vaddr p (page_update p f s)) (page_update p f s)
          else Ok (page_update p f s)) (vmp_page_release_locked p) = Ok t"
    and "pfndb t" and "tables_ok ps t" and "tables_frame ps s t"
    and "mypages t = (mypages s)(p := drop_ref (f (mypages s p)))"
proof -
  let ?pg = "mypages s p" and ?W = "\<lambda>s. wsl (procs s ps)" and ?r = "page_update p f s"
  note T = table_okD [OF s(2,3)] and u = table_use [OF s(3)]
  have n: "nonswap_ptes ?pg < 0x8000" "refcnt ?pg = nonswap_ptes ?pg + 1"
    using T(1) by (auto simp: table_ok_def)
  have r: "pfndb ?r" "low_base ?r" using pfndb_page_update [of s p f] s(1) u(1) f(1) T(3) by (simp_all add: low_base_def)
  have sp: "pfn (f ?pg) = pfn ?pg" "use (f ?pg) = use ?pg" "refcnt (f ?pg) = refcnt ?pg"
    using f(1) by (simp_all add: same_place_def)
  have te: "table_entry p t = table_entry p s"
    if "pfn (mypages t p) = pfn ?pg" "SOFT_pages_base t = SOFT_pages_base s" for t
    using that by (intro table_entry_cong) auto
  define b where "b \<longleftrightarrow> nonswap_ptes ?pg = 1 \<and> \<not> page_is_root_table p s"
  have root: "page_is_root_table p ?r = page_is_root_table p s" by (simp add: page_is_root_table_def sp)
  obtain v where v: "(if b then vmp_wsl_unlock_entry ps (page_vaddr p ?r) ?r else Ok ?r) = Ok v"
    "tables_frame ps s v" "mypages v = mypages ?r" "pfndb v" "wsl_ok (?W v)"
    "set (wsl_queue (?W v)) = (if b then insert (table_entry p s) (set (wsl_queue (?W s))) else set (wsl_queue (?W s)))"
    "locked_entries (?W v) = (if b then locked_entries (?W s) - {table_entry p s} else locked_entries (?W s))"
  proof (cases b)
    case True
    have l: "table_entry p ?r \<in> locked_entries (?W ?r)"
      using True T(1) te [of ?r] sp by (simp add: b_def table_ok_def)
    obtain v where "vmp_wsl_unlock_entry ps (page_vaddr p ?r) ?r = Ok v" "tables_frame ps ?r v"
      "mypages v = mypages ?r" "pfndb v" "wsl_ok (?W v)"
      "set (wsl_queue (?W v)) = insert (table_entry p ?r) (set (wsl_queue (?W ?r)))"
      "locked_entries (?W v) = locked_entries (?W ?r) - {table_entry p ?r}"
      by (rule unlock_table_ok [OF r(1) _ r(2) u(1) l]) (use T(2) in simp)
    then show thesis
      using that [of v] True te [of ?r] sp by simp
  next
    case False
    then show thesis using that [of ?r] r T(2) by simp
  qed
  have pv: "mypages v p = f ?pg" using v(3) by simp
  have ref: "refcnt (f ?pg) \<noteq> 0" "refcnt (f ?pg) \<noteq> 1"
    using n nz small_count [OF n(1)] sp by auto
  obtain t where t: "vmp_page_release_locked p v = Ok t" "pfndb t" "rest_unchanged v t"
    "mypages t = (mypages v)(p := released (mypages v p))"
    using release_ok [OF v(4) u(1)] pv ref u(2) sp by metis
  have pt: "mypages t = (mypages s)(p := drop_ref (f ?pg))"
    using t(4) ref v(3) by (simp add: released_def)
  have wt: "?W t = ?W v" "SOFT_pages_base t = SOFT_pages_base s"
    using t(3) v(2) by (simp_all add: rest_unchanged_def tables_frame_def)
  have fr: "tables_frame ps s t" by (rule tables_frame_trans [OF v(2) tables_frameI_rest [OF t(3)]])
  have small: "nonswap_ptes ?pg - 1 < 0x8000"
    using n(1) nz by (metis less_trans measure_unat unat_mono word_less_nat_alt)
  have ok: "table_ok ps t p"
    using T(1) n nz small te [of t] wt(2) pt sp f(3) v(6,7)
    unfolding table_ok_def wt(1) by (auto simp: b_def page_is_root_table_def split: if_splits)
  have "tables_ok ps t"
    by (rule tables_okI [OF s(2,1,3) pt _ wt(2) _ _ ok]) (use sp wt v(5,6,7) in simp_all)
  then show thesis using that [of t] v(1) t pt fr by (simp add: b_def root)
qed

lemma became_swap_ok:
  assumes s: "pfndb s" "tables_ok ps s" "table_of ps s p" and nz: "nonswap_ptes (mypages s p) \<noteq> 0"
  obtains t where "vmp_pagetable_page_pte_became_swap ps p s = Ok t"
    and "pfndb t" and "tables_ok ps t" and "tables_frame ps s t"
    and "mypages t = (mypages s)(p := (mypages s p)\<lparr>nonswap_ptes := nonswap_ptes (mypages s p) - 1,
       refcnt := refcnt (mypages s p) - 1\<rparr>)"
  by (rule nonswap_dropped_ok [OF s nz, of "\<lambda>pg. pg\<lparr>nonswap_ptes := nonswap_ptes pg - 1\<rparr>"])
    (use that in \<open>simp_all add: same_place_def vmp_pagetable_page_pte_became_swap_def Let_def\<close>)

lemma pte_deleted_ok:
  assumes s: "pfndb s" "tables_ok ps s" "table_of ps s p" and nz: "nonswap_ptes (mypages s p) \<noteq> 0"
    and more: "nonzero_ptes (mypages s p) \<noteq> 1 \<or> page_is_root_table p s"
  obtains t where "vmp_pagetable_page_pte_deleted ps p False s = Ok t"
    and "pfndb t" and "tables_ok ps t" and "tables_frame ps s t"
    and "mypages t = (mypages s)(p := (mypages s p)\<lparr>nonzero_ptes := nonzero_ptes (mypages s p) - 1,
       nonswap_ptes := nonswap_ptes (mypages s p) - 1, refcnt := refcnt (mypages s p) - 1\<rparr>)"
proof -
  let ?f = "\<lambda>pg. pg\<lparr>nonzero_ptes := nonzero_ptes pg - 1, nonswap_ptes := nonswap_ptes pg - 1\<rparr>"
  have two: "page_update p (\<lambda>pg. pg\<lparr>nonswap_ptes := nonswap_ptes pg - 1\<rparr>)
      (page_update p (\<lambda>pg. pg\<lparr>nonzero_ptes := nonzero_ptes pg - 1\<rparr>) s) = page_update p ?f s"
    by (simp add: page_update_def)
  have root: "page_is_root_table p (page_update p (\<lambda>pg. pg\<lparr>nonzero_ptes := nonzero_ptes pg - 1\<rparr>) s) =
      page_is_root_table p s"
    by (simp add: page_is_root_table_def)
  obtain t where "bnd (if nonswap_ptes (mypages s p) = 1 \<and> \<not> page_is_root_table p (page_update p ?f s)
          then vmp_wsl_unlock_entry ps (page_vaddr p (page_update p ?f s)) (page_update p ?f s)
          else Ok (page_update p ?f s)) (vmp_page_release_locked p) = Ok t"
    "pfndb t" "tables_ok ps t" "tables_frame ps s t"
    "mypages t = (mypages s)(p := drop_ref (?f (mypages s p)))"
    by (rule nonswap_dropped_ok [OF s nz, of ?f]) (simp_all add: same_place_def)
  moreover have "vmp_pagetable_page_pte_deleted ps p False s =
      bnd (if nonswap_ptes (mypages s p) = 1 \<and> \<not> page_is_root_table p (page_update p ?f s)
          then vmp_wsl_unlock_entry ps (page_vaddr p (page_update p ?f s)) (page_update p ?f s)
          else Ok (page_update p ?f s)) (vmp_page_release_locked p)"
    unfolding vmp_pagetable_page_pte_deleted.simps [of ps p] Let_def two root
    using more table_use(1) [OF s(3)] by auto
  ultimately show thesis using that by simp
qed

section \<open>Deleting tables\<close>

lemma pfndb_active_update:
  assumes "pfndb s" and "p < SOFT_NPAGES" and "refcnt (mypages s p) \<noteq> 0" and "use (mypages s p) \<noteq> kPageUseFree"
    and "pfn (f (mypages s p)) = pfn (mypages s p)" and "refcnt (f (mypages s p)) \<noteq> 0"
    and "use (f (mypages s p)) \<noteq> kPageUseFree"
  shows "pfndb (page_update p f s)"
proof (rule pfndbI [OF assms(1,2), where w = None and w' = None])
  show "page_wf p (f (mypages s p))"
    using assms by (auto simp: page_wf_def pfndb_def)
qed (use assms in \<open>auto simp: pfndb_def place_def\<close>)

lemma table_leaves_wsl_ok:
  assumes s: "pfndb s" "wsl_ok (wsl (procs s ps))" "low_base s" "p < SOFT_NPAGES"
    and e: "table_entry p s \<in> locked_entries (wsl (procs s ps))" and n: "nonswap_ptes (mypages s p) = 1"
  obtains w where "deleted_table_leaves_wsl ps p s = Ok (wsl_update_ps ps (\<lambda>_. w) s)" and "wsl_ok w"
    and "set (wsl_queue w) = set (wsl_queue (wsl (procs s ps)))"
    and "locked_entries w = locked_entries (wsl (procs s ps)) - {table_entry p s}"
    and "set (entries w) = set (entries (wsl (procs s ps))) - {table_entry p s}"
proof -
  let ?w = "wsl (procs s ps)" and ?e = "table_entry p s"
  note v = page_vaddr_low [OF s(1,3,4)]
  have pv: "wsle_vaddr ?e = page_vaddr p s" by (simp add: table_entry_def)
  let ?l = "?w\<lparr>wsl_queue := wsl_queue ?w @ [?e], nlocked := nlocked ?w - 1\<rparr>"
  note ul = wsl_unlock_ok [OF s(2) v e pv]
  have eq: "?e \<in> set (wsl_queue ?l)" by simp
  have nq: "?e \<notin> set (wsl_queue ?w)" using e by (simp add: locked_entries_def)
  obtain tr where tr: "wsl_remove (page_vaddr p s) ?l =
      Ok (?l\<lparr>wsl_tree := tr, wsl_queue := remove1 ?e (wsl_queue ?l)\<rparr>)"
    "wsl_ok (?l\<lparr>wsl_tree := tr, wsl_queue := remove1 ?e (wsl_queue ?l)\<rparr>)"
    "set (inorder tr) = set (entries ?l) - {?e}"
    by (rule wsl_remove_ok [OF ul(2) v eq pv])
  let ?r = "?l\<lparr>wsl_tree := tr, wsl_queue := remove1 ?e (wsl_queue ?l)\<rparr>"
  show thesis
  proof (rule that [of ?r])
    have "page_vaddr p (wsl_update_ps ps (\<lambda>_. ?l) s) = page_vaddr p s" by (rule page_vaddr_cong) simp_all
    then show "deleted_table_leaves_wsl ps p s = Ok (wsl_update_ps ps (\<lambda>_. ?r) s)"
      using n ul(1) tr(1)
      by (simp add: deleted_table_leaves_wsl_def vmp_wsl_unlock_entry_def vmp_wsl_remove_def on_wsl_def
          wsl_update_ps_def)
    show "wsl_ok ?r" by (rule tr(2))
    show "set (wsl_queue ?r) = set (wsl_queue ?w)" using nq by (simp add: remove1_append)
    then show "locked_entries ?r = locked_entries ?w - {?e}" using tr(3) by (auto simp: locked_entries_def)
    show "set (entries ?r) = set (entries ?w) - {?e}" using tr(3) by simp
  qed
qed

lemma tables_ok_other:
  assumes "tables_ok ps s" and "\<forall>q. q \<noteq> p \<longrightarrow> mypages t q = mypages s q" and "\<not> table_of ps t p"
    and "procs t = procs s" and "SOFT_pages_base t = SOFT_pages_base s"
  shows "tables_ok ps t"
proof -
  have "table_ok ps t q" if q: "q < SOFT_NPAGES" "table_of ps t q" for q
  proof -
    have qp: "q \<noteq> p" using q(2) assms(3) by auto
    have "table_ok ps s q" using table_okD(1) [OF assms(1), of q] q(2) qp assms(2) by (simp add: table_of_def)
    moreover have "table_entry q t = table_entry q s" by (rule table_entry_cong) (use qp assms in auto)
    ultimately show ?thesis using qp assms(2,4) by (auto simp: table_ok_def page_is_root_table_def split: if_splits)
  qed
  with assms show ?thesis by (simp add: tables_ok_def low_base_def)
qed

text \<open>A path of tables that hang on their only entry: \<open>path\<close> are the tables that will go, each referred
  to by the first entry of the next, and \<open>d\<close> is the table that survives.\<close>

fun del_chain :: "nat \<Rightarrow> vmm \<Rightarrow> page_ptr list \<Rightarrow> page_ptr \<Rightarrow> bool" where
  "del_chain ps s [] d \<longleftrightarrow> table_of ps s d \<and> nonswap_ptes (mypages s d) \<noteq> 0 \<and>
     (nonzero_ptes (mypages s d) \<noteq> 1 \<or> page_is_root_table d s)"
| "del_chain ps s (p # path) d \<longleftrightarrow> table_of ps s p \<and> \<not> page_is_root_table p s \<and>
     nonzero_ptes (mypages s p) = 1 \<and> nonswap_ptes (mypages s p) = 1 \<and>
     referent_pte (mypages s p) = hd (path @ [d]) * PGSIZE \<and>
     vmp_pte_characterise (SOFT_pages s (referent_pte (mypages s p))) \<in> {Ok kPTEKindValid, Ok kPTEKindTrans} \<and>
     del_chain ps s path d"

lemma del_chain_cong:
  assumes "\<forall>q\<in>insert d (set path). mypages t q = mypages s q"
    and "\<forall>q\<in>set path. SOFT_pages t (referent_pte (mypages s q)) = SOFT_pages s (referent_pte (mypages s q))"
  shows "del_chain ps t path d = del_chain ps s path d"
  using assms by (induction path) (auto simp: table_of_def page_is_root_table_def)

lemma del_chain_member:
  "del_chain ps s path d \<Longrightarrow> q \<in> set path \<Longrightarrow> \<exists>r\<in>set (tl path @ [d]). referent_pte (mypages s q) = r * PGSIZE"
proof (induction path)
  case (Cons p path)
  show ?case
  proof (cases "q = p")
    case True
    then show ?thesis using Cons.prems by (cases path) auto
  next
    case False
    then obtain r where "r \<in> set (tl path @ [d])" "referent_pte (mypages s q) = r * PGSIZE"
      using Cons by auto
    then show ?thesis by (cases path) auto
  qed
qed simp

lemma del_chain_tables: "del_chain ps s path d \<Longrightarrow> q \<in> set (path @ [d]) \<Longrightarrow> table_of ps s q"
  by (induction path) auto

definition freed :: "vm_page \<Rightarrow> vm_page" where
  "freed pg = pg\<lparr>nonzero_ptes := 0, nonswap_ptes := 0, referent_pte := 0, refcnt := 0, use := kPageUseFree\<rparr>"

definition entry_lost :: "vm_page \<Rightarrow> vm_page" where
  "entry_lost pg = pg\<lparr>nonzero_ptes := nonzero_ptes pg - 1, nonswap_ptes := nonswap_ptes pg - 1,
     refcnt := refcnt pg - 1\<rparr>"

text \<open>Deleting the last entry of a deleted page whose two references are dropped frees it.\<close>

lemma release_deleted_twice:
  assumes "pfndb s" and "p < SOFT_NPAGES" and "use (mypages s p) = kPageUseDeleted" and "refcnt (mypages s p) = 2"
  obtains t where "bnd (vmp_page_release_locked p s) (vmp_page_release_locked p) = Ok t" and "pfndb t"
    and "rest_unchanged s t"
    and "mypages t = (mypages s)(p := (mypages s p)\<lparr>refcnt := 0, use := kPageUseFree\<rparr>)"
proof -
  obtain u where u: "vmp_page_release_locked p s = Ok u" "pfndb u" "rest_unchanged s u"
    "mypages u = (mypages s)(p := released (mypages s p))"
    by (rule release_ok [OF assms(1,2)]) (use assms in auto)
  have pu: "refcnt (mypages u p) = 1" "use (mypages u p) = kPageUseDeleted"
    using u(4) assms by (simp_all add: released_def)
  obtain t where t: "vmp_page_release_locked p u = Ok t" "pfndb t" "rest_unchanged u t"
    "mypages t = (mypages u)(p := released (mypages u p))"
    by (rule release_ok [OF u(2) assms(2)]) (use pu in auto)
  have "mypages t = (mypages s)(p := (mypages s p)\<lparr>refcnt := 0, use := kPageUseFree\<rparr>)"
    using t(4) u(4) assms pu by (simp add: released_def)
  with that [of t] u t rest_unchanged_trans show thesis by auto
qed

definition del_result :: "nat \<Rightarrow> vmm \<Rightarrow> page_ptr list \<Rightarrow> page_ptr \<Rightarrow> vmm \<Rightarrow> bool" where
  "del_result ps s path d t \<longleftrightarrow> pfndb t \<and> tables_ok ps t \<and>
     mypages t = (\<lambda>q. if q \<in> set path then freed (mypages s q)
                      else if q = d then entry_lost (mypages s q) else mypages s q) \<and>
     SOFT_pages t = (\<lambda>a. if a \<in> (\<lambda>q. referent_pte (mypages s q)) ` set path then 0 else SOFT_pages s a) \<and>
     SOFT_pages_base t = SOFT_pages_base s \<and>
     set (entries (wsl (procs t ps))) = set (entries (wsl (procs s ps))) - (\<lambda>q. table_entry q s) ` set path"

text \<open>The first half of a deletion: the page is marked deleted and leaves the working set, and the
  entry that refers to it is zeroed.\<close>

lemma delete_table_step:
  assumes s: "pfndb s" "tables_ok ps s" and c: "del_chain ps s (p # path) d" and dist: "distinct (p # path @ [d])"
  obtains s2 where "deleted_table_leaves_wsl ps p
      (page_update p (\<lambda>pg. pg\<lparr>use := kPageUseDeleted\<rparr>)
        (page_update p (\<lambda>pg. pg\<lparr>nonzero_ptes := nonzero_ptes pg - 1\<rparr>) s)) = Ok s2"
    and "pfndb s2" and "tables_ok ps s2" and "SOFT_pages s2 = SOFT_pages s"
    and "SOFT_pages_base s2 = SOFT_pages_base s"
    and "mypages s2 = (mypages s)(p := (mypages s p)\<lparr>nonzero_ptes := 0, use := kPageUseDeleted\<rparr>)"
    and "set (entries (wsl (procs s2 ps))) = set (entries (wsl (procs s ps))) - {table_entry p s}"
proof -
  let ?pg = "mypages s p" and ?W = "\<lambda>s. wsl (procs s ps)"
  let ?r = "page_update p (\<lambda>pg. pg\<lparr>use := kPageUseDeleted\<rparr>)
        (page_update p (\<lambda>pg. pg\<lparr>nonzero_ptes := nonzero_ptes pg - 1\<rparr>) s)"
  have p: "table_of ps s p" "\<not> page_is_root_table p s" "nonzero_ptes ?pg = 1" "nonswap_ptes ?pg = 1"
    using c by auto
  note T = table_okD [OF s(2) p(1)] and u = table_use [OF p(1)]
  have ref: "refcnt ?pg = 2" using T(1) p(4) by (simp add: table_ok_def)
  have r: "pfndb ?r"
    by (intro pfndb_active_update s) (use u ref in auto)
  have te: "table_entry p ?r = table_entry p s" by (rule table_entry_cong) simp_all
  have l: "table_entry p ?r \<in> locked_entries (?W ?r)"
    using T(1) p te by (simp add: table_ok_def)
  obtain w where w: "deleted_table_leaves_wsl ps p ?r = Ok (wsl_update_ps ps (\<lambda>_. w) ?r)" "wsl_ok w"
    "set (wsl_queue w) = set (wsl_queue (?W ?r))"
    "locked_entries w = locked_entries (?W ?r) - {table_entry p ?r}"
    "set (entries w) = set (entries (?W ?r)) - {table_entry p ?r}"
    by (rule table_leaves_wsl_ok [OF r _ _ u(1) l]) (use T p in \<open>simp_all add: low_base_def\<close>)
  let ?s2 = "wsl_update_ps ps (\<lambda>_. w) ?r"
  have m: "mypages ?s2 = (mypages s)(p := ?pg\<lparr>nonzero_ptes := 0, use := kPageUseDeleted\<rparr>)"
    using p(3) by simp
  have "tables_ok ps ?s2"
    by (rule tables_okI [OF s(2,1) p(1) m]) (use w te in \<open>simp_all add: table_of_def is_table_def\<close>)
  with that [OF w(1)] r m w(5) te show thesis by simp
qed

lemma pte_deleted_chain:
  assumes "pfndb s" and "tables_ok ps s" and "del_chain ps s path d" and "distinct (path @ [d])"
  shows "\<exists>t. vmp_pagetable_page_pte_deleted ps (hd (path @ [d])) False s = Ok t \<and> del_result ps s path d t"
  using assms
proof (induction path arbitrary: s)
  case Nil
  then obtain t where t: "vmp_pagetable_page_pte_deleted ps d False s = Ok t" "pfndb t" "tables_ok ps t"
    "tables_frame ps s t" "mypages t = (mypages s)(d := entry_lost (mypages s d))"
    using pte_deleted_ok [of s ps d] by (auto simp: entry_lost_def)
  moreover have "entries (wsl (procs t ps)) = entries (wsl (procs s ps))"
    using t(4) by (auto simp: tables_frame_def)
  ultimately show ?case by (auto simp: del_result_def tables_frame_def)
next
  case (Cons p path)
  let ?pg = "mypages s p" and ?n = "hd (path @ [d])"
  have c: "del_chain ps s path d" "table_of ps s p" "\<not> page_is_root_table p s" "nonzero_ptes ?pg = 1"
    "nonswap_ptes ?pg = 1" "referent_pte ?pg = ?n * PGSIZE"
    "vmp_pte_characterise (SOFT_pages s (referent_pte ?pg)) \<in> {Ok kPTEKindValid, Ok kPTEKindTrans}"
    using Cons.prems(3) by auto
  note u = table_use [OF c(2)]
  have n: "?n < SOFT_NPAGES"
    using del_chain_tables [OF c(1), of ?n] by (cases path) (auto simp: table_of_def)
  obtain s2 where s2: "deleted_table_leaves_wsl ps p
      (page_update p (\<lambda>pg. pg\<lparr>use := kPageUseDeleted\<rparr>)
        (page_update p (\<lambda>pg. pg\<lparr>nonzero_ptes := nonzero_ptes pg - 1\<rparr>) s)) = Ok s2"
    "pfndb s2" "tables_ok ps s2" "SOFT_pages s2 = SOFT_pages s" "SOFT_pages_base s2 = SOFT_pages_base s"
    "mypages s2 = (mypages s)(p := ?pg\<lparr>nonzero_ptes := 0, use := kPageUseDeleted\<rparr>)"
    "set (entries (wsl (procs s2 ps))) = set (entries (wsl (procs s ps))) - {table_entry p s}"
    by (rule delete_table_step [OF Cons.prems(1-3)]) (use Cons.prems(4) in simp)
  have r2: "referent_pte (mypages s2 p) = ?n * PGSIZE" using s2(6) c(6) by simp
  let ?s2 = "write_pte (?n * PGSIZE) vmp_pte_zero_create s2"
  have ne: "referent_pte (mypages s q) \<noteq> ?n * PGSIZE" if "q \<in> set path" for q
    using del_chain_member [OF c(1) that] that Cons.prems(4) by (cases path) auto
  have "del_chain ps ?s2 path d"
    using c(1) del_chain_cong [of d path ?s2 s ps] s2(4,6) Cons.prems(4) ne by auto
  then obtain s3 where s3: "vmp_pagetable_page_pte_deleted ps ?n False ?s2 = Ok s3"
    "del_result ps ?s2 path d s3"
    using Cons.IH [of ?s2] s2(2,3) Cons.prems(4) by auto
  note D3 = s3(2) [unfolded del_result_def]
  have md: "vmp_md_delete_table_pointers ps ?n (?n * PGSIZE) s2 = Ok s3"
    using c(6,7) s3(1) s2(4) by (auto simp: vmp_md_delete_table_pointers.simps simp del: characterise_valid_iff)
  have p3: "mypages s3 p = ?pg\<lparr>nonzero_ptes := 0, use := kPageUseDeleted\<rparr>"
    using D3 s2(6) Cons.prems(4) by simp
  have ref: "refcnt ?pg = 2"
    using table_okD(1) [OF Cons.prems(2) c(2)] c(5) by (simp add: table_ok_def)
  let ?s3 = "page_update p (\<lambda>pg. pg\<lparr>nonswap_ptes := 0, referent_pte := 0\<rparr>) s3"
  have "pfndb ?s3" by (rule pfndb_active_update) (use D3 p3 u ref in auto)
  then obtain t where t: "bnd (vmp_page_release_locked p ?s3) (vmp_page_release_locked p) = Ok t" "pfndb t"
    "rest_unchanged ?s3 t" "mypages t = (mypages ?s3)(p := (mypages ?s3 p)\<lparr>refcnt := 0, use := kPageUseFree\<rparr>)"
    by (rule release_deleted_twice [where p = p and s = ?s3]) (use u p3 ref in auto)
  have "vmp_pagetable_page_pte_deleted ps p False s = Ok t"
    using t(1) s2(1) md r2 n u(1) c(3,4)
    by (simp add: vmp_pagetable_page_pte_deleted.simps [of ps p] page_is_root_table_def Let_def)
  moreover have "tables_ok ps t"
    by (rule tables_ok_other [of ps s3 p])
      (use D3 t(3,4) in \<open>auto simp: rest_unchanged_def table_of_def is_table_def\<close>)
  moreover have "mypages t = (\<lambda>q. if q \<in> set (p # path) then freed (mypages s q)
                      else if q = d then entry_lost (mypages s q) else mypages s q)"
    using D3 t(4) p3 s2(6) Cons.prems(4) by (auto simp: freed_def fun_eq_iff)
  moreover have "SOFT_pages t = (\<lambda>a. if a \<in> (\<lambda>q. referent_pte (mypages s q)) ` set (p # path) then 0
      else SOFT_pages s a)"
    using D3 t(3) s2(4,6) c(6) Cons.prems(4)
    by (auto simp: fun_eq_iff rest_unchanged_def vmp_pte_zero_create_def)
  moreover have "set (entries (wsl (procs t ps))) =
      set (entries (wsl (procs s ps))) - (\<lambda>q. table_entry q s) ` set (p # path)"
  proof -
    have "table_entry q ?s2 = table_entry q s" for q
      by (rule table_entry_cong) (use s2(5,6) in auto)
    then show ?thesis using D3 t(3) s2(7) by (auto simp: rest_unchanged_def)
  qed
  ultimately show ?case
    using t(2,3) D3 s2(5) by (auto simp: del_result_def rest_unchanged_def)
qed

section \<open>Properties of table accounting\<close>

text \<open>Three tables below the root, each with one entry, which is the first of its table: the leaf is
  page 3, its directories are pages 2 and 1, and the root, page 0, is wired besides.\<close>

definition sample_table_page :: "page_ptr \<Rightarrow> vm_page" where
  "sample_table_page p =
     (if p = 0 then zero_page\<lparr>use := kPageUsePML4, refcnt := 3, nonzero_ptes := 2, nonswap_ptes := 2\<rparr>
      else if p \<le> 3 then zero_page\<lparr>pfn := of_nat p, use := use_of_level (4 - p), refcnt := 2,
        nonzero_ptes := 1, nonswap_ptes := 1, referent_pte := (p - 1) * PGSIZE\<rparr>
      else zero_page\<lparr>pfn := of_nat p, use := kPageUseFree\<rparr>)"

definition sample_tables :: vmm where
  "sample_tables = (boot_state 0x10000)
     \<lparr>mypages := sample_table_page,
      SOFT_pages := (\<lambda>a. if a = 0 then vmp_pte_hw_create 1 True
         else if a = PGSIZE then vmp_pte_hw_create 2 True
         else if a = 2 * PGSIZE then vmp_pte_hw_create 3 True else 0),
      free_pgq := [4..<SOFT_NPAGES],
      vmstat := \<lparr>nfree = 28, nmodified = 0, nstandby = 0, nactive = 4, ntotal = 0\<rparr>,
      procs := (\<lambda>_. zero_process\<lparr>wsl := \<lparr>wsl_queue = [],
         wsl_tree = Elm False False
           (Elm False False Null \<lparr>wsle_vaddr = 0x11000, is_pagetable = True\<rparr> Null)
           \<lparr>wsle_vaddr = 0x12000, is_pagetable = True\<rparr>
           (Elm False False Null \<lparr>wsle_vaddr = 0x13000, is_pagetable = True\<rparr> Null),
         nlocked = 3, nentries = 3, wsl_max = 4\<rparr>\<rparr>)\<rparr>"

lemma sample_tables_pfndb: "pfndb sample_tables"
proof -
  have pg: "mypages sample_tables = sample_table_page" by (simp add: sample_tables_def)
  have pl: "place (sample_table_page p) = (if p \<le> 3 then None else Some QFree)" for p
    by (simp add: sample_table_page_def place_def zero_page_def use_of_level_def)
  have m: "members (mypages sample_tables) w =
      (if w = None then {..<4} else if w = Some QFree then {4..<32} else {})" for w
    unfolding pg by (auto simp: in_members pl split: if_splits)
  have "distinct (queue_of q sample_tables) \<and>
      set (queue_of q sample_tables) = members (mypages sample_tables) (Some q)" for q
    unfolding m by (cases q) (simp_all add: sample_tables_def boot_state_def del: upt_rec_numeral)
  moreover have "qcount w (vmstat sample_tables) = of_nat (card (members (mypages sample_tables) w))" for w
    unfolding m by (cases "(w, vmstat sample_tables)" rule: qcount.cases) (auto simp: sample_tables_def)
  moreover have "page_wf p (sample_table_page p)" for p
    by (simp add: page_wf_def sample_table_page_def zero_page_def use_of_level_def)
  ultimately show ?thesis
    unfolding pfndb_def pg by simp
qed

lemma sample_tables_simps:
  "mypages sample_tables = sample_table_page" "SOFT_pages_base sample_tables = 0x10000"
  "wsl_queue (wsl (procs sample_tables 0)) = []" "nlocked (wsl (procs sample_tables 0)) = 3"
  "entries (wsl (procs sample_tables 0)) = map (\<lambda>v. \<lparr>wsle_vaddr = v, is_pagetable = True\<rparr>)
     [0x11000, 0x12000, 0x13000]"
  by (simp_all add: sample_tables_def boot_state_def)

lemma sample_tables_ok: "tables_ok 0 sample_tables"
proof -
  have w: "wsl_ok (wsl (procs sample_tables 0))" by code_simp
  have "p \<in> {0, 1, 2, 3}" if "table_of 0 sample_tables p" for p
    using that by (auto simp: sample_tables_simps table_of_def is_table_def sample_table_page_def zero_page_def
        split: if_splits)
  moreover have "table_ok 0 sample_tables p" if "p \<in> {0, 1, 2, 3}" for p
    using that by (auto simp: table_ok_def table_entry_def page_vaddr_page [OF sample_tables_pfndb]
        sample_tables_simps sample_table_page_def zero_page_def locked_entries_def page_is_root_table_def
        use_of_level_def)
  ultimately show ?thesis using w by (simp add: tables_ok_def low_base_def sample_tables_simps)
qed

lemma sample_tables_chain: "del_chain 0 sample_tables [3, 2, 1] 0"
  by (simp add: table_of_def is_table_def page_is_root_table_def sample_tables_simps sample_table_page_def
      zero_page_def use_of_level_def) (simp add: sample_tables_def)



text \<open>Wiring a table page and unwiring it gives the page frame database back unchanged, as long as
  the table has another entry (or is the root, which is never deleted).\<close>

theorem table_wire_unwire:
  assumes "pfndb s" and "tables_ok ps s" and "table_of ps s p"
    and "nonswap_ptes (mypages s p) + 1 < 0x8000"
    and "nonzero_ptes (mypages s p) \<noteq> 0 \<or> page_is_root_table p s"
  shows "\<exists>t u. vmp_pagetable_page_nonswap_pte_created ps p True s = Ok t
    \<and> vmp_pagetable_page_pte_deleted ps p False t = Ok u \<and> pfndb u \<and> tables_ok ps u
    \<and> mypages u = mypages s \<and> SOFT_pages u = SOFT_pages s
    \<and> entries (wsl (procs u ps)) = entries (wsl (procs s ps))"
proof -
  let ?pg = "mypages s p"
  obtain t where t: "vmp_pagetable_page_nonswap_pte_created ps p True s = Ok t" "pfndb t" "tables_ok ps t"
    "tables_frame ps s t"
    "mypages t = (mypages s)(p := ?pg\<lparr>refcnt := refcnt ?pg + 1, nonzero_ptes := nonzero_ptes ?pg + one_if True,
        nonswap_ptes := nonswap_ptes ?pg + 1\<rparr>)"
    by (rule nonswap_created_ok [OF assms(1-4)])
  have n: "nonswap_ptes (mypages t p) \<noteq> 0" "table_of ps t p"
    "nonzero_ptes (mypages t p) \<noteq> 1 \<or> page_is_root_table p t"
    using small_count(1) table_okD(1) [OF assms(2,3)] assms(3,5) t(5)
    by (auto simp: table_ok_def table_of_def page_is_root_table_def)
  obtain u where u: "vmp_pagetable_page_pte_deleted ps p False t = Ok u" "pfndb u" "tables_ok ps u"
    "tables_frame ps t u"
    "mypages u = (mypages t)(p := (mypages t p)\<lparr>nonzero_ptes := nonzero_ptes (mypages t p) - 1,
       nonswap_ptes := nonswap_ptes (mypages t p) - 1, refcnt := refcnt (mypages t p) - 1\<rparr>)"
    by (rule pte_deleted_ok [OF t(2,3) n(2,1,3)])
  have m: "mypages u = mypages s" using t(5) u(5) by (simp add: fun_eq_iff)
  have f: "tables_frame ps s u" by (rule tables_frame_trans [OF t(4) u(4)])
  then have e: "entries (wsl (procs u ps)) = entries (wsl (procs s ps))" and nl: "SOFT_pages u = SOFT_pages s"
    by (auto simp: tables_frame_def)
  with t(1) u m nl show ?thesis by blast
qed

theorem table_wire_unwire_witness:
  "\<exists>t u. vmp_pagetable_page_nonswap_pte_created 0 2 True sample_tables = Ok t
     \<and> vmp_pagetable_page_pte_deleted 0 2 False t = Ok u \<and> mypages u = mypages sample_tables"
proof -
  have "table_of 0 sample_tables 2" using sample_tables_chain by simp
  moreover have "nonswap_ptes (mypages sample_tables 2) = 1" "nonzero_ptes (mypages sample_tables 2) = 1"
    by (simp_all add: sample_tables_simps sample_table_page_def zero_page_def)
  ultimately show ?thesis
    using table_wire_unwire [OF sample_tables_pfndb sample_tables_ok, of 2] by auto
qed

text \<open>C30. For a chain of tables each of which hangs on the first entry of its directory: when the last entry of a
  table goes, the table goes. It is taken out of the working set, the
  entry of the directory that refers to it is zeroed and the page is freed; a directory that loses its
  last entry this way goes too, and so on up to the first table that has another entry, which only
  loses one. The recursion always ends; the memory outside the zeroed entries and the other pages are
  untouched, and the database and accounting invariants hold again at the end. For a table on any
  other entry the code trips an assertion instead, which is the next property.\<close>

theorem deleting_last_entry_frees_tables:
  assumes "pfndb s" and "tables_ok ps s" and "del_chain ps s path d" and "distinct (path @ [d])"
  shows "\<exists>t. vmp_pagetable_page_pte_deleted ps (hd (path @ [d])) False s = Ok t
    \<and> pfndb t \<and> tables_ok ps t
    \<and> mypages t = (\<lambda>q. if q \<in> set path then freed (mypages s q)
                      else if q = d then entry_lost (mypages s q) else mypages s q)
    \<and> SOFT_pages t = (\<lambda>a. if a \<in> (\<lambda>q. referent_pte (mypages s q)) ` set path then 0 else SOFT_pages s a)
    \<and> set (entries (wsl (procs t ps))) = set (entries (wsl (procs s ps))) - (\<lambda>q. table_entry q s) ` set path
    \<and> set path \<subseteq> set (free_pgq t)"
proof -
  obtain t where t: "vmp_pagetable_page_pte_deleted ps (hd (path @ [d])) False s = Ok t" "del_result ps s path d t"
    using pte_deleted_chain [OF assms] by blast
  have "q \<in> set (free_pgq t)" if "q \<in> set path" for q
  proof -
    have "q < SOFT_NPAGES" using del_chain_tables [OF assms(3), of q] that by (simp add: table_of_def)
    moreover have "place (mypages t q) = Some QFree"
      using t(2) that by (simp add: del_result_def place_def freed_def)
    ultimately show ?thesis
      using t(2) pfndb_queue_iff [of t q QFree] by (simp add: del_result_def)
  qed
  with t show ?thesis unfolding del_result_def by blast
qed

theorem deleting_last_entry_frees_tables_witness:
  "\<exists>t. vmp_pagetable_page_pte_deleted 0 3 False sample_tables = Ok t \<and> pfndb t \<and> tables_ok 0 t
     \<and> use (mypages t 3) = kPageUseFree \<and> use (mypages t 1) = kPageUseFree
     \<and> nonzero_ptes (mypages t 0) = 1 \<and> SOFT_pages t 0 = 0 \<and> set (free_pgq t) \<supseteq> {1, 2, 3}"
proof -
  have "nonzero_ptes (mypages sample_tables 0) = 2" "referent_pte (mypages sample_tables 1) = 0"
    by (simp_all add: sample_tables_simps sample_table_page_def zero_page_def)
  with deleting_last_entry_frees_tables [OF sample_tables_pfndb sample_tables_ok sample_tables_chain]
  show ?thesis by (force simp: freed_def entry_lost_def)
qed

text \<open>C31. A table that hangs on any other entry of its directory cannot be deleted: the directory page
  is looked up from the unrounded address of the entry, and the lookup asserts that the address is
  page aligned. This happens when a fault has wired new tables and then finds no page to map.\<close>

theorem deleting_table_off_entry_0_asserts:
  assumes "pfndb s" and "tables_ok ps s" and "table_of ps s p" and "\<not> page_is_root_table p s"
    and "nonzero_ptes (mypages s p) = 1" and "nonswap_ptes (mypages s p) = 1"
    and "\<not> PGSIZE dvd referent_pte (mypages s p)"
  shows "vmp_pagetable_page_pte_deleted ps p False s = Err (Kassert ''paddr % PGSIZE == 0'')"
proof -
  let ?s1 = "page_update p (\<lambda>pg. pg\<lparr>nonzero_ptes := nonzero_ptes pg - 1\<rparr>) s"
  let ?s2 = "page_update p (\<lambda>pg. pg\<lparr>use := kPageUseDeleted\<rparr>) ?s1"
  note T = table_okD [OF assms(2,3)] and u = table_use [OF assms(3)]
  have r: "pfndb ?s2"
    by (intro pfndb_active_update assms(1)) (use u T(1) assms(6) in \<open>auto simp: table_ok_def\<close>)
  have te: "table_entry p ?s2 = table_entry p s" by (rule table_entry_cong) simp_all
  have l: "table_entry p ?s2 \<in> locked_entries (wsl (procs ?s2 ps))"
    using T(1) assms te by (simp add: table_ok_def)
  obtain w where w: "deleted_table_leaves_wsl ps p ?s2 = Ok (wsl_update_ps ps (\<lambda>_. w) ?s2)"
    by (rule table_leaves_wsl_ok [OF r _ _ u(1) l]) (use T assms in \<open>simp_all add: low_base_def\<close>)
  have "vmp_paddr_to_page (referent_pte (mypages s p)) = Err (Kassert ''paddr % PGSIZE == 0'')"
    using assms(7) by (simp add: vmp_paddr_to_page_def kassert_def dvd_eq_mod_eq_0)
  with w u(1) assms(4,5) show ?thesis
    by (simp add: vmp_pagetable_page_pte_deleted.simps [of ps p] page_is_root_table_def Let_def)
qed

text \<open>The same tables, the leaf hanging on the second entry of its directory.\<close>

definition sample_tables_off :: vmm where
  "sample_tables_off = page_update 3 (\<lambda>pg. pg\<lparr>referent_pte := 2 * PGSIZE + PTE_SIZE\<rparr>) sample_tables"

theorem deleting_table_off_entry_0_asserts_witness:
  "vmp_pagetable_page_pte_deleted 0 3 False sample_tables_off = Err (Kassert ''paddr % PGSIZE == 0'')"
proof (rule deleting_table_off_entry_0_asserts)
  show "pfndb sample_tables_off" unfolding sample_tables_off_def
    by (intro pfndb_page_update sample_tables_pfndb) (simp_all add: same_place_def)
  have pg: "mypages sample_tables_off = sample_table_page(3 := (sample_table_page 3)\<lparr>referent_pte := 2 * PGSIZE + PTE_SIZE\<rparr>)"
    by (simp add: sample_tables_off_def sample_tables_simps)
  have te: "table_entry p sample_tables_off = table_entry p sample_tables" for p
    by (rule table_entry_cong) (simp_all add: sample_tables_off_def)
  have "table_ok 0 sample_tables_off p = table_ok 0 sample_tables p" for p
    unfolding table_ok_def te by (auto simp: sample_tables_off_def page_is_root_table_def split: if_splits)
  then show "tables_ok 0 sample_tables_off"
    using sample_tables_ok by (auto simp: tables_ok_def table_of_def low_base_def sample_tables_off_def split: if_splits)
qed (simp_all add: sample_tables_off_def sample_tables_simps sample_table_page_def zero_page_def table_of_def
    is_table_def page_is_root_table_def use_of_level_def)

end
