(* ===== verification/Page_Alloc.thy ===== *)
theory Page_Alloc
  imports Tables
begin

text \<open>
  Page allocation (\<^verbatim>\<open>steal_page\<close> and \<^verbatim>\<open>vmp_page_alloc_locked\<close> of \<^verbatim>\<open>vm/resident.c\<close>). A page comes from the
  head of the free queue; when there is none, the oldest clean inactive page is stolen: the
  page-table entry that still refers to it is turned into a swap entry with the page's drum slot, and
  the table that holds the entry loses an in-core entry. Either way the page is zero-filled and has
  one reference. \<^verbatim>\<open>ke_spinlock_held\<close> always returns true, so the assertions on the lock hold.
\<close>

section \<open>The operations\<close>

text \<open>The fields both paths set on the page that is handed out.\<close>

definition fresh :: "vm_page_use \<Rightarrow> vm_page \<Rightarrow> vm_page" where
  "fresh u pg = pg\<lparr>referent_pte := 0, refcnt := 1, use := u, dirty := False, drumslot := - 1\<rparr>"

text \<open>A 64-bit store through a pointer to simulated memory.\<close>

definition store_pte :: "paddr \<Rightarrow> pte \<Rightarrow> vmm \<Rightarrow> vmm outcome" where
  "store_pte a v s = defined_if (in_soft_pages a \<and> PTE_SIZE dvd a) ''pte'' (Ok (write_pte a v s))"

definition steal_page :: "vm_page_use \<Rightarrow> vmm \<Rightarrow> (page_ptr option \<times> vmm) outcome" where
  "steal_page u s =
     (case TAILQ_FIRST (standby_pgq s) of
        None \<Rightarrow> Ok (None, s)
      | Some page \<Rightarrow>
          bnd (pgq_remove QStandby page s) (\<lambda>s.
          bnd (if use (mypages s page) = kPageUseAnonPrivate then
                 let pte = referent_pte (mypages s page) in
                 bnd (vmp_paddr_to_page ((pte div PGSIZE) * PGSIZE)) (\<lambda>table_page.
                 bnd (store_pte pte (vmp_pte_swap_create 0 (drumslot (mypages s page))) s) (\<lambda>s.
                 vmp_pagetable_page_pte_became_swap (process (mypages s page)) table_page s))
               else kfatal ''Can't steal page of use'') (\<lambda>s.
          kassert (refcnt (mypages s page) = 0) ''page->refcnt == 0''
          (kassert (nonzero_ptes (mypages s page) = 0) ''page->nonzero_ptes == 0''
          (Ok (Some page, memset_page page
             (vmstat_update (\<lambda>st. st\<lparr>nstandby := nstandby st - 1, nactive := nactive st + 1\<rparr>)
               (page_update page (fresh u) s))))))))"

text \<open>\<open>None\<close> is the return value \<open>-1\<close>.\<close>

definition vmp_page_alloc_locked ::
    "vm_page_use \<Rightarrow> bool \<Rightarrow> vmm \<Rightarrow> (page_ptr option \<times> vmm) outcome" where
  "vmp_page_alloc_locked u must s =
     (let (short, s) = check_shortage s in
      if short \<and> \<not> must then Ok (None, s)
      else case TAILQ_FIRST (free_pgq s) of
        None \<Rightarrow>
          bnd (steal_page u s) (\<lambda>(page, s).
          case page of
            None \<Rightarrow> if must then kfatal ''Out of pages'' else Ok (None, s)
          | Some page \<Rightarrow> Ok (Some page, s))
      | Some page \<Rightarrow>
          bnd (pgq_remove QFree page s) (\<lambda>s.
          kassert (refcnt (mypages s page) = 0) ''page->refcnt == 0''
          (kassert (nonzero_ptes (mypages s page) = 0) ''page->nonzero_ptes == 0''
          (kassert (referent_pte (mypages s page) = 0) ''page->referent_pte == 0''
          (Ok (Some page, memset_page page
             (vmstat_update (\<lambda>st. st\<lparr>nfree := nfree st - 1, nactive := nactive st + 1\<rparr>)
               (page_update page (\<lambda>pg. pg\<lparr>refcnt := 1, use := u, dirty := False, drumslot := - 1\<rparr>) s))))))))"

section \<open>Invariants\<close>

text \<open>Pages that are not tables have clear table counters, and free pages are referred to by no entry.\<close>

definition idle_clean :: "vmm \<Rightarrow> bool" where
  "idle_clean s \<longleftrightarrow> (\<forall>p < SOFT_NPAGES. \<not> is_table (use (mypages s p)) \<longrightarrow>
     nonzero_ptes (mypages s p) = 0 \<and> nonswap_ptes (mypages s p) = 0 \<and>
     (use (mypages s p) = kPageUseFree \<longrightarrow> referent_pte (mypages s p) = 0))"

text \<open>The table invariant for all pages but some that are being set up.\<close>

definition tables_ok_but :: "page_ptr set \<Rightarrow> nat \<Rightarrow> vmm \<Rightarrow> bool" where
  "tables_ok_but X ps s \<longleftrightarrow> wsl_ok (wsl (procs s ps)) \<and> low_base s \<and>
     (\<forall>p < SOFT_NPAGES. p \<notin> X \<longrightarrow> table_of ps s p \<longrightarrow> table_ok ps s p)"

lemma tables_ok_but_empty: "tables_ok ps s = tables_ok_but {} ps s"
  by (simp add: tables_ok_def tables_ok_but_def)

lemma tables_ok_but_other:
  assumes "tables_ok_but X ps s" and "\<forall>q. q \<notin> Y \<longrightarrow> mypages t q = mypages s q" and "X \<subseteq> Y"
    and "procs t = procs s" and "SOFT_pages_base t = SOFT_pages_base s"
  shows "tables_ok_but Y ps t"
proof -
  have "table_ok ps t q" if q: "q < SOFT_NPAGES" "q \<notin> Y" "table_of ps t q" for q
  proof -
    have "table_ok ps s q" using assms(1-3) q by (auto simp: table_of_def tables_ok_but_def)
    moreover have "table_entry q t = table_entry q s" by (rule table_entry_cong) (use q assms in auto)
    ultimately show ?thesis using q assms(2,4)
      by (auto simp: table_ok_def page_is_root_table_def split: if_splits)
  qed
  with assms show ?thesis by (auto simp: tables_ok_but_def low_base_def)
qed

lemma tables_ok_but_close:
  assumes "tables_ok_but {p} ps s" and "table_of ps s p \<Longrightarrow> table_ok ps s p"
  shows "tables_ok ps s"
  using assms by (auto simp: tables_ok_but_def tables_ok_def)

lemma queue_of_memset [simp]: "queue_of q (memset_page p s) = queue_of q s"
  by (cases q) simp_all

lemma pfndb_memset [simp]: "pfndb (memset_page p s) = pfndb s"
  by (intro pfndb_cong) simp_all

section \<open>Allocation from the free queue\<close>

lemma SOFT_pages_memset:
  assumes "pfndb s" and "p < SOFT_NPAGES"
  shows "SOFT_pages (memset_page p s) = (\<lambda>a. if a div PGSIZE = p then 0 else SOFT_pages s a)"
proof -
  have "p * PGSIZE \<le> a \<and> a < p * PGSIZE + PGSIZE \<longleftrightarrow> a div PGSIZE = p" for a :: nat
  proof
    assume "p * PGSIZE \<le> a \<and> a < p * PGSIZE + PGSIZE"
    then show "a div PGSIZE = p" by (intro div_nat_eqI) simp_all
  next
    assume "a div PGSIZE = p"
    moreover have "a mod PGSIZE < PGSIZE" by simp
    ultimately show "p * PGSIZE \<le> a \<and> a < p * PGSIZE + PGSIZE"
      using div_mult_mod_eq [of a PGSIZE] by linarith
  qed
  then show ?thesis by (simp add: memset_page_def pfndb_page_paddr [OF assms])
qed

text \<open>What an allocation gives: \<open>t\<close> is \<open>s\<close> with page \<open>p\<close> handed out for use \<open>u\<close>.\<close>

definition handed_out :: "page_ptr \<Rightarrow> vm_page_use \<Rightarrow> vmm \<Rightarrow> bool" where
  "handed_out p u t \<longleftrightarrow> p < SOFT_NPAGES \<and> use (mypages t p) = u \<and> refcnt (mypages t p) = 1 \<and>
     \<not> dirty (mypages t p) \<and> referent_pte (mypages t p) = 0 \<and> drumslot (mypages t p) = - 1 \<and>
     nonzero_ptes (mypages t p) = 0 \<and> nonswap_ptes (mypages t p) = 0 \<and>
     (\<forall>a. a div PGSIZE = p \<longrightarrow> SOFT_pages t a = 0)"

lemma alloc_free_ok:
  assumes s: "pfndb s" "idle_clean s" and go: "\<not> vmp_page_shortage s \<or> must"
    and q: "free_pgq s = p # rest" and u: "u \<noteq> kPageUseFree"
  obtains t where "vmp_page_alloc_locked u must s = Ok (Some p, t)" and "pfndb t"
    and "handed_out p u t" and "free_pgq t = rest" and "standby_pgq t = standby_pgq s"
    and "modified_pgq t = modified_pgq s" and "\<forall>x. x \<noteq> p \<longrightarrow> mypages t x = mypages s x"
    and "\<forall>a. a div PGSIZE \<noteq> p \<longrightarrow> SOFT_pages t a = SOFT_pages s a"
    and "procs t = procs s" and "SOFT_pages_base t = SOFT_pages_base s" and "vmparam t = vmparam s"
    and "vmp_pagefile_state t = vmp_pagefile_state s" and "process (mypages t p) = process (mypages s p)"
proof -
  let ?c = "snd (check_shortage s)"
  have c: "mypages ?c = mypages s" "vmstat ?c = vmstat s" "\<forall>w. queue_of w ?c = queue_of w s" "rest_unchanged s ?c"
    by simp_all
  have pc: "pfndb ?c" using s(1) c by (simp add: pfndb_cong [of ?c s])
  have m: "p \<in> set (queue_of QFree s)" using q by simp
  then have p: "p < SOFT_NPAGES" "place (mypages s p) = Some QFree" using pfndb_queue_iff [OF s(1)] by blast+
  then have pg: "use (mypages s p) = kPageUseFree" by (simp add: place_def split: if_splits)
  have clean: "refcnt (mypages s p) = 0" "nonzero_ptes (mypages s p) = 0" "nonswap_ptes (mypages s p) = 0"
    "referent_pte (mypages s p) = 0" "pfn (mypages s p) = of_nat p"
    using s p pg by (auto simp: idle_clean_def is_table_def pfndb_def page_wf_def)
  let ?f = "\<lambda>pg. pg\<lparr>refcnt := 1, use := u, dirty := False, drumslot := - 1\<rparr>"
  let ?v = "vmstat_update (\<lambda>st. st\<lparr>nfree := nfree st - 1, nactive := nactive st + 1\<rparr>)
       (page_update p ?f (set_queue QFree rest ?c))"
  have d: "distinct (queue_of w s)" for w using s(1) by (simp add: pfndb_def)
  have v: "pfndb ?v"
  proof (rule pfndbI [OF pc p(1)])
    show "mypages ?v = (mypages ?c)(p := ?f (mypages s p))" by simp
    show "place (mypages ?c p) = Some QFree" using p(2) by simp
    show "place (?f (mypages s p)) = None" using u by (simp add: place_def)
    show "page_wf p (?f (mypages s p))" using clean u by (simp add: page_wf_def)
    show "distinct (queue_of w ?v)" for w using d [of w] d [of QFree] q by (simp del: set_queue.simps)
    show "qcount x (vmstat ?v) = (if x = Some QFree then qcount x (vmstat ?c) - 1
        else if x = None then qcount x (vmstat ?c) + 1 else qcount x (vmstat ?c))" for x
      by (cases "(x, vmstat s)" rule: qcount.cases) auto
    show "set (queue_of w ?v) = (if Some QFree = Some w then set (queue_of w ?c) - {p}
        else if None = Some w then insert p (set (queue_of w ?c)) else set (queue_of w ?c))" for w
      using d [of QFree] q by (auto simp del: set_queue.simps)
  qed auto
  have code: "vmp_page_alloc_locked u must s = Ok (Some p, memset_page p ?v)"
  proof -
    have "free_pgq ?c = p # rest" using c(3) q by (metis queue_of.simps(1))
    then show ?thesis
      using go clean q
      by (auto simp: vmp_page_alloc_locked_def TAILQ_FIRST_def pgq_remove_def TAILQ_REMOVE_def case_prod_beta)
  qed
  have mem: "SOFT_pages (memset_page p ?v) = (\<lambda>a. if a div PGSIZE = p then 0 else SOFT_pages s a)"
    unfolding SOFT_pages_memset [OF v p(1)] using c(4) by (simp add: rest_unchanged_def cong: if_cong)
  have qs: "queue_of w (memset_page p ?v) = (if w = QFree then rest else queue_of w s)" for w
    using c(3) by (simp del: set_queue.simps)
  show thesis
  proof (rule that [OF code])
    show "handed_out p u (memset_page p ?v)" using p(1) clean by (simp add: handed_out_def mem del: set_queue.simps)
    show "free_pgq (memset_page p ?v) = rest" "standby_pgq (memset_page p ?v) = standby_pgq s"
      "modified_pgq (memset_page p ?v) = modified_pgq s"
      using qs [of QFree] qs [of QStandby] qs [of QModified] by simp_all
    show "\<forall>a. a div PGSIZE \<noteq> p \<longrightarrow> SOFT_pages (memset_page p ?v) a = SOFT_pages s a"
      unfolding mem by simp
  qed (use v c(4) in \<open>simp_all add: rest_unchanged_def\<close>)
qed

section \<open>Stealing a standby page\<close>

lemma wsl_update_same [simp]:
  "wsl_update_ps ps (\<lambda>_. wsl (procs s ps)) s = s"
  "wsl_update_ps ps (\<lambda>_. wsl (procs s ps)) (page_update p f s) = page_update p f s"
  by (simp_all add: wsl_update_ps_def page_update_def)

lemma release_shared:
  assumes "p < SOFT_NPAGES" and "use (mypages s p) \<noteq> kPageUseFree" and "refcnt (mypages s p) \<notin> {0, 1}"
  shows "vmp_page_release_locked p s = Ok (page_update p drop_ref s)"
  using assms by (simp add: vmp_page_release_locked_def Let_def word_neq_0_conv)

text \<open>Losing an in-core entry touches the table page and the working set list only, whatever state the
  other pages are in.\<close>

lemma became_swap_explicit:
  assumes p: "p < SOFT_NPAGES" "use (mypages s p) \<noteq> kPageUseFree"
    and n: "nonswap_ptes (mypages s p) \<noteq> 0" "nonswap_ptes (mypages s p) < 0x8000"
      "refcnt (mypages s p) = nonswap_ptes (mypages s p) + 1"
    and w: "(if nonswap_ptes (mypages s p) = 1 \<and> \<not> page_is_root_table p s
             then wsl_unlock_entry (page_vaddr p s) (wsl (procs s ps)) else Ok (wsl (procs s ps))) = Ok w"
  shows "vmp_pagetable_page_pte_became_swap ps p s = Ok (page_update p
    (\<lambda>pg. pg\<lparr>nonswap_ptes := nonswap_ptes pg - 1, refcnt := refcnt pg - 1\<rparr>) (wsl_update_ps ps (\<lambda>_. w) s))"
proof -
  let ?r = "page_update p (\<lambda>pg. pg\<lparr>nonswap_ptes := nonswap_ptes pg - 1\<rparr>) s"
  have root: "page_is_root_table p ?r = page_is_root_table p s" by (simp add: page_is_root_table_def)
  have va: "page_vaddr p ?r = page_vaddr p s" by (rule page_vaddr_cong) simp_all
  have "(if nonswap_ptes (mypages s p) = 1 \<and> \<not> page_is_root_table p ?r
         then vmp_wsl_unlock_entry ps (page_vaddr p ?r) ?r else Ok ?r) = Ok (wsl_update_ps ps (\<lambda>_. w) ?r)"
    using w unfolding root va by (auto simp: vmp_wsl_unlock_entry_def on_wsl_def split: if_splits)
  moreover have "vmp_page_release_locked p (wsl_update_ps ps (\<lambda>_. w) ?r) =
      Ok (page_update p drop_ref (wsl_update_ps ps (\<lambda>_. w) ?r))"
    by (rule release_shared) (use p n small_count [OF n(2)] in auto)
  moreover have "page_update p drop_ref (wsl_update_ps ps (\<lambda>_. w) ?r) = page_update p
      (\<lambda>pg. pg\<lparr>nonswap_ptes := nonswap_ptes pg - 1, refcnt := refcnt pg - 1\<rparr>) (wsl_update_ps ps (\<lambda>_. w) s)"
    by (simp add: page_update_def wsl_update_ps_def)
  ultimately show ?thesis
    unfolding vmp_pagetable_page_pte_became_swap_def Let_def by simp
qed

text \<open>The conditions on the page at the head of the standby queue.\<close>

definition stealable :: "page_ptr \<Rightarrow> vmm \<Rightarrow> bool" where
  "stealable p s \<longleftrightarrow> use (mypages s p) = kPageUseAnonPrivate \<and>
     (let a = referent_pte (mypages s p); ps = process (mypages s p); d = a div PGSIZE in
        PTE_SIZE dvd a \<and> table_of ps s d \<and> nonswap_ptes (mypages s d) \<noteq> 0)"

lemma table_unlock_result:
  assumes "pfndb s" and "tables_ok ps s" and "table_of ps s d" and "nonswap_ptes (mypages s d) \<noteq> 0"
  obtains w where "(if nonswap_ptes (mypages s d) = 1 \<and> \<not> page_is_root_table d s
      then wsl_unlock_entry (page_vaddr d s) (wsl (procs s ps)) else Ok (wsl (procs s ps))) = Ok w"
proof (cases "nonswap_ptes (mypages s d) = 1 \<and> \<not> page_is_root_table d s")
  case True
  note T = table_okD [OF assms(2,3)]
  have "table_entry d s \<in> locked_entries (wsl (procs s ps))" using T(1) True by (simp add: table_ok_def)
  from wsl_unlock_ok(1) [OF T(2) page_vaddr_low [OF assms(1) T(3)] this] table_use(1) [OF assms(3)]
  show thesis using that True by (simp add: table_entry_def)
next
  case False
  then have "(if nonswap_ptes (mypages s d) = 1 \<and> \<not> page_is_root_table d s
      then wsl_unlock_entry (page_vaddr d s) (wsl (procs s ps)) else Ok (wsl (procs s ps))) =
      Ok (wsl (procs s ps))" by auto
  then show thesis by (rule that)
qed

lemma aligned_in_page:
  assumes "PTE_SIZE dvd a" and "a div PGSIZE < SOFT_NPAGES"
  shows "in_soft_pages a"
proof -
  have "a < SOFT_NPAGES * PGSIZE" using assms(2) by (simp add: div_less_iff_less_mult)
  moreover obtain k where "a = 8 * k" using assms(1) by (auto elim: dvdE)
  ultimately show ?thesis by (simp add: in_soft_pages_def)
qed

lemma steal_ok:
  fixes u s
  assumes s: "pfndb s" "idle_clean s" and q: "standby_pgq s = p # rest" and st: "stealable p s"
    and u: "u \<noteq> kPageUseFree"
  defines "ps \<equiv> process (mypages s p)" and "a \<equiv> referent_pte (mypages s p)"
  assumes tok: "tables_ok ps s"
  obtains t where "steal_page u s = Ok (Some p, t)" and "pfndb t" and "handed_out p u t"
    and "tables_ok_but {p} ps t" and "standby_pgq t = rest" and "free_pgq t = free_pgq s"
    and "modified_pgq t = modified_pgq s"
    and "mypages t = (mypages s)(p := fresh u (mypages s p),
      a div PGSIZE := (mypages s (a div PGSIZE))\<lparr>nonswap_ptes := nonswap_ptes (mypages s (a div PGSIZE)) - 1,
        refcnt := refcnt (mypages s (a div PGSIZE)) - 1\<rparr>)"
    and "SOFT_pages t = (\<lambda>x. if x div PGSIZE = p then 0 else if x = a
      then vmp_pte_swap_create 0 (drumslot (mypages s p)) else SOFT_pages s x)"
    and "tables_frame ps (s\<lparr>SOFT_pages := SOFT_pages t\<rparr>) t"
proof -
  let ?d = "a div PGSIZE" and ?slot = "vmp_pte_swap_create 0 (drumslot (mypages s p))"
  have d: "PTE_SIZE dvd a" "table_of ps s ?d" "nonswap_ptes (mypages s ?d) \<noteq> 0"
    and anon: "use (mypages s p) = kPageUseAnonPrivate"
    using st by (simp_all add: stealable_def Let_def a_def ps_def)
  have m: "p \<in> set (queue_of QStandby s)" using q by simp
  then have p: "p < SOFT_NPAGES" "place (mypages s p) = Some QStandby" using pfndb_queue_iff [OF s(1)] by blast+
  then have pg: "refcnt (mypages s p) = 0" "\<not> dirty (mypages s p)" by (auto simp: place_def split: if_splits)
  have cl: "nonzero_ptes (mypages s p) = 0" "nonswap_ptes (mypages s p) = 0"
    using s(2) p anon by (auto simp: idle_clean_def is_table_def)
  have dp: "?d \<noteq> p" "?d < SOFT_NPAGES" using d(2) anon by (auto simp: table_of_def is_table_def)
  let ?vm = "vmstat_update (\<lambda>st. st\<lparr>nstandby := nstandby st - 1, nactive := nactive st + 1\<rparr>)"
  let ?s1 = "write_pte a ?slot (set_queue QStandby rest s)"
  let ?shift = "\<lambda>s. ?vm (page_update p bump_ref s)"
  \<comment> \<open>the same step from the state in which the page is already counted as active\<close>
  obtain r where r: "vmp_page_retain_locked p s = Ok r" "pfndb r" "mypages r = (mypages s)(p := bump_ref (mypages s p))"
    by (rule retain_ok [OF s(1) p(1)]) (use anon pg in auto)
  have req: "r = ?vm (set_queue QStandby rest (page_update p bump_ref s))"
    using r(1) pg q anon
    by (auto simp: vmp_page_retain_locked_def Let_def pgq_remove_def TAILQ_REMOVE_def)
  let ?r = "write_pte a ?slot r"
  have sh: "?r = ?shift ?s1" unfolding req by (simp add: page_update_def write_pte_def)
  have rr: "pfndb ?r" "procs ?r = procs s" "SOFT_pages_base ?r = SOFT_pages_base s"
    using r(2) by (simp_all add: req)
  have tr: "tables_ok ps ?r"
    by (rule tables_ok_other [OF tok, of p]) (use r(3) rr anon in \<open>auto simp: table_of_def is_table_def\<close>)
  have dr: "table_of ps ?r ?d" "nonswap_ptes (mypages ?r ?d) \<noteq> 0" "mypages ?r ?d = mypages s ?d"
    using d dp r(3) by (simp_all add: table_of_def)
  let ?g = "\<lambda>pg. pg\<lparr>nonswap_ptes := nonswap_ptes pg - 1, refcnt := refcnt pg - 1\<rparr>"
  obtain v where v: "vmp_pagetable_page_pte_became_swap ps ?d ?r = Ok v" "pfndb v" "tables_ok ps v"
    "tables_frame ps ?r v" "mypages v = (mypages ?r)(?d := ?g (mypages ?r ?d))"
    by (rule became_swap_ok [OF rr(1) tr dr(1,2)])
  obtain w where w: "(if nonswap_ptes (mypages s ?d) = 1 \<and> \<not> page_is_root_table ?d s
      then wsl_unlock_entry (page_vaddr ?d s) (wsl (procs s ps)) else Ok (wsl (procs s ps))) = Ok w"
    by (rule table_unlock_result [OF s(1) tok d(2,3)])
  have ex: "vmp_pagetable_page_pte_became_swap ps ?d x = Ok (page_update ?d ?g (wsl_update_ps ps (\<lambda>_. w) x))"
    if "mypages x ?d = mypages s ?d" "procs x = procs s" "SOFT_pages_base x = SOFT_pages_base s" for x
  proof (rule became_swap_explicit)
    have "page_vaddr ?d x = page_vaddr ?d s" by (rule page_vaddr_cong) (use that in simp_all)
    then show "(if nonswap_ptes (mypages x ?d) = 1 \<and> \<not> page_is_root_table ?d x
         then wsl_unlock_entry (page_vaddr ?d x) (wsl (procs x ps)) else Ok (wsl (procs x ps))) = Ok w"
      using w that by (auto simp: page_is_root_table_def split: if_splits)
  qed (use that dp table_use(2) [OF d(2)] d(3) table_okD(1) [OF tok d(2)] in \<open>simp_all add: table_ok_def\<close>)
  let ?t1 = "page_update ?d ?g (wsl_update_ps ps (\<lambda>_. w) ?s1)"
  have b1: "vmp_pagetable_page_pte_became_swap ps ?d ?s1 = Ok ?t1" by (rule ex) simp_all
  have "vmp_pagetable_page_pte_became_swap ps ?d ?r = Ok (page_update ?d ?g (wsl_update_ps ps (\<lambda>_. w) ?r))"
    by (rule ex) (use dr rr in simp_all)
  then have veq: "v = ?shift ?t1"
    using v(1) dp(1) unfolding sh
    by (auto simp: page_update_def wsl_update_ps_def write_pte_def fun_upd_twist)
  let ?f = "page_update p (fresh u)"
  let ?t = "memset_page p (?vm (?f ?t1))"
  have fin: "?vm (?f ?t1) = ?f v"
    unfolding veq by (simp add: page_update_def fresh_def)
  have code: "steal_page u s = Ok (Some p, ?t)"
  proof -
    have "vmp_paddr_to_page (?d * PGSIZE) = Ok ?d" using dp(2) by simp
    moreover have "store_pte a ?slot (set_queue QStandby rest s) = Ok ?s1"
      using aligned_in_page [OF d(1) dp(2)] d(1) by (simp add: store_pte_def)
    moreover have "pgq_remove QStandby p s = Ok (set_queue QStandby rest s)"
      using q by (simp add: pgq_remove_def TAILQ_REMOVE_def)
    moreover have "mypages ?t1 p = mypages s p" using dp(1) by simp
    ultimately show ?thesis
      using q anon pg cl b1
      by (simp add: steal_page_def TAILQ_FIRST_def Let_def a_def [symmetric] ps_def [symmetric] del: set_queue.simps)
  qed
  have vp: "mypages v p = bump_ref (mypages s p)" using v(5) r(3) dp(1) by simp
  have pf: "pfndb (?f v)"
    by (rule pfndb_active_update [OF v(2) p(1)]) (use vp pg anon u in \<open>auto simp: fresh_def\<close>)
  have mem: "SOFT_pages ?t = (\<lambda>x. if x div PGSIZE = p then 0 else if x = a then ?slot else SOFT_pages s x)"
    unfolding fin SOFT_pages_memset [OF pf p(1)] using v(4)
    by (auto simp: fun_eq_iff tables_frame_def req)
  have pages: "mypages ?t = (mypages s)(p := fresh u (mypages s p), ?d := ?g (mypages s ?d))"
    using dp(1) by (simp add: fun_upd_twist)
  have ho: "handed_out p u ?t"
    using p(1) cl dp(1) by (simp add: handed_out_def mem pages fresh_def del: set_queue.simps)
  have tb: "tables_ok_but {p} ps ?t"
    unfolding fin by (rule tables_ok_but_other [OF v(3) [unfolded tables_ok_but_empty]]) simp_all
  have fr: "tables_frame ps (s\<lparr>SOFT_pages := SOFT_pages ?t\<rparr>) ?t"
    using v(4) rr unfolding fin by (auto simp: tables_frame_def req)
  have pt: "pfndb ?t" using pf fin by simp
  show thesis
    by (rule that [OF code pt ho tb _ _ _ pages mem fr]) simp_all
qed

section \<open>Properties of allocation\<close>



text \<open>C33. Allocation without free pages, when there is no shortage or the request is a \<open>must\<close>, and the oldest standby
  page is a private page whose referring entry lies in a table of its process (\<open>stealable\<close>): it steals that page. The
  page-table entry that
  refers to it becomes a swap entry carrying its drum slot, the table that holds the entry loses an
  in-core entry (and becomes evictable if that was its last), and the page is handed out like a free
  one. No other memory and no other page changes; the database invariant is kept, and so is the table
  invariant of the process that owned the page.\<close>

theorem page_alloc_steals_standby_page:
  assumes "pfndb s" and "idle_clean s" and "free_pgq s = []" and "standby_pgq s = p # rest"
    and "stealable p s" and "tables_ok (process (mypages s p)) s" and "\<not> vmp_page_shortage s \<or> must"
    and "u \<noteq> kPageUseFree"
  shows "\<exists>t. vmp_page_alloc_locked u must s = Ok (Some p, t) \<and> pfndb t \<and> handed_out p u t
    \<and> tables_ok_but {p} (process (mypages s p)) t \<and> standby_pgq t = rest
    \<and> (let a = referent_pte (mypages s p); d = a div PGSIZE in
        SOFT_pages t = (\<lambda>x. if x div PGSIZE = p then 0
          else if x = a then vmp_pte_swap_create 0 (drumslot (mypages s p)) else SOFT_pages s x)
        \<and> mypages t = (mypages s)(p := fresh u (mypages s p),
            d := (mypages s d)\<lparr>nonswap_ptes := nonswap_ptes (mypages s d) - 1,
                   refcnt := refcnt (mypages s d) - 1\<rparr>))"
proof -
  let ?c = "snd (check_shortage s)"
  have c: "mypages ?c = mypages s" "queue_of w ?c = queue_of w s" "rest_unchanged s ?c" for w by simp_all
  have pc: "pfndb ?c" using assms(1) by (simp add: pfndb_cong [of ?c s])
  have cc: "idle_clean ?c" "stealable p ?c" "tables_ok (process (mypages ?c p)) ?c"
  proof -
    show "idle_clean ?c" "stealable p ?c"
      using assms(2,5) unfolding idle_clean_def stealable_def table_of_def c(1) by blast+
    show "tables_ok (process (mypages ?c p)) ?c"
      using assms(6) c(3) tables_ok_cong [of ?c s "process (mypages s p)"] by (simp add: rest_unchanged_def)
  qed
  have q: "standby_pgq ?c = p # rest" "free_pgq ?c = []"
    using c(2) [of QStandby, unfolded queue_of.simps] c(2) [of QFree, unfolded queue_of.simps] assms(3,4)
    by simp_all
  have mem: "SOFT_pages ?c = SOFT_pages s" using c(3) by (simp add: rest_unchanged_def)
  obtain t where t: "steal_page u ?c = Ok (Some p, t)" "pfndb t" "handed_out p u t"
    "tables_ok_but {p} (process (mypages ?c p)) t" "standby_pgq t = rest"
    "mypages t = (mypages ?c)(p := fresh u (mypages ?c p),
      referent_pte (mypages ?c p) div PGSIZE :=
        (mypages ?c (referent_pte (mypages ?c p) div PGSIZE))
          \<lparr>nonswap_ptes := nonswap_ptes (mypages ?c (referent_pte (mypages ?c p) div PGSIZE)) - 1,
           refcnt := refcnt (mypages ?c (referent_pte (mypages ?c p) div PGSIZE)) - 1\<rparr>)"
    "SOFT_pages t = (\<lambda>x. if x div PGSIZE = p then 0 else if x = referent_pte (mypages ?c p)
      then vmp_pte_swap_create 0 (drumslot (mypages ?c p)) else SOFT_pages ?c x)"
    by (rule steal_ok [OF pc cc(1) q(1) cc(2) assms(8) cc(3)])
  have "vmp_page_alloc_locked u must s = Ok (Some p, t)"
    using assms(7) q t(1) by (auto simp: vmp_page_alloc_locked_def case_prod_beta TAILQ_FIRST_def)
  with t show ?thesis by (simp add: Let_def mem cong: if_cong)
qed

text \<open>The sample tables, with a private page on the standby queue that the second entry of the leaf
  table still refers to; it was written to drum slot 7. All other pages are in use.\<close>

definition sample_steal_page :: "page_ptr \<Rightarrow> vm_page" where
  "sample_steal_page p =
     (if p = 4 then zero_page\<lparr>pfn := 4, use := kPageUseAnonPrivate, referent_pte := 3 * PGSIZE + PTE_SIZE,
        drumslot := 7\<rparr>
      else if 4 < p then zero_page\<lparr>pfn := of_nat p, use := kPageUseKWired, refcnt := 1\<rparr>
      else sample_table_page p)"

definition sample_steal :: vmm where
  "sample_steal = sample_tables\<lparr>mypages := sample_steal_page, free_pgq := [], standby_pgq := [4],
     vmstat := \<lparr>nfree = 0, nmodified = 0, nstandby = 1, nactive = 31, ntotal = 0\<rparr>\<rparr>"

lemma sample_steal_pfndb: "pfndb sample_steal"
proof -
  have pg: "mypages sample_steal = sample_steal_page" by (simp add: sample_steal_def)
  have pl: "place (sample_steal_page p) = (if p = 4 then Some QStandby else None)" for p
    by (simp add: sample_steal_page_def sample_table_page_def place_def zero_page_def use_of_level_def)
  have m: "members (mypages sample_steal) w =
      (if w = None then {..<32} - {4} else if w = Some QStandby then {4} else {})" for w
    unfolding pg by (auto simp: in_members pl split: if_splits)
  have "distinct (queue_of q sample_steal) \<and>
      set (queue_of q sample_steal) = members (mypages sample_steal) (Some q)" for q
    unfolding m by (cases q) (simp_all add: sample_steal_def sample_tables_def boot_state_def)
  moreover have "qcount w (vmstat sample_steal) = of_nat (card (members (mypages sample_steal) w))" for w
    unfolding m by (cases "(w, vmstat sample_steal)" rule: qcount.cases) (auto simp: sample_steal_def)
  moreover have "page_wf p (sample_steal_page p)" for p
    by (simp add: page_wf_def sample_steal_page_def sample_table_page_def zero_page_def use_of_level_def)
  ultimately show ?thesis unfolding pfndb_def pg by simp
qed

theorem page_alloc_steals_standby_page_witness:
  "\<exists>t. vmp_page_alloc_locked kPageUseAnonPrivate True sample_steal = Ok (Some 4, t) \<and> pfndb t
     \<and> handed_out 4 kPageUseAnonPrivate t \<and> SOFT_pages t (3 * PGSIZE + PTE_SIZE) = vmp_pte_swap_create 0 7
     \<and> nonswap_ptes (mypages t 3) = 0"
proof -
  have pg: "mypages sample_steal p = (if p \<le> 3 then mypages sample_tables p else sample_steal_page p)" for p
    by (simp add: sample_steal_def sample_tables_simps sample_steal_page_def)
  have "tables_ok_but {p. 4 \<le> p} 0 sample_steal"
    by (rule tables_ok_but_other [OF sample_tables_ok [unfolded tables_ok_but_empty]])
      (simp_all add: pg, simp_all add: sample_steal_def)
  moreover have "\<not> table_of 0 sample_steal p" if "4 \<le> p" for p
    using that by (auto simp: pg table_of_def sample_steal_page_def zero_page_def is_table_def)
  ultimately have tok: "tables_ok 0 sample_steal"
    unfolding tables_ok_def tables_ok_but_def by (metis mem_Collect_eq)
  have "idle_clean sample_steal"
    by (auto simp: idle_clean_def sample_steal_def sample_steal_page_def sample_table_page_def zero_page_def
        is_table_def use_of_level_def)
  moreover have "stealable 4 sample_steal"
    by (simp add: stealable_def table_of_def pg sample_tables_simps sample_steal_page_def sample_table_page_def
        zero_page_def is_table_def use_of_level_def Let_def)
  moreover have "process (mypages sample_steal 4) = 0" "free_pgq sample_steal = []" "standby_pgq sample_steal = [4]"
    "referent_pte (mypages sample_steal 4) = 3 * PGSIZE + PTE_SIZE" "drumslot (mypages sample_steal 4) = 7"
    "nonswap_ptes (mypages sample_steal 3) = 1"
    by (simp_all add: sample_steal_def sample_steal_page_def sample_table_page_def zero_page_def)
  ultimately show ?thesis
    using page_alloc_steals_standby_page [OF sample_steal_pfndb, of 4 "[]" True kPageUseAnonPrivate] tok
    by (auto simp: Let_def)
qed

end
