(* ===== verification/Working_Set.thy ===== *)
theory Working_Set
  imports Page_Alloc
begin

text \<open>
  The parts of \<^verbatim>\<open>vm/ws.c\<close> that evict pages: trimming the oldest entry of a working set list, inserting
  an entry into a list that may be full, and trimming several entries; and \<^verbatim>\<open>vmp_fetch_pte\<close> of
  \<^verbatim>\<open>vm/tables.c\<close>, the table walk that trimming uses. A pointer to an entry is its physical address;
  reading outside simulated memory has no defined result.
\<close>

section \<open>Walking the tables\<close>

definition load_pte :: "paddr \<Rightarrow> vmm \<Rightarrow> pte outcome" where
  "load_pte a s = defined_if (in_soft_pages a) ''pte'' (Ok (SOFT_pages s a))"

text \<open>The loop of \<^verbatim>\<open>vmp_fetch_pte\<close> from a level downwards; \<open>None\<close> is the return value \<open>-1\<close>, which leaves the
  result pointer unset.\<close>

fun fetch_level :: "nat \<Rightarrow> paddr \<Rightarrow> vaddr \<Rightarrow> vmm \<Rightarrow> paddr option outcome" where
  "fetch_level 0 table vaddr s = kfatal ''unreached''"
| "fetch_level (Suc l) table vaddr s =
     (let pte = table + PTE_SIZE * (vmp_addr_unpack vaddr ! Suc l) in
      if l = 0 then Ok (Some pte)
      else bnd (load_pte pte s) (\<lambda>v.
           bnd (vmp_pte_characterise v) (\<lambda>kind.
           if kind \<noteq> kPTEKindValid then Ok None
           else fetch_level l (vmp_pte_hw_paddr v) vaddr s)))"

definition vmp_fetch_pte :: "nat \<Rightarrow> vaddr \<Rightarrow> vmm \<Rightarrow> paddr option outcome" where
  "vmp_fetch_pte ps vaddr s = fetch_level VMP_TABLE_LEVELS (pml4 (procs s ps)) vaddr s"

section \<open>Eviction and trimming\<close>

definition wsl_evict :: "nat \<Rightarrow> page_ptr \<Rightarrow> paddr \<Rightarrow> vmm \<Rightarrow> vmm outcome" where
  "wsl_evict ps page pte s =
     bnd (if use (mypages s page) = kPageUseAnonPrivate then
            bnd (load_pte pte s) (\<lambda>v.
            let is_dirty = vmp_pte_hw_is_writeable v;
                s = page_update page (\<lambda>pg. pg\<lparr>dirty := dirty pg \<or> is_dirty\<rparr>) s
            in store_pte pte (vmp_pte_trans_create 0 (vmp_pte_hw_pfn v)) s)
          else if is_table (use (mypages s page)) then
            bnd (vmp_paddr_to_page pte) (\<lambda>dirpage.
            bnd (vmp_md_transition_table_pointers ps dirpage page s) (\<lambda>s.
            kfatal ''Implement pagetable eviction!''))
          else kfatal ''Implement me'')
       (vmp_page_release_locked page)"

definition wsl_trim_1 :: "nat \<Rightarrow> vmm \<Rightarrow> (vmp_wsle option \<times> vmm) outcome" where
  "wsl_trim_1 ps s =
     (case TAILQ_FIRST (wsl_queue (wsl (procs s ps))) of
        None \<Rightarrow> Ok (None, s)
      | Some wsle \<Rightarrow>
          bnd (on_wsl (wsl_queue_remove wsle) ps s) (\<lambda>s.
          bnd (on_wsl (wsl_tree_remove wsle) ps s) (\<lambda>s.
          let s = wsl_update_ps ps (\<lambda>w. w\<lparr>nentries := nentries w - 1\<rparr>) s in
          bnd (if \<not> is_pagetable wsle then
                 bnd (vmp_fetch_pte ps (wsle_vaddr wsle) s) (\<lambda>found.
                 case found of
                   None \<Rightarrow> Err (Undefined ''pte'')
                 | Some pte \<Rightarrow>
                     bnd (load_pte pte s) (\<lambda>v.
                     bnd (vmp_paddr_to_page (vmp_pte_hw_paddr v)) (\<lambda>page. Ok (page, pte))))
               else
                 bnd (vmp_paddr_to_page (V2P (SOFT_pages_base s) (wsle_vaddr wsle))) (\<lambda>page.
                 Ok (page, referent_pte (mypages s page)))) (\<lambda>(page, pte).
          bnd (wsl_evict ps page pte s) (\<lambda>s. Ok (Some wsle, s))))))"

definition wsl_try_expand :: "nat \<Rightarrow> vmm \<Rightarrow> bool \<times> vmm" where
  "wsl_try_expand ps s =
     (if nfree (vmstat s) + nstandby (vmstat s) > min_avail_for_expansion (vmparam s)
      then (True, wsl_update_ps ps (\<lambda>w. w\<lparr>wsl_max := wsl_max w + ws_page_expansion_count (vmparam s)\<rparr>) s)
      else (False, s))"

text \<open>Linking a new entry into the list: the tail of \<^verbatim>\<open>vmp_wsl_insert\<close>, on the list itself.\<close>

definition wsl_link :: "vaddr \<Rightarrow> bool \<Rightarrow> bool \<Rightarrow> vmp_wsl \<Rightarrow> vmp_wsl outcome" where
  "wsl_link vaddr is_pt locked w =
     (let e = \<lparr>wsle_vaddr = vaddr, is_pagetable = is_pt\<rparr>;
          w = w\<lparr>nentries := nentries w + 1\<rparr>;
          w = (if locked then w\<lparr>nlocked := nlocked w + 1\<rparr> else w)
      in bnd (if locked then Ok w else wsl_queue_insert e w) (\<lambda>w.
         Ok (w\<lparr>wsl_tree := snd (RB_INSERT wsle_cmp e (wsl_tree w))\<rparr>)))"

definition vmp_wsl_insert :: "nat \<Rightarrow> vaddr \<Rightarrow> bool \<Rightarrow> bool \<Rightarrow> vmm \<Rightarrow> vmm outcome" where
  "vmp_wsl_insert ps vaddr is_pt locked s =
     kassert (vmp_wsl_find ps vaddr s = None) ''vmp_wsl_find(ps, vaddr) == NULL''
     (kassert (nentries (wsl (procs s ps)) \<le> wsl_max (wsl (procs s ps))) ''ps->wsl.nentries <= ps->wsl.max''
     (bnd (if nentries (wsl (procs s ps)) = wsl_max (wsl (procs s ps)) then
             let (expanded, s) = wsl_try_expand ps s in
             if expanded then Ok s
             else bnd (wsl_trim_1 ps s) (\<lambda>(wsle, s).
                  kassert (wsle \<noteq> None) ''wsle != NULL'' (Ok s))
           else Ok s)
        (on_wsl (wsl_link vaddr is_pt locked) ps)))"

text \<open>The loop of \<^verbatim>\<open>vmp_wsl_trim_n\<close>: \<open>n\<close> iterations are left, \<open>i\<close> entries have been trimmed.\<close>

fun trim_loop :: "nat \<Rightarrow> nat \<Rightarrow> nat \<Rightarrow> vmm \<Rightarrow> (nat \<times> vmm) outcome" where
  "trim_loop ps i 0 s = Ok (i, s)"
| "trim_loop ps i (Suc n) s =
     bnd (wsl_trim_1 ps s) (\<lambda>(wsle, s).
     if wsle = None then Ok (i, s) else trim_loop ps (Suc i) n s)"

definition vmp_wsl_trim_n :: "nat \<Rightarrow> size_t \<Rightarrow> vmm \<Rightarrow> (nat \<times> vmm) outcome" where
  "vmp_wsl_trim_n ps count s = trim_loop ps 0 (unat count) s"

section \<open>What trimming and inserting do\<close>

lemma fetch_level_cong:
  "SOFT_pages t = SOFT_pages s \<Longrightarrow> fetch_level l table v t = fetch_level l table v s"
  by (induction l arbitrary: table) (auto simp: load_pte_def Let_def cong: if_cong)

lemma fetch_level_step:
  assumes "in_soft_pages (table + PTE_SIZE * (vmp_addr_unpack v ! Suc (Suc l)))"
    and "pte_valid (SOFT_pages s (table + PTE_SIZE * (vmp_addr_unpack v ! Suc (Suc l))))"
  shows "fetch_level (Suc (Suc l)) table v s = fetch_level (Suc l)
    (vmp_pte_hw_paddr (SOFT_pages s (table + PTE_SIZE * (vmp_addr_unpack v ! Suc (Suc l))))) v s"
  using assms by (simp add: load_pte_def Let_def vmp_pte_characterise_def)

lemma levels_Suc: "VMP_TABLE_LEVELS = Suc (Suc (Suc (Suc 0)))"
  by simp

lemma fetch_level_leaf: "fetch_level (Suc 0) table v s = Ok (Some (table + PTE_SIZE * (vmp_addr_unpack v ! 1)))"
  by simp

text \<open>Virtual address \<open>v\<close> of a process is mapped to the private page \<open>q\<close> by the entry at \<open>a\<close>.\<close>

definition maps_anon :: "nat \<Rightarrow> vaddr \<Rightarrow> paddr \<Rightarrow> page_ptr \<Rightarrow> vmm \<Rightarrow> bool" where
  "maps_anon ps v a q s \<longleftrightarrow> vmp_fetch_pte ps v s = Ok (Some a) \<and> in_soft_pages a \<and> PTE_SIZE dvd a \<and>
     pte_valid (SOFT_pages s a) \<and> vmp_pte_hw_pfn (SOFT_pages s a) = of_nat q \<and> q < SOFT_NPAGES \<and>
     use (mypages s q) = kPageUseAnonPrivate \<and> refcnt (mypages s q) \<noteq> 0"

definition evicted :: "pte \<Rightarrow> vm_page \<Rightarrow> vm_page" where
  "evicted v pg = (let pg = pg\<lparr>dirty := dirty pg \<or> vmp_pte_hw_is_writeable v\<rparr> in pg\<lparr>refcnt := refcnt pg - 1\<rparr>)"

lemma wsl_evict_anon_ok:
  assumes s: "pfndb s" and q: "q < SOFT_NPAGES" "use (mypages s q) = kPageUseAnonPrivate" "refcnt (mypages s q) \<noteq> 0"
    and a: "in_soft_pages a" "PTE_SIZE dvd a"
  obtains t where "wsl_evict ps q a s = Ok t" and "pfndb t"
    and "SOFT_pages t = (SOFT_pages s)(a := vmp_pte_trans_create 0 (vmp_pte_hw_pfn (SOFT_pages s a)))"
    and "mypages t = (mypages s)(q := evicted (SOFT_pages s a) (mypages s q))"
    and "procs t = procs s" and "SOFT_pages_base t = SOFT_pages_base s" and "vmparam t = vmparam s"
    and "vmp_pagefile_state t = vmp_pagefile_state s"
proof -
  let ?v = "SOFT_pages s a"
  let ?f = "\<lambda>pg. pg\<lparr>dirty := dirty pg \<or> vmp_pte_hw_is_writeable ?v\<rparr>"
  let ?r = "write_pte a (vmp_pte_trans_create 0 (vmp_pte_hw_pfn ?v)) (page_update q ?f s)"
  have r: "pfndb ?r" using pfndb_active_update [of s q ?f] s q by simp
  obtain t where t: "vmp_page_release_locked q ?r = Ok t" "pfndb t" "rest_unchanged ?r t"
    "mypages t = (mypages ?r)(q := released (mypages ?r q))"
    by (rule release_ok [OF r q(1)]) (use q in simp_all)
  have "wsl_evict ps q a s = Ok t"
    using t(1) a q(2) by (simp add: wsl_evict_def load_pte_def store_pte_def Let_def)
  moreover have "mypages t = (mypages s)(q := evicted ?v (mypages s q))"
    using t(4) q(2) by (simp add: released_def evicted_def Let_def)
  ultimately show thesis using that t(2,3) by (simp add: rest_unchanged_def)
qed

lemma wsl_trim_1_anon_ok:
  fixes ps s
  defines "w \<equiv> wsl (procs s ps)"
  assumes s: "pfndb s" and w: "wsl_ok w" and e: "wsl_queue w = e # rest" "\<not> is_pagetable e"
    and m: "maps_anon ps (wsle_vaddr e) a q s"
  obtains t tr where "wsl_trim_1 ps s = Ok (Some e, t)" and "pfndb t"
    and "procs t = (procs s)(ps := (procs s ps)\<lparr>wsl := w\<lparr>wsl_queue := rest, wsl_tree := tr, nentries := nentries w - 1\<rparr>\<rparr>)"
    and "wsl_ok (wsl (procs t ps))" and "set (inorder tr) = set (entries w) - {e}"
    and "SOFT_pages t = (SOFT_pages s)(a := vmp_pte_trans_create 0 (of_nat q))"
    and "mypages t = (mypages s)(q := evicted (SOFT_pages s a) (mypages s q))"
    and "SOFT_pages_base t = SOFT_pages_base s" and "vmparam t = vmparam s"
    and "vmp_pagefile_state t = vmp_pagefile_state s"
proof -
  note D = wsl_okD [OF w]
  have ee: "e \<in> set (entries w)" using D(3) e(1) by auto
  obtain tr where tr: "wsl_tree_remove e w = Ok (w\<lparr>wsl_tree := tr\<rparr>)" "tree_ok wsle_vaddr low_wsle tr"
    "set (inorder tr) = set (entries w) - {e}" "length (entries w) = Suc (length (inorder tr))"
    by (rule wsl_tree_remove_ok [OF D(1) ee])
  let ?w = "w\<lparr>wsl_queue := rest, wsl_tree := tr, nentries := nentries w - 1\<rparr>"
  let ?r = "wsl_update_ps ps (\<lambda>_. ?w) s"
  have wok: "wsl_ok ?w" using w tr(2-4) e(1) D by (auto simp: wsl_ok_def)
  have tr': "wsl_tree_remove e (w\<lparr>wsl_queue := rest\<rparr>) = Ok (w\<lparr>wsl_queue := rest, wsl_tree := tr\<rparr>)"
    using tr(1) by (auto simp: wsl_tree_remove_def split: option.splits prod.splits dest: arg_cong [where f = wsl_tree])
  have M: "vmp_fetch_pte ps (wsle_vaddr e) s = Ok (Some a)" "in_soft_pages a" "PTE_SIZE dvd a"
    "vmp_pte_hw_pfn (SOFT_pages s a) = of_nat q" "q < SOFT_NPAGES"
    "use (mypages s q) = kPageUseAnonPrivate" "refcnt (mypages s q) \<noteq> 0"
    using m by (simp_all add: maps_anon_def)
  have f: "vmp_fetch_pte ps (wsle_vaddr e) ?r = Ok (Some a)"
    using M(1) fetch_level_cong [of ?r s] by (simp add: vmp_fetch_pte_def)
  obtain t where t: "wsl_evict ps q a ?r = Ok t" "pfndb t"
    "SOFT_pages t = (SOFT_pages ?r)(a := vmp_pte_trans_create 0 (vmp_pte_hw_pfn (SOFT_pages ?r a)))"
    "mypages t = (mypages ?r)(q := evicted (SOFT_pages ?r a) (mypages ?r q))"
    "procs t = procs ?r" "SOFT_pages_base t = SOFT_pages_base ?r" "vmparam t = vmparam ?r"
    "vmp_pagefile_state t = vmp_pagefile_state ?r"
    by (rule wsl_evict_anon_ok [of ?r q a ps]) (use s M in simp_all)
  have r1: "on_wsl (wsl_queue_remove e) ps s = Ok (wsl_update_ps ps (\<lambda>_. w\<lparr>wsl_queue := rest\<rparr>) s)"
    using e(1) by (simp add: on_wsl_def wsl_queue_remove_def TAILQ_REMOVE_def w_def)
  have r2: "on_wsl (wsl_tree_remove e) ps (wsl_update_ps ps (\<lambda>_. w\<lparr>wsl_queue := rest\<rparr>) s) =
      Ok (wsl_update_ps ps (\<lambda>_. w\<lparr>wsl_queue := rest, wsl_tree := tr\<rparr>) s)"
    using tr' by (simp add: on_wsl_def wsl_update_ps_def)
  have r3: "wsl_update_ps ps (\<lambda>w. w\<lparr>nentries := nentries w - 1\<rparr>)
      (wsl_update_ps ps (\<lambda>_. w\<lparr>wsl_queue := rest, wsl_tree := tr\<rparr>) s) = ?r"
    by (simp add: wsl_update_ps_def)
  have "vmp_pte_hw_paddr (SOFT_pages s a) = q * PGSIZE"
    using M(4,5) by (simp add: vmp_pte_hw_paddr_def)
  then have "wsl_trim_1 ps s = Ok (Some e, t)"
    using e M(2,5) f r1 r2 r3 t(1)
    by (simp add: wsl_trim_1_def TAILQ_FIRST_def w_def [symmetric] Let_def load_pte_def)
  then show thesis
    by (rule that) (use t M(4) wok tr(3) in simp_all)
qed

lemma wsl_link_ok:
  fixes is_pt locked :: bool
  assumes w: "wsl_ok w" and v: "low_vaddr v" and f: "wsl_find v w = None"
  defines "e \<equiv> \<lparr>wsle_vaddr = v, is_pagetable = is_pt\<rparr>"
  obtains tr where "wsl_link v is_pt locked w = Ok (w\<lparr>wsl_tree := tr, nentries := nentries w + 1,
      wsl_queue := (if locked then wsl_queue w else wsl_queue w @ [e]),
      nlocked := (if locked then nlocked w + 1 else nlocked w)\<rparr>)"
    and "wsl_ok (w\<lparr>wsl_tree := tr, nentries := nentries w + 1,
      wsl_queue := (if locked then wsl_queue w else wsl_queue w @ [e]),
      nlocked := (if locked then nlocked w + 1 else nlocked w)\<rparr>)"
    and "set (inorder tr) = insert e (set (entries w))" and "e \<notin> set (entries w)"
proof -
  note D = wsl_okD [OF w]
  have le: "low_wsle e" using v by (simp add: low_wsle_def e_def)
  have "RB_FIND wsle_cmp e (wsl_tree w) = None"
    using f wsl_find_None_iff [OF w v] wslt.find_None_iff [OF D(1) le] by (simp add: e_def)
  then obtain tr where tr: "RB_INSERT wsle_cmp e (wsl_tree w) = (None, tr)" "tree_ok wsle_vaddr low_wsle tr"
    "set (inorder tr) = insert e (set (entries w))" "length (inorder tr) = Suc (length (entries w))"
    using wslt.insert_fresh [OF D(1) le] by blast
  have ne: "e \<notin> set (entries w)" using f wsl_find_None_iff [OF w v] by (auto simp: e_def)
  then have nq: "e \<notin> set (wsl_queue w)" using D(3) by blast
  have code: "wsl_link v is_pt locked w = Ok (w\<lparr>wsl_tree := tr, nentries := nentries w + 1,
      wsl_queue := (if locked then wsl_queue w else wsl_queue w @ [e]),
      nlocked := (if locked then nlocked w + 1 else nlocked w)\<rparr>)"
    using tr(1) nq by (simp add: wsl_link_def e_def [symmetric] Let_def wsl_queue_insert_def TAILQ_INSERT_TAIL_def)
  have "wsl_ok (w\<lparr>wsl_tree := tr, nentries := nentries w + 1,
      wsl_queue := (if locked then wsl_queue w else wsl_queue w @ [e]),
      nlocked := (if locked then nlocked w + 1 else nlocked w)\<rparr>)"
    using w tr(2-4) nq D by (auto simp: wsl_ok_def algebra_simps)
  with code tr(3) ne that show thesis by blast
qed

text \<open>The counter that the limit applies to is at least the number of entries. (\<^verbatim>\<open>vmp_wsl_remove\<close> leaves
  it too high.)\<close>

definition wsl_counted :: "vmp_wsl \<Rightarrow> bool" where
  "wsl_counted w \<longleftrightarrow> length (entries w) \<le> unat (nentries w)"

lemma length_entries_card: "wsl_ok w \<Longrightarrow> length (entries w) = card (set (entries w))"
  using wsl_okD(4) [of w] by (simp add: distinct_card)

text \<open>When an insertion can be accommodated: there is room, or the list may grow, or its oldest entry is
  a private page.\<close>

definition can_insert :: "nat \<Rightarrow> vmm \<Rightarrow> bool" where
  "can_insert ps s \<longleftrightarrow> (let w = wsl (procs s ps) in
     nentries w < wsl_max w \<or>
     nentries w = wsl_max w \<and>
       (if nfree (vmstat s) + nstandby (vmstat s) > min_avail_for_expansion (vmparam s)
        then wsl_max w < wsl_max w + ws_page_expansion_count (vmparam s)
        else \<exists>e rest a q. wsl_queue w = e # rest \<and> \<not> is_pagetable e \<and> maps_anon ps (wsle_vaddr e) a q s))"

text \<open>The entries that an insertion evicts: the oldest one when the list is full and may not grow.\<close>

definition insert_evicts :: "nat \<Rightarrow> vmm \<Rightarrow> vmp_wsle list" where
  "insert_evicts ps s = (let w = wsl (procs s ps) in
     if nentries w = wsl_max w \<and> \<not> nfree (vmstat s) + nstandby (vmstat s) > min_avail_for_expansion (vmparam s)
     then take 1 (wsl_queue w) else [])"

text \<open>The state in which the new entry is linked: the list has room, its limit has grown if it was full and
  might grow, and the entries evicted have left it, with the page-table entry of each in transition.\<close>

definition made_room :: "nat \<Rightarrow> vmm \<Rightarrow> vmm \<Rightarrow> bool" where
  "made_room ps s t \<longleftrightarrow> (let w = wsl (procs s ps); w' = wsl (procs t ps) in
     wsl_queue w' = drop (length (insert_evicts ps s)) (wsl_queue w)
     \<and> set (entries w') = set (entries w) - set (insert_evicts ps s)
     \<and> nentries w' = nentries w - of_nat (length (insert_evicts ps s)) \<and> nlocked w' = nlocked w
     \<and> wsl_max w' = (if nentries w = wsl_max w \<and> insert_evicts ps s = [] then wsl_max w + ws_page_expansion_count (vmparam s)
                    else wsl_max w)
     \<and> (if insert_evicts ps s = [] then SOFT_pages t = SOFT_pages s \<and> mypages t = mypages s
        else \<exists>a q. maps_anon ps (wsle_vaddr (hd (insert_evicts ps s))) a q s
          \<and> SOFT_pages t = (SOFT_pages s)(a := vmp_pte_trans_create 0 (of_nat q))
          \<and> mypages t = (mypages s)(q := evicted (SOFT_pages s a) (mypages s q))))"

lemma wsl_insert_room:
  assumes s: "pfndb s" "wsl_ok (wsl (procs s ps))" "wsl_counted (wsl (procs s ps))"
    and c: "can_insert ps s" and f: "vmp_wsl_find ps v s = None" and v: "low_vaddr v"
  obtains r where "vmp_wsl_insert ps v is_pt locked s = on_wsl (wsl_link v is_pt locked) ps r"
    and "made_room ps s r" and "pfndb r" and "wsl_ok (wsl (procs r ps))" and "vmp_wsl_find ps v r = None"
    and "wsl_counted (wsl (procs r ps))" and "nentries (wsl (procs r ps)) < wsl_max (wsl (procs r ps))"
proof -
  let ?w = "wsl (procs s ps)"
  have le: "nentries ?w \<le> wsl_max ?w" using c by (auto simp: can_insert_def Let_def)
  consider (room) "nentries ?w < wsl_max ?w"
    | (grow) "nentries ?w = wsl_max ?w" "nfree (vmstat s) + nstandby (vmstat s) > min_avail_for_expansion (vmparam s)"
        "wsl_max ?w < wsl_max ?w + ws_page_expansion_count (vmparam s)"
    | (trim) e rest a q where "nentries ?w = wsl_max ?w"
        "\<not> nfree (vmstat s) + nstandby (vmstat s) > min_avail_for_expansion (vmparam s)"
        "wsl_queue ?w = e # rest" "\<not> is_pagetable e" "maps_anon ps (wsle_vaddr e) a q s"
    using c unfolding can_insert_def Let_def by (auto split: if_splits)
  then show thesis
  proof cases
    case room
    then have "nentries ?w \<noteq> wsl_max ?w" by simp
    with room that [of s] s f le show thesis by (simp add: vmp_wsl_insert_def made_room_def insert_evicts_def Let_def)
  next
    case grow
    let ?r = "wsl_update_ps ps (\<lambda>w. w\<lparr>wsl_max := wsl_max w + ws_page_expansion_count (vmparam s)\<rparr>) s"
    have "wsl_try_expand ps s = (True, ?r)" using grow by (simp add: wsl_try_expand_def)
    with that [of ?r] s f grow show thesis
      by (simp add: vmp_wsl_insert_def vmp_wsl_find_def wsl_find_def wsl_ok_def wsl_counted_def made_room_def insert_evicts_def)
  next
    case trim
    obtain t tr where t: "wsl_trim_1 ps s = Ok (Some e, t)" "pfndb t"
      "procs t = (procs s)(ps := (procs s ps)\<lparr>wsl := ?w\<lparr>wsl_queue := rest, wsl_tree := tr, nentries := nentries ?w - 1\<rparr>\<rparr>)"
      "wsl_ok (wsl (procs t ps))" "set (inorder tr) = set (entries ?w) - {e}"
      "SOFT_pages t = (SOFT_pages s)(a := vmp_pte_trans_create 0 (of_nat q))"
      "mypages t = (mypages s)(q := evicted (SOFT_pages s a) (mypages s q))"
      by (rule wsl_trim_1_anon_ok [OF s(1) s(2) trim(3,4,5)])
    have code: "vmp_wsl_insert ps v is_pt locked s = on_wsl (wsl_link v is_pt locked) ps t"
      using trim f t(1) by (simp add: vmp_wsl_insert_def wsl_try_expand_def)
    have "wsl_find v ?w = None" using f by (simp add: vmp_wsl_find_def)
    then have "\<forall>x\<in>set (entries (wsl (procs t ps))). wsle_vaddr x \<noteq> v"
      unfolding wsl_find_None_iff [OF s(2) v] using t(3,5) by simp
    then have "vmp_wsl_find ps v t = None"
      unfolding vmp_wsl_find_def wsl_find_None_iff [OF t(4) v] .
    moreover have ee: "e \<in> set (entries ?w)" using wsl_okD(3) [OF s(2)] trim(3) by auto
    then have n: "nentries ?w \<noteq> 0"
      using s(3) by (cases "entries ?w") (auto simp: wsl_counted_def)
    then have "nentries (wsl (procs t ps)) < wsl_max (wsl (procs t ps))"
      using t(3) trim(1) by (simp add: measure_unat word_less_nat_alt)
    moreover have "length (entries (wsl (procs t ps))) = length (entries ?w) - 1"
      unfolding length_entries_card [OF s(2)] length_entries_card [OF t(4)] using ee t(3,5) by simp
    then have "wsl_counted (wsl (procs t ps))"
      using s(3) t(3) unat_minus_one [OF n] by (simp add: wsl_counted_def)
    moreover have "insert_evicts ps s = [e]" using trim(1-3) by (simp add: insert_evicts_def)
    then have "made_room ps s t" using t(3,5-7) trim(3,5) by (auto simp: made_room_def Let_def)
    ultimately show thesis using that [OF code] t by blast
  qed
qed

section \<open>Properties of working set replacement\<close>

text \<open>C34. Trimming one entry, when the oldest evictable entry is not that of a page table and maps a private
  page (a page table ends in \<^verbatim>\<open>kfatal\<close> or an assertion): that entry leaves the list, its page-table entry becomes a transition entry to the same page, so a later touch finds the
  page again without I/O; the page inherits the dirtiness of the mapping and loses the reference the
  working set held: if that was the last, it goes to the modified or standby queue. An empty queue is
  reported as such and changes nothing.\<close>

theorem wsl_trim_evicts_oldest:
  assumes "pfndb s" and "wsl_ok (wsl (procs s ps))"
  shows "(wsl_queue (wsl (procs s ps)) = [] \<longrightarrow> wsl_trim_1 ps s = Ok (None, s))
    \<and> (wsl_queue (wsl (procs s ps)) = e # rest \<longrightarrow> \<not> is_pagetable e \<longrightarrow>
         maps_anon ps (wsle_vaddr e) a q s \<longrightarrow>
       (\<exists>t. wsl_trim_1 ps s = Ok (Some e, t) \<and> pfndb t \<and> wsl_ok (wsl (procs t ps))
          \<and> wsl_queue (wsl (procs t ps)) = rest
          \<and> set (entries (wsl (procs t ps))) = set (entries (wsl (procs s ps))) - {e}
          \<and> nentries (wsl (procs t ps)) = nentries (wsl (procs s ps)) - 1
          \<and> SOFT_pages t = (SOFT_pages s)(a := vmp_pte_trans_create 0 (of_nat q))
          \<and> mypages t = (mypages s)(q := evicted (SOFT_pages s a) (mypages s q))
          \<and> (refcnt (mypages s q) = 1 \<longrightarrow>
               q \<in> set (queue_of (if dirty (mypages s q) \<or> vmp_pte_hw_is_writeable (SOFT_pages s a)
                                   then QModified else QStandby) t))))"
proof (intro conjI impI)
  assume e: "wsl_queue (wsl (procs s ps)) = e # rest" "\<not> is_pagetable e" and m: "maps_anon ps (wsle_vaddr e) a q s"
  obtain t tr where t: "wsl_trim_1 ps s = Ok (Some e, t)" "pfndb t"
    "procs t = (procs s)(ps := (procs s ps)\<lparr>wsl := (wsl (procs s ps))\<lparr>wsl_queue := rest, wsl_tree := tr,
       nentries := nentries (wsl (procs s ps)) - 1\<rparr>\<rparr>)"
    "wsl_ok (wsl (procs t ps))" "set (inorder tr) = set (entries (wsl (procs s ps))) - {e}"
    "SOFT_pages t = (SOFT_pages s)(a := vmp_pte_trans_create 0 (of_nat q))"
    "mypages t = (mypages s)(q := evicted (SOFT_pages s a) (mypages s q))"
    by (rule wsl_trim_1_anon_ok [OF assms e m])
  moreover have "q \<in> set (queue_of (if dirty (mypages s q) \<or> vmp_pte_hw_is_writeable (SOFT_pages s a)
      then QModified else QStandby) t)" if "refcnt (mypages s q) = 1"
    using m that unfolding pfndb_queue_iff [OF t(2)] t(7)
    by (auto simp: maps_anon_def evicted_def place_def Let_def)
  ultimately show "\<exists>t. wsl_trim_1 ps s = Ok (Some e, t) \<and> pfndb t \<and> wsl_ok (wsl (procs t ps))
          \<and> wsl_queue (wsl (procs t ps)) = rest
          \<and> set (entries (wsl (procs t ps))) = set (entries (wsl (procs s ps))) - {e}
          \<and> nentries (wsl (procs t ps)) = nentries (wsl (procs s ps)) - 1
          \<and> SOFT_pages t = (SOFT_pages s)(a := vmp_pte_trans_create 0 (of_nat q))
          \<and> mypages t = (mypages s)(q := evicted (SOFT_pages s a) (mypages s q))
          \<and> (refcnt (mypages s q) = 1 \<longrightarrow>
               q \<in> set (queue_of (if dirty (mypages s q) \<or> vmp_pte_hw_is_writeable (SOFT_pages s a)
                                   then QModified else QStandby) t))"
    by (intro exI [of _ t]) simp
qed (simp add: wsl_trim_1_def TAILQ_FIRST_def)

text \<open>The sample tables with a private page, number 4, mapped writeable at address 0 by the first entry of
  the leaf table and entered in the working set, which is full.\<close>

definition sample_mapped_page :: "page_ptr \<Rightarrow> vm_page" where
  "sample_mapped_page p =
     (if p = 4 then zero_page\<lparr>pfn := 4, use := kPageUseAnonPrivate, refcnt := 1, referent_pte := 3 * PGSIZE\<rparr>
      else sample_table_page p)"

definition sample_mapped :: vmm where
  "sample_mapped = sample_tables\<lparr>mypages := sample_mapped_page,
     SOFT_pages := (SOFT_pages sample_tables)(3 * PGSIZE := vmp_pte_hw_create 4 True),
     free_pgq := [5..<SOFT_NPAGES],
     vmstat := \<lparr>nfree = 27, nmodified = 0, nstandby = 0, nactive = 5, ntotal = 0\<rparr>,
     vmparam := \<lparr>ws_page_expansion_count = 4, min_avail_for_expansion = 40, min_avail_for_alloc = 4\<rparr>,
     procs := (\<lambda>_. (procs sample_tables 0)\<lparr>wsl := (wsl (procs sample_tables 0))
       \<lparr>wsl_queue := [wsle_key 0],
        wsl_tree := snd (RB_INSERT wsle_cmp (wsle_key 0) (wsl_tree (wsl (procs sample_tables 0)))),
        nentries := 4\<rparr>\<rparr>)\<rparr>"

lemma sample_mapped_pfndb: "pfndb sample_mapped"
proof -
  have pg: "mypages sample_mapped = sample_mapped_page" by (simp add: sample_mapped_def)
  have pl: "place (sample_mapped_page p) = (if p \<le> 4 then None else Some QFree)" for p
    by (simp add: sample_mapped_page_def sample_table_page_def place_def zero_page_def use_of_level_def)
  have m: "members (mypages sample_mapped) w =
      (if w = None then {..<5} else if w = Some QFree then {5..<32} else {})" for w
    unfolding pg by (auto simp: in_members pl split: if_splits)
  have "distinct (queue_of q sample_mapped) \<and>
      set (queue_of q sample_mapped) = members (mypages sample_mapped) (Some q)" for q
    unfolding m by (cases q)
      (simp_all add: sample_mapped_def sample_tables_def boot_state_def del: upt_rec_numeral)
  moreover have "qcount w (vmstat sample_mapped) = of_nat (card (members (mypages sample_mapped) w))" for w
    unfolding m by (cases "(w, vmstat sample_mapped)" rule: qcount.cases) (auto simp: sample_mapped_def)
  moreover have "page_wf p (sample_mapped_page p)" for p
    by (simp add: page_wf_def sample_mapped_page_def sample_table_page_def zero_page_def use_of_level_def)
  ultimately show ?thesis unfolding pfndb_def pg by simp
qed

lemma sample_mapped_wsl: "wsl_ok (wsl (procs sample_mapped 0))"
  by code_simp

lemma unpack_0: "vmp_addr_unpack 0 = [0, 0, 0, 0, 0]"
  by (simp add: vmp_addr_unpack_def get_field_def)

lemma sample_mapped_fetch: "maps_anon 0 0 (3 * PGSIZE) 4 sample_mapped"
proof -
  have m: "SOFT_pages sample_mapped 0 = vmp_pte_hw_create (of_nat 1) True"
    "SOFT_pages sample_mapped PGSIZE = vmp_pte_hw_create (of_nat 2) True"
    "SOFT_pages sample_mapped (2 * PGSIZE) = vmp_pte_hw_create (of_nat 3) True"
    "SOFT_pages sample_mapped (3 * PGSIZE) = vmp_pte_hw_create (of_nat 4) True"
    by (simp_all add: sample_mapped_def sample_tables_def)
  have root: "pml4 (procs sample_mapped 0) = 0"
    by (simp add: sample_mapped_def sample_tables_def zero_process_def)
  have hw: "vmp_pte_hw_paddr (vmp_pte_hw_create (of_nat p) True) = p * PGSIZE" if "p < SOFT_NPAGES" for p
    using that by simp
  have "fetch_level (Suc (Suc (Suc (Suc 0)))) 0 0 sample_mapped = Ok (Some (3 * PGSIZE))"
    using hw [of 1] hw [of 2] hw [of 3]
    by (simp add: fetch_level_step unpack_0 m [simplified] in_soft_pages_def del: fetch_level.simps)
      (simp add: unpack_0)
  then have "vmp_fetch_pte 0 0 sample_mapped = Ok (Some (3 * PGSIZE))"
    unfolding vmp_fetch_pte_def root levels_Suc .
  moreover have "vmp_pte_hw_pfn (SOFT_pages sample_mapped (3 * PGSIZE)) = of_nat 4"
    unfolding m hw_create_pfn by (rule small_pfn) simp
  moreover have "mypages sample_mapped 4 = sample_mapped_page 4" by (simp add: sample_mapped_def)
  ultimately show ?thesis
    unfolding maps_anon_def m(4)
    by (simp add: in_soft_pages_def sample_mapped_page_def zero_page_def)
qed

theorem wsl_trim_evicts_oldest_witness:
  "\<exists>t. wsl_trim_1 0 sample_mapped = Ok (Some (wsle_key 0), t) \<and> pfndb t
     \<and> SOFT_pages t (3 * PGSIZE) = vmp_pte_trans_create 0 4 \<and> 4 \<in> set (modified_pgq t)"
proof -
  have "wsl_queue (wsl (procs sample_mapped 0)) = [wsle_key 0]" "wsle_vaddr (wsle_key 0) = 0"
    "\<not> is_pagetable (wsle_key 0)" "refcnt (mypages sample_mapped 4) = 1"
    "vmp_pte_hw_is_writeable (SOFT_pages sample_mapped (3 * PGSIZE))"
    by (simp_all add: sample_mapped_def wsle_key_def sample_mapped_page_def)
  with wsl_trim_evicts_oldest [OF sample_mapped_pfndb sample_mapped_wsl, of "wsle_key 0" "[]" "3 * PGSIZE" 4]
  show ?thesis using sample_mapped_fetch by (auto simp del: fun_upd_apply) auto
qed

text \<open>C35. Inserting an address below \<open>2^63\<close> that is not in the list, when it can be accommodated: the list
  is below its limit, or the limit is raised because memory is plentiful, or the oldest evictable entry,
  which must map a private page, is evicted. Exactly the entry of the address is added, and exactly
  the evicted entry, if any, is removed: from the tree, from the eviction queue, whose other entries
  keep their order, and from the count. The new entry is the youngest of the queue, or locked and
  counted as such, as requested. The list is consistent afterwards and its size within its limit.\<close>

theorem wsl_insert_within_limit:
  assumes s: "pfndb s" "wsl_ok (wsl (procs s ps))" "wsl_counted (wsl (procs s ps))" and c: "can_insert ps s"
    and f: "vmp_wsl_find ps v s = None" and v: "low_vaddr v"
  shows "\<exists>t. vmp_wsl_insert ps v is_pt locked s = Ok t \<and> pfndb t \<and> wsl_ok (wsl (procs t ps))
    \<and> wsl_counted (wsl (procs t ps)) \<and> nentries (wsl (procs t ps)) \<le> wsl_max (wsl (procs t ps))
    \<and> vmp_wsl_find ps v t = Some \<lparr>wsle_vaddr = v, is_pagetable = is_pt\<rparr>
    \<and> (\<lparr>wsle_vaddr = v, is_pagetable = is_pt\<rparr> \<in> locked_entries (wsl (procs t ps)) \<longleftrightarrow> locked)
    \<and> set (entries (wsl (procs t ps))) =
        insert \<lparr>wsle_vaddr = v, is_pagetable = is_pt\<rparr> (set (entries (wsl (procs s ps))) - set (insert_evicts ps s))
    \<and> wsl_queue (wsl (procs t ps)) = drop (length (insert_evicts ps s)) (wsl_queue (wsl (procs s ps)))
        @ (if locked then [] else [\<lparr>wsle_vaddr = v, is_pagetable = is_pt\<rparr>])
    \<and> nentries (wsl (procs t ps)) = nentries (wsl (procs s ps)) - of_nat (length (insert_evicts ps s)) + 1
    \<and> nlocked (wsl (procs t ps)) = nlocked (wsl (procs s ps)) + (if locked then 1 else 0)
    \<and> wsl_max (wsl (procs t ps)) = wsl_max (wsl (procs s ps)) +
        (if nentries (wsl (procs s ps)) = wsl_max (wsl (procs s ps)) \<and> insert_evicts ps s = []
         then ws_page_expansion_count (vmparam s) else 0)
    \<and> (if insert_evicts ps s = [] then SOFT_pages t = SOFT_pages s \<and> mypages t = mypages s
       else \<exists>a q. maps_anon ps (wsle_vaddr (hd (insert_evicts ps s))) a q s
         \<and> SOFT_pages t = (SOFT_pages s)(a := vmp_pte_trans_create 0 (of_nat q))
         \<and> mypages t = (mypages s)(q := evicted (SOFT_pages s a) (mypages s q)))"
proof -
  let ?e = "\<lparr>wsle_vaddr = v, is_pagetable = is_pt\<rparr>"
  obtain r where r: "vmp_wsl_insert ps v is_pt locked s = on_wsl (wsl_link v is_pt locked) ps r"
    "made_room ps s r" "pfndb r" "wsl_ok (wsl (procs r ps))" "vmp_wsl_find ps v r = None"
    "wsl_counted (wsl (procs r ps))" "nentries (wsl (procs r ps)) < wsl_max (wsl (procs r ps))"
    by (rule wsl_insert_room [OF s c f v])
  let ?w = "wsl (procs r ps)"
  obtain tr where tr: "wsl_link v is_pt locked ?w = Ok (?w\<lparr>wsl_tree := tr, nentries := nentries ?w + 1,
      wsl_queue := (if locked then wsl_queue ?w else wsl_queue ?w @ [?e]),
      nlocked := (if locked then nlocked ?w + 1 else nlocked ?w)\<rparr>)"
    "wsl_ok (?w\<lparr>wsl_tree := tr, nentries := nentries ?w + 1,
      wsl_queue := (if locked then wsl_queue ?w else wsl_queue ?w @ [?e]),
      nlocked := (if locked then nlocked ?w + 1 else nlocked ?w)\<rparr>)"
    "set (inorder tr) = insert ?e (set (entries ?w))" "?e \<notin> set (entries ?w)"
    by (rule wsl_link_ok [OF r(4) v]) (use r(5) in \<open>simp add: vmp_wsl_find_def\<close>)
  let ?x = "?w\<lparr>wsl_tree := tr, nentries := nentries ?w + 1,
      wsl_queue := (if locked then wsl_queue ?w else wsl_queue ?w @ [?e]),
      nlocked := (if locked then nlocked ?w + 1 else nlocked ?w)\<rparr>"
  let ?t = "wsl_update_ps ps (\<lambda>_. ?x) r"
  have t: "vmp_wsl_insert ps v is_pt locked s = Ok ?t" unfolding r(1) on_wsl_def tr(1) by simp
  have find: "vmp_wsl_find ps v ?t = Some ?e"
    using wsl_find_iff [OF tr(2) v, of ?e] tr(3) by (simp add: vmp_wsl_find_def)
  have le: "nentries ?w + 1 \<le> wsl_max ?w" using inc_le [OF r(7)] by (simp add: add.commute)
  have "length (inorder tr) = Suc (length (entries ?w))"
    using length_entries_card [OF tr(2)] length_entries_card [OF r(4)] tr(3,4) by simp
  moreover have "unat (nentries ?w + 1) = Suc (unat (nentries ?w))"
    using r(7) unsigned_less [of "wsl_max ?w", where ?'a = nat]
    by (simp add: word_less_nat_alt unat_word_ariths(1))
  ultimately have "wsl_counted ?x" using r(6) by (simp add: wsl_counted_def)
  moreover have "?e \<notin> set (wsl_queue ?w)" using tr(4) wsl_okD(3) [OF r(4)] by blast
  then have "?e \<in> locked_entries ?x \<longleftrightarrow> locked" using tr(3) by (simp add: locked_entries_def)
  moreover note R = r(2) [unfolded made_room_def Let_def]
  ultimately show ?thesis
    using t find le tr(2,3) r(3) by (intro exI [of _ ?t] conjI) simp_all
qed

text \<open>An address that the sample does not map is inserted into its full list: page 4 is evicted.\<close>

theorem wsl_insert_within_limit_witness:
  "\<exists>t. vmp_wsl_insert 0 0x5000 False False sample_mapped = Ok t \<and> pfndb t
     \<and> wsl_queue (wsl (procs t 0)) = [wsle_key 0x5000] \<and> nentries (wsl (procs t 0)) \<le> wsl_max (wsl (procs t 0))
     \<and> vmp_wsl_find 0 0x5000 t = Some (wsle_key 0x5000)"
proof -
  have w: "wsl_queue (wsl (procs sample_mapped 0)) = [wsle_key 0]" "nentries (wsl (procs sample_mapped 0)) = 4"
    "wsl_max (wsl (procs sample_mapped 0)) = 4" "nfree (vmstat sample_mapped) + nstandby (vmstat sample_mapped) = 27"
    "min_avail_for_expansion (vmparam sample_mapped) = 40"
    by (simp_all add: sample_mapped_def sample_tables_def)
  have "can_insert 0 sample_mapped"
    using sample_mapped_fetch by (auto simp: can_insert_def w wsle_key_def intro!: exI)
  moreover have "wsl_counted (wsl (procs sample_mapped 0))" "low_vaddr 0x5000"
    "vmp_wsl_find 0 0x5000 sample_mapped = None"
    by code_simp+
  moreover have "insert_evicts 0 sample_mapped = [wsle_key 0]" by (simp add: insert_evicts_def w)
  ultimately show ?thesis
    using wsl_insert_within_limit [OF sample_mapped_pfndb sample_mapped_wsl, where v = "0x5000" and is_pt = False and locked = False]
    by (auto simp: wsle_key_def w)
qed

end
