(* ===== verification/Wire.thy ===== *)
theory Wire
  imports Working_Set
begin

text \<open>
  Wiring a page-table entry (\<^verbatim>\<open>vmp_wire_pte\<close> of \<^verbatim>\<open>vm/tables.c\<close>): the walk from the root to the leaf
  table that makes every table on the way present and pins it with one extra entry count. Missing
  tables are allocated, entered into the working set as locked entries, and linked into their
  directory. \<^verbatim>\<open>vmp_pte_wire_state_release\<close> (in \<open>Tables\<close>) drops the pins.
\<close>

section \<open>The operations\<close>

text \<open>\<^verbatim>\<open>page->nonzero_ptes++; page->nonswap_ptes++\<close>: the wiring of a table that has just become present.\<close>

definition pin_counts :: "page_ptr \<Rightarrow> vmm \<Rightarrow> vmm" where
  "pin_counts page s = page_update page (\<lambda>pg. pg\<lparr>nonzero_ptes := nonzero_ptes pg + 1,
     nonswap_ptes := nonswap_ptes pg + 1\<rparr>) s"

text \<open>The three cases of the switch that go on to the next level; each gives the page of the next table.
  \<open>level\<close> is at least 2, \<open>dirpage\<close> is \<^verbatim>\<open>pages[level - 1]\<close> and \<open>pte\<close> the entry examined, with value \<open>v\<close>.\<close>

definition wire_valid :: "nat \<Rightarrow> pte \<Rightarrow> vmm \<Rightarrow> (page_ptr \<times> vmm) outcome" where
  "wire_valid ps v s =
     bnd (vmp_paddr_to_page (vmp_pte_hw_paddr v)) (\<lambda>page.
     bnd (vmp_pagetable_page_nonswap_pte_created ps page True s) (\<lambda>s. Ok (page, s)))"

definition wire_trans :: "nat \<Rightarrow> page_ptr \<Rightarrow> paddr \<Rightarrow> pte \<Rightarrow> vmm \<Rightarrow> (page_ptr \<times> vmm) outcome" where
  "wire_trans ps dirpage pte v s =
     (let next_table_p = vmp_pte_trans_paddr v in
      bnd (vmp_paddr_to_page next_table_p) (\<lambda>page.
      bnd (vmp_page_retain_locked page s) (\<lambda>s.
      bnd (vmp_page_retain_locked page s) (\<lambda>s.
      bnd (vmp_wsl_insert ps (P2V (SOFT_pages_base s) next_table_p) True True (pin_counts page s)) (\<lambda>s.
      bnd (vmp_md_setup_table_pointers ps dirpage page pte False s) (\<lambda>s. Ok (page, s)))))))"

definition wire_zero :: "nat \<Rightarrow> nat \<Rightarrow> page_ptr \<Rightarrow> paddr \<Rightarrow> vmm \<Rightarrow> (page_ptr \<times> vmm) outcome" where
  "wire_zero ps level dirpage pte s =
     bnd (vmp_page_alloc_locked (use_of_level (level - 1)) False s) (\<lambda>(r, s).
     case r of
       None \<Rightarrow> Err (Kassert ''r == 0'')
     | Some page \<Rightarrow>
         bnd (vmp_page_retain_locked page s) (\<lambda>s.
         let s = page_update page (\<lambda>pg. pg\<lparr>process := ps\<rparr>) s;
             s = pin_counts page s;
             s = page_update page (\<lambda>pg. pg\<lparr>referent_pte := pte\<rparr>) s
         in bnd (vmp_wsl_insert ps (page_vaddr page s) True True s) (\<lambda>s.
            bnd (vmp_md_setup_table_pointers ps dirpage page pte True s) (\<lambda>s. Ok (page, s)))))"

text \<open>\<^verbatim>\<open>page->pager_state\<close> is never assigned by any code: it overlays the queue link of the page.\<close>

definition wire_busy :: "pte \<Rightarrow> (page_ptr \<times> vmm) outcome" where
  "wire_busy v =
     bnd (vmp_paddr_to_page (vmp_pte_hw_paddr v)) (\<lambda>page. Err (Undefined ''page->pager_state''))"

definition wire_entry :: "nat \<Rightarrow> nat \<Rightarrow> page_ptr \<Rightarrow> paddr \<Rightarrow> vmm \<Rightarrow> (page_ptr \<times> vmm) outcome" where
  "wire_entry ps level dirpage pte s =
     bnd (load_pte pte s) (\<lambda>v.
     bnd (vmp_pte_characterise v) (\<lambda>kind.
     case kind of
       kPTEKindValid \<Rightarrow> wire_valid ps v s
     | kPTEKindTrans \<Rightarrow> wire_trans ps dirpage pte v s
     | kPTEKindBusy \<Rightarrow> wire_busy v
     | kPTEKindSwap \<Rightarrow> kfatal ''swap page back in''
     | kPTEKindZero \<Rightarrow> wire_zero ps level dirpage pte s))"

text \<open>The loop over the levels: \<open>dirpage\<close> is the page of \<open>table\<close>, which is wired already.\<close>

fun wire_level ::
    "nat \<Rightarrow> vaddr \<Rightarrow> nat \<Rightarrow> page_ptr \<Rightarrow> paddr \<Rightarrow> page_ptr option list \<Rightarrow> vmm \<Rightarrow>
     (vmp_pte_wire_state \<times> vmm) outcome" where
  "wire_level ps vaddr 0 dirpage table pages s = kfatal ''unreached''"
| "wire_level ps vaddr (Suc l) dirpage table pages s =
     (let pte = table + PTE_SIZE * (vmp_addr_unpack vaddr ! Suc l) in
      if l = 0 then Ok (\<lparr>ws_ps = ps, ws_pte = pte, ws_pages = pages\<rparr>, s)
      else bnd (wire_entry ps (Suc l) dirpage pte s) (\<lambda>(page, s).
           bnd (load_pte pte s) (\<lambda>v.
           wire_level ps vaddr l page (vmp_pte_hw_paddr v) (pages[l - 1 := Some page]) s)))"

definition vmp_wire_pte :: "nat \<Rightarrow> vaddr \<Rightarrow> vmm \<Rightarrow> (vmp_pte_wire_state \<times> vmm) outcome" where
  "vmp_wire_pte ps vaddr s =
     (let root = pml4_page (procs s ps);
          pages = (replicate VMP_TABLE_LEVELS None)[VMP_TABLE_LEVELS - 1 := Some root]
      in bnd (vmp_pagetable_page_nonswap_pte_created ps root True s) (\<lambda>s.
         wire_level ps vaddr VMP_TABLE_LEVELS root (pml4 (procs s ps)) pages s))"

end
