(* ===== verification/Vad.thy ===== *)
theory Vad
  imports Resident
begin

text \<open>
  Virtual address descriptors (\<^verbatim>\<open>vm/vad.c\<close>): a tree of address ranges per process, searched by an
  address. The comparison function places the start of its first argument before, within or after the
  range of its second, so the tree is a search tree as long as the ranges do not overlap.
\<close>

section \<open>The operations\<close>

definition vmp_vad_cmp :: "vm_vad \<Rightarrow> vm_vad \<Rightarrow> int" where
  "vmp_vad_cmp x y =
     (if vad_start x < vad_start y then - 1
      else if vad_start x \<ge> vad_end y then 1
      else 0)"

text \<open>The search key is a local variable of which only the start is set; the other fields are
  indeterminate, and are an argument here.\<close>

definition vmp_ps_vad_find :: "vm_vad \<Rightarrow> nat \<Rightarrow> vaddr \<Rightarrow> vmm \<Rightarrow> vm_vad option" where
  "vmp_ps_vad_find key ps vaddr s = RB_FIND vmp_vad_cmp (key\<lparr>vad_start := vaddr\<rparr>) (vad_tree (procs s ps))"

definition vad_tree_update_ps :: "nat \<Rightarrow> vm_vad rbtree \<Rightarrow> vmm \<Rightarrow> vmm" where
  "vad_tree_update_ps ps t s = s\<lparr>procs := (procs s)(ps := (procs s ps)\<lparr>vad_tree := t\<rparr>)\<rparr>"

text \<open>The offset is stored in a signed 36-bit field. The result is the return value, the address stored
  through \<^verbatim>\<open>vaddrp\<close>, and the state; \<^verbatim>\<open>kmem_alloc\<close> is taken to succeed.\<close>

definition vm_ps_map_section_view ::
    "nat \<Rightarrow> nat option \<Rightarrow> vaddr \<Rightarrow> size_t \<Rightarrow> uint64_t \<Rightarrow> bool \<Rightarrow> bool \<Rightarrow> bool \<Rightarrow> bool \<Rightarrow> bool \<Rightarrow> vmm \<Rightarrow>
     int \<times> vaddr \<times> vmm" where
  "vm_ps_map_section_view ps section vaddrp sz offset initial_writeability max_writeability
       inherit_shared cow exact s =
     (let addr = (if exact then vaddrp else 0);
          vad = \<lparr>vad_writeable = initial_writeability, vad_max_protection = max_writeability,
                 vad_inherit_shared = inherit_shared, vad_cow = cow,
                 vad_offset = signed_take_bit 35 offset, vad_start = addr, vad_end = addr + sz,
                 vad_section = section\<rparr>
      in (0, addr, vad_tree_update_ps ps (snd (RB_INSERT vmp_vad_cmp vad (vad_tree (procs s ps)))) s))"

definition vm_ps_allocate :: "nat \<Rightarrow> vaddr \<Rightarrow> size_t \<Rightarrow> bool \<Rightarrow> vmm \<Rightarrow> int \<times> vaddr \<times> vmm" where
  "vm_ps_allocate ps vaddrp sz exact s =
     vm_ps_map_section_view ps None vaddrp sz 0 True True False False exact s"

section \<open>Disjoint ranges\<close>

definition vads_ok :: "vm_vad rbtree \<Rightarrow> bool" where
  "vads_ok t \<longleftrightarrow> balanced t \<and> sorted_wrt (\<lambda>x y. vad_end x \<le> vad_start y) (inorder t) \<and>
     (\<forall>x\<in>set (inorder t). vad_start x < vad_end x)"

definition in_vad :: "vaddr \<Rightarrow> vm_vad \<Rightarrow> bool" where
  "in_vad v x \<longleftrightarrow> vad_start x \<le> v \<and> v < vad_end x"

lemma vad_cmp_0: "vmp_vad_cmp k x = 0 \<longleftrightarrow> in_vad (vad_start k) x"
  by (auto simp: vmp_vad_cmp_def in_vad_def)

lemma vads_bisect:
  assumes "vads_ok t"
  shows "bisects vmp_vad_cmp k (inorder t)"
proof -
  have "\<forall>x\<in>set (inorder t). vad_start x < vad_end x" and
    s: "sorted_wrt (\<lambda>x y. vad_end x \<le> vad_start y) (inorder t)"
    using assms by (auto simp: vads_ok_def)
  then show ?thesis
    unfolding bisects_def
    by (intro sorted_wrt_mono_rel [OF _ s]) (auto simp: vmp_vad_cmp_def)
qed

text \<open>At most one range contains an address.\<close>

lemma in_vad_unique:
  assumes "vads_ok t" and "x \<in> set (inorder t)" and "y \<in> set (inorder t)" and "in_vad v x" and "in_vad v y"
  shows "x = y"
proof -
  have "sorted_wrt (\<lambda>x y. vad_end x \<le> vad_start y) l \<Longrightarrow> x \<in> set l \<Longrightarrow> y \<in> set l \<Longrightarrow> x = y" for l
  proof (induction l)
    case (Cons a l)
    have "\<not> vad_end x \<le> vad_start y" "\<not> vad_end y \<le> vad_start x"
      using assms(4,5) unfolding in_vad_def by (meson leD le_less_trans less_le_trans)+
    with Cons show ?case by auto
  qed simp
  with assms(1-3) show ?thesis by (auto simp: vads_ok_def)
qed

lemma vad_find_iff:
  assumes "vads_ok (vad_tree (procs s ps))"
  shows "vmp_ps_vad_find key ps v s = Some x \<longleftrightarrow> x \<in> set (inorder (vad_tree (procs s ps))) \<and> in_vad v x"
  using RB_FIND_correct [OF vads_bisect [OF assms], of "key\<lparr>vad_start := v\<rparr>"] in_vad_unique [OF assms]
  unfolding vmp_ps_vad_find_def vad_cmp_0 by (auto split: option.splits)

section \<open>Properties of address descriptors\<close>

text \<open>In a tree of disjoint ranges the lookup returns the range that contains the address, if there
  is one, whatever the uninitialised rest of the key holds.\<close>

theorem vad_find_by_address:
  assumes "vads_ok (vad_tree (procs s ps))"
  shows "(vmp_ps_vad_find key ps v s = Some x \<longleftrightarrow> x \<in> set (inorder (vad_tree (procs s ps))) \<and> in_vad v x)
    \<and> vmp_ps_vad_find key ps v s = vmp_ps_vad_find key' ps v s"
proof -
  have "vmp_ps_vad_find key ps v s = vmp_ps_vad_find key' ps v s"
    by (rule option_eqI) (simp add: vad_find_iff [OF assms])
  with vad_find_iff [OF assms] show ?thesis by blast
qed

text \<open>Entering a range that overlaps no other.\<close>

lemma vad_insert_disjoint:
  fixes s ps e
  defines "T \<equiv> vad_tree (procs s ps)"
    and "t \<equiv> vad_tree_update_ps ps (snd (RB_INSERT vmp_vad_cmp e (vad_tree (procs s ps)))) s"
  assumes ok: "vads_ok T" and size: "vad_start e < vad_end e"
    and dis: "\<forall>x\<in>set (inorder T). vad_end x \<le> vad_start e \<or> vad_end e \<le> vad_start x"
  shows "vads_ok (vad_tree (procs t ps))"
    and "in_vad v e \<Longrightarrow> vmp_ps_vad_find key ps v t = Some e"
    and "\<not> in_vad v e \<Longrightarrow> vmp_ps_vad_find key ps v t = vmp_ps_vad_find key ps v s"
proof -
  have "\<not> in_vad (vad_start e) x" if "x \<in> set (inorder T)" for x
    using dis that size unfolding in_vad_def by (meson leD le_less_trans less_le_trans)
  then have none: "RB_FIND vmp_vad_cmp e T = None"
    using RB_FIND_correct [OF vads_bisect [OF ok], of e] by (auto simp: vad_cmp_0 split: option.splits)
  obtain t' as bs where i: "RB_INSERT vmp_vad_cmp e T = (None, t')" "inorder T = as @ bs"
    "inorder t' = as @ e # bs" "\<forall>x\<in>set as. vmp_vad_cmp e x > 0" "\<forall>x\<in>set bs. vmp_vad_cmp e x < 0"
    by (rule RB_INSERT_correct [OF vads_bisect [OF ok] none])
  have bal: "balanced t'"
    using balanced_RB_INSERT [of T vmp_vad_cmp e] ok i(1) by (simp add: vads_ok_def)
  have tree: "vad_tree (procs t ps) = t'"
    using i(1) by (simp add: t_def T_def vad_tree_update_ps_def)
  have as: "vad_end x \<le> vad_start e" if "x \<in> set as" for x
    using i(4) that by (auto simp: vmp_vad_cmp_def split: if_splits)
  have bs: "vad_end e \<le> vad_start x" if "x \<in> set bs" for x
  proof -
    have "vad_start e < vad_start x" "vad_start x < vad_end x"
      using i(2,5) that ok by (auto simp: vmp_vad_cmp_def vads_ok_def split: if_splits)
    then have "\<not> vad_end x \<le> vad_start e" by (meson leD less_le_trans less_trans)
    then show ?thesis using dis i(2) that by auto
  qed
  show ok': "vads_ok (vad_tree (procs t ps))"
    using ok i(2,3) bal as bs size unfolding vads_ok_def tree by (auto simp: sorted_wrt_append)
  show "vmp_ps_vad_find key ps v t = Some e" if "in_vad v e"
    unfolding vad_find_iff [OF ok'] tree i(3) using that by simp
  show "vmp_ps_vad_find key ps v t = vmp_ps_vad_find key ps v s" if "\<not> in_vad v e"
    using that by (intro option_eqI)
      (auto simp: vad_find_iff [OF ok'] vad_find_iff [OF ok [unfolded T_def]] tree i(2,3) [unfolded T_def])
qed

text \<open>Entering a range that starts inside another does nothing.\<close>

lemma vad_insert_overlapping:
  assumes ok: "vads_ok (vad_tree (procs s ps))" and x: "vmp_ps_vad_find key ps (vad_start e) s = Some x"
  shows "vad_tree_update_ps ps (snd (RB_INSERT vmp_vad_cmp e (vad_tree (procs s ps)))) s = s"
proof -
  have "x \<in> set (inorder (vad_tree (procs s ps)))" "in_vad (vad_start e) x" using vad_find_iff [OF ok] x by auto
  then obtain y where "RB_FIND vmp_vad_cmp e (vad_tree (procs s ps)) = Some y"
    using RB_FIND_correct [OF vads_bisect [OF ok], of e] by (auto simp: vad_cmp_0 split: option.splits)
  from RB_INSERT_duplicate [OF this] show ?thesis by (simp add: vad_tree_update_ps_def)
qed

text \<open>A range that starts outside all others is entered, whatever it runs into.\<close>

lemma vad_insert_running_into:
  assumes ok: "vads_ok (vad_tree (procs s ps))" and size: "vad_start e < vad_end e"
    and out: "\<forall>x \<in> set (inorder (vad_tree (procs s ps))). \<not> in_vad (vad_start e) x"
    and y: "y \<in> set (inorder (vad_tree (procs s ps)))" "vad_start e < vad_start y" "vad_start y < vad_end e"
  defines "t \<equiv> vad_tree_update_ps ps (snd (RB_INSERT vmp_vad_cmp e (vad_tree (procs s ps)))) s"
  shows "set (inorder (vad_tree (procs t ps))) = insert e (set (inorder (vad_tree (procs s ps))))"
    and "\<not> vads_ok (vad_tree (procs t ps))"
proof -
  let ?T = "vad_tree (procs s ps)"
  have none: "RB_FIND vmp_vad_cmp e ?T = None"
    using RB_FIND_correct [OF vads_bisect [OF ok], of e] out by (auto simp: vad_cmp_0 split: option.splits)
  obtain t' as bs where i: "RB_INSERT vmp_vad_cmp e ?T = (None, t')" "inorder ?T = as @ bs"
    "inorder t' = as @ e # bs" "\<forall>x\<in>set as. vmp_vad_cmp e x > 0" "\<forall>x\<in>set bs. vmp_vad_cmp e x < 0"
    by (rule RB_INSERT_correct [OF vads_bisect [OF ok] none])
  have tree: "vad_tree (procs t ps) = t'" using i(1) by (simp add: t_def vad_tree_update_ps_def)
  show "set (inorder (vad_tree (procs t ps))) = insert e (set (inorder ?T))" using i(2,3) tree by auto
  have sz: "vad_start y < vad_end y" using ok y(1) by (simp add: vads_ok_def)
  have "\<not> vmp_vad_cmp e y > 0" using y(2) sz by (auto simp: vmp_vad_cmp_def)
  then have "y \<in> set bs" using y(1) i(2,4) by auto
  then have "sorted_wrt (\<lambda>x y. vad_end x \<le> vad_start y) (inorder t') \<Longrightarrow> vad_end e \<le> vad_start y"
    unfolding i(3) by (simp add: sorted_wrt_append)
  then show "\<not> vads_ok (vad_tree (procs t ps))" using y(3) unfolding vads_ok_def tree by auto
qed

text \<open>C39. Mapping at a given address a range that does not wrap around always reports success. If the range overlaps no other,
  every address in it resolves to the new descriptor, the lookup of other addresses stays as it was and
  the ranges stay disjoint. If its start is inside an existing range, nothing is entered and the state
  is unchanged. If it starts outside every range and runs into one that starts later, it is entered
  all the same, and the ranges are no longer disjoint.\<close>

theorem vad_map_then_find:
  assumes ok: "vads_ok (vad_tree (procs s ps))" and size: "addr < addr + sz"
    and call: "vm_ps_map_section_view ps sect addr sz offset iw mw inh cow True s = (r, a, t)"
  shows "r = 0 \<and> a = addr
    \<and> ((\<forall>x\<in>set (inorder (vad_tree (procs s ps))). vad_end x \<le> addr \<or> addr + sz \<le> vad_start x) \<longrightarrow>
        vads_ok (vad_tree (procs t ps))
        \<and> (addr \<le> v \<and> v < addr + sz \<longrightarrow> (\<exists>x. vmp_ps_vad_find key ps v t = Some x \<and> vad_start x = addr
             \<and> vad_end x = addr + sz \<and> vad_writeable x = iw \<and> vad_cow x = cow \<and> vad_section x = sect))
        \<and> (\<not> (addr \<le> v \<and> v < addr + sz) \<longrightarrow> vmp_ps_vad_find key ps v t = vmp_ps_vad_find key ps v s))
    \<and> ((\<exists>x. vmp_ps_vad_find key ps addr s = Some x) \<longrightarrow> t = s)
    \<and> (vmp_ps_vad_find key ps addr s = None
        \<and> (\<exists>y\<in>set (inorder (vad_tree (procs s ps))). addr < vad_start y \<and> vad_start y < addr + sz) \<longrightarrow>
        (\<exists>e. vad_start e = addr \<and> vad_end e = addr + sz \<and> set (inorder (vad_tree (procs t ps))) =
          insert e (set (inorder (vad_tree (procs s ps))))) \<and> \<not> vads_ok (vad_tree (procs t ps)))"
proof -
  let ?e = "\<lparr>vad_writeable = iw, vad_max_protection = mw, vad_inherit_shared = inh, vad_cow = cow,
    vad_offset = signed_take_bit 35 offset, vad_start = addr, vad_end = addr + sz, vad_section = sect\<rparr>"
  have t: "t = vad_tree_update_ps ps (snd (RB_INSERT vmp_vad_cmp ?e (vad_tree (procs s ps)))) s" "r = 0" "a = addr"
    using call by (auto simp: vm_ps_map_section_view_def Let_def)
  note D = vad_insert_disjoint [OF ok, of ?e, folded t(1), simplified, OF size]
    and O = vad_insert_overlapping [OF ok, of key ?e, folded t(1), simplified]
  have "in_vad v ?e \<longleftrightarrow> addr \<le> v \<and> v < addr + sz" by (simp add: in_vad_def)
  then have "r = 0 \<and> a = addr
    \<and> ((\<forall>x\<in>set (inorder (vad_tree (procs s ps))). vad_end x \<le> addr \<or> addr + sz \<le> vad_start x) \<longrightarrow>
        vads_ok (vad_tree (procs t ps))
        \<and> (addr \<le> v \<and> v < addr + sz \<longrightarrow> (\<exists>x. vmp_ps_vad_find key ps v t = Some x \<and> vad_start x = addr
             \<and> vad_end x = addr + sz \<and> vad_writeable x = iw \<and> vad_cow x = cow \<and> vad_section x = sect))
        \<and> (\<not> (addr \<le> v \<and> v < addr + sz) \<longrightarrow> vmp_ps_vad_find key ps v t = vmp_ps_vad_find key ps v s))
    \<and> ((\<exists>x. vmp_ps_vad_find key ps addr s = Some x) \<longrightarrow> t = s)"
    using t(2,3) D(1) D(2,3) [of v key] O by auto
  moreover have "(\<exists>e. vad_start e = addr \<and> vad_end e = addr + sz \<and> set (inorder (vad_tree (procs t ps))) =
          insert e (set (inorder (vad_tree (procs s ps))))) \<and> \<not> vads_ok (vad_tree (procs t ps))"
    if "vmp_ps_vad_find key ps addr s = None"
      "\<exists>y\<in>set (inorder (vad_tree (procs s ps))). addr < vad_start y \<and> vad_start y < addr + sz"
  proof -
    note N = that
    have out: "\<forall>x\<in>set (inorder (vad_tree (procs s ps))). \<not> in_vad (vad_start ?e) x"
      using N(1) vad_find_iff [OF ok, of key addr] by fastforce
    obtain y where y: "y \<in> set (inorder (vad_tree (procs s ps)))" "vad_start ?e < vad_start y" "vad_start y < vad_end ?e"
      using N(2) by auto
    from vad_insert_running_into [OF ok _ out y, folded t(1)] size show ?thesis by (intro conjI exI [of _ ?e]) simp_all
  qed
  ultimately show ?thesis by blast
qed

text \<open>One anonymous range of 64 KiB at \<open>0x1000\<close>.\<close>

definition sample_vad :: vm_vad where
  "sample_vad = \<lparr>vad_writeable = True, vad_max_protection = True, vad_inherit_shared = False,
     vad_cow = False, vad_offset = 0, vad_start = 0x1000, vad_end = 0x11000, vad_section = None\<rparr>"

definition sample_vads :: "vmm \<Rightarrow> vmm" where
  "sample_vads s = vad_tree_update_ps 0 (Elm False False Null sample_vad Null) s"

lemma sample_vads_ok: "vads_ok (vad_tree (procs (sample_vads s) 0))"
  by (simp add: sample_vads_def vad_tree_update_ps_def vads_ok_def sample_vad_def edge_def)

theorem vad_find_by_address_witness:
  "vmp_ps_vad_find sample_vad 0 0x2000 (sample_vads (boot_state 0)) = Some sample_vad"
  using vad_find_by_address [OF sample_vads_ok [of "boot_state 0"], of sample_vad "0x2000" sample_vad sample_vad]
  by (simp add: sample_vads_def vad_tree_update_ps_def in_vad_def sample_vad_def)

theorem vad_map_then_find_witness:
  "\<exists>t x. vm_ps_map_section_view 0 None 0x20000 0x1000 0 True True False False True (sample_vads (boot_state 0)) = (0, 0x20000, t)
     \<and> vmp_ps_vad_find sample_vad 0 0x20800 t = Some x \<and> vad_end x = 0x21000"
proof -
  obtain r a t where c: "vm_ps_map_section_view 0 None 0x20000 0x1000 0 True True False False True (sample_vads (boot_state 0)) = (r, a, t)"
    by (metis surj_pair)
  have "set (inorder (vad_tree (procs (sample_vads (boot_state 0)) 0))) = {sample_vad}"
    by (simp add: sample_vads_def vad_tree_update_ps_def)
  with vad_map_then_find [OF sample_vads_ok _ c, of "0x20800" sample_vad] c show ?thesis
    by (auto simp: sample_vad_def)
qed

end
