(* ===== verification/Io.thy ===== *)
theory Io
  imports Page_Alloc
begin

text \<open>
  Page file I/O (\<^verbatim>\<open>io.c\<close>): an I/O packet names a file, a memory descriptor list and an offset, and
  \<^verbatim>\<open>iop_send\<close> transfers the pages one after the other with \<^verbatim>\<open>pread\<close> or \<^verbatim>\<open>pwrite\<close> and signals the packet's
  event. A file is its size and its bytes. The two POSIX calls are modelled for the cases the program
  relies on: a negative offset is an error and transfers nothing; a write past the end extends the
  file, with zero bytes in the gap; a read stops at the end of the file. Device errors and short
  writes, which the program does not check for, are not modelled.
\<close>

section \<open>Files and bytes of memory\<close>

record backing =
  f_size :: nat
  f_byte :: "nat \<Rightarrow> uint8_t"

definition mem_byte :: "paddr \<Rightarrow> vmm \<Rightarrow> uint8_t" where
  "mem_byte a s = ucast (drop_bit (8 * (a mod 8)) (SOFT_pages s (a - a mod 8)))"

text \<open>The 64-bit word whose byte \<open>k\<close> is \<open>f k\<close>, least significant first.\<close>

definition word_of_bytes :: "(nat \<Rightarrow> uint8_t) \<Rightarrow> uint64_t" where
  "word_of_bytes f = foldr (\<lambda>k w. push_bit (8 * k) (ucast (f k)) OR w) [0..<8] 0"

definition pwrite :: "paddr \<Rightarrow> uint64_t \<Rightarrow> vmm \<Rightarrow> backing \<Rightarrow> backing" where
  "pwrite data offset s file =
     (if sint offset < 0 then file
      else let off = unat offset in
        file\<lparr>f_size := max (f_size file) (off + PGSIZE),
             f_byte := (\<lambda>i. if off \<le> i \<and> i < off + PGSIZE then mem_byte (data + (i - off)) s
                            else if f_size file \<le> i then 0 else f_byte file i)\<rparr>)"

definition pread :: "paddr \<Rightarrow> uint64_t \<Rightarrow> backing \<Rightarrow> vmm \<Rightarrow> vmm" where
  "pread data offset file s =
     (if sint offset < 0 then s
      else let off = unat offset in
        s\<lparr>SOFT_pages := (\<lambda>a. if data \<le> a \<and> a < data + PGSIZE \<and> 8 dvd a
             then word_of_bytes (\<lambda>k. let i = off + (a - data) + k in
                    if i < f_size file then f_byte file i else mem_byte (a + k) s)
             else SOFT_pages s a)\<rparr>)"

section \<open>I/O packets\<close>

record iop =
  iop_is_write :: bool
  iop_vnode :: "int option"
  iop_mdl :: vm_mdl
  iop_event :: bool
  iop_length :: size_t
  iop_offset :: size_t

definition iop_init_vnode_read :: "int option \<Rightarrow> vm_mdl \<Rightarrow> size_t \<Rightarrow> size_t \<Rightarrow> iop \<Rightarrow> iop" where
  "iop_init_vnode_read vnode mdl len off iop =
     iop\<lparr>iop_vnode := vnode, iop_mdl := mdl, iop_length := len, iop_offset := off,
         iop_is_write := False, iop_event := False\<rparr>"

definition iop_init_vnode_write :: "int option \<Rightarrow> vm_mdl \<Rightarrow> size_t \<Rightarrow> size_t \<Rightarrow> iop \<Rightarrow> iop" where
  "iop_init_vnode_write vnode mdl len off iop =
     iop\<lparr>iop_vnode := vnode, iop_mdl := mdl, iop_length := len, iop_offset := off,
         iop_is_write := True, iop_event := False\<rparr>"

text \<open>The transfer loop: \<open>n\<close> pages are left, \<open>i\<close> is the index of the next.\<close>

fun iop_transfer :: "iop \<Rightarrow> nat \<Rightarrow> nat \<Rightarrow> backing \<times> vmm \<Rightarrow> (backing \<times> vmm) outcome" where
  "iop_transfer iop i 0 (file, s) = Ok (file, s)"
| "iop_transfer iop i (Suc n) (file, s) =
     defined_if (i < length (mdl_pages (iop_mdl iop))) ''mdl->pages[i]''
     (case mdl_pages (iop_mdl iop) ! i of
        None \<Rightarrow> Err (Undefined ''mdl->pages[i]'')
      | Some page \<Rightarrow>
          let data = vmp_page_paddr page s;
              offset = iop_offset iop + of_nat (i * PGSIZE)
          in if iop_is_write iop then iop_transfer iop (Suc i) n (pwrite data offset s file, s)
             else iop_transfer iop (Suc i) n (file, pread data offset file s))"

definition iop_send :: "iop \<Rightarrow> backing \<times> vmm \<Rightarrow> (iop \<times> backing \<times> vmm) outcome" where
  "iop_send iop fs =
     kassert (iop_vnode iop \<noteq> None \<and> iop_vnode iop \<noteq> Some (- 1)) ''iop->vnode && iop->vnode->fd != -1''
     (bnd (iop_transfer iop 0 (unat (mdl_nentries (iop_mdl iop))) fs) (\<lambda>(file, s).
      Ok (iop\<lparr>iop_event := True\<rparr>, file, s)))"

section \<open>Writing and reading back\<close>

lemma bit_foldr_or:
  "bit (foldr (\<lambda>k w. g k OR w) ks (0 :: 'a::len word)) n \<longleftrightarrow> (\<exists>k\<in>set ks. bit (g k) n)"
  by (induction ks) (auto simp: bit_or_iff)

lemma bit_word_of_bytes:
  "bit (word_of_bytes f) n \<longleftrightarrow> n < 64 \<and> bit (f (n div 8)) (n mod 8)"
proof (cases "n < 64")
  case True
  then have "n div 8 < 8" by linarith
  moreover have b: "bit (push_bit (8 * k) (ucast (f k)) :: uint64_t) n \<longleftrightarrow> k = n div 8 \<and> bit (f k) (n mod 8)" for k
  proof (cases "k = n div 8")
    case True
    then have "n = 8 * k + n mod 8" by simp
    then have "8 * k \<le> n" "n - 8 * k = n mod 8" by linarith+
    moreover have "n mod 8 < 64" using mod_less_divisor [of 8 n] by linarith
    ultimately show ?thesis using True \<open>n < 64\<close> by (simp add: bit_simps)
  next
    case False
    then have "n < 8 * k \<or> 8 \<le> n - 8 * k" by (cases "n div 8 < k") linarith+
    with False show ?thesis by (auto simp: bit_simps dest: bit_imp_le_length)
  qed
  ultimately show ?thesis
    using True by (auto simp: word_of_bytes_def bit_foldr_or b simp del: upt_rec_numeral)
qed (auto dest: bit_imp_le_length)

lemma word_of_mem_bytes:
  assumes "8 dvd a"
  shows "word_of_bytes (\<lambda>k. mem_byte (a + k) s) = SOFT_pages s a"
proof (rule bit_word_eqI)
  fix n assume "n < LENGTH(64)"
  then have n: "n < 64" by simp
  then have k: "n div 8 < 8" by linarith
  obtain c where a: "a = 8 * c" using assms by (auto elim: dvdE)
  have "(a + n div 8) mod 8 = n div 8" "(a + n div 8) - n div 8 = a" using k by (simp_all add: a)
  moreover have "8 * (n div 8) + n mod 8 = n" by simp
  moreover have "n mod 8 < 8" by simp
  ultimately show "bit (word_of_bytes (\<lambda>k. mem_byte (a + k) s)) n = bit (SOFT_pages s a) n"
    using n by (simp add: bit_word_of_bytes mem_byte_def bit_simps)
qed

lemma pwrite_pread:
  assumes off: "0 \<le> sint offset" and q: "8 dvd d" "8 dvd e"
  shows "SOFT_pages (pread e offset (pwrite d offset s file) t) a =
    (if e \<le> a \<and> a < e + PGSIZE \<and> 8 dvd a then SOFT_pages s (d + (a - e)) else SOFT_pages t a)"
proof (cases "e \<le> a \<and> a < e + PGSIZE \<and> 8 dvd a")
  case True
  let ?o = "unat offset"
  have "8 dvd a - e" using True q by (meson dvd_diff_nat)
  then obtain c where c: "a - e = 8 * c" by (auto elim: dvdE)
  with True have small: "8 * c < PGSIZE" by linarith
  have "a - e + k < PGSIZE" if "k < 8" for k using that small c by presburger
  then have lt: "a - e + n div 8 < PGSIZE" if "n < 64" for n using that by (simp add: less_mult_imp_div_less)
  have "word_of_bytes (\<lambda>k. let i = ?o + (a - e) + k in
      if i < f_size (pwrite d offset s file) then f_byte (pwrite d offset s file) i else mem_byte (a + k) t) =
      word_of_bytes (\<lambda>k. mem_byte (d + (a - e) + k) s)"
    using off lt by (intro bit_word_eqI)
      (simp add: bit_word_of_bytes pwrite_def Let_def add.assoc less_max_iff_disj)
  also have "\<dots> = SOFT_pages s (d + (a - e))"
    using q(1) \<open>8 dvd a - e\<close> by (intro word_of_mem_bytes) (simp add: dvd_add)
  finally show ?thesis using True off by (simp add: pread_def Let_def)
qed (use off in \<open>auto simp: pread_def Let_def\<close>)

section \<open>Properties of page I/O\<close>

text \<open>A list of one page.\<close>

definition one_page_mdl :: "page_ptr \<Rightarrow> vm_mdl" where
  "one_page_mdl p = \<lparr>mdl_nentries = 1, mdl_offset = 0, mdl_pages = [Some p]\<rparr>"

lemma iop_send_one:
  assumes "iop_vnode iop = Some fd" and "fd \<noteq> - 1" and "iop_mdl iop = one_page_mdl p"
  shows "iop_send iop (file, s) = Ok (iop\<lparr>iop_event := True\<rparr>,
    if iop_is_write iop then (pwrite (vmp_page_paddr p s) (iop_offset iop) s file, s)
    else (file, pread (vmp_page_paddr p s) (iop_offset iop) file s))"
  using assms by (simp add: iop_send_def one_page_mdl_def Let_def)

text \<open>A page written to the page file at an offset is read back unchanged, into any page and in any
  later state of memory; reading changes only the page that is read into, both transfers signal the
  packet's event, and bytes of the file outside the page written are kept.\<close>

theorem page_write_read_roundtrip:
  assumes "pfndb s" and "pfndb t" and "p < SOFT_NPAGES" and "q < SOFT_NPAGES"
    and "fd \<noteq> - 1" and "0 \<le> sint off"
  shows "\<exists>w r file' t'.
    iop_send (iop_init_vnode_write (Some fd) (one_page_mdl p) len off iop) (file, s) = Ok (w, file', s)
    \<and> iop_send (iop_init_vnode_read (Some fd) (one_page_mdl q) len off iop') (file', t) = Ok (r, file', t')
    \<and> iop_event w \<and> iop_event r
    \<and> (\<forall>j < PGSIZE. 8 dvd j \<longrightarrow> SOFT_pages t' (q * PGSIZE + j) = SOFT_pages s (p * PGSIZE + j))
    \<and> (\<forall>a. a div PGSIZE \<noteq> q \<longrightarrow> SOFT_pages t' a = SOFT_pages t a)
    \<and> (\<forall>i < f_size file. i < unat off \<or> unat off + PGSIZE \<le> i \<longrightarrow> f_byte file' i = f_byte file i)"
proof -
  let ?w = "iop_init_vnode_write (Some fd) (one_page_mdl p) len off iop"
  let ?r = "iop_init_vnode_read (Some fd) (one_page_mdl q) len off iop'"
  let ?f = "pwrite (p * PGSIZE) off s file" and ?t = "pread (q * PGSIZE) off (pwrite (p * PGSIZE) off s file) t"
  have w: "iop_send ?w (file, s) = Ok (?w\<lparr>iop_event := True\<rparr>, ?f, s)"
    using iop_send_one [of ?w fd p "file" s] assms(5) pfndb_page_paddr [OF assms(1,3)]
    by (simp add: iop_init_vnode_write_def)
  have r: "iop_send ?r (?f, t) = Ok (?r\<lparr>iop_event := True\<rparr>, ?f, ?t)"
    using iop_send_one [of ?r fd q ?f t] assms(5) pfndb_page_paddr [OF assms(2,4)]
    by (simp add: iop_init_vnode_read_def)
  have mem: "SOFT_pages ?t a = (if q * PGSIZE \<le> a \<and> a < q * PGSIZE + PGSIZE \<and> 8 dvd a
      then SOFT_pages s (p * PGSIZE + (a - q * PGSIZE)) else SOFT_pages t a)" for a
    by (rule pwrite_pread [OF assms(6)]) simp_all
  have "\<forall>j < PGSIZE. 8 dvd j \<longrightarrow> SOFT_pages ?t (q * PGSIZE + j) = SOFT_pages s (p * PGSIZE + j)"
    by (simp add: mem)
  moreover have "\<forall>a. a div PGSIZE \<noteq> q \<longrightarrow> SOFT_pages ?t a = SOFT_pages t a"
  proof (intro allI impI)
    fix a assume "a div PGSIZE \<noteq> q"
    then have "\<not> (q * PGSIZE \<le> a \<and> a < q * PGSIZE + PGSIZE)" by (auto intro: div_nat_eqI)
    then have "\<not> (q * PGSIZE \<le> a \<and> a < q * PGSIZE + PGSIZE \<and> 8 dvd a)" by blast
    then show "SOFT_pages ?t a = SOFT_pages t a" unfolding mem by (simp only: if_False)
  qed
  moreover have "\<forall>i < f_size file. i < unat off \<or> unat off + PGSIZE \<le> i \<longrightarrow> f_byte ?f i = f_byte file i"
    using assms(6) by (auto simp: pwrite_def Let_def)
  ultimately show ?thesis using w r
    by (intro exI [of _ "?w\<lparr>iop_event := True\<rparr>"] exI [of _ "?r\<lparr>iop_event := True\<rparr>"] exI [of _ ?f] exI [of _ ?t])
      simp
qed

definition sample_iop :: iop where
  "sample_iop = \<lparr>iop_is_write = False, iop_vnode = None, iop_mdl = one_page_mdl 0, iop_event = False,
     iop_length = 0, iop_offset = 0\<rparr>"

definition empty_file :: backing where
  "empty_file = \<lparr>f_size = 0, f_byte = (\<lambda>_. 0)\<rparr>"

theorem page_write_read_roundtrip_witness:
  "\<exists>w file' r t'. iop_send (iop_init_vnode_write (Some 3) (one_page_mdl 1) 4096 0x7000 sample_iop)
       (empty_file, sample_tables) = Ok (w, file', sample_tables)
     \<and> iop_send (iop_init_vnode_read (Some 3) (one_page_mdl 4) 4096 0x7000 sample_iop) (file', sample_tables)
         = Ok (r, file', t')
     \<and> SOFT_pages t' (4 * PGSIZE) = vmp_pte_hw_create 2 True"
proof -
  have m: "SOFT_pages sample_tables (1 * PGSIZE + 0) = vmp_pte_hw_create 2 True"
    by (simp add: sample_tables_def)
  have "(0::int) \<le> sint (0x7000 :: 64 word)" by simp
  from page_write_read_roundtrip [OF sample_tables_pfndb sample_tables_pfndb, of 1 4 3 "0x7000" 4096 sample_iop
      empty_file sample_iop] this
  obtain w r file' t' where
    "iop_send (iop_init_vnode_write (Some 3) (one_page_mdl 1) 4096 0x7000 sample_iop)
       (empty_file, sample_tables) = Ok (w, file', sample_tables)"
    "iop_send (iop_init_vnode_read (Some 3) (one_page_mdl 4) 4096 0x7000 sample_iop) (file', sample_tables)
         = Ok (r, file', t')"
    and j: "\<forall>j < PGSIZE. 8 dvd j \<longrightarrow> SOFT_pages t' (4 * PGSIZE + j) = SOFT_pages sample_tables (1 * PGSIZE + j)"
    by auto
  moreover have "SOFT_pages t' (4 * PGSIZE) = vmp_pte_hw_create 2 True"
    using j [rule_format, of 0] m by simp
  ultimately show ?thesis by blast
qed

text \<open>A transfer at a negative offset, which is what the slot number \<open>-1\<close> of a page without a slot
  becomes, fails silently: memory and file stay as they were and the packet still signals completion.\<close>

theorem transfer_at_slot_minus_1_is_lost:
  assumes "fd \<noteq> - 1" and "off = - 1 * of_nat PGSIZE"
  shows "iop_send (iop_init_vnode_read (Some fd) (one_page_mdl p) len off iop) (file, s) =
      Ok ((iop_init_vnode_read (Some fd) (one_page_mdl p) len off iop)\<lparr>iop_event := True\<rparr>, file, s)
    \<and> iop_send (iop_init_vnode_write (Some fd) (one_page_mdl p) len off iop) (file, s) =
      Ok ((iop_init_vnode_write (Some fd) (one_page_mdl p) len off iop)\<lparr>iop_event := True\<rparr>, file, s)"
proof -
  have "sint off < 0" unfolding assms(2) by simp
  then show ?thesis
    using iop_send_one [of "iop_init_vnode_read (Some fd) (one_page_mdl p) len off iop" fd p "file" s]
      iop_send_one [of "iop_init_vnode_write (Some fd) (one_page_mdl p) len off iop" fd p "file" s] assms(1)
    by (simp add: iop_init_vnode_read_def iop_init_vnode_write_def pread_def pwrite_def)
qed

theorem transfer_at_slot_minus_1_is_lost_witness:
  "\<exists>r. iop_send (iop_init_vnode_read (Some 3) (one_page_mdl 4) 4096 (- 4096) sample_iop)
     (empty_file, sample_tables) = Ok (r, empty_file, sample_tables) \<and> iop_event r"
  using transfer_at_slot_minus_1_is_lost [of 3 "- 4096" 4 4096 sample_iop empty_file sample_tables] by simp

end
