(* ===== verification/Pagefile.thy ===== *)
theory Pagefile
  imports Vmm_State
begin

text \<open>
  The page file allocator of \<^verbatim>\<open>vm/pgwriter.c\<close>: a bitmap of slots, a count of free slots, and the slot
  where the next search starts. Slots are handed out in circular order; there is no operation that
  frees a slot.
\<close>

section \<open>The operations\<close>

text \<open>\<open>vnode\<close> is \<open>None\<close> for \<^verbatim>\<open>NULL\<close>; \<open>bitmap_mem\<close> tells whether \<^verbatim>\<open>kmem_alloc\<close> found memory for the bitmap.
  The result \<open>False\<close> is the return value \<open>-1\<close>.\<close>

definition init_vmp_pagefile :: "bool \<Rightarrow> int option \<Rightarrow> size_t \<Rightarrow> vmp_pagefile \<Rightarrow> bool \<times> vmp_pagefile" where
  "init_vmp_pagefile bitmap_mem vnode len pf =
     (if vnode = None then (False, pf)
      else
        let pf = pf\<lparr>pf_vnode := vnode, total_slots := len div of_nat PGSIZE\<rparr>;
            pf = pf\<lparr>free_slots := total_slots pf, next_free := 0\<rparr>;
            bitmap_size = (total_slots pf + 7) div 8
        in if bitmap_mem then (True, pf\<lparr>pf_bitmap := replicate (unat bitmap_size) 0\<rparr>)
           else (False, pf\<lparr>pf_bitmap := []\<rparr>))"

text \<open>\<open>n\<close> iterations are left; \<open>i\<close> is the loop variable. The result \<open>- 1\<close> is what the C function returns
  when it finds nothing.\<close>

fun alloc_scan :: "size_t \<Rightarrow> size_t \<Rightarrow> nat \<Rightarrow> vmp_pagefile \<Rightarrow> (uint64_t \<times> vmp_pagefile) outcome" where
  "alloc_scan start i 0 pf = Ok (- 1, pf)"
| "alloc_scan start i (Suc n) pf =
     (let idx = (start + i) mod total_slots pf;
          byte_index = unat (idx div 8);
          bit_index = unat (idx mod 8)
      in defined_if (byte_index < length (pf_bitmap pf)) ''pf->bitmap''
         (if pf_bitmap pf ! byte_index AND push_bit bit_index 1 = 0 then
            Ok (idx, pf\<lparr>pf_bitmap := (pf_bitmap pf)[byte_index :=
                  pf_bitmap pf ! byte_index OR push_bit bit_index 1],
                free_slots := free_slots pf - 1,
                next_free := (idx + 1) mod total_slots pf\<rparr>)
          else alloc_scan start (i + 1) n pf))"

definition vmp_pagefile_alloc :: "vmp_pagefile \<Rightarrow> (uint64_t \<times> vmp_pagefile) outcome" where
  "vmp_pagefile_alloc pf =
     (if free_slots pf = 0 then Ok (- 1, pf)
      else alloc_scan (next_free pf) 0 (unat (total_slots pf)) pf)"

section \<open>The set of slots in use\<close>

definition slot_used :: "vmp_pagefile \<Rightarrow> nat \<Rightarrow> bool" where
  "slot_used pf k \<longleftrightarrow> bit (pf_bitmap pf ! (k div 8)) (k mod 8)"

definition used_slots :: "vmp_pagefile \<Rightarrow> nat set" where
  "used_slots pf = {k. k < unat (total_slots pf) \<and> slot_used pf k}"

text \<open>The file has at most \<open>2 ^ 60\<close> slots, which no 64-bit file length exceeds.\<close>

definition pagefile_ok :: "vmp_pagefile \<Rightarrow> bool" where
  "pagefile_ok pf \<longleftrightarrow> unat (total_slots pf) < 2 ^ 60 \<and>
     length (pf_bitmap pf) = (unat (total_slots pf) + 7) div 8 \<and>
     unat (free_slots pf) + card (used_slots pf) = unat (total_slots pf) \<and>
     (total_slots pf \<noteq> 0 \<longrightarrow> next_free pf < total_slots pf)"

lemma finite_used_slots [simp]: "finite (used_slots pf)"
  by (rule finite_subset [of _ "{..<unat (total_slots pf)}"]) (auto simp: used_slots_def)

lemma and_push_bit_1: "(x :: 'a::len word) AND push_bit k 1 = 0 \<longleftrightarrow> k < LENGTH('a) \<longrightarrow> \<not> bit x k"
proof
  assume *: "x AND push_bit k 1 = 0"
  show "k < LENGTH('a) \<longrightarrow> \<not> bit x k"
  proof
    assume "k < LENGTH('a)"
    moreover have "\<not> bit (x AND push_bit k 1) k" unfolding * by simp
    ultimately show "\<not> bit x k" by (simp add: bit_simps)
  qed
next
  assume "k < LENGTH('a) \<longrightarrow> \<not> bit x k"
  then show "x AND push_bit k 1 = 0"
    by (intro bit_word_eqI) (auto simp: bit_simps bit_1_iff)
qed

lemma and_pow_2: "(x :: 'a::len word) AND 2 ^ k = 0 \<longleftrightarrow> k < LENGTH('a) \<longrightarrow> \<not> bit x k"
  using and_push_bit_1 [of x k] by simp

lemma slot_arith:
  assumes "unat (total_slots pf) < 2 ^ 60" and "start < total_slots pf" and "i < unat (total_slots pf)"
  shows "unat ((start + of_nat i) mod total_slots pf) = (unat start + i) mod unat (total_slots pf)"
proof -
  let ?n = "unat (total_slots pf)"
  have "unat start < ?n" using assms(2) by (simp add: word_less_nat_alt)
  then have "unat start + i < 2 ^ 64" using assms(1,3) by simp
  moreover have "i < 2 ^ 64" using assms(1,3) by simp
  ultimately have "unat (start + of_nat i) = unat start + i"
    by (simp add: unat_word_ariths(1) unsigned_of_nat take_bit_nat_eq_self)
  then show ?thesis by (simp add: unat_mod_distrib)
qed

text \<open>The slot the scan looks at in step \<open>i\<close>.\<close>

definition scan_slot :: "vmp_pagefile \<Rightarrow> nat \<Rightarrow> nat" where
  "scan_slot pf i = (unat (next_free pf) + i) mod unat (total_slots pf)"

definition take_slot :: "vmp_pagefile \<Rightarrow> nat \<Rightarrow> vmp_pagefile" where
  "take_slot pf k = pf\<lparr>pf_bitmap := (pf_bitmap pf)[k div 8 := pf_bitmap pf ! (k div 8) OR push_bit (k mod 8) 1],
     free_slots := free_slots pf - 1, next_free := (of_nat k + 1) mod total_slots pf\<rparr>"

lemma alloc_scan_step:
  assumes ok: "pagefile_ok pf" and i: "i < unat (total_slots pf)"
  shows "alloc_scan (next_free pf) (of_nat i) (Suc n) pf =
    (if slot_used pf (scan_slot pf i) then alloc_scan (next_free pf) (of_nat (Suc i)) n pf
     else Ok (of_nat (scan_slot pf i), take_slot pf (scan_slot pf i)))"
proof -
  let ?N = "unat (total_slots pf)"
  have b: "?N < 2 ^ 60" and len: "length (pf_bitmap pf) = (?N + 7) div 8" using ok by (simp_all add: pagefile_ok_def)
  have "total_slots pf \<noteq> 0" using i by auto
  with ok have nf: "next_free pf < total_slots pf" by (simp add: pagefile_ok_def)
  define k where "k = scan_slot pf i"
  let ?idx = "(next_free pf + of_nat i) mod total_slots pf"
  have idx: "unat ?idx = k" using slot_arith [OF b nf i] by (simp add: k_def scan_slot_def)
  have k: "k < ?N" using i by (simp add: k_def scan_slot_def)
  have wk: "?idx = of_nat k" unfolding idx [symmetric] by simp
  have "unat (?idx div 8) = k div 8" "unat (?idx mod 8) = k mod 8"
    using idx by (simp_all add: unat_div_distrib unat_mod_distrib)
  moreover have "k div 8 < length (pf_bitmap pf)" using k len by linarith
  moreover have "(of_nat i + 1 :: size_t) = of_nat (Suc i)" by simp
  moreover have "(x :: uint8_t) AND 2 ^ (k mod 8) = 0 \<longleftrightarrow> \<not> bit x (k mod 8)" for x
    using and_pow_2 [of x "k mod 8"] by simp
  ultimately show ?thesis
    using idx wk by (simp add: Let_def k_def [symmetric] slot_used_def take_slot_def add.commute)
qed

lemma alloc_scan_finds:
  assumes "pagefile_ok pf" and "j < unat (total_slots pf)" and "\<not> slot_used pf (scan_slot pf j)"
    and "\<And>i. i < j \<Longrightarrow> slot_used pf (scan_slot pf i)" and "i \<le> j" and "n = unat (total_slots pf) - i"
  shows "alloc_scan (next_free pf) (of_nat i) n pf = Ok (of_nat (scan_slot pf j), take_slot pf (scan_slot pf j))"
  using assms(5,6)
proof (induction n arbitrary: i)
  case 0 then show ?case using assms(2) by simp
next
  case (Suc n)
  have i: "i < unat (total_slots pf)" using Suc.prems assms(2) by linarith
  show ?case
  proof (cases "i = j")
    case True with assms(3) i show ?thesis by (simp add: alloc_scan_step [OF assms(1)] del: alloc_scan.simps)
  next
    case False
    with Suc.prems have "i < j" "n = unat (total_slots pf) - Suc i" by linarith+
    with Suc.IH [of "Suc i"] assms(4) i show ?thesis
      by (simp add: alloc_scan_step [OF assms(1)] del: alloc_scan.simps of_nat_Suc)
  qed
qed

lemma used_take_slot:
  assumes ok: "pagefile_ok pf" and k: "k < unat (total_slots pf)"
  shows "used_slots (take_slot pf k) = insert k (used_slots pf)"
proof -
  have len: "length (pf_bitmap pf) = (unat (total_slots pf) + 7) div 8" using ok by (simp add: pagefile_ok_def)
  have "slot_used (take_slot pf k) j \<longleftrightarrow> j = k \<or> slot_used pf j" if j: "j < unat (total_slots pf)" for j
  proof -
    have "k div 8 < length (pf_bitmap pf)" using k len by linarith
    moreover have "j = k \<longleftrightarrow> j div 8 = k div 8 \<and> j mod 8 = k mod 8" by (metis div_mult_mod_eq)
    ultimately show ?thesis
      by (auto simp: slot_used_def take_slot_def nth_list_update bit_simps bit_1_iff)
  qed
  with k show ?thesis by (auto simp: used_slots_def take_slot_def)
qed

lemma take_slot_ok:
  assumes ok: "pagefile_ok pf" and k: "k < unat (total_slots pf)" and fresh: "\<not> slot_used pf k"
  shows "pagefile_ok (take_slot pf k)" and "unat (free_slots (take_slot pf k)) = unat (free_slots pf) - 1"
    and "free_slots pf \<noteq> 0"
proof -
  have nu: "k \<notin> used_slots pf" using fresh by (simp add: used_slots_def)
  have "used_slots pf \<subseteq> {..<unat (total_slots pf)} - {k}" using nu by (auto simp: used_slots_def)
  then have "card (used_slots pf) \<le> unat (total_slots pf) - 1"
    using card_mono [of "{..<unat (total_slots pf)} - {k}" "used_slots pf"] k by simp
  then show nz: "free_slots pf \<noteq> 0" using ok k by (auto simp: pagefile_ok_def)
  show f: "unat (free_slots (take_slot pf k)) = unat (free_slots pf) - 1"
    using unat_minus_one [OF nz] by (simp add: take_slot_def)
  have "unat (free_slots pf) > 0" using nz by (simp add: unat_gt_0)
  moreover have "card (used_slots (take_slot pf k)) = Suc (card (used_slots pf))"
    unfolding used_take_slot [OF ok k] using nu by simp
  moreover have "total_slots pf \<noteq> 0" using k by auto
  ultimately show "pagefile_ok (take_slot pf k)"
    using ok f by (auto simp: pagefile_ok_def take_slot_def word_mod_less_divisor word_neq_0_conv)
qed

text \<open>Every slot is looked at in some step.\<close>

lemma scan_covers:
  assumes "k < unat (total_slots pf)" and "next_free pf < total_slots pf"
  shows "\<exists>i < unat (total_slots pf). scan_slot pf i = k"
proof -
  let ?n = "unat (total_slots pf)" and ?s = "unat (next_free pf)"
  have "?s < ?n" using assms(2) by (simp add: word_less_nat_alt)
  then have "(?s + (if ?s \<le> k then k - ?s else k + ?n - ?s)) mod ?n = k"
    using assms(1) by (auto simp: mod_if)
  moreover have "(if ?s \<le> k then k - ?s else k + ?n - ?s) < ?n" using \<open>?s < ?n\<close> assms(1) by auto
  ultimately show ?thesis unfolding scan_slot_def by blast
qed

lemma free_slot_exists:
  assumes "pagefile_ok pf" and "free_slots pf \<noteq> 0"
  shows "\<exists>k < unat (total_slots pf). \<not> slot_used pf k"
proof (rule ccontr)
  assume "\<not> ?thesis"
  then have "used_slots pf = {..<unat (total_slots pf)}" by (auto simp: used_slots_def)
  with assms show False by (simp add: pagefile_ok_def unat_eq_zero)
qed

lemma pagefile_alloc_ok:
  assumes ok: "pagefile_ok pf" and nz: "free_slots pf \<noteq> 0"
  obtains k where "vmp_pagefile_alloc pf = Ok (of_nat k, take_slot pf k)" and "k < unat (total_slots pf)"
    and "\<not> slot_used pf k" and "pagefile_ok (take_slot pf k)"
    and "used_slots (take_slot pf k) = insert k (used_slots pf)"
proof -
  obtain k where k: "k < unat (total_slots pf)" "\<not> slot_used pf k" using free_slot_exists [OF ok nz] by blast
  then have "total_slots pf \<noteq> 0" by auto
  then have nf: "next_free pf < total_slots pf" using ok by (simp add: pagefile_ok_def)
  let ?P = "\<lambda>i. i < unat (total_slots pf) \<and> \<not> slot_used pf (scan_slot pf i)"
  obtain j where j: "?P j" "\<And>i. i < j \<Longrightarrow> \<not> ?P i"
    using scan_covers [OF k(1) nf] k(2) exists_least_iff [of ?P] by blast
  then have before: "\<And>i. i < j \<Longrightarrow> slot_used pf (scan_slot pf i)" by (meson less_trans)
  have "alloc_scan (next_free pf) (of_nat 0) (unat (total_slots pf)) pf =
      Ok (of_nat (scan_slot pf j), take_slot pf (scan_slot pf j))"
    by (rule alloc_scan_finds [OF ok _ _ before]) (use j in auto)
  then have "vmp_pagefile_alloc pf = Ok (of_nat (scan_slot pf j), take_slot pf (scan_slot pf j))"
    using nz by (simp add: vmp_pagefile_alloc_def)
  moreover have "scan_slot pf j < unat (total_slots pf)" using k(1) by (simp add: scan_slot_def)
  ultimately show thesis using that j(1) take_slot_ok [OF ok] used_take_slot [OF ok] by blast
qed

section \<open>Properties of the page file allocator\<close>

text \<open>A freshly initialised page file has one slot for every whole page of its length, all free; a
  missing vnode or failed allocation of the bitmap is reported.\<close>

theorem init_pagefile_ok:
  "case init_vmp_pagefile bitmap_mem vnode len pf of (ok, pf') \<Rightarrow>
     (ok \<longleftrightarrow> vnode \<noteq> None \<and> bitmap_mem)
     \<and> (ok \<longrightarrow> pagefile_ok pf' \<and> used_slots pf' = {} \<and> unat (total_slots pf') = unat len div PGSIZE
          \<and> free_slots pf' = total_slots pf' \<and> pf_vnode pf' = vnode)"
proof (cases "vnode = None \<or> \<not> bitmap_mem")
  case False
  then obtain fd where v: "vnode = Some fd" and mem: "bitmap_mem" by auto
  let ?t = "len div 4096"
  have t: "unat ?t = unat len div 4096" by (simp add: unat_div_distrib)
  have b: "unat len < 2 ^ 64" using unsigned_less [of len, where ?'a = nat] by simp
  then have small: "unat ?t < 2 ^ 60" unfolding t by (simp add: less_mult_imp_div_less)
  then have "unat ((?t + 7) div 8) = (unat ?t + 7) div 8"
    by (simp add: unat_div_distrib unat_word_ariths(1))
  moreover define pf' where "pf' = snd (init_vmp_pagefile bitmap_mem vnode len pf)"
  ultimately have f: "total_slots pf' = ?t" "free_slots pf' = ?t" "next_free pf' = 0" "pf_vnode pf' = vnode"
    "pf_bitmap pf' = replicate ((unat ?t + 7) div 8) 0"
    using v mem by (simp_all add: init_vmp_pagefile_def Let_def)
  have "\<not> slot_used pf' k" if "k < unat ?t" for k
  proof -
    have "k div 8 < (unat ?t + 7) div 8" using that by linarith
    then show ?thesis by (simp add: slot_used_def f)
  qed
  then have "used_slots pf' = {}" by (auto simp: used_slots_def f)
  moreover have "pagefile_ok pf'"
    using calculation small by (auto simp: pagefile_ok_def f word_neq_0_conv)
  moreover have "init_vmp_pagefile bitmap_mem vnode len pf = (True, pf')"
    using v mem by (simp add: pf'_def init_vmp_pagefile_def Let_def)
  ultimately show ?thesis using v mem f t by simp
qed (auto simp: init_vmp_pagefile_def Let_def)

theorem init_pagefile_ok_witness:
  "case init_vmp_pagefile True (Some 3) (1024 * 1024)
       \<lparr>pf_vnode = None, pf_bitmap = [], total_slots = 0, free_slots = 0, next_free = 0\<rparr> of
     (ok, pf) \<Rightarrow> ok \<and> pagefile_ok pf \<and> used_slots pf = {} \<and> unat (total_slots pf) = 256"
  using init_pagefile_ok [of "Some 3" True "1024 * 1024"
      "\<lparr>pf_vnode = None, pf_bitmap = [], total_slots = 0, free_slots = 0, next_free = 0\<rparr>"]
  by (auto split: prod.splits)

text \<open>C36. As long as a slot is free the allocator returns a slot that was not in use, marks exactly that
  slot, and keeps the bitmap and the count of free slots in step; when none is free it returns \<open>-1\<close>
  and changes nothing.\<close>

theorem pagefile_alloc_gives_unused_slot:
  assumes "pagefile_ok pf"
  shows "(free_slots pf \<noteq> 0 \<longrightarrow> (\<exists>k pf'. vmp_pagefile_alloc pf = Ok (of_nat k, pf')
      \<and> k < unat (total_slots pf) \<and> k \<notin> used_slots pf \<and> used_slots pf' = insert k (used_slots pf)
      \<and> pagefile_ok pf' \<and> unat (free_slots pf') = unat (free_slots pf) - 1
      \<and> total_slots pf' = total_slots pf \<and> pf_vnode pf' = pf_vnode pf))
    \<and> (free_slots pf = 0 \<longrightarrow> vmp_pagefile_alloc pf = Ok (- 1, pf))"
proof (intro conjI impI)
  assume "free_slots pf \<noteq> 0"
  then obtain k where "vmp_pagefile_alloc pf = Ok (of_nat k, take_slot pf k)" "k < unat (total_slots pf)"
    "\<not> slot_used pf k" "pagefile_ok (take_slot pf k)" "used_slots (take_slot pf k) = insert k (used_slots pf)"
    by (rule pagefile_alloc_ok [OF assms])
  with take_slot_ok(2) [OF assms, of k] show "\<exists>k pf'. vmp_pagefile_alloc pf = Ok (of_nat k, pf')
      \<and> k < unat (total_slots pf) \<and> k \<notin> used_slots pf \<and> used_slots pf' = insert k (used_slots pf)
      \<and> pagefile_ok pf' \<and> unat (free_slots pf') = unat (free_slots pf) - 1
      \<and> total_slots pf' = total_slots pf \<and> pf_vnode pf' = pf_vnode pf"
    by (intro exI [of _ k] exI [of _ "take_slot pf k"]) (simp add: used_slots_def take_slot_def)
qed (simp add: vmp_pagefile_alloc_def)

definition sample_pagefile :: vmp_pagefile where
  "sample_pagefile = snd (init_vmp_pagefile True (Some 3) 0x10000
     \<lparr>pf_vnode = None, pf_bitmap = [], total_slots = 0, free_slots = 0, next_free = 0\<rparr>)"

lemma sample_pagefile_fields:
  "total_slots sample_pagefile = 16" "free_slots sample_pagefile = 16" "next_free sample_pagefile = 0"
  "pf_bitmap sample_pagefile = replicate 2 0" "pf_vnode sample_pagefile = Some 3"
  by (simp_all add: sample_pagefile_def init_vmp_pagefile_def Let_def)

lemma sample_pagefile_unused: "used_slots sample_pagefile = {}"
proof -
  have "\<not> slot_used sample_pagefile k" if "k < 16" for k
  proof -
    have "k div 8 < 2" using that by linarith
    then show ?thesis by (simp add: slot_used_def sample_pagefile_fields)
  qed
  then show ?thesis by (auto simp: used_slots_def sample_pagefile_fields)
qed

lemma sample_pagefile_ok: "pagefile_ok sample_pagefile"
  by (simp add: pagefile_ok_def sample_pagefile_fields sample_pagefile_unused)

theorem pagefile_alloc_gives_unused_slot_witness:
  "\<exists>k pf'. vmp_pagefile_alloc sample_pagefile = Ok (of_nat k, pf') \<and> k < 16 \<and> used_slots pf' = {k}
     \<and> unat (free_slots pf') = 15"
  using pagefile_alloc_gives_unused_slot [OF sample_pagefile_ok]
  by (auto simp: sample_pagefile_fields sample_pagefile_unused)

end
