(* ===== verification/Pgwriter.thy ===== *)
theory Pgwriter
  imports Io Pagefile Working_Set
begin

text \<open>
  The page writer and the balancer (\<^verbatim>\<open>vm/pgwriter.c\<close>, \<^verbatim>\<open>vm/balancer.c\<close>), the two background threads. Each
  loops for ever around one pass, which is a function here: the page writer cleans pages of the
  modified queue by writing them to the page file, the balancer trims the working set when it has been
  signalled. A pass of the page writer gives up the page frame lock between pages; the definitions
  follow one thread, so what other threads do in between is not part of them.
\<close>

abbreviation (input) MAX_CLUSTER :: nat where "MAX_CLUSTER \<equiv> 8"
abbreviation (input) MAX_IOPS :: nat where "MAX_IOPS \<equiv> 32"

section \<open>The page writer\<close>

definition cluster_anon :: "vm_mdl \<Rightarrow> iop \<Rightarrow> page_ptr \<Rightarrow> vmm \<Rightarrow> (vm_mdl \<times> iop \<times> vmm) outcome" where
  "cluster_anon mdl iop page s =
     bnd (if drumslot (mypages s page) = - 1 then
            bnd (vmp_pagefile_alloc (vmp_pagefile_state s)) (\<lambda>(swapdesc, pf).
            Ok (page_update page (\<lambda>pg. pg\<lparr>drumslot := swapdesc\<rparr>) (s\<lparr>vmp_pagefile_state := pf\<rparr>)))
          else Ok s) (\<lambda>s.
     defined_if (mdl_pages mdl \<noteq> []) ''mdl->pages[0]''
     (let mdl = mdl\<lparr>mdl_offset := 0, mdl_nentries := 1, mdl_pages := (mdl_pages mdl)[0 := Some page]\<rparr>;
          iop = iop_init_vnode_write (pf_vnode (vmp_pagefile_state s)) mdl (of_nat PGSIZE)
                  (drumslot (mypages s page) * of_nat PGSIZE) iop
      in Ok (mdl, iop, page_update page (\<lambda>pg. pg\<lparr>dirty := False\<rparr>) s)))"

definition pgwriter_target :: "vmm \<Rightarrow> size_t" where
  "pgwriter_target s =
     (if vmp_page_shortage s then max 32 (nmodified (vmstat s) div 30)
      else max 16 (nmodified (vmstat s) div 45))"

definition cleanable :: "vm_page_use \<Rightarrow> bool" where
  "cleanable u \<longleftrightarrow> u \<in> {kPageUseAnonPrivate, kPageUseAnonShared, kPageUsePML4, kPageUsePML3,
     kPageUsePML2, kPageUsePML1}"

record pgwriter =
  pw_mdls :: "vm_mdl list"
  pw_iops :: "iop list"

text \<open>The loop that starts the writes: \<open>n\<close> packets are left, \<open>n_iops\<close> have been sent.\<close>

fun pgwriter_clean :: "nat \<Rightarrow> nat \<Rightarrow> size_t \<Rightarrow> pgwriter \<times> backing \<times> vmm \<Rightarrow>
    (nat \<times> pgwriter \<times> backing \<times> vmm) outcome" where
  "pgwriter_clean 0 n_iops n_to_clean (pw, file, s) = Ok (n_iops, pw, file, s)"
| "pgwriter_clean (Suc n) n_iops n_to_clean (pw, file, s) =
     (if n_to_clean = 0 then Ok (n_iops, pw, file, s)
      else case TAILQ_FIRST (modified_pgq s) of
        None \<Rightarrow> Ok (n_iops, pw, file, s\<lparr>vmp_pgwriter_event := False\<rparr>)
      | Some page \<Rightarrow>
          bnd (vmp_page_retain_locked page s) (\<lambda>s.
          if cleanable (use (mypages s page)) then
            bnd (cluster_anon (pw_mdls pw ! n_iops) (pw_iops pw ! n_iops) page s) (\<lambda>(mdl, iop, s).
            bnd (iop_send iop (file, s)) (\<lambda>(iop, file, s).
            pgwriter_clean n (Suc n_iops) n_to_clean
              (\<lparr>pw_mdls = (pw_mdls pw)[n_iops := mdl], pw_iops = (pw_iops pw)[n_iops := iop]\<rparr>, file, s)))
          else kfatal ''Can't clean this type of page yet.''))"

text \<open>After all packets have completed, the pages are released: packets \<open>i\<close> to \<open>i + n - 1\<close>.\<close>

fun pgwriter_release :: "nat \<Rightarrow> nat \<Rightarrow> pgwriter \<times> vmm \<Rightarrow> (pgwriter \<times> vmm) outcome" where
  "pgwriter_release i 0 (pw, s) = Ok (pw, s)"
| "pgwriter_release i (Suc n) (pw, s) =
     bnd (vm_mdl_release_pages (pw_mdls pw ! i) s) (\<lambda>(mdl, s).
     pgwriter_release (Suc i) n (pw\<lparr>pw_mdls := (pw_mdls pw)[i := mdl]\<rparr>, s))"

definition vmp_pgwriter :: "pgwriter \<times> backing \<times> vmm \<Rightarrow> (pgwriter \<times> backing \<times> vmm) outcome" where
  "vmp_pgwriter ws =
     (case ws of (pw, file, s) \<Rightarrow>
      bnd (pgwriter_clean MAX_IOPS 0 (pgwriter_target s) (pw, file, s)) (\<lambda>(n_iops, pw, file, s).
      bnd (pgwriter_release 0 n_iops (pw, s)) (\<lambda>(pw, s). Ok (pw, file, s))))"

definition pgwriter_start :: "iop list \<Rightarrow> pgwriter" where
  "pgwriter_start iops = \<lparr>pw_mdls = replicate MAX_IOPS (vm_mdl_alloc (of_nat MAX_CLUSTER)), pw_iops = iops\<rparr>"

section \<open>The balancer\<close>

text \<open>One pass: \<open>woken\<close> tells whether the wait ended because the event was set (and not by the time-out).
  \<^verbatim>\<open>target\<close> is a 32-bit integer; it is passed on as a \<^verbatim>\<open>size_t\<close>.\<close>

definition vmp_balancer :: "bool \<Rightarrow> vmm \<Rightarrow> vmm outcome" where
  "vmp_balancer woken s =
     (if \<not> woken then Ok s
      else let target = (ucast (ws_page_expansion_count (vmparam s)) :: 32 word) in
        bnd (vmp_wsl_trim_n 0 (scast target) s) (\<lambda>(n, s).
        if vmp_page_sufficience s then Ok (s\<lparr>vmp_balancer_event := False\<rparr>) else Ok s))"

end
