(* ===== verification/Fault.thy ===== *)
theory Fault
  imports Wire Vad Pgwriter
begin

text \<open>
  Page faults (\<^verbatim>\<open>vm/fault.c\<close>). \<^verbatim>\<open>do_fault\<close> wires the entry of the faulting address and handles it by its
  kind: it makes a clean mapping writeable, maps a zero-filled page, takes a page in transition back
  into the working set, or reads a page from the page file. The process is always \<^verbatim>\<open>kernel_ps\<close>, number 0.
  Locks are not part of the state; the one place where the code gives them up, the page-in, is split
  into what happens before, during and after the transfer.
\<close>

section \<open>The operations\<close>

record vmp_pager_state =
  ps_refcount :: uint32_t
  ps_event :: bool

definition vmp_pager_state_alloc :: vmp_pager_state where
  "vmp_pager_state_alloc = \<lparr>ps_refcount = 1, ps_event = False\<rparr>"

text \<open>\<open>if (out != NULL) ...\<close>: the caller's descriptor list receives the page, with a reference of its own.\<close>

definition mdl_record :: "page_ptr \<Rightarrow> vm_mdl option \<Rightarrow> vmm \<Rightarrow> (vm_mdl option \<times> vmm) outcome" where
  "mdl_record page out s =
     (case out of
        None \<Rightarrow> Ok (None, s)
      | Some mdl \<Rightarrow>
          bnd (vmp_page_retain_locked page s) (\<lambda>s.
          let i = unat (mdl_offset mdl div of_nat PGSIZE) in
          defined_if (i < length (mdl_pages mdl)) ''out->pages''
          (Ok (Some (mdl\<lparr>mdl_pages := (mdl_pages mdl)[i := Some page],
                        mdl_offset := mdl_offset mdl + of_nat PGSIZE\<rparr>), s))))"

text \<open>The branches of \<^verbatim>\<open>do_fault\<close>; each gives the return value, the caller's list and the state. The first
  is a write to a valid entry that is not writeable.\<close>

definition fault_write_protected ::
    "vm_vad \<Rightarrow> paddr \<Rightarrow> vm_mdl option \<Rightarrow> vmm \<Rightarrow> (int \<times> vm_mdl option \<times> vmm) outcome" where
  "fault_write_protected vad pte out s =
     (if vad_cow vad then kfatal ''cow section fault''
      else
        bnd (load_pte pte s) (\<lambda>v.
        bnd (store_pte pte (pte_set_writeable v) s) (\<lambda>s.
        if out = None then Ok (0, out, s)
        else bnd (vmp_paddr_to_page (vmp_pte_hw_paddr (pte_set_writeable v))) (\<lambda>page.
             bnd (mdl_record page out s) (\<lambda>(out, s). Ok (0, out, s))))))"

definition fault_zero ::
    "vaddr \<Rightarrow> bool \<Rightarrow> vm_vad \<Rightarrow> vmp_pte_wire_state \<Rightarrow> vm_mdl option \<Rightarrow> vmm \<Rightarrow>
     (int \<times> vm_mdl option \<times> vmm) outcome" where
  "fault_zero vaddr write vad st out s =
     (if vad_section vad = None then
        bnd (vmp_page_alloc_locked kPageUseAnonPrivate False s) (\<lambda>(r, s).
        case r of
          None \<Rightarrow> Ok (- 1, out, s)
        | Some page \<Rightarrow>
            let s = page_update page (\<lambda>pg. pg\<lparr>process := 0\<rparr>) s in
            bnd (store_pte (ws_pte st)
                   (vmp_pte_hw_create (pfn (mypages s page)) (write \<and> vad_writeable vad)) s) (\<lambda>s.
            bnd (vmp_pagetable_page_nonswap_pte_created 0 (the (ws_pages st ! 0)) True s) (\<lambda>s.
            bnd (vmp_wsl_insert 0 vaddr False False s) (\<lambda>s.
            let s = page_update page (\<lambda>pg. pg\<lparr>referent_pte := ws_pte st\<rparr>) s in
            bnd (mdl_record page out s) (\<lambda>(out, s). Ok (0, out, s))))))
      else kfatal ''Do file read fault'')"

definition fault_trans ::
    "vaddr \<Rightarrow> bool \<Rightarrow> paddr \<Rightarrow> vm_mdl option \<Rightarrow> vmm \<Rightarrow> (int \<times> vm_mdl option \<times> vmm) outcome" where
  "fault_trans vaddr write pte out s =
     bnd (load_pte pte s) (\<lambda>v.
     bnd (vmp_paddr_to_page (vmp_pte_trans_paddr v)) (\<lambda>page.
     bnd (vmp_page_retain_locked page s) (\<lambda>s.
     bnd (store_pte pte (vmp_pte_hw_create (pfn (mypages s page)) False) s) (\<lambda>s.
     bnd (vmp_wsl_insert 0 vaddr False False s) (\<lambda>s.
     if out \<noteq> None \<and> \<not> write then bnd (mdl_record page out s) (\<lambda>(out, s). Ok (0, out, s))
     else Ok (0, out, s))))))"

definition fault_valid :: "paddr \<Rightarrow> vm_mdl option \<Rightarrow> vmm \<Rightarrow> (int \<times> vm_mdl option \<times> vmm) outcome" where
  "fault_valid pte out s =
     (if out = None then Ok (0, out, s)
      else bnd (load_pte pte s) (\<lambda>v.
           bnd (vmp_paddr_to_page (vmp_pte_hw_paddr v)) (\<lambda>page.
           bnd (mdl_record page out s) (\<lambda>(out, s). Ok (0, out, s)))))"

text \<open>Page-in, up to the point where the locks are given up: \<open>pager\<close> is the address of the pager state. The
  result is the page to read into, or \<open>None\<close> when no page could be allocated.\<close>

definition swap_in_begin ::
    "uint64_t \<Rightarrow> vaddr \<Rightarrow> vmp_pte_wire_state \<Rightarrow> vmm \<Rightarrow> (page_ptr option \<times> vmm) outcome" where
  "swap_in_begin pager vaddr st s =
     bnd (vmp_page_alloc_locked kPageUseAnonPrivate False s) (\<lambda>(r, s).
     case r of
       None \<Rightarrow> Ok (None, s)
     | Some page \<Rightarrow>
         let s = page_update page (\<lambda>pg. pg\<lparr>process := 0, referent_pte := ws_pte st\<rparr>) s in
         bnd (store_pte (ws_pte st) (vmp_pte_busy_create 0 pager) s) (\<lambda>s.
         bnd (vmp_pagetable_page_nonswap_pte_created 0 (the (ws_pages st ! 0)) False s) (\<lambda>s.
         bnd (vmp_wsl_insert 0 vaddr False True s) (\<lambda>s.
         bnd (vmp_pte_wire_state_release st s) (\<lambda>s. Ok (Some page, s))))))"

definition swap_in_read :: "iop \<Rightarrow> page_ptr \<Rightarrow> backing \<times> vmm \<Rightarrow> (backing \<times> vmm) outcome" where
  "swap_in_read iop page fs =
     bnd (iop_send (iop_init_vnode_read (pf_vnode (vmp_pagefile_state (snd fs))) (one_page_mdl page)
            (of_nat PGSIZE) (drumslot (mypages (snd fs) page) * of_nat PGSIZE) iop) fs) (\<lambda>(iop, fs). Ok fs)"

definition swap_in_finish ::
    "vaddr \<Rightarrow> paddr \<Rightarrow> page_ptr \<Rightarrow> vm_mdl option \<Rightarrow> vmm \<Rightarrow> (vm_mdl option \<times> vmm) outcome" where
  "swap_in_finish vaddr pte page out s =
     bnd (mdl_record page out s) (\<lambda>(out, s).
     bnd (store_pte pte (vmp_pte_hw_create (pfn (mypages s page)) False) s) (\<lambda>s.
     bnd (vmp_wsl_unlock_entry 0 vaddr s) (\<lambda>s. Ok (out, s))))"

text \<open>What a fault needs besides the state: the indeterminate search key and packet on its stack, and the
  address \<^verbatim>\<open>kmem_alloc\<close> gives the pager state.\<close>

record fault_env =
  fe_key :: vm_vad
  fe_iop :: iop
  fe_pager :: uint64_t

definition do_fault ::
    "fault_env \<Rightarrow> vaddr \<Rightarrow> bool \<Rightarrow> vm_mdl option \<times> backing \<times> vmm \<Rightarrow>
     (int \<times> vm_mdl option \<times> backing \<times> vmm) outcome" where
  "do_fault env vaddr write ofs =
     (case ofs of (out, file, s) \<Rightarrow>
      case vmp_ps_vad_find (fe_key env) 0 vaddr s of
        None \<Rightarrow> Err (Kassert ''vad != NULL'')
      | Some vad \<Rightarrow>
          bnd (vmp_wire_pte 0 vaddr s) (\<lambda>(st, s).
          bnd (load_pte (ws_pte st) s) (\<lambda>v.
          bnd (vmp_pte_characterise v) (\<lambda>pte_kind.
          let finish = (\<lambda>r. bnd r (\<lambda>(ret, out, s).
                bnd (vmp_pte_wire_state_release st s) (\<lambda>s. Ok (ret, out, file, s))))
          in if pte_kind = kPTEKindValid \<and> \<not> vmp_pte_hw_is_writeable v \<and> write then
               finish (fault_write_protected vad (ws_pte st) out s)
             else case pte_kind of
               kPTEKindZero \<Rightarrow> finish (fault_zero vaddr write vad st out s)
             | kPTEKindTrans \<Rightarrow> finish (fault_trans vaddr write (ws_pte st) out s)
             | kPTEKindValid \<Rightarrow> finish (fault_valid (ws_pte st) out s)
             | kPTEKindSwap \<Rightarrow>
                 bnd (swap_in_begin (fe_pager env) vaddr st s) (\<lambda>(r, s).
                 case r of
                   None \<Rightarrow> finish (Ok (- 1, out, s))
                 | Some page \<Rightarrow>
                     bnd (swap_in_read (fe_iop env) page (file, s)) (\<lambda>(file, s).
                     bnd (swap_in_finish vaddr (ws_pte st) page out s) (\<lambda>(out, s).
                     Ok (0, out, file, s))))
             | kPTEKindBusy \<Rightarrow> kfatal ''Unhandled PTE kind''))))"

text \<open>\<^verbatim>\<open>vm_fault\<close> retries a fault that found no page after waiting for the sufficiency event; while it waits
  the other threads run, which \<open>others\<close> describes.\<close>

inductive vm_fault ::
    "(backing \<times> vmm \<Rightarrow> backing \<times> vmm \<Rightarrow> bool) \<Rightarrow> fault_env \<Rightarrow> vaddr \<Rightarrow> bool \<Rightarrow>
     vm_mdl option \<times> backing \<times> vmm \<Rightarrow> vm_mdl option \<times> backing \<times> vmm \<Rightarrow> bool"
  for others env vaddr wr where
  fault_done: "do_fault env vaddr wr ofs = Ok (0, ofs') \<Longrightarrow> vm_fault others env vaddr wr ofs ofs'"
| fault_retry: "do_fault env vaddr wr ofs = Ok (- 1, out, fs) \<Longrightarrow> others fs fs' \<Longrightarrow>
     vmp_sufficient_pages_event (snd fs') \<Longrightarrow>
     vm_fault others env vaddr wr (out, fs') r \<Longrightarrow> vm_fault others env vaddr wr ofs r"

end
