(* ===== verification/Simulator.thy ===== *)
theory Simulator
  imports Fault
begin

text \<open>
  The simulator (\<^verbatim>\<open>main.c\<close>): the start-up of the memory manager, and the simulated MMU, which walks the
  tables of \<^verbatim>\<open>kernel_ps\<close> on every access and calls the fault handler until the walk succeeds.
\<close>

section \<open>The simulated MMU\<close>

datatype mmu_result = MmuFault string | MmuPaddr paddr

text \<open>One walk; the levels are written out in the code and are one step each here.\<close>

definition mmu_step :: "string \<Rightarrow> paddr \<Rightarrow> nat \<Rightarrow> vmm \<Rightarrow> (pte \<Rightarrow> mmu_result outcome) \<Rightarrow> mmu_result outcome" where
  "mmu_step msg table i s k =
     bnd (load_pte (table + PTE_SIZE * i) s) (\<lambda>v.
     if \<not> pte_valid v then Ok (MmuFault msg) else k v)"

definition mmu_walk :: "vaddr \<Rightarrow> bool \<Rightarrow> vmm \<Rightarrow> mmu_result outcome" where
  "mmu_walk addr for_write s =
     (let u = vmp_addr_unpack addr in
      mmu_step ''mmu: invalid entry in pml4'' (pml4 (procs s 0)) (u ! 4) s (\<lambda>v4.
      mmu_step ''mmu: invalid entry in pml3'' (vmp_pte_hw_paddr v4) (u ! 3) s (\<lambda>v3.
      mmu_step ''mmu: invalid entry in pml2'' (vmp_pte_hw_paddr v3) (u ! 2) s (\<lambda>v2.
      mmu_step ''mmu: invalid entry in pml1'' (vmp_pte_hw_paddr v2) (u ! 1) s (\<lambda>v1.
      if for_write \<and> \<not> vmp_pte_hw_is_writeable v1 then Ok (MmuFault ''mmu: write protected'')
      else Ok (MmuPaddr (vmp_pte_hw_paddr v1 + u ! 0)))))))"

text \<open>An access ends with the physical address it reaches.\<close>

inductive access ::
    "(backing \<times> vmm \<Rightarrow> backing \<times> vmm \<Rightarrow> bool) \<Rightarrow> fault_env \<Rightarrow> vaddr \<Rightarrow> bool \<Rightarrow>
     backing \<times> vmm \<Rightarrow> paddr \<times> backing \<times> vmm \<Rightarrow> bool"
  for others env addr for_write where
  access_hit: "mmu_walk addr for_write (snd fs) = Ok (MmuPaddr pa) \<Longrightarrow>
     access others env addr for_write fs (pa, fs)"
| access_fault: "mmu_walk addr for_write (snd fs) = Ok (MmuFault msg) \<Longrightarrow>
     vm_fault others env addr for_write (None, fs) (out, fs') \<Longrightarrow>
     access others env addr for_write fs' r \<Longrightarrow> access others env addr for_write fs r"

section \<open>Start-up\<close>

text \<open>\<open>fd\<close> is the result of opening the page file.\<close>

definition SIM_paging_init :: "int \<Rightarrow> vmm \<Rightarrow> vmm outcome" where
  "SIM_paging_init fd s =
     kassert (fd \<noteq> - 1) ''vnode.fd != -1''
     (Ok (s\<lparr>vmp_pagefile_state := snd (init_vmp_pagefile True (Some fd) (1024 * 1024) (vmp_pagefile_state s))\<rparr>))"

definition kernel_ps_init :: "page_ptr \<Rightarrow> vmm \<Rightarrow> vmm" where
  "kernel_ps_init page s =
     s\<lparr>procs := (procs s)(0 := (procs s 0)\<lparr>pml4 := vmp_page_paddr page s, pml4_page := page,
         wsl := \<lparr>wsl_queue = [], wsl_tree = Null, nlocked = 0, nentries = 0, wsl_max = 4\<rparr>\<rparr>),
       vmparam := \<lparr>ws_page_expansion_count = 4, min_avail_for_expansion = 8, min_avail_for_alloc = 4\<rparr>\<rparr>"

text \<open>\<^verbatim>\<open>main\<close> up to the loop of accesses.\<close>

definition main_init :: "int \<Rightarrow> vmm \<Rightarrow> vmm outcome" where
  "main_init fd s =
     bnd (SIM_pages_init s) (\<lambda>s.
     bnd (SIM_paging_init fd s) (\<lambda>s.
     bnd (vmp_page_alloc_locked kPageUsePML4 True s) (\<lambda>(r, s).
     case r of
       None \<Rightarrow> Err (Undefined ''page'')
     | Some page \<Rightarrow>
         let s = kernel_ps_init page (page_update page (\<lambda>pg. pg\<lparr>process := 0\<rparr>) s);
             s = s\<lparr>vmp_balancer_event := False, vmp_pgwriter_event := False,
                   vmp_sufficient_pages_event := False\<rparr>
         in Ok (snd (snd (vm_ps_allocate 0 0 (4294967296 * 32) True s))))))"

end
