(* ===== verification/Address_Space.thy ===== *)
theory Address_Space
  imports Wire
begin

text \<open>
  The invariant of an address space between two operations, and what wiring and unwiring do to it. The
  page tables form a tree below \<^verbatim>\<open>pml4_page\<close>: every entry of a directory is zero or points to a table of
  the next level that points back to it; every entry of a leaf table is zero, maps a private page that
  points back to it, or is a transition or swap entry; the counters of a table count its entries, plus
  the wirings in progress; and the working set holds only tables other than the root, and mapped addresses.
\<close>

section \<open>Entries of tables\<close>

definition pte_at :: "page_ptr \<Rightarrow> nat \<Rightarrow> paddr" where
  "pte_at p i = p * PGSIZE + PTE_SIZE * i"

lemma pte_at_div [simp]: "i < 512 \<Longrightarrow> pte_at p i div PGSIZE = p"
  by (simp add: pte_at_def div_nat_eqI)

lemma pte_at_eq_iff [simp]: "i < 512 \<Longrightarrow> j < 512 \<Longrightarrow> pte_at p i = pte_at q j \<longleftrightarrow> p = q \<and> i = j"
proof
  assume b: "i < 512" "j < 512" and eq: "pte_at p i = pte_at q j"
  then have "p = q" using pte_at_div by metis
  then show "p = q \<and> i = j" using eq by (simp add: pte_at_def)
qed simp

lemma pte_at_aligned [simp]: "PTE_SIZE dvd pte_at p i"
  by (simp add: pte_at_def)

lemma pte_at_in_memory [simp]: "p < SOFT_NPAGES \<Longrightarrow> i < 512 \<Longrightarrow> in_soft_pages (pte_at p i)"
  by (simp add: pte_at_def in_soft_pages_def)

lemma load_pte_at [simp]: "p < SOFT_NPAGES \<Longrightarrow> i < 512 \<Longrightarrow> load_pte (pte_at p i) s = Ok (SOFT_pages s (pte_at p i))"
  by (simp add: load_pte_def)

lemma store_pte_at [simp]: "p < SOFT_NPAGES \<Longrightarrow> i < 512 \<Longrightarrow> store_pte (pte_at p i) v s = Ok (write_pte (pte_at p i) v s)"
  by (simp add: store_pte_def)

text \<open>How many entries of a table satisfy \<open>P\<close>; \<open>in_core\<close> are the entries that keep a table locked.\<close>

definition live_ptes :: "(pte \<Rightarrow> bool) \<Rightarrow> page_ptr \<Rightarrow> vmm \<Rightarrow> nat" where
  "live_ptes P p s = card {i. i < 512 \<and> P (SOFT_pages s (pte_at p i))}"

definition in_core :: "pte \<Rightarrow> bool" where
  "in_core v \<longleftrightarrow> v \<noteq> 0 \<and> vmp_pte_characterise v \<noteq> Ok kPTEKindSwap"

lemma live_ptes_le: "live_ptes P p s \<le> 512"
  using card_mono [of "{..<512}" "{i. i < 512 \<and> P (SOFT_pages s (pte_at p i))}"]
  by (auto simp: live_ptes_def)

lemma live_ptes_cong:
  "\<forall>i < 512. SOFT_pages t (pte_at p i) = SOFT_pages s (pte_at p i) \<Longrightarrow> live_ptes P p t = live_ptes P p s"
  unfolding live_ptes_def by (metis (mono_tags, lifting))

lemma live_ptes_pos:
  "i < 512 \<Longrightarrow> P (SOFT_pages s (pte_at p i)) \<Longrightarrow> 0 < live_ptes P p s"
  unfolding live_ptes_def by (subst card_gt_0_iff) auto

lemma live_ptes_write:
  assumes i: "i < 512" and mem: "\<forall>j < 512. j \<noteq> i \<longrightarrow> SOFT_pages t (pte_at p j) = SOFT_pages s (pte_at p j)"
  shows "live_ptes P p t + of_bool (P (SOFT_pages s (pte_at p i))) =
    live_ptes P p s + of_bool (P (SOFT_pages t (pte_at p i)))"
proof -
  let ?S = "\<lambda>s. {j. j < 512 \<and> P (SOFT_pages s (pte_at p j))}"
  have split: "live_ptes P p s = card (?S s - {i}) + of_bool (P (SOFT_pages s (pte_at p i)))" for s
  proof (cases "P (SOFT_pages s (pte_at p i))")
    case True
    then have "i \<in> ?S s" using i by simp
    then show ?thesis using True card_Suc_Diff1 [of "?S s" i] by (simp add: live_ptes_def)
  next
    case False
    then have "?S s - {i} = ?S s" by auto
    then show ?thesis using False by (simp add: live_ptes_def)
  qed
  have "?S t - {i} = ?S s - {i}" using mem by auto
  then show ?thesis using split [of s] split [of t] by simp
qed

lemma trans_create_nonzero [simp]: "vmp_pte_trans_create u n \<noteq> 0" "0 \<noteq> vmp_pte_trans_create u n"
  using soft_create_0_iff [of u kSoftPteKindTrans n] by (auto simp: vmp_pte_trans_create_def)

lemma trans_create_simps [simp]:
  "vmp_pte_characterise (vmp_pte_trans_create u n) = Ok kPTEKindTrans" "\<not> pte_valid (vmp_pte_trans_create u n)"
  using trans_create_nonzero [of u n]
  by (simp_all add: vmp_pte_characterise_def) (simp_all add: vmp_pte_trans_create_def)

lemma in_core_simps [simp]: "in_core (vmp_pte_hw_create n w)" "\<not> in_core 0" "in_core (vmp_pte_trans_create u n)"
  by (auto simp: in_core_def) (simp add: vmp_pte_characterise_def)

section \<open>The invariant\<close>

definition table_at :: "nat \<Rightarrow> vmm \<Rightarrow> nat \<Rightarrow> page_ptr \<Rightarrow> bool" where
  "table_at ps s l p \<longleftrightarrow> p < SOFT_NPAGES \<and> 0 < l \<and> l \<le> VMP_TABLE_LEVELS \<and>
     use (mypages s p) = use_of_level l \<and> process (mypages s p) = ps"

lemma use_of_level_simps [simp]:
  "use_of_level (Suc 0) = kPageUsePML1" "use_of_level 2 = kPageUsePML2" "use_of_level 3 = kPageUsePML3"
  "use_of_level 4 = kPageUsePML4"
  by (simp_all add: use_of_level_def)

lemma level_cases:
  assumes "0 < l" and "l \<le> VMP_TABLE_LEVELS"
  shows "l = Suc 0 \<or> l = 2 \<or> l = 3 \<or> l = 4"
  using assms by linarith

lemma is_table_level: "0 < l \<Longrightarrow> l \<le> VMP_TABLE_LEVELS \<Longrightarrow> is_table (use_of_level l)"
  using level_cases [of l] by (auto simp: is_table_def)

lemma use_of_level_inj:
  "0 < l \<Longrightarrow> l \<le> VMP_TABLE_LEVELS \<Longrightarrow> 0 < m \<Longrightarrow> m \<le> VMP_TABLE_LEVELS \<Longrightarrow>
     use_of_level l = use_of_level m \<longleftrightarrow> l = m"
  using level_cases [of l] level_cases [of m] by auto

lemma table_atD:
  assumes "table_at ps s l p"
  shows "p < SOFT_NPAGES" and "table_of ps s p" and "is_table (use (mypages s p))" and "0 < l"
    and "l \<le> VMP_TABLE_LEVELS"
  using assms level_cases [of l] by (auto simp: table_at_def table_of_def is_table_def)

lemma table_at_unique: "table_at ps s l p \<Longrightarrow> table_at ps s m p \<Longrightarrow> l = m"
  using use_of_level_inj [of l m] by (auto simp: table_at_def)

lemma table_of_level: "table_of ps s p \<longleftrightarrow> (\<exists>l. table_at ps s l p)"
proof
  assume "table_of ps s p"
  then have "table_at ps s 1 p \<or> table_at ps s 2 p \<or> table_at ps s 3 p \<or> table_at ps s 4 p"
    by (auto simp: table_of_def table_at_def is_table_def)
  then show "\<exists>l. table_at ps s l p" by blast
qed (blast dest: table_atD)

definition root_ok :: "nat \<Rightarrow> vmm \<Rightarrow> bool" where
  "root_ok ps s \<longleftrightarrow> table_at ps s VMP_TABLE_LEVELS (pml4_page (procs s ps)) \<and>
     pml4 (procs s ps) = pml4_page (procs s ps) * PGSIZE"

definition dirs_ok :: "nat \<Rightarrow> vmm \<Rightarrow> bool" where
  "dirs_ok ps s \<longleftrightarrow> (\<forall>l d i. table_at ps s (Suc (Suc l)) d \<longrightarrow> i < 512 \<longrightarrow>
     SOFT_pages s (pte_at d i) = 0 \<or>
     (\<exists>p. table_at ps s (Suc l) p \<and> referent_pte (mypages s p) = pte_at d i \<and>
        SOFT_pages s (pte_at d i) = vmp_pte_hw_create (of_nat p) True))"

text \<open>A private page that the entry at \<open>a\<close> refers to.\<close>

definition anon_at :: "nat \<Rightarrow> vmm \<Rightarrow> paddr \<Rightarrow> page_ptr \<Rightarrow> bool" where
  "anon_at ps s a q \<longleftrightarrow> q < SOFT_NPAGES \<and> use (mypages s q) = kPageUseAnonPrivate \<and>
     process (mypages s q) = ps \<and> referent_pte (mypages s q) = a"

definition leaf_ok :: "nat \<Rightarrow> vmm \<Rightarrow> paddr \<Rightarrow> bool" where
  "leaf_ok ps s a \<longleftrightarrow> (let v = SOFT_pages s a in
     v = 0 \<or>
     (\<exists>q w. v = vmp_pte_hw_create (of_nat q) w \<and> anon_at ps s a q \<and> refcnt (mypages s q) = 1) \<or>
     (\<exists>q. v = vmp_pte_trans_create 0 (of_nat q) \<and> anon_at ps s a q \<and> refcnt (mypages s q) = 0) \<or>
     vmp_pte_characterise v = Ok kPTEKindSwap)"

definition leaves_ok :: "nat \<Rightarrow> vmm \<Rightarrow> bool" where
  "leaves_ok ps s \<longleftrightarrow> (\<forall>d i. table_at ps s (Suc 0) d \<longrightarrow> i < 512 \<longrightarrow> leaf_ok ps s (pte_at d i))"

text \<open>Every private page is the target of the leaf entry it points back to: mapped while the working set
  holds its reference, in transition once that is gone.\<close>

definition backlink_ok :: "nat \<Rightarrow> vmm \<Rightarrow> page_ptr \<Rightarrow> bool" where
  "backlink_ok ps s q \<longleftrightarrow> (\<exists>d i. table_at ps s (Suc 0) d \<and> i < 512 \<and> anon_at ps s (pte_at d i) q \<and>
     ((\<exists>w. SOFT_pages s (pte_at d i) = vmp_pte_hw_create (of_nat q) w) \<and> refcnt (mypages s q) = 1 \<or>
      SOFT_pages s (pte_at d i) = vmp_pte_trans_create 0 (of_nat q) \<and> refcnt (mypages s q) = 0))"

definition backlinks_ok :: "nat \<Rightarrow> vmm \<Rightarrow> bool" where
  "backlinks_ok ps s \<longleftrightarrow> (\<forall>q < SOFT_NPAGES. use (mypages s q) = kPageUseAnonPrivate \<longrightarrow>
     process (mypages s q) = ps \<longrightarrow> backlink_ok ps s q)"

definition direct_map :: "vmm \<Rightarrow> vaddr set" where
  "direct_map s = (\<lambda>p. page_vaddr p s) ` {..<SOFT_NPAGES}"

lemma direct_map_cong:
  assumes "pfndb s" and "pfndb t" and "SOFT_pages_base t = SOFT_pages_base s"
  shows "direct_map t = direct_map s"
  unfolding direct_map_def
  by (intro image_cong refl) (use assms page_vaddr_page [OF assms(1)] page_vaddr_page [OF assms(2)] in simp)

definition wsle_ok :: "nat \<Rightarrow> vmm \<Rightarrow> vmp_wsle \<Rightarrow> bool" where
  "wsle_ok ps s e \<longleftrightarrow>
     (if is_pagetable e then \<exists>p. table_of ps s p \<and> \<not> page_is_root_table p s \<and> e = table_entry p s
      else wsle_vaddr e \<notin> direct_map s \<and> (\<exists>a q. maps_anon ps (wsle_vaddr e) a q s))"

text \<open>No two addresses of the working set share a leaf entry.\<close>

definition ws_unique :: "nat \<Rightarrow> vmm \<Rightarrow> bool" where
  "ws_unique ps s \<longleftrightarrow> (\<forall>e \<in> set (entries (wsl (procs s ps))). \<forall>e' \<in> set (entries (wsl (procs s ps))).
     \<not> is_pagetable e \<longrightarrow> \<not> is_pagetable e' \<longrightarrow>
     vmp_fetch_pte ps (wsle_vaddr e) s = vmp_fetch_pte ps (wsle_vaddr e') s \<longrightarrow> e = e')"

text \<open>\<open>W\<close> gives the number of wirings of each table.\<close>

definition counted :: "(page_ptr \<Rightarrow> nat) \<Rightarrow> nat \<Rightarrow> vmm \<Rightarrow> bool" where
  "counted W ps s \<longleftrightarrow> (\<forall>p. table_of ps s p \<longrightarrow> W p \<le> 16 \<and>
     nonzero_ptes (mypages s p) = of_nat (live_ptes (\<lambda>v. v \<noteq> 0) p s + W p) \<and>
     nonswap_ptes (mypages s p) = of_nat (live_ptes in_core p s + W p))"

definition space_ok :: "(page_ptr \<Rightarrow> nat) \<Rightarrow> nat \<Rightarrow> vmm \<Rightarrow> bool" where
  "space_ok W ps s \<longleftrightarrow> pfndb s \<and> tables_ok ps s \<and> idle_clean s \<and> wsl_counted (wsl (procs s ps)) \<and>
     root_ok ps s \<and> dirs_ok ps s \<and> leaves_ok ps s \<and>
     (\<forall>e \<in> set (entries (wsl (procs s ps))). wsle_ok ps s e) \<and> counted W ps s \<and>
     ws_unique ps s \<and> backlinks_ok ps s"

lemma space_okD:
  assumes "space_ok W ps s"
  shows "pfndb s" and "tables_ok ps s" and "idle_clean s" and "wsl_counted (wsl (procs s ps))"
    and "root_ok ps s" and "dirs_ok ps s" and "leaves_ok ps s"
    and "\<forall>e \<in> set (entries (wsl (procs s ps))). wsle_ok ps s e" and "counted W ps s"
    and "wsl_ok (wsl (procs s ps))" and "low_base s" and "ws_unique ps s" and "backlinks_ok ps s"
  using assms by (simp_all add: space_ok_def tables_ok_def)

lemma dirs_okE:
  assumes "dirs_ok ps s" and "table_at ps s (Suc (Suc l)) d" and "i < 512"
  obtains (zero) "SOFT_pages s (pte_at d i) = 0"
  | (table) p where "table_at ps s (Suc l) p" and "referent_pte (mypages s p) = pte_at d i"
      and "SOFT_pages s (pte_at d i) = vmp_pte_hw_create (of_nat p) True"
  using assms unfolding dirs_ok_def by blast

section \<open>The walk through the tables\<close>

text \<open>\<open>t\<close> has every directory entry that \<open>s\<close> has.\<close>

definition dirs_kept :: "nat \<Rightarrow> vmm \<Rightarrow> vmm \<Rightarrow> bool" where
  "dirs_kept ps s t \<longleftrightarrow> (\<forall>l d i. table_at ps s (Suc (Suc l)) d \<longrightarrow> i < 512 \<longrightarrow>
     SOFT_pages s (pte_at d i) \<noteq> 0 \<longrightarrow> SOFT_pages t (pte_at d i) = SOFT_pages s (pte_at d i))"

lemma unpack_less: "0 < l \<Longrightarrow> l \<le> VMP_TABLE_LEVELS \<Longrightarrow> vmp_addr_unpack v ! l < 512"
  by (rule unpack_index_less)

lemma fetch_step:
  assumes "dirs_ok ps s" and "table_at ps s (Suc (Suc l)) d"
  obtains (none) "SOFT_pages s (pte_at d (vmp_addr_unpack v ! Suc (Suc l))) = 0"
      and "fetch_level (Suc (Suc l)) (d * PGSIZE) v s = Ok None"
  | (some) p where "table_at ps s (Suc l) p"
      and "SOFT_pages s (pte_at d (vmp_addr_unpack v ! Suc (Suc l))) = vmp_pte_hw_create (of_nat p) True"
      and "fetch_level (Suc (Suc l)) (d * PGSIZE) v s = fetch_level (Suc l) (p * PGSIZE) v s"
proof -
  let ?i = "vmp_addr_unpack v ! Suc (Suc l)"
  note D = table_atD [OF assms(2)]
  have i: "?i < 512" using D(5) by (intro unpack_less) simp_all
  have a: "d * PGSIZE + PTE_SIZE * ?i = pte_at d ?i" by (simp add: pte_at_def)
  from assms(1,2) i show thesis
  proof (cases rule: dirs_okE)
    case zero
    then have "fetch_level (Suc (Suc l)) (d * PGSIZE) v s = Ok None"
      using D(1) i by (simp add: a Let_def vmp_pte_characterise_def)
    with zero none show thesis by blast
  next
    case (table p)
    have "fetch_level (Suc (Suc l)) (d * PGSIZE) v s = fetch_level (Suc l) (p * PGSIZE) v s"
      using fetch_level_step [of "d * PGSIZE" v l s] D(1) i table table_atD(1) [OF table(1)]
      by (simp add: a del: fetch_level.simps)
    with table some show thesis by blast
  qed
qed

lemma fetch_kept:
  assumes ok: "dirs_ok ps s" and k: "dirs_kept ps s t"
  shows "table_at ps s (Suc l) d \<Longrightarrow> fetch_level (Suc l) (d * PGSIZE) v s = Ok (Some a) \<Longrightarrow>
    fetch_level (Suc l) (d * PGSIZE) v t = Ok (Some a) \<and>
    (\<exists>d'. table_at ps s (Suc 0) d' \<and> a = pte_at d' (vmp_addr_unpack v ! 1))"
proof (induction l arbitrary: d)
  case 0
  then show ?case by (auto simp: pte_at_def)
next
  case (Suc l)
  let ?i = "vmp_addr_unpack v ! Suc (Suc l)"
  note D = table_atD [OF Suc.prems(1)]
  have i: "?i < 512" using D(5) by (intro unpack_less) simp_all
  have a: "d * PGSIZE + PTE_SIZE * ?i = pte_at d ?i" by (simp add: pte_at_def)
  from ok Suc.prems(1) show ?case
  proof (cases rule: fetch_step [where v = v])
    case none
    then show ?thesis using Suc.prems by (simp del: fetch_level.simps)
  next
    case (some p)
    have t: "SOFT_pages t (pte_at d ?i) = vmp_pte_hw_create (of_nat p) True"
      using k Suc.prems(1) i some(2) valid_nonzero [OF hw_create_valid, of "of_nat p" True]
      unfolding dirs_kept_def by metis
    have "fetch_level (Suc (Suc l)) (d * PGSIZE) v t = fetch_level (Suc l) (p * PGSIZE) v t"
      using fetch_level_step [of "d * PGSIZE" v l t] D(1) i t table_atD(1) [OF some(1)]
      by (simp add: a del: fetch_level.simps)
    with Suc.IH [OF some(1)] Suc.prems(2) some(3) show ?thesis by (simp del: fetch_level.simps)
  qed
qed

lemma fetch_pte_kept:
  assumes "dirs_ok ps s" and "root_ok ps s" and "dirs_kept ps s t" and "pml4 (procs t ps) = pml4 (procs s ps)"
    and "vmp_fetch_pte ps v s = Ok (Some a)"
  shows "vmp_fetch_pte ps v t = Ok (Some a)"
    and "\<exists>d. table_at ps s (Suc 0) d \<and> a = pte_at d (vmp_addr_unpack v ! 1)"
proof -
  let ?r = "pml4_page (procs s ps)"
  have r: "table_at ps s (Suc 3) ?r" "pml4 (procs s ps) = ?r * PGSIZE"
    using assms(2) by (simp_all add: root_ok_def)
  have "fetch_level (Suc 3) (?r * PGSIZE) v s = Ok (Some a)"
    using assms(5) r(2) unfolding vmp_fetch_pte_def by (simp del: fetch_level.simps)
  from fetch_kept [OF assms(1,3) r(1) this] show "vmp_fetch_pte ps v t = Ok (Some a)"
    "\<exists>d. table_at ps s (Suc 0) d \<and> a = pte_at d (vmp_addr_unpack v ! 1)"
    using r(2) assms(4) unfolding vmp_fetch_pte_def by (simp_all del: fetch_level.simps)
qed

lemma maps_anon_kept:
  assumes "dirs_ok ps s" and "root_ok ps s" and "dirs_kept ps s t" and "pml4 (procs t ps) = pml4 (procs s ps)"
    and "maps_anon ps v a q s" and "SOFT_pages t a = SOFT_pages s a"
    and "use (mypages t q) = use (mypages s q)" and "refcnt (mypages t q) \<noteq> 0"
  shows "maps_anon ps v a q t"
  using assms(5-) fetch_pte_kept(1) [OF assms(1-4)] by (auto simp: maps_anon_def)

section \<open>Pinning and unpinning a table\<close>

lemma tables_frameD:
  assumes "tables_frame ps s t"
  shows "SOFT_pages t = SOFT_pages s" and "SOFT_pages_base t = SOFT_pages_base s" and "vmparam t = vmparam s"
    and "wsl_tree (wsl (procs t ps)) = wsl_tree (wsl (procs s ps))"
    and "nentries (wsl (procs t ps)) = nentries (wsl (procs s ps))"
    and "wsl_max (wsl (procs t ps)) = wsl_max (wsl (procs s ps))"
    and "pml4 (procs t ps) = pml4 (procs s ps)" and "pml4_page (procs t ps) = pml4_page (procs s ps)"
    and "vad_tree (procs t ps) = vad_tree (procs s ps)" and "vmp_pagefile_state t = vmp_pagefile_state s"
    and "data_queue (wsl (procs t ps)) = data_queue (wsl (procs s ps))"
  using assms by (auto simp: tables_frame_def)

text \<open>A page record apart from its counters.\<close>

definition same_role :: "vm_page \<Rightarrow> vm_page \<Rightarrow> bool" where
  "same_role pg pg' \<longleftrightarrow> pfn pg' = pfn pg \<and> use pg' = use pg \<and> process pg' = process pg \<and>
     referent_pte pg' = referent_pte pg \<and> dirty pg' = dirty pg \<and> drumslot pg' = drumslot pg"

lemma role_table_at: "\<forall>q. same_role (mypages s q) (mypages t q) \<Longrightarrow> table_at ps t l p = table_at ps s l p"
  by (simp add: table_at_def same_role_def)

lemma role_table_of: "\<forall>q. same_role (mypages s q) (mypages t q) \<Longrightarrow> table_of ps t p = table_of ps s p"
  by (simp add: table_of_def same_role_def)

lemma role_dirs_ok:
  "\<forall>q. same_role (mypages s q) (mypages t q) \<Longrightarrow> SOFT_pages t = SOFT_pages s \<Longrightarrow> dirs_ok ps t = dirs_ok ps s"
  unfolding dirs_ok_def by (simp add: role_table_at) (simp add: same_role_def)

lemma role_direct_map:
  "\<forall>q. same_role (mypages s q) (mypages t q) \<Longrightarrow> SOFT_pages_base t = SOFT_pages_base s \<Longrightarrow>
     direct_map t = direct_map s"
  unfolding direct_map_def by (intro image_cong refl page_vaddr_cong) (simp_all add: same_role_def)

text \<open>Changing the counters of one table, and the lock of its entry, keeps everything but the counts.\<close>

lemma space_ok_table_counters:
  assumes s: "space_ok W ps s" and p: "table_of ps s p" and t: "pfndb t" "tables_ok ps t" "tables_frame ps s t"
    and pg: "mypages t = (mypages s)(p := pg)" "same_role (mypages s p) pg" and c: "counted W' ps t"
  shows "space_ok W' ps t"
proof -
  note S = space_okD [OF s] and F = tables_frameD [OF t(3)]
  have role: "\<forall>q. same_role (mypages s q) (mypages t q)" using pg by (simp add: same_role_def)
  have other: "mypages t q = mypages s q" if "\<not> is_table (use (mypages s q))" for q
    using that p pg(1) by (auto simp: table_of_def)
  have root: "root_ok ps t" using S(5) F(7,8) role_table_at [OF role] by (simp add: root_ok_def)
  have dirs: "dirs_ok ps t" using S(6) role_dirs_ok [OF role F(1)] by simp
  have leaf: "leaf_ok ps t a" if "leaf_ok ps s a" for a
  proof -
    have "anon_at ps t a q \<and> mypages t q = mypages s q" if "anon_at ps s a q" for q
      using that other [of q] by (simp add: anon_at_def is_table_def)
    with that F(1) show ?thesis unfolding leaf_ok_def Let_def by metis
  qed
  then have leaves: "leaves_ok ps t" using S(7) role_table_at [OF role] by (simp add: leaves_ok_def)
  have idle: "idle_clean t" using S(3) other role unfolding idle_clean_def same_role_def by metis
  moreover have "wsle_ok ps t e" if e: "e \<in> set (entries (wsl (procs t ps)))" for e
  proof -
    have ok: "wsle_ok ps s e" using S(8) e F(4) by simp
    have te: "table_entry q t = table_entry q s" for q
      using role F(2) by (intro table_entry_cong) (simp_all add: same_role_def)
    have root: "page_is_root_table q t = page_is_root_table q s" for q
      using role by (simp add: page_is_root_table_def same_role_def)
    have "maps_anon ps v a q t" if m: "maps_anon ps v a q s" for v a q
    proof (rule maps_anon_kept [OF S(6,5) _ F(7) m])
      show "dirs_kept ps s t" by (simp add: dirs_kept_def F(1))
      have "mypages t q = mypages s q" using m by (intro other) (simp add: maps_anon_def is_table_def)
      with m show "use (mypages t q) = use (mypages s q)" "refcnt (mypages t q) \<noteq> 0"
        by (simp_all add: maps_anon_def)
    qed (simp add: F(1))
    with ok show ?thesis
      unfolding wsle_ok_def te root role_table_of [OF role] role_direct_map [OF role F(2)]
      by (cases "is_pagetable e") (simp, simp, blast)
  qed
  moreover have "ws_unique ps t"
    using S(12) fetch_level_cong [OF F(1)] unfolding ws_unique_def vmp_fetch_pte_def F(4,7) by simp
  moreover have "backlinks_ok ps t"
    unfolding backlinks_ok_def
  proof (intro allI impI)
    fix q assume q: "q < SOFT_NPAGES" "use (mypages t q) = kPageUseAnonPrivate" "process (mypages t q) = ps"
    have same: "mypages t q = mypages s q"
      using q(2) role by (intro other) (simp add: same_role_def is_table_def)
    then have "backlink_ok ps s q" using S(13) q by (simp add: backlinks_ok_def)
    then show "backlink_ok ps t q"
      unfolding backlink_ok_def anon_at_def role_table_at [OF role] F(1) same .
  qed
  ultimately show ?thesis using root dirs leaves idle t c S(4) F(4,5) by (simp add: space_ok_def wsl_counted_def)
qed

lemma counted_bounds:
  assumes "counted W ps s" and "table_of ps s p"
  shows "unat (nonzero_ptes (mypages s p)) = live_ptes (\<lambda>v. v \<noteq> 0) p s + W p"
    and "unat (nonswap_ptes (mypages s p)) = live_ptes in_core p s + W p"
    and "nonswap_ptes (mypages s p) + 1 < 0x8000"
proof -
  have w: "W p \<le> 16" "nonzero_ptes (mypages s p) = of_nat (live_ptes (\<lambda>v. v \<noteq> 0) p s + W p)"
    "nonswap_ptes (mypages s p) = of_nat (live_ptes in_core p s + W p)"
    using assms by (auto simp: counted_def)
  have b: "live_ptes P p s + W p < 2 ^ 15 - 1" for P using live_ptes_le [of P p s] w(1) by simp
  have u: "unat (of_nat (live_ptes P p s + W p) :: uint16_t) = live_ptes P p s + W p" for P
    using b [of P] by (simp add: unsigned_of_nat take_bit_nat_eq_self del: of_nat_add)
  show "unat (nonzero_ptes (mypages s p)) = live_ptes (\<lambda>v. v \<noteq> 0) p s + W p"
    "unat (nonswap_ptes (mypages s p)) = live_ptes in_core p s + W p"
    unfolding w(2,3) by (rule u)+
  then have "unat (nonswap_ptes (mypages s p) + 1) = live_ptes in_core p s + W p + 1"
    using b [of in_core] by (simp add: unat_word_ariths(1))
  then show "nonswap_ptes (mypages s p) + 1 < 0x8000"
    using b [of in_core] by (simp add: word_less_nat_alt)
qed

lemma pin_ok:
  assumes s: "space_ok W ps s" and p: "table_of ps s p" and w: "W p < 16"
  obtains t where "vmp_pagetable_page_nonswap_pte_created ps p True s = Ok t"
    and "space_ok (W(p := W p + 1)) ps t" and "tables_frame ps s t"
    and "mypages t = (mypages s)(p := (mypages s p)\<lparr>refcnt := refcnt (mypages s p) + 1,
        nonzero_ptes := nonzero_ptes (mypages s p) + 1, nonswap_ptes := nonswap_ptes (mypages s p) + 1\<rparr>)"
proof -
  note S = space_okD [OF s]
  obtain t where t: "vmp_pagetable_page_nonswap_pte_created ps p True s = Ok t"
    "pfndb t" "tables_ok ps t" "tables_frame ps s t"
    "mypages t = (mypages s)(p := (mypages s p)\<lparr>refcnt := refcnt (mypages s p) + 1,
        nonzero_ptes := nonzero_ptes (mypages s p) + 1, nonswap_ptes := nonswap_ptes (mypages s p) + 1\<rparr>)"
    by (rule nonswap_created_ok [OF S(1,2) p counted_bounds(3) [OF S(9) p], of True]) simp
  note F = tables_frameD [OF t(4)]
  have live: "live_ptes P q t = live_ptes P q s" for P q by (rule live_ptes_cong) (simp add: F(1))
  have role: "\<forall>q. same_role (mypages s q) (mypages t q)" using t(5) by (simp add: same_role_def)
  have "counted (W(p := W p + 1)) ps t"
    using S(9) w unfolding counted_def live role_table_of [OF role] t(5) by (auto simp: algebra_simps)
  then have "space_ok (W(p := W p + 1)) ps t"
    by (intro space_ok_table_counters [OF s p t(2-5)]) (simp add: same_role_def)
  then show thesis using that t(1,4,5) by blast
qed

lemma unpin_ok:
  assumes s: "space_ok W ps s" and p: "table_of ps s p" and w: "0 < W p"
    and live: "page_is_root_table p s \<or> 0 < live_ptes (\<lambda>v. v \<noteq> 0) p s"
  obtains t where "vmp_pagetable_page_pte_deleted ps p False s = Ok t"
    and "space_ok (W(p := W p - 1)) ps t" and "tables_frame ps s t"
    and "mypages t = (mypages s)(p := (mypages s p)\<lparr>nonzero_ptes := nonzero_ptes (mypages s p) - 1,
       nonswap_ptes := nonswap_ptes (mypages s p) - 1, refcnt := refcnt (mypages s p) - 1\<rparr>)"
proof -
  note S = space_okD [OF s] and B = counted_bounds [OF space_okD(9) [OF s] p]
  have ns: "nonswap_ptes (mypages s p) \<noteq> 0" using B(2) w by auto
  have nz: "nonzero_ptes (mypages s p) \<noteq> 1 \<or> page_is_root_table p s" using B(1) w live by auto
  obtain t where t: "vmp_pagetable_page_pte_deleted ps p False s = Ok t"
    "pfndb t" "tables_ok ps t" "tables_frame ps s t"
    "mypages t = (mypages s)(p := (mypages s p)\<lparr>nonzero_ptes := nonzero_ptes (mypages s p) - 1,
       nonswap_ptes := nonswap_ptes (mypages s p) - 1, refcnt := refcnt (mypages s p) - 1\<rparr>)"
    by (rule pte_deleted_ok [OF S(1,2) p ns nz])
  note F = tables_frameD [OF t(4)]
  have l: "live_ptes P q t = live_ptes P q s" for P q by (rule live_ptes_cong) (simp add: F(1))
  have role: "\<forall>q. same_role (mypages s q) (mypages t q)" using t(5) by (simp add: same_role_def)
  have "of_nat (live_ptes P p s + W p) - 1 = (of_nat (live_ptes P p s + (W p - 1)) :: uint16_t)" for P
    using w by (cases "W p") simp_all
  then have "counted (W(p := W p - 1)) ps t"
    using S(9) p unfolding counted_def l role_table_of [OF role] t(5) by auto
  then have "space_ok (W(p := W p - 1)) ps t"
    by (intro space_ok_table_counters [OF s p t(2-5)]) (simp add: same_role_def)
  then show thesis using that t(1,4,5) by blast
qed

section \<open>Growing the working set when memory is plentiful\<close>

text \<open>Enough memory for \<open>k\<close> pages: \<open>k\<close> pages are free, so that none is stolen, and when they are taken the
  free and the standby pages together are still more than the limits on allocation and expansion, so
  that there is no shortage and the working set may expand.\<close>

definition plenty :: "nat \<Rightarrow> nat \<Rightarrow> vmm \<Rightarrow> bool" where
  "plenty k ps s \<longleftrightarrow> (let w = wsl (procs s ps); c = ws_page_expansion_count (vmparam s) in
     nentries w \<le> wsl_max w \<and> 0 < c \<and> unat (wsl_max w) + (k + 1) * unat c < 2 ^ 64 \<and>
     k \<le> length (free_pgq s) \<and>
     k + max (unat (min_avail_for_alloc (vmparam s))) (unat (min_avail_for_expansion (vmparam s)))
       < length (free_pgq s) + length (standby_pgq s))"

lemma plenty_mono: "plenty k ps s \<Longrightarrow> j \<le> k \<Longrightarrow> plenty j ps s"
  using mult_le_mono1 [of "j + 1" "k + 1" "unat (ws_page_expansion_count (vmparam s))"]
  unfolding plenty_def Let_def by linarith

lemma free_queue_iff:
  assumes "pfndb s"
  shows "p \<in> set (free_pgq s) \<longleftrightarrow> p < SOFT_NPAGES \<and> use (mypages s p) = kPageUseFree"
  using pfndb_queue_iff [OF assms, of p QFree] by (simp add: place_def)

lemma free_pgq_length:
  assumes "pfndb s"
  shows "length (free_pgq s) = card {p. p < SOFT_NPAGES \<and> use (mypages s p) = kPageUseFree}"
proof -
  have "distinct (queue_of QFree s)" using assms unfolding pfndb_def by blast
  then have "length (free_pgq s) = card (set (free_pgq s))" by (simp add: distinct_card)
  also have "set (free_pgq s) = {p. p < SOFT_NPAGES \<and> use (mypages s p) = kPageUseFree}"
    using free_queue_iff [OF assms] by blast
  finally show ?thesis .
qed

text \<open>Free and standby pages.\<close>

definition spare_pages :: "vmm \<Rightarrow> page_ptr set" where
  "spare_pages s = {p. p < SOFT_NPAGES \<and> (use (mypages s p) = kPageUseFree \<or> place (mypages s p) = Some QStandby)}"

lemma spare_pages_card:
  assumes "pfndb s"
  shows "card (spare_pages s) = length (free_pgq s) + length (standby_pgq s)"
proof -
  have q: "set (queue_of q s) = {p. p < SOFT_NPAGES \<and> place (mypages s p) = Some q}" "distinct (queue_of q s)" for q
    using pfndb_queue_iff [OF assms] assms by (auto simp: pfndb_def)
  have "spare_pages s = set (queue_of QFree s) \<union> set (queue_of QStandby s)"
    unfolding q by (auto simp: spare_pages_def place_def)
  moreover have "set (queue_of QFree s) \<inter> set (queue_of QStandby s) = {}" unfolding q by auto
  ultimately show ?thesis
    using q(2) [of QFree] q(2) [of QStandby] by (simp add: card_Un_disjoint distinct_card)
qed

lemma table_not_spare:
  assumes "tables_ok ps s" and "table_of ps s p"
  shows "p \<notin> spare_pages s"
proof -
  have "refcnt (mypages s p) \<noteq> 0"
    using table_okD(1) [OF assms] small_count [of "nonswap_ptes (mypages s p)"] by (simp add: table_ok_def)
  then show ?thesis using assms(2) by (auto simp: spare_pages_def place_def table_of_def is_table_def)
qed

text \<open>One page is taken, and otherwise only tables change.\<close>

lemma spare_pages_taken:
  assumes s: "pfndb s" "tables_ok ps s" and t: "pfndb t"
    and u: "\<forall>q. q \<noteq> p \<longrightarrow> use (mypages t q) = use (mypages s q)"
    and same: "\<forall>q. q \<noteq> p \<longrightarrow> \<not> table_of ps s q \<longrightarrow> mypages t q = mypages s q"
  shows "length (free_pgq s) \<le> Suc (length (free_pgq t))"
    and "length (free_pgq s) + length (standby_pgq s) \<le> Suc (length (free_pgq t) + length (standby_pgq t))"
proof -
  have less: "card A \<le> Suc (card B)" if "A \<subseteq> insert p B" "finite B" for A B :: "page_ptr set"
    using card_mono [OF _ that(1)] that(2) by (simp add: card_insert_if split: if_splits)
  show "length (free_pgq s) \<le> Suc (length (free_pgq t))"
    unfolding free_pgq_length [OF s(1)] free_pgq_length [OF t] by (rule less) (use u in auto)
  have "spare_pages s \<subseteq> insert p (spare_pages t)"
  proof
    fix q assume q: "q \<in> spare_pages s"
    then have "\<not> table_of ps s q" using table_not_spare [OF s(2)] by blast
    then show "q \<in> insert p (spare_pages t)" using q same by (auto simp: spare_pages_def)
  qed
  then show "length (free_pgq s) + length (standby_pgq s) \<le> Suc (length (free_pgq t) + length (standby_pgq t))"
    unfolding spare_pages_card [OF s(1), symmetric] spare_pages_card [OF t, symmetric]
    by (rule less) (simp add: spare_pages_def)
qed

lemma plenty_taken:
  assumes k: "plenty (Suc k) ps s" and s: "space_ok W ps s" and t: "pfndb t" and "vmparam t = vmparam s"
    and "nentries (wsl (procs t ps)) \<le> wsl_max (wsl (procs t ps))"
      "unat (wsl_max (wsl (procs t ps))) \<le> unat (wsl_max (wsl (procs s ps))) + unat (ws_page_expansion_count (vmparam s))"
    and p: "\<forall>q. q \<noteq> p \<longrightarrow> use (mypages t q) = use (mypages s q)"
      "\<forall>q. q \<noteq> p \<longrightarrow> \<not> table_of ps s q \<longrightarrow> mypages t q = mypages s q"
  shows "plenty k ps t"
proof -
  have "pfndb s" "tables_ok ps s" using s by (simp_all add: space_ok_def)
  from spare_pages_taken [OF this t p] k assms(4-6) show ?thesis by (simp add: plenty_def Let_def)
qed

lemma avail_count:
  assumes "pfndb s"
  shows "unat (nfree (vmstat s) + nstandby (vmstat s)) = length (free_pgq s) + length (standby_pgq s)"
proof -
  have c: "nfree (vmstat s) = of_nat (card (members (mypages s) (Some QFree)))"
    "nstandby (vmstat s) = of_nat (card (members (mypages s) (Some QStandby)))"
    using assms by (metis pfndb_def qcount.simps(1)) (metis assms pfndb_def qcount.simps(2))
  have l: "length (free_pgq s) = card (members (mypages s) (Some QFree))"
    "length (standby_pgq s) = card (members (mypages s) (Some QStandby))"
    using assms distinct_card [of "queue_of QFree s"] distinct_card [of "queue_of QStandby s"]
    by (auto simp: pfndb_def dest: spec [of _ QFree] spec [of _ QStandby])
  have "card (members (mypages s) w) \<le> SOFT_NPAGES" for w
    using card_mono [of "{..<SOFT_NPAGES}" "members (mypages s) w"] by (auto simp: in_members subset_iff)
  from this [of "Some QFree"] this [of "Some QStandby"] show ?thesis
    unfolding c l by (simp add: unsigned_of_nat take_bit_nat_eq_self flip: of_nat_add)
qed

lemma plentyD:
  assumes "plenty k ps s" and "pfndb s"
  shows "nfree (vmstat s) + nstandby (vmstat s) > min_avail_for_expansion (vmparam s)"
    and "\<not> vmp_page_shortage s"
    and "wsl_max (wsl (procs s ps)) < wsl_max (wsl (procs s ps)) + ws_page_expansion_count (vmparam s)"
    and "unat (wsl_max (wsl (procs s ps)) + ws_page_expansion_count (vmparam s)) =
      unat (wsl_max (wsl (procs s ps))) + unat (ws_page_expansion_count (vmparam s))"
proof -
  let ?m = "wsl_max (wsl (procs s ps))" and ?c = "ws_page_expansion_count (vmparam s)"
  note P = assms(1) [unfolded plenty_def Let_def]
  show "nfree (vmstat s) + nstandby (vmstat s) > min_avail_for_expansion (vmparam s)"
    "\<not> vmp_page_shortage s"
    using P avail_count [OF assms(2)] by (auto simp: vmp_page_shortage_def word_less_nat_alt word_le_nat_alt)
  have "unat ?m + unat ?c < 2 ^ 64" using P by (simp add: algebra_simps)
  then show u: "unat (?m + ?c) = unat ?m + unat ?c" by (simp add: unat_word_ariths(1))
  have "0 < unat ?c" using P by (simp add: word_less_nat_alt)
  then show "?m < ?m + ?c" by (simp add: word_less_nat_alt u)
qed

lemma wsl_insert_plenty:
  fixes ps s
  defines "w \<equiv> wsl (procs s ps)"
  assumes s: "pfndb s" "wsl_ok w" "wsl_counted w" and k: "plenty k ps s"
    and f: "vmp_wsl_find ps v s = None" and v: "low_vaddr v"
  obtains w' where "vmp_wsl_insert ps v is_pt locked s = Ok (wsl_update_ps ps (\<lambda>_. w') s)"
    and "wsl_ok w'" and "wsl_counted w'"
    and "set (entries w') = insert \<lparr>wsle_vaddr = v, is_pagetable = is_pt\<rparr> (set (entries w))"
    and "wsl_queue w' = (if locked then wsl_queue w else wsl_queue w @ [\<lparr>wsle_vaddr = v, is_pagetable = is_pt\<rparr>])"
    and "nentries w' \<le> wsl_max w'"
    and "unat (wsl_max w') \<le> unat (wsl_max w) + unat (ws_page_expansion_count (vmparam s))"
    and "\<lparr>wsle_vaddr = v, is_pagetable = is_pt\<rparr> \<notin> set (entries w)"
proof -
  let ?e = "\<lparr>wsle_vaddr = v, is_pagetable = is_pt\<rparr>"
  let ?c = "ws_page_expansion_count (vmparam s)"
  note P = plentyD [OF k s(1), folded w_def]
  have le: "nentries w \<le> wsl_max w" using k by (simp add: plenty_def Let_def w_def)
  define x where "x = (if nentries w = wsl_max w then w\<lparr>wsl_max := wsl_max w + ?c\<rparr> else w)"
  have x: "wsl_ok x" "wsl_tree x = wsl_tree w" "wsl_queue x = wsl_queue w" "nentries x = nentries w"
    using s(2) by (simp_all add: x_def wsl_ok_def)
  have "nentries x < wsl_max x" using le P(3) by (simp add: x_def order_less_le)
  have fx: "wsl_find v x = None" using f x(2) by (simp add: vmp_wsl_find_def wsl_find_def w_def)
  obtain tr where tr: "wsl_link v is_pt locked x = Ok (x\<lparr>wsl_tree := tr, nentries := nentries x + 1,
      wsl_queue := (if locked then wsl_queue x else wsl_queue x @ [?e]),
      nlocked := (if locked then nlocked x + 1 else nlocked x)\<rparr>)"
    "wsl_ok (x\<lparr>wsl_tree := tr, nentries := nentries x + 1,
      wsl_queue := (if locked then wsl_queue x else wsl_queue x @ [?e]),
      nlocked := (if locked then nlocked x + 1 else nlocked x)\<rparr>)"
    "set (inorder tr) = insert ?e (set (entries x))" "?e \<notin> set (entries x)"
    by (rule wsl_link_ok [OF x(1) v fx])
  let ?w = "x\<lparr>wsl_tree := tr, nentries := nentries x + 1,
      wsl_queue := (if locked then wsl_queue x else wsl_queue x @ [?e]),
      nlocked := (if locked then nlocked x + 1 else nlocked x)\<rparr>"
  have "(if nentries w = wsl_max w then
             let (expanded, s) = wsl_try_expand ps s in
             if expanded then Ok s
             else bnd (wsl_trim_1 ps s) (\<lambda>(wsle, s). kassert (wsle \<noteq> None) ''wsle != NULL'' (Ok s))
           else Ok s) = Ok (wsl_update_ps ps (\<lambda>_. x) s)"
    using P(1) by (simp add: wsl_try_expand_def x_def w_def wsl_update_ps_def)
  then have "vmp_wsl_insert ps v is_pt locked s = on_wsl (wsl_link v is_pt locked) ps (wsl_update_ps ps (\<lambda>_. x) s)"
    using f le unfolding vmp_wsl_insert_def w_def [symmetric] by simp
  then have code: "vmp_wsl_insert ps v is_pt locked s = Ok (wsl_update_ps ps (\<lambda>_. ?w) s)"
    using tr(1) by (simp add: on_wsl_def wsl_update_ps_def)
  have inc: "nentries x + 1 \<le> wsl_max x" using inc_le [OF \<open>nentries x < wsl_max x\<close>] by (simp add: add.commute)
  have "unat (nentries x + 1) = Suc (unat (nentries x))"
    using \<open>nentries x < wsl_max x\<close> unsigned_less [of "wsl_max x", where ?'a = nat]
    by (simp add: word_less_nat_alt unat_word_ariths(1))
  moreover have "length (inorder tr) = Suc (length (entries x))"
    using length_entries_card [OF tr(2)] length_entries_card [OF x(1)] tr(3,4) by simp
  ultimately have "wsl_counted ?w" using s(3) x(2,4) by (simp add: wsl_counted_def)
  moreover have "unat (wsl_max x) \<le> unat (wsl_max w) + unat ?c" using P(4) by (simp add: x_def)
  ultimately show thesis using that [OF code tr(2)] tr(3,4) x inc by simp
qed

section \<open>A new address space\<close>

text \<open>A new address space: a root table without entries, and an empty working set.\<close>

lemma fresh_space_ok:
  fixes ps s
  defines "r \<equiv> pml4_page (procs s ps)"
  assumes s: "pfndb s" "idle_clean s" "low_base s" and w: "wsl_tree (wsl (procs s ps)) = Null"
      "wsl_queue (wsl (procs s ps)) = []" "nlocked (wsl (procs s ps)) = 0"
    and r: "table_at ps s VMP_TABLE_LEVELS r" "pml4 (procs s ps) = r * PGSIZE"
      "\<forall>p. table_of ps s p \<longrightarrow> p = r" "\<forall>p. use (mypages s p) \<noteq> kPageUseAnonPrivate"
    and c: "refcnt (mypages s r) = 1" "nonzero_ptes (mypages s r) = 0" "nonswap_ptes (mypages s r) = 0"
    and mem: "\<forall>a. a div PGSIZE = r \<longrightarrow> SOFT_pages s a = 0"
  shows "space_ok (\<lambda>_. 0) ps s"
proof -
  have e: "SOFT_pages s (pte_at r i) = 0" if "i < 512" for i using mem that by simp
  have only: "d = r \<and> l = VMP_TABLE_LEVELS" if "table_at ps s l d" for l d
    using that r(1,3) table_atD(2) table_at_unique by blast
  have live: "live_ptes P r s = 0" if "\<not> P 0" for P
  proof -
    have "{i. i < 512 \<and> P (SOFT_pages s (pte_at r i))} = {}" using that e by auto
    then show ?thesis unfolding live_ptes_def by (metis card.empty)
  qed
  have root: "page_is_root_table r s" using r(1) by (simp add: table_at_def page_is_root_table_def)
  have "wsl_ok (wsl (procs s ps))" using w by (simp add: wsl_ok_def)
  then have "tables_ok ps s"
    using s(3) r(3) root c by (auto simp: tables_ok_def table_ok_def)
  moreover have "dirs_ok ps s" using e only by (auto simp: dirs_ok_def)
  moreover have "leaves_ok ps s" using only by (fastforce simp: leaves_ok_def)
  moreover have "counted (\<lambda>_. 0) ps s" using r(3) c live by (auto simp: counted_def)
  moreover have "root_ok ps s" using r(1,2) by (simp add: root_ok_def r_def)
  ultimately show ?thesis
    using s w r(4) by (simp add: space_ok_def wsl_counted_def ws_unique_def backlinks_ok_def)
qed

definition sample_root :: vmm where
  "sample_root = (boot_state 0x10000000000)
     \<lparr>mypages := (\<lambda>p. if p = 0 then zero_page\<lparr>use := kPageUsePML4, refcnt := 1\<rparr>
        else zero_page\<lparr>pfn := of_nat p, use := kPageUseFree\<rparr>),
      free_pgq := [1..<SOFT_NPAGES],
      vmstat := \<lparr>nfree = 31, nmodified = 0, nstandby = 0, nactive = 1, ntotal = 0\<rparr>,
      vmparam := \<lparr>ws_page_expansion_count = 4, min_avail_for_expansion = 8, min_avail_for_alloc = 4\<rparr>,
      procs := (\<lambda>_. zero_process\<lparr>wsl := (wsl zero_process)\<lparr>wsl_max := 4\<rparr>\<rparr>)\<rparr>"

lemma sample_root_pfndb: "pfndb sample_root"
proof -
  let ?P = "mypages sample_root"
  have m: "members ?P w = (if w = None then {0} else if w = Some QFree then {1..<32} else {})" for w
    by (auto simp: in_members sample_root_def place_def zero_page_def split: if_splits)
  have "distinct (queue_of q sample_root) \<and> set (queue_of q sample_root) = members ?P (Some q)" for q
    unfolding m by (cases q) (simp_all add: sample_root_def boot_state_def del: upt_rec_numeral)
  moreover have "qcount w (vmstat sample_root) = of_nat (card (members ?P w))" for w
    unfolding m by (cases "(w, vmstat sample_root)" rule: qcount.cases) (auto simp: sample_root_def)
  moreover have "page_wf p (?P p)" for p
    by (simp add: page_wf_def sample_root_def zero_page_def)
  ultimately show ?thesis unfolding pfndb_def by simp
qed

lemma sample_root_ok: "space_ok (\<lambda>_. 0) 0 sample_root" "k \<le> 22 \<Longrightarrow> plenty k 0 sample_root"
proof -
  show "space_ok (\<lambda>_. 0) 0 sample_root"
    by (rule fresh_space_ok [OF sample_root_pfndb])
      (auto simp: sample_root_def zero_process_def zero_page_def boot_state_def idle_clean_def low_base_def
        is_table_def table_at_def table_of_def)
  show "plenty k 0 sample_root" if "k \<le> 22"
    using that by (simp add: plenty_def Let_def sample_root_def zero_process_def del: upt_rec_numeral)
qed

end
