(* ===== verification/Space_Growth.thy ===== *)
theory Space_Growth
  imports Address_Space
begin

text \<open>
  How an address space grows: a free page becomes the target of an empty entry, as a table of the next
  level or as a private page. Whatever was there stays, and the invariant of the address space is kept.
\<close>

section \<open>Growth\<close>

text \<open>The entries of tables in \<open>t\<close> that \<open>s\<close> does not have lead to pages that were free in \<open>s\<close>; those that hold
  data are filled with zeroes.\<close>

definition new_links :: "nat \<Rightarrow> vmm \<Rightarrow> vmm \<Rightarrow> bool" where
  "new_links ps s t \<longleftrightarrow> (\<forall>d i. table_of ps t d \<longrightarrow> i < 512 \<longrightarrow>
     SOFT_pages t (pte_at d i) = (if table_of ps s d then SOFT_pages s (pte_at d i) else 0) \<or>
     (\<exists>p w. p < SOFT_NPAGES \<and> SOFT_pages t (pte_at d i) = vmp_pte_hw_create (of_nat p) w \<and>
        use (mypages s p) = kPageUseFree \<and> use (mypages t p) \<noteq> kPageUseFree \<and>
        (\<not> is_table (use (mypages t p)) \<longrightarrow> (\<forall>b. b div PGSIZE = p \<longrightarrow> SOFT_pages t b = 0))))"

text \<open>A page that was free is still free or is a table, or a private page nothing was stored to.\<close>

definition unused_data :: "nat \<Rightarrow> vmm \<Rightarrow> page_ptr \<Rightarrow> bool" where
  "unused_data ps t q \<longleftrightarrow> use (mypages t q) = kPageUseAnonPrivate \<and> process (mypages t q) = ps \<and>
     \<not> dirty (mypages t q) \<and> drumslot (mypages t q) = - 1 \<and> (\<forall>a. a div PGSIZE = q \<longrightarrow> SOFT_pages t a = 0)"

definition newcomers :: "nat \<Rightarrow> vmm \<Rightarrow> vmm \<Rightarrow> bool" where
  "newcomers ps s t \<longleftrightarrow> (\<forall>q. use (mypages s q) = kPageUseFree \<longrightarrow> use (mypages t q) = kPageUseFree \<or>
     is_table (use (mypages t q)) \<and> process (mypages t q) = ps \<or> unused_data ps t q)"

text \<open>\<open>t\<close> has everything that \<open>s\<close> has: pages in use keep their role, pages that are not tables keep their
  record and their contents, tables keep their entries; and what is new was free.\<close>

definition grown :: "nat \<Rightarrow> vmm \<Rightarrow> vmm \<Rightarrow> bool" where
  "grown ps s t \<longleftrightarrow> new_links ps s t \<and> newcomers ps s t \<and>
     (\<forall>q. use (mypages s q) \<noteq> kPageUseFree \<longrightarrow> same_role (mypages s q) (mypages t q) \<and>
        (\<not> is_table (use (mypages s q)) \<longrightarrow> mypages t q = mypages s q)) \<and>
     (\<forall>a. use (mypages s (a div PGSIZE)) \<noteq> kPageUseFree \<longrightarrow>
        SOFT_pages s a \<noteq> 0 \<or> \<not> is_table (use (mypages s (a div PGSIZE))) \<longrightarrow> SOFT_pages t a = SOFT_pages s a) \<and>
     SOFT_pages_base t = SOFT_pages_base s \<and> vmparam t = vmparam s \<and>
     vmp_pagefile_state t = vmp_pagefile_state s \<and> pml4 (procs t ps) = pml4 (procs s ps) \<and>
     pml4_page (procs t ps) = pml4_page (procs s ps) \<and> vad_tree (procs t ps) = vad_tree (procs s ps)"

lemma new_links_refl [simp]: "new_links ps s s"
  by (simp add: new_links_def)

lemma new_links_same:
  "SOFT_pages t = SOFT_pages s \<Longrightarrow> (\<And>d. table_of ps t d \<Longrightarrow> table_of ps s d) \<Longrightarrow> new_links ps s t"
  by (simp add: new_links_def)

lemma newcomers_refl [simp]: "newcomers ps s s"
  by (simp add: newcomers_def)

lemma grown_refl [simp]: "grown ps s s"
  by (simp add: grown_def same_role_def)

lemma grownD:
  assumes "grown ps s t"
  shows "new_links ps s t"
    and "use (mypages s q) \<noteq> kPageUseFree \<Longrightarrow> same_role (mypages s q) (mypages t q)"
    and "use (mypages s q) \<noteq> kPageUseFree \<Longrightarrow> use (mypages t q) = use (mypages s q)"
    and "use (mypages s q) \<noteq> kPageUseFree \<Longrightarrow> \<not> is_table (use (mypages s q)) \<Longrightarrow> mypages t q = mypages s q"
    and "use (mypages s (a div PGSIZE)) \<noteq> kPageUseFree \<Longrightarrow> SOFT_pages s a \<noteq> 0 \<Longrightarrow> SOFT_pages t a = SOFT_pages s a"
    and "use (mypages s (a div PGSIZE)) \<noteq> kPageUseFree \<Longrightarrow> \<not> is_table (use (mypages s (a div PGSIZE))) \<Longrightarrow>
      SOFT_pages t a = SOFT_pages s a"
    and "newcomers ps s t"
  using assms by (simp_all add: grown_def same_role_def)

lemma grown_table_of: "grown ps s t \<Longrightarrow> table_of ps s d \<Longrightarrow> table_of ps t d"
  using grownD(2) [of ps s t d] table_use(2) [of ps s d] by (auto simp: table_of_def same_role_def)

lemma new_links_trans:
  assumes st: "grown ps s t" and tu: "grown ps t u"
  shows "new_links ps s u"
  unfolding new_links_def
proof (intro allI impI)
  fix d i assume d: "table_of ps u d" and i: "i < (512 :: nat)"
  let ?e = "\<lambda>s. SOFT_pages s (pte_at d i)"
  let ?new = "\<lambda>s t. \<exists>p w. p < SOFT_NPAGES \<and> ?e t = vmp_pte_hw_create (of_nat p) w \<and>
      use (mypages s p) = kPageUseFree \<and> use (mypages t p) \<noteq> kPageUseFree \<and>
      (\<not> is_table (use (mypages t p)) \<longrightarrow> (\<forall>b. b div PGSIZE = p \<longrightarrow> SOFT_pages t b = 0))"
  consider (new) "?new t u" | (same) "?e u = (if table_of ps t d then ?e t else 0)"
    using grownD(1) [OF tu] d i unfolding new_links_def by blast
  then show "?e u = (if table_of ps s d then ?e s else 0) \<or> ?new s u"
  proof cases
    case new
    then show ?thesis using grownD(3) [OF st] by metis
  next
    case same
    show ?thesis
    proof (cases "table_of ps t d")
      case False
      then show ?thesis using same grown_table_of [OF st] by auto
    next
      case True
      consider (new) "?new s t" | (same) "?e t = (if table_of ps s d then ?e s else 0)"
        using grownD(1) [OF st] True i unfolding new_links_def by blast
      then show ?thesis
      proof cases
        case new
        then obtain p w where p: "p < SOFT_NPAGES" "?e t = vmp_pte_hw_create (of_nat p) w"
          "use (mypages s p) = kPageUseFree" "use (mypages t p) \<noteq> kPageUseFree"
          "\<not> is_table (use (mypages t p)) \<Longrightarrow> \<forall>b. b div PGSIZE = p \<longrightarrow> SOFT_pages t b = 0"
          by auto
        have "use (mypages u p) = use (mypages t p)" by (rule grownD(3) [OF tu p(4)])
        moreover have "\<forall>b. b div PGSIZE = p \<longrightarrow> SOFT_pages u b = 0" if "\<not> is_table (use (mypages t p))"
          using grownD(6) [OF tu] p(4) p(5) [OF that] that by auto
        ultimately show ?thesis using p(1-4) \<open>?e u = (if table_of ps t d then ?e t else 0)\<close> True by auto
      next
        case same
        then show ?thesis using \<open>?e u = (if table_of ps t d then ?e t else 0)\<close> True by simp
      qed
    qed
  qed
qed

lemma newcomers_trans:
  assumes st: "grown ps s t" and tu: "grown ps t u"
  shows "newcomers ps s u"
  unfolding newcomers_def
proof (intro allI impI)
  fix q assume q: "use (mypages s q) = kPageUseFree"
  show "use (mypages u q) = kPageUseFree \<or> is_table (use (mypages u q)) \<and> process (mypages u q) = ps \<or> unused_data ps u q"
  proof (cases "use (mypages t q) = kPageUseFree")
    case True
    then show ?thesis using grownD(7) [OF tu] by (simp add: newcomers_def)
  next
    case False
    then consider "is_table (use (mypages t q))" "process (mypages t q) = ps" | "unused_data ps t q"
      using grownD(7) [OF st] q by (auto simp: newcomers_def)
    then show ?thesis
    proof cases
      case 1
      then show ?thesis using grownD(2) [OF tu False] by (simp add: same_role_def)
    next
      case 2
      then have nt: "\<not> is_table (use (mypages t q))" by (simp add: unused_data_def is_table_def)
      have "SOFT_pages u a = 0" if "a div PGSIZE = q" for a
        using grownD(6) [OF tu, of a] 2 nt False that by (simp add: unused_data_def)
      then show ?thesis using 2 grownD(4) [OF tu False nt] by (simp add: unused_data_def)
    qed
  qed
qed

lemma grown_trans:
  assumes "grown ps s t" and "grown ps t u"
  shows "grown ps s u"
  using new_links_trans [OF assms] newcomers_trans [OF assms] assms unfolding grown_def same_role_def
  by (intro conjI; (elim conjE)?) (metis | simp)+

lemma grown_table_counters:
  assumes "tables_frame ps s t" and "table_of ps s p" and "mypages t = (mypages s)(p := pg)"
    and "same_role (mypages s p) pg"
  shows "grown ps s t"
proof -
  have "new_links ps s t"
    by (rule new_links_same [OF tables_frameD(1) [OF assms(1)]])
      (use assms(2-4) in \<open>auto simp: table_of_def same_role_def split: if_splits\<close>)
  moreover have "newcomers ps s t" using assms by (auto simp: newcomers_def same_role_def)
  ultimately show ?thesis using assms tables_frameD [OF assms(1)] by (auto simp: grown_def same_role_def table_of_def)
qed

lemma table_not_free: "table_at ps s l p \<Longrightarrow> use (mypages s p) \<noteq> kPageUseFree"
  by (blast dest: table_atD(2) table_use(2))

lemma grown_table_at: "grown ps s t \<Longrightarrow> table_at ps s l p \<Longrightarrow> table_at ps t l p"
  using table_not_free [of ps s l p] by (auto simp: grown_def table_at_def same_role_def)

lemma grown_entry:
  "grown ps s t \<Longrightarrow> table_at ps s l d \<Longrightarrow> i < 512 \<Longrightarrow> SOFT_pages s (pte_at d i) \<noteq> 0 \<Longrightarrow>
     SOFT_pages t (pte_at d i) = SOFT_pages s (pte_at d i)"
  using table_not_free [of ps s l d] by (simp add: grown_def)

lemma grown_dirs_kept: "grown ps s t \<Longrightarrow> dirs_kept ps s t"
  unfolding dirs_kept_def by (blast intro: grown_entry)

lemma grown_maps_anon:
  assumes "space_ok W ps s" and "grown ps s t" and "maps_anon ps v a q s"
  shows "maps_anon ps v a q t"
proof -
  note S = space_okD [OF assms(1)]
  obtain d where d: "table_at ps s (Suc 0) d" "a = pte_at d (vmp_addr_unpack v ! 1)"
    using fetch_pte_kept(2) [OF S(6,5), of s v a] assms(3) by (auto simp: maps_anon_def dirs_kept_def)
  have m: "SOFT_pages s a \<noteq> 0" "use (mypages s q) = kPageUseAnonPrivate" "refcnt (mypages s q) \<noteq> 0"
    using assms(3) by (auto simp: maps_anon_def)
  show ?thesis
  proof (rule maps_anon_kept [OF S(6,5) grown_dirs_kept [OF assms(2)] _ assms(3)])
    show "pml4 (procs t ps) = pml4 (procs s ps)" using assms(2) by (simp add: grown_def)
    show "SOFT_pages t a = SOFT_pages s a"
      using grown_entry [OF assms(2) d(1) unpack_less] m(1) d(2) by simp
    have "mypages t q = mypages s q" using assms(2) m(2) by (auto simp: grown_def is_table_def)
    with m show "use (mypages t q) = use (mypages s q)" "refcnt (mypages t q) \<noteq> 0" by simp_all
  qed
qed

lemma grown_wsle_ok:
  assumes "space_ok W ps s" and "grown ps s t" and "pfndb t" and "wsle_ok ps s e"
  shows "wsle_ok ps t e"
proof -
  have b: "SOFT_pages_base t = SOFT_pages_base s" using assms(2) by (simp add: grown_def)
  have pv: "page_vaddr q t = page_vaddr q s" if "q < SOFT_NPAGES" for q
    using page_vaddr_page [OF assms(3) that] page_vaddr_page [OF space_okD(1) [OF assms(1)] that] b by simp
  have dm: "direct_map t = direct_map s" unfolding direct_map_def using pv by (intro image_cong) auto
  show ?thesis
  proof (cases "is_pagetable e")
    case True
    then obtain q where q: "table_of ps s q" "e = table_entry q s" "\<not> page_is_root_table q s"
      using assms(4) by (auto simp: wsle_ok_def)
    then have "table_of ps t q" using grown_table_at [OF assms(2)] by (auto simp: table_of_level)
    moreover have "table_entry q t = table_entry q s"
      using pv q(1) by (simp add: table_entry_def table_of_def)
    moreover have "\<not> page_is_root_table q t"
      using q(3) grownD(3) [OF assms(2), of q] table_use(2) [OF q(1)] by (simp add: page_is_root_table_def)
    ultimately show ?thesis using True q(2) by (auto simp: wsle_ok_def)
  next
    case False
    then show ?thesis using assms(4) grown_maps_anon [OF assms(1,2)] unfolding wsle_ok_def dm by simp blast
  qed
qed

lemma grown_leaf_ok:
  assumes "grown ps s t" and "leaf_ok ps s a" and "SOFT_pages t a = SOFT_pages s a"
  shows "leaf_ok ps t a"
proof -
  have "anon_at ps t a q \<and> mypages t q = mypages s q" if "anon_at ps s a q" for q
  proof -
    have "mypages t q = mypages s q" using assms(1) that by (auto simp: grown_def anon_at_def is_table_def)
    with that show ?thesis by (simp add: anon_at_def)
  qed
  with assms(2,3) show ?thesis unfolding leaf_ok_def Let_def by metis
qed

lemma grown_backlink:
  assumes g: "grown ps s t" and b: "backlink_ok ps s q" and same: "mypages t q = mypages s q"
  shows "backlink_ok ps t q"
proof -
  obtain d i where di: "table_at ps s (Suc 0) d" "i < 512" "anon_at ps s (pte_at d i) q"
    "(\<exists>w. SOFT_pages s (pte_at d i) = vmp_pte_hw_create (of_nat q) w) \<and> refcnt (mypages s q) = 1 \<or>
      SOFT_pages s (pte_at d i) = vmp_pte_trans_create 0 (of_nat q) \<and> refcnt (mypages s q) = 0"
    using b unfolding backlink_ok_def by blast
  have "SOFT_pages s (pte_at d i) \<noteq> 0" using di(4) trans_create_nonzero by auto
  then have "SOFT_pages t (pte_at d i) = SOFT_pages s (pte_at d i)" by (rule grown_entry [OF g di(1,2)])
  with di grown_table_at [OF g di(1)] show ?thesis
    unfolding backlink_ok_def by (intro exI [of _ d] exI [of _ i]) (simp add: anon_at_def same)
qed

lemma grown_fetch:
  assumes "space_ok W ps s" and "grown ps s t" and "wsle_ok ps s e" and "\<not> is_pagetable e"
  obtains a where "vmp_fetch_pte ps (wsle_vaddr e) s = Ok (Some a)" and "vmp_fetch_pte ps (wsle_vaddr e) t = Ok (Some a)"
    and "SOFT_pages s a \<noteq> 0"
proof -
  obtain a q where "maps_anon ps (wsle_vaddr e) a q s" using assms(3,4) by (auto simp: wsle_ok_def)
  with grown_maps_anon [OF assms(1,2) this] that show thesis by (auto simp: maps_anon_def)
qed

text \<open>A new address shares no leaf entry with an old one: its entry was zero.\<close>

lemma linked_ws_unique:
  assumes s: "space_ok W ps s" and g: "grown ps s t"
    and e: "set (entries (wsl (procs t ps))) = insert e (set (entries (wsl (procs s ps))))"
    and fresh: "\<not> is_pagetable e \<Longrightarrow> vmp_fetch_pte ps (wsle_vaddr e) t = Ok (Some a) \<and> SOFT_pages s a = 0"
  shows "ws_unique ps t"
proof -
  note S = space_okD [OF s]
  have old: "\<exists>b. vmp_fetch_pte ps (wsle_vaddr x) s = Ok (Some b) \<and> vmp_fetch_pte ps (wsle_vaddr x) t = Ok (Some b) \<and>
      SOFT_pages s b \<noteq> 0" if "x \<in> set (entries (wsl (procs s ps)))" "\<not> is_pagetable x" for x
    using grown_fetch [OF s g, of x] S(8) that by metis
  show ?thesis
    unfolding ws_unique_def e
  proof (intro ballI impI)
    fix x y assume x: "x \<in> insert e (set (entries (wsl (procs s ps))))" "\<not> is_pagetable x"
      and y: "y \<in> insert e (set (entries (wsl (procs s ps))))" "\<not> is_pagetable y"
      and eq: "vmp_fetch_pte ps (wsle_vaddr x) t = vmp_fetch_pte ps (wsle_vaddr y) t"
    consider "x = e" "y = e" | "x = e" "y \<noteq> e" | "x \<noteq> e" "y = e" | "x \<noteq> e" "y \<noteq> e" by blast
    then show "x = y"
    proof cases
      case 4
      then have m: "x \<in> set (entries (wsl (procs s ps)))" "y \<in> set (entries (wsl (procs s ps)))" using x y by auto
      have "vmp_fetch_pte ps (wsle_vaddr x) s = vmp_fetch_pte ps (wsle_vaddr y) s"
        using old [OF m(1) x(2)] old [OF m(2) y(2)] eq by force
      with S(12) m x(2) y(2) show ?thesis unfolding ws_unique_def by blast
    next
      case 2
      then show ?thesis using old [of y] fresh x y eq by force
    next
      case 3
      then show ?thesis using old [of x] fresh x y eq by force
    qed simp
  qed
qed

text \<open>The free page \<open>p\<close> becomes the target of entry \<open>i\<close> of table \<open>d\<close>, as a table of the next level or, below
  a leaf table, as a private page.\<close>

definition linked :: "nat \<Rightarrow> page_ptr \<Rightarrow> page_ptr \<Rightarrow> nat \<Rightarrow> bool \<Rightarrow> vmm \<Rightarrow> vmm \<Rightarrow> bool" where
  "linked ps p d i wr s t \<longleftrightarrow> p < SOFT_NPAGES \<and> use (mypages s p) = kPageUseFree \<and> i < 512 \<and>
     SOFT_pages s (pte_at d i) = 0 \<and>
     mypages t = (mypages s)(p := mypages t p, d := (mypages s d)\<lparr>refcnt := refcnt (mypages s d) + 1,
       nonzero_ptes := nonzero_ptes (mypages s d) + 1, nonswap_ptes := nonswap_ptes (mypages s d) + 1\<rparr>) \<and>
     process (mypages t p) = ps \<and> referent_pte (mypages t p) = pte_at d i \<and>
     (is_table (use (mypages t p)) \<or> use (mypages t p) = kPageUseAnonPrivate \<and> \<not> dirty (mypages t p) \<and>
        drumslot (mypages t p) = - 1) \<and>
     SOFT_pages t = (\<lambda>a. if a = pte_at d i then vmp_pte_hw_create (of_nat p) wr
       else if a div PGSIZE = p then 0 else SOFT_pages s a) \<and>
     SOFT_pages_base t = SOFT_pages_base s \<and> vmparam t = vmparam s \<and>
     vmp_pagefile_state t = vmp_pagefile_state s \<and> pml4 (procs t ps) = pml4 (procs s ps) \<and>
     pml4_page (procs t ps) = pml4_page (procs s ps) \<and> vad_tree (procs t ps) = vad_tree (procs s ps)"

lemma linked_page:
  assumes "linked ps p d i wr s t"
  shows "mypages t q = (if q = d then (mypages s d)\<lparr>refcnt := refcnt (mypages s d) + 1,
       nonzero_ptes := nonzero_ptes (mypages s d) + 1, nonswap_ptes := nonswap_ptes (mypages s d) + 1\<rparr>
     else if q = p then mypages t p else mypages s q)"
proof -
  have "mypages t = (mypages s)(p := mypages t p, d := (mypages s d)\<lparr>refcnt := refcnt (mypages s d) + 1,
       nonzero_ptes := nonzero_ptes (mypages s d) + 1, nonswap_ptes := nonswap_ptes (mypages s d) + 1\<rparr>)"
    using assms unfolding linked_def by blast
  then have "mypages t q = ((mypages s)(p := mypages t p, d := (mypages s d)\<lparr>refcnt := refcnt (mypages s d) + 1,
       nonzero_ptes := nonzero_ptes (mypages s d) + 1, nonswap_ptes := nonswap_ptes (mypages s d) + 1\<rparr>)) q"
    by (rule arg_cong)
  then show ?thesis by simp
qed

lemma linked_grown:
  assumes "linked ps p d i wr s t" and "table_at ps s l d"
  shows "grown ps s t" and "p \<noteq> d"
proof -
  note L = assms(1) [unfolded linked_def]
  show pd: "p \<noteq> d" using L table_not_free [OF assms(2)] by auto
  have d: "is_table (use (mypages s d))" by (rule table_atD(3) [OF assms(2)])
  note m = linked_page [OF assms(1)]
  have role: "same_role (mypages s q) (mypages t q)" if "use (mypages s q) \<noteq> kPageUseFree" for q
    using that L m [of q] by (auto simp: same_role_def split: if_splits)
  have same: "mypages t q = mypages s q" if "use (mypages s q) \<noteq> kPageUseFree" "\<not> is_table (use (mypages s q))" for q
    using that L d m [of q] by (auto split: if_splits)
  have mem: "SOFT_pages t a = SOFT_pages s a" if "use (mypages s (a div PGSIZE)) \<noteq> kPageUseFree"
    "SOFT_pages s a \<noteq> 0 \<or> \<not> is_table (use (mypages s (a div PGSIZE)))" for a
    using that L d by auto
  have "table_of ps s q \<longleftrightarrow> table_of ps t q" if "q \<noteq> p" for q
    using that m [of q] by (auto simp: table_of_def)
  moreover have "\<not> table_of ps s p" using L table_use(2) [of ps s p] by auto
  moreover have "use (mypages t p) \<noteq> kPageUseFree" using L by (auto simp: is_table_def)
  ultimately have "new_links ps s t"
    using L pd unfolding new_links_def by (auto split: if_splits)
  moreover have "newcomers ps s t"
    unfolding newcomers_def
  proof (intro allI impI)
    fix q assume "use (mypages s q) = kPageUseFree"
    moreover from this have "q \<noteq> d" using table_not_free [OF assms(2)] by auto
    ultimately show "use (mypages t q) = kPageUseFree \<or> is_table (use (mypages t q)) \<and> process (mypages t q) = ps \<or>
        unused_data ps t q"
      using L pd m [of q] by (cases "q = p") (auto simp: unused_data_def)
  qed
  ultimately show "grown ps s t" using role same mem L unfolding grown_def by blast
qed

lemma linked_entry:
  assumes "linked ps p d i wr s t" and "j < 512"
  shows "SOFT_pages t (pte_at q j) = (if q = d \<and> j = i then vmp_pte_hw_create (of_nat p) wr
      else if q = p then 0 else SOFT_pages s (pte_at q j))"
  using assms by (simp add: linked_def)

lemma linked_counts:
  assumes "linked ps p d i wr s t" and "table_at ps s l d" and "P (vmp_pte_hw_create (of_nat p) wr)" and "\<not> P 0"
  shows "live_ptes P d t = live_ptes P d s + 1" and "live_ptes P p t = 0"
    and "q \<noteq> d \<Longrightarrow> q \<noteq> p \<Longrightarrow> live_ptes P q t = live_ptes P q s"
proof -
  note E = linked_entry [OF assms(1)] and pd = linked_grown(2) [OF assms(1,2)]
  have i: "i < 512" "SOFT_pages s (pte_at d i) = 0" using assms(1) by (simp_all add: linked_def)
  have "\<forall>j<512. j \<noteq> i \<longrightarrow> SOFT_pages t (pte_at d j) = SOFT_pages s (pte_at d j)" using E pd by simp
  from live_ptes_write [OF i(1) this, of P] show "live_ptes P d t = live_ptes P d s + 1"
    using i E [OF i(1), of d] assms(3,4) by simp
  have "\<not> P (SOFT_pages t (pte_at p j))" if "j < 512" for j using E [OF that] pd assms(4) by simp
  then have "{j. j < 512 \<and> P (SOFT_pages t (pte_at p j))} = {}" by blast
  then show "live_ptes P p t = 0" unfolding live_ptes_def by (metis card.empty)
  show "live_ptes P q t = live_ptes P q s" if "q \<noteq> d" "q \<noteq> p"
    by (rule live_ptes_cong) (use that E in simp)
qed

text \<open>What the new page is: a wired table of the level below \<open>l\<close>, or a private page below a leaf table.\<close>

definition new_page :: "nat \<Rightarrow> bool \<Rightarrow> vm_page \<Rightarrow> bool" where
  "new_page l wr pg \<longleftrightarrow>
     (if l = Suc 0 then use pg = kPageUseAnonPrivate \<and> refcnt pg = 1 \<and> nonzero_ptes pg = 0 \<and> nonswap_ptes pg = 0
      else wr \<and> use pg = use_of_level (l - 1) \<and> nonzero_ptes pg = 1 \<and> nonswap_ptes pg = 1)"

lemma new_page_table:
  assumes "new_page l wr pg" and "0 < l" and "l \<le> VMP_TABLE_LEVELS"
  shows "is_table (use pg) \<longleftrightarrow> l \<noteq> Suc 0"
  using assms is_table_level [of "l - 1"] by (auto simp: new_page_def is_table_def)

lemma linkedD:
  assumes "linked ps p d i wr s t"
  shows "p < SOFT_NPAGES" and "i < 512" and "process (mypages t p) = ps" and "referent_pte (mypages t p) = pte_at d i"
    and "SOFT_pages s (pte_at d i) = 0" and "use (mypages s p) = kPageUseFree"
    and "pml4 (procs t ps) = pml4 (procs s ps)" and "pml4_page (procs t ps) = pml4_page (procs s ps)"
  using assms unfolding linked_def by blast+

lemma linked_table_at:
  assumes "linked ps p d i wr s t" and "table_at ps t k q" and "q \<noteq> p"
  shows "table_at ps s k q"
  using assms linked_page [OF assms(1), of q] by (auto simp: table_at_def split: if_splits)

lemma linked_dirs_ok:
  assumes s: "dirs_ok ps s" and L: "linked ps p d i wr s t" and d: "table_at ps s l d" and new: "new_page l wr (mypages t p)"
  shows "dirs_ok ps t"
  unfolding dirs_ok_def
proof (intro allI impI)
  note U = linkedD [OF L] and G = linked_grown [OF L d] and ent = linked_entry [OF L]
  fix k q j :: nat assume q: "table_at ps t (Suc (Suc k)) q" and j: "j < 512"
  show "SOFT_pages t (pte_at q j) = 0 \<or> (\<exists>p. table_at ps t (Suc k) p \<and> referent_pte (mypages t p) = pte_at q j \<and>
      SOFT_pages t (pte_at q j) = vmp_pte_hw_create (of_nat p) True)"
  proof (cases "q = p \<or> (q = d \<and> j = i)")
    case True
    have "l = Suc (Suc k)" if "q = d" using that q grown_table_at [OF G(1) d] table_at_unique by blast
    then have "table_at ps t (Suc k) p \<and> wr" if "q = d"
      using that new U(1,3) table_atD(5) [OF d] by (auto simp: table_at_def new_page_def)
    then show ?thesis using True ent [OF j, of q] G(2) U(4) by auto
  next
    case False
    then have v: "SOFT_pages t (pte_at q j) = SOFT_pages s (pte_at q j)" using ent [OF j, of q] by auto
    have "table_at ps s (Suc (Suc k)) q" using linked_table_at [OF L q] False by blast
    from s this j show ?thesis
    proof (cases rule: dirs_okE)
      case (table x)
      have "same_role (mypages s x) (mypages t x)"
        using G(1) table_not_free [OF table(1)] by (auto simp: grown_def)
      then show ?thesis using table v grown_table_at [OF G(1) table(1)] by (auto simp: same_role_def)
    qed (use False v in auto)
  qed
qed

lemma linked_leaves_ok:
  assumes s: "leaves_ok ps s" and L: "linked ps p d i wr s t" and d: "table_at ps s l d" and new: "new_page l wr (mypages t p)"
  shows "leaves_ok ps t"
  unfolding leaves_ok_def
proof (intro allI impI)
  note U = linkedD [OF L] and G = linked_grown [OF L d] and ent = linked_entry [OF L]
  fix q j :: nat assume q: "table_at ps t (Suc 0) q" and j: "j < 512"
  show "leaf_ok ps t (pte_at q j)"
  proof (cases "q = p \<or> (q = d \<and> j = i)")
    case True
    have "l = Suc 0" if "q = d" using that q grown_table_at [OF G(1) d] table_at_unique by blast
    then have "anon_at ps t (pte_at d i) p \<and> refcnt (mypages t p) = 1" if "q = d"
      using that new U by (auto simp: anon_at_def new_page_def)
    then show ?thesis using True ent [OF j, of q] G(2) by (auto simp: leaf_ok_def Let_def)
  next
    case False
    then have "leaf_ok ps s (pte_at q j)" using s linked_table_at [OF L q] j by (auto simp: leaves_ok_def)
    then show ?thesis by (rule grown_leaf_ok [OF G(1)]) (use False ent [OF j, of q] in auto)
  qed
qed

lemma linked_idle_clean:
  assumes s: "idle_clean s" and L: "linked ps p d i wr s t" and d: "table_at ps s l d" and new: "new_page l wr (mypages t p)"
  shows "idle_clean t"
  unfolding idle_clean_def
proof (intro allI impI)
  note G = linked_grown [OF L d]
  fix q assume q: "q < SOFT_NPAGES" "\<not> is_table (use (mypages t q))"
  have "q \<noteq> d" using q(2) table_atD(3) [OF grown_table_at [OF G(1) d]] by auto
  then show "nonzero_ptes (mypages t q) = 0 \<and> nonswap_ptes (mypages t q) = 0 \<and>
      (use (mypages t q) = kPageUseFree \<longrightarrow> referent_pte (mypages t q) = 0)"
    using q new new_page_table [OF new table_atD(4,5) [OF d]] s linked_page [OF L, of q]
    by (cases "q = p") (auto simp: idle_clean_def new_page_def)
qed

lemma linked_counted:
  assumes s: "counted W ps s" and L: "linked ps p d i wr s t" and d: "table_at ps s l d" and new: "new_page l wr (mypages t p)"
  shows "counted (W(p := 1)) ps t"
  unfolding counted_def
proof (intro allI impI)
  note G = linked_grown [OF L d] and C = linked_counts [OF L d]
  fix q assume q: "table_of ps t q"
  show "(W(p := 1)) q \<le> 16 \<and> nonzero_ptes (mypages t q) = of_nat (live_ptes (\<lambda>v. v \<noteq> 0) q t + (W(p := 1)) q) \<and>
    nonswap_ptes (mypages t q) = of_nat (live_ptes in_core q t + (W(p := 1)) q)"
  proof (cases "q = p")
    case True
    have "use (mypages t p) \<noteq> kPageUseAnonPrivate" using q True by (auto simp: table_of_def is_table_def)
    then show ?thesis
      using True new C(2) [of "\<lambda>v. v \<noteq> 0"] C(2) [of in_core] by (auto simp: new_page_def split: if_splits)
  next
    case False
    have "table_of ps s q" using q linked_table_at [OF L] False by (auto simp: table_of_level)
    then have "W q \<le> 16" "nonzero_ptes (mypages s q) = of_nat (live_ptes (\<lambda>v. v \<noteq> 0) q s + W q)"
      "nonswap_ptes (mypages s q) = of_nat (live_ptes in_core q s + W q)"
      using s by (auto simp: counted_def)
    then show ?thesis
      using False C [of "\<lambda>v. v \<noteq> 0"] C [of in_core] linked_page [OF L, of q] by (cases "q = d") auto
  qed
qed

lemma linked_backlinks_ok:
  assumes s: "backlinks_ok ps s" and L: "linked ps p d i wr s t" and d: "table_at ps s l d" and new: "new_page l wr (mypages t p)"
  shows "backlinks_ok ps t"
  unfolding backlinks_ok_def
proof (intro allI impI)
  note U = linkedD [OF L] and G = linked_grown [OF L d]
  fix q assume q: "q < SOFT_NPAGES" "use (mypages t q) = kPageUseAnonPrivate" "process (mypages t q) = ps"
  show "backlink_ok ps t q"
  proof (cases "q = p")
    case True
    then have l: "l = Suc 0" using new_page_table [OF new table_atD(4,5) [OF d]] q(2) by (simp add: is_table_def)
    then have "refcnt (mypages t p) = 1" using new by (simp add: new_page_def)
    then show ?thesis
      unfolding backlink_ok_def
      using True U l grown_table_at [OF G(1) d] linked_entry [OF L U(2), of d] q
      by (intro exI [of _ d] exI [of _ i]) (auto simp: anon_at_def)
  next
    case False
    have "q \<noteq> d" using q(2) table_atD(3) [OF grown_table_at [OF G(1) d]] by (auto simp: is_table_def)
    then have same: "mypages t q = mypages s q" using linked_page [OF L, of q] False by simp
    then have "backlink_ok ps s q" using s q by (simp add: backlinks_ok_def)
    then show ?thesis by (rule grown_backlink [OF G(1) _ same])
  qed
qed

lemma space_ok_linked:
  assumes s: "space_ok W ps s" and L: "linked ps p d i wr s t" and d: "table_at ps s l d"
    and new: "new_page l wr (mypages t p)"
    and t: "pfndb t" "tables_ok ps t" "wsl_counted (wsl (procs t ps))"
    and e: "set (entries (wsl (procs t ps))) = insert e (set (entries (wsl (procs s ps))))" "wsle_ok ps t e"
      "\<not> is_pagetable e \<Longrightarrow> vmp_fetch_pte ps (wsle_vaddr e) t = Ok (Some (pte_at d i))"
  shows "space_ok (W(p := 1)) ps t"
proof -
  note S = space_okD [OF s] and U = linkedD [OF L] and G = linked_grown [OF L d]
  have "root_ok ps t" using S(5) grown_table_at [OF G(1)] U(7,8) by (simp add: root_ok_def)
  moreover have "wsle_ok ps t x" if "x \<in> set (entries (wsl (procs t ps)))" for x
    using that e(1,2) S(8) grown_wsle_ok [OF s G(1) t(1)] by auto
  moreover have "ws_unique ps t" by (rule linked_ws_unique [OF s G(1) e(1)]) (use e(3) U(5) in auto)
  ultimately show ?thesis
    using t linked_dirs_ok [OF S(6) L d new] linked_leaves_ok [OF S(7) L d new] linked_idle_clean [OF S(3) L d new]
      linked_counted [OF S(9) L d new] linked_backlinks_ok [OF S(13) L d new]
    by (simp add: space_ok_def)
qed

end
