(* ===== verification/Wiring.thy ===== *)
theory Wiring
  imports Space_Growth
begin

text \<open>
  Wiring an entry in a consistent address space (\<^verbatim>\<open>vmp_wire_pte\<close>): the tables on the way are created where
  they are missing and pinned, the leaf entry is found, and releasing the wiring unpins them.
\<close>

section \<open>Wiring\<close>

lemma new_key:
  assumes s: "space_ok W ps s" and p: "p < SOFT_NPAGES" "use (mypages s p) = kPageUseFree"
    and e: "e \<in> set (entries (wsl (procs s ps)))"
  shows "wsle_vaddr e \<noteq> page_vaddr p s"
proof -
  note S = space_okD [OF s]
  have "wsle_ok ps s e" using S(8) e by blast
  then show ?thesis
  proof (cases "is_pagetable e")
    case True
    with \<open>wsle_ok ps s e\<close> obtain q where q: "table_of ps s q" "e = table_entry q s" by (auto simp: wsle_ok_def)
    then have "q \<noteq> p" "q < SOFT_NPAGES" using table_use [OF q(1)] p(2) by auto
    with q(2) page_vaddr_inj [OF S(1) _ p(1), of q] show ?thesis by (auto simp: table_entry_def)
  next
    case False
    with \<open>wsle_ok ps s e\<close> p(1) show ?thesis by (auto simp: wsle_ok_def direct_map_def)
  qed
qed

lemma new_table_ok:
  assumes s: "tables_ok ps s" "pfndb s" and t: "pfndb t" "SOFT_pages_base t = SOFT_pages_base s"
      "\<forall>q. q \<noteq> p \<longrightarrow> mypages t q = mypages s q"
    and w: "wsl_ok (wsl (procs t ps))" "wsl_queue (wsl (procs t ps)) = wsl_queue (wsl (procs s ps))"
      "set (entries (wsl (procs t ps))) = insert e (set (entries (wsl (procs s ps))))"
      "e \<notin> set (entries (wsl (procs s ps)))"
    and p: "table_of ps t p \<Longrightarrow> e = table_entry p t \<and> refcnt (mypages t p) = 2 \<and> nonswap_ptes (mypages t p) = 1"
  shows "tables_ok ps t"
proof -
  have sub: "set (wsl_queue (wsl (procs s ps))) \<subseteq> set (entries (wsl (procs s ps)))"
    using s(1) wsl_okD(3) by (auto simp: tables_ok_def)
  have "table_ok ps t q" if q: "table_of ps t q" for q
  proof (cases "q = p")
    case True
    then have "e = table_entry p t" "refcnt (mypages t p) = 2" "nonswap_ptes (mypages t p) = 1" using p q by auto
    then show ?thesis using True w(2-4) sub by (auto simp: table_ok_def locked_entries_def)
  next
    case False
    then have "table_ok ps s q" using s(1) q t(3) by (simp add: tables_ok_def table_of_def)
    moreover have "table_entry q t = table_entry q s" by (rule table_entry_cong) (use False t in auto)
    ultimately show ?thesis
      using False t(3) w(2,3) by (auto simp: table_ok_def page_is_root_table_def locked_entries_def split: if_splits)
  qed
  with s w t(2) show ?thesis by (simp add: tables_ok_def low_base_def)
qed

text \<open>\<open>t\<close> comes from \<open>s\<close> by taking the page \<open>p\<close> off the free queue, zeroed, with some new record.\<close>

definition taken :: "page_ptr \<Rightarrow> vmm \<Rightarrow> vmm \<Rightarrow> bool" where
  "taken p s t \<longleftrightarrow> p < SOFT_NPAGES \<and> use (mypages s p) = kPageUseFree \<and> pfndb t \<and>
     (\<forall>x. x \<noteq> p \<longrightarrow> mypages t x = mypages s x) \<and>
     SOFT_pages t = (\<lambda>a. if a div PGSIZE = p then 0 else SOFT_pages s a) \<and> procs t = procs s \<and>
     SOFT_pages_base t = SOFT_pages_base s \<and> vmparam t = vmparam s \<and> vmp_pagefile_state t = vmp_pagefile_state s"

lemma takenD:
  assumes "taken p s t"
  shows "p < SOFT_NPAGES" and "use (mypages s p) = kPageUseFree" and "pfndb t"
    and "\<forall>x. x \<noteq> p \<longrightarrow> mypages t x = mypages s x" and "procs t = procs s"
    and "SOFT_pages_base t = SOFT_pages_base s" and "vmparam t = vmparam s"
    and "vmp_pagefile_state t = vmp_pagefile_state s"
    and "SOFT_pages t = (\<lambda>a. if a div PGSIZE = p then 0 else SOFT_pages s a)"
  using assms by (simp_all add: taken_def)

lemma taken_page_update:
  "taken p s t \<Longrightarrow> same_place (mypages t p) (f (mypages t p)) \<Longrightarrow> taken p s (page_update p f t)"
  using pfndb_page_update [of t p f] by (simp add: taken_def)

lemma taken_not_table: "taken p s t \<Longrightarrow> table_at ps s l d \<Longrightarrow> p \<noteq> d"
  using table_not_free takenD(2) by blast

lemma plenty_alloc:
  assumes s: "space_ok W ps s" and k: "plenty (Suc k) ps s" and u: "u \<noteq> kPageUseFree"
  obtains p t where "vmp_page_alloc_locked u False s = Ok (Some p, t)" and "taken p s t" and "handed_out p u t"
proof -
  note S = space_okD [OF s]
  obtain p rest where free: "free_pgq s = p # rest"
    using k by (cases "free_pgq s") (auto simp: plenty_def Let_def)
  then have p: "p < SOFT_NPAGES" "use (mypages s p) = kPageUseFree"
    using free_queue_iff [OF S(1), of p] by simp_all
  obtain t where t: "vmp_page_alloc_locked u False s = Ok (Some p, t)" "pfndb t"
    "handed_out p u t" "\<forall>x. x \<noteq> p \<longrightarrow> mypages t x = mypages s x"
    "\<forall>a. a div PGSIZE \<noteq> p \<longrightarrow> SOFT_pages t a = SOFT_pages s a" "procs t = procs s"
    "SOFT_pages_base t = SOFT_pages_base s" "vmparam t = vmparam s"
    "vmp_pagefile_state t = vmp_pagefile_state s"
    by (rule alloc_free_ok [OF S(1,3) _ free u, of False]) (use plentyD(2) [OF k S(1)] in auto)
  have "SOFT_pages t = (\<lambda>a. if a div PGSIZE = p then 0 else SOFT_pages s a)"
    using t(3,5) by (auto simp: handed_out_def fun_eq_iff)
  then show thesis using that [OF t(1) _ t(3)] t p by (simp add: taken_def)
qed

lemma plenty_after_take:
  assumes "space_ok W ps s" and "plenty (Suc k) ps s" and "taken p s t"
  shows "plenty k ps t"
  by (rule plenty_taken [OF assms(2,1) takenD(3,7) [OF assms(3)], of p])
    (use assms(2) takenD(4,5) [OF assms(3)] in \<open>auto simp: plenty_def Let_def\<close>)

text \<open>A new table: the page as \<^verbatim>\<open>vmp_wire_pte\<close> prepares it.\<close>

definition table_page :: "nat \<Rightarrow> nat \<Rightarrow> paddr \<Rightarrow> vm_page \<Rightarrow> bool" where
  "table_page ps l pte pg \<longleftrightarrow> use pg = use_of_level l \<and> refcnt pg = 2 \<and> process pg = ps \<and>
     referent_pte pg = pte \<and> nonzero_ptes pg = 1 \<and> nonswap_ptes pg = 1"

definition new_table :: "nat \<Rightarrow> paddr \<Rightarrow> vm_page \<Rightarrow> vm_page" where
  "new_table ps pte pg = pg\<lparr>process := ps, nonzero_ptes := nonzero_ptes pg + 1,
     nonswap_ptes := nonswap_ptes pg + 1, referent_pte := pte\<rparr>"

lemma new_table_page:
  assumes s: "space_ok W ps s" and k: "plenty (Suc k) ps s" and l: "0 < l" "l \<le> VMP_TABLE_LEVELS"
  obtains p s1 s2 where "vmp_page_alloc_locked (use_of_level l) False s = Ok (Some p, s1)"
    and "vmp_page_retain_locked p s1 = Ok s2"
    and "taken p s (page_update p (new_table ps pte) s2)"
    and "table_page ps l pte (mypages (page_update p (new_table ps pte) s2) p)"
proof -
  have u: "use_of_level l \<noteq> kPageUseFree" "use_of_level l \<noteq> kPageUseDeleted"
    using is_table_level [OF l] by (auto simp: is_table_def)
  obtain p s1 where s1: "vmp_page_alloc_locked (use_of_level l) False s = Ok (Some p, s1)" "taken p s s1"
    "handed_out p (use_of_level l) s1"
    by (rule plenty_alloc [OF s k u(1)])
  note H = s1(3) [unfolded handed_out_def] and T = takenD [OF s1(2)]
  obtain s2 where s2: "vmp_page_retain_locked p s1 = Ok s2" "pfndb s2"
    "mypages s2 = (mypages s1)(p := bump_ref (mypages s1 p))" "rest_unchanged s1 s2"
    by (rule retain_ok [OF T(3,1)]) (use H u in simp_all)
  have "taken p s s2" using s1(2) s2(2-4) by (simp add: taken_def rest_unchanged_def)
  then have "taken p s (page_update p (new_table ps pte) s2)"
    by (rule taken_page_update) (simp add: same_place_def new_table_def)
  moreover have "table_page ps l pte (mypages (page_update p (new_table ps pte) s2) p)"
    using H s2(3) by (simp add: table_page_def new_table_def)
  ultimately show thesis using that s1(1) s2(1) by blast
qed

text \<open>The new table enters the working set as a locked entry.\<close>

lemma new_table_entered:
  assumes s: "space_ok W ps s" and t: "taken p s t" and k: "plenty k ps t" and p: "table_page ps l pte (mypages t p)"
  obtains w where "vmp_wsl_insert ps (page_vaddr p t) True True t = Ok (wsl_update_ps ps (\<lambda>_. w) t)"
    and "tables_ok ps (wsl_update_ps ps (\<lambda>_. w) t)" and "wsl_counted w"
    and "set (entries w) = insert (table_entry p t) (set (entries (wsl (procs s ps))))"
    and "nentries w \<le> wsl_max w"
    and "unat (wsl_max w) \<le> unat (wsl_max (wsl (procs s ps))) + unat (ws_page_expansion_count (vmparam s))"
proof -
  note S = space_okD [OF s] and T = takenD [OF t]
  have pv: "page_vaddr p t = page_vaddr p s"
    using page_vaddr_page [OF T(3,1)] page_vaddr_page [OF S(1) T(1)] T(6) by simp
  have low: "low_vaddr (page_vaddr p t)" using page_vaddr_low [OF S(1,11) T(1)] pv by simp
  have none: "vmp_wsl_find ps (page_vaddr p t) t = None"
    unfolding vmp_wsl_find_def T(5) wsl_find_None_iff [OF S(10) low] using new_key [OF s T(1,2)] pv by simp
  let ?e = "table_entry p t"
  obtain w where w: "vmp_wsl_insert ps (page_vaddr p t) True True t = Ok (wsl_update_ps ps (\<lambda>_. w) t)"
    "wsl_ok w" "wsl_counted w" "set (entries w) = insert ?e (set (entries (wsl (procs s ps))))"
    "wsl_queue w = wsl_queue (wsl (procs s ps))" "nentries w \<le> wsl_max w"
    "unat (wsl_max w) \<le> unat (wsl_max (wsl (procs s ps))) + unat (ws_page_expansion_count (vmparam s))"
    "?e \<notin> set (entries (wsl (procs s ps)))"
    by (rule wsl_insert_plenty [OF T(3) _ _ k none low, of True True])
      (use S(4,10) T in \<open>simp_all add: table_entry_def\<close>)
  let ?t = "wsl_update_ps ps (\<lambda>_. w) t"
  have te: "table_entry p ?t = ?e" by (rule table_entry_cong) simp_all
  have "tables_ok ps ?t"
    by (rule new_table_ok [OF S(2,1), of ?t p]) (use w T p te in \<open>simp_all add: table_page_def\<close>)
  then show thesis using that [OF w(1) _ w(3,4,6,7)] by blast
qed

lemma wire_zero_ok:
  assumes s: "space_ok W ps s" and k: "plenty (Suc k) ps s" and d: "table_at ps s (Suc (Suc l)) d"
    and i: "i < 512" and z: "SOFT_pages s (pte_at d i) = 0"
  obtains p t where "wire_zero ps (Suc (Suc l)) d (pte_at d i) s = Ok (p, t)"
    and "space_ok (W(p := 1)) ps t" and "plenty k ps t" and "table_at ps t (Suc l) p"
    and "linked ps p d i True s t"
proof -
  note S = space_okD [OF s] and D = table_atD [OF d]
  let ?a = "pte_at d i"
  obtain p s1 s2 where new: "vmp_page_alloc_locked (use_of_level (Suc l)) False s = Ok (Some p, s1)"
    "vmp_page_retain_locked p s1 = Ok s2" "taken p s (page_update p (new_table ps ?a) s2)"
    "table_page ps (Suc l) ?a (mypages (page_update p (new_table ps ?a) s2) p)"
    by (rule new_table_page [OF s k, of "Suc l" ?a]) (use D(5) in simp_all)
  define s3 where "s3 = page_update p (new_table ps ?a) s2"
  have s3_code: "page_update p (\<lambda>pg. pg\<lparr>referent_pte := ?a\<rparr>) (pin_counts p
      (page_update p (\<lambda>pg. pg\<lparr>process := ps\<rparr>) s2)) = s3"
    by (simp add: s3_def new_table_def page_update_def pin_counts_def)
  have tk: "taken p s s3" and tp: "table_page ps (Suc l) ?a (mypages s3 p)" using new(3,4) by (simp_all add: s3_def)
  note T = takenD [OF tk] and pd = taken_not_table [OF tk d] and P = tp [unfolded table_page_def]
  obtain w where w: "vmp_wsl_insert ps (page_vaddr p s3) True True s3 = Ok (wsl_update_ps ps (\<lambda>_. w) s3)"
    "tables_ok ps (wsl_update_ps ps (\<lambda>_. w) s3)" "wsl_counted w"
    "set (entries w) = insert (table_entry p s3) (set (entries (wsl (procs s ps))))" "nentries w \<le> wsl_max w"
    "unat (wsl_max w) \<le> unat (wsl_max (wsl (procs s ps))) + unat (ws_page_expansion_count (vmparam s))"
    by (rule new_table_entered [OF s tk plenty_after_take [OF s k tk] tp])
  let ?s4 = "wsl_update_ps ps (\<lambda>_. w) s3"
  have d4: "table_of ps ?s4 d" "mypages s3 d = mypages s d" using D(2) T(4) pd by (auto simp: table_of_def)
  obtain s5 where s5: "vmp_pagetable_page_nonswap_pte_created ps d True ?s4 = Ok s5" "pfndb s5" "tables_ok ps s5"
    "tables_frame ps ?s4 s5"
    "mypages s5 = (mypages ?s4)(d := (mypages ?s4 d)\<lparr>refcnt := refcnt (mypages ?s4 d) + 1,
        nonzero_ptes := nonzero_ptes (mypages ?s4 d) + 1, nonswap_ptes := nonswap_ptes (mypages ?s4 d) + 1\<rparr>)"
    by (rule nonswap_created_ok [OF _ w(2) d4(1), of True])
      (use T(3) counted_bounds(3) [OF S(9) D(2)] d4(2) in simp_all)
  note F = tables_frameD [OF s5(4)]
  let ?t = "write_pte ?a (vmp_pte_hw_create (of_nat p) True) s5"
  have Pt: "mypages ?t p = mypages s3 p" using s5(5) pd by simp
  have code: "wire_zero ps (Suc (Suc l)) d ?a s = Ok (p, ?t)"
    using new(1,2) w(1) s5(1) s3_code pfndb_pfn [OF s5(2) T(1)]
    by (simp add: wire_zero_def Let_def vmp_md_setup_table_pointers_def)
  have link: "linked ps p d i True s ?t"
    unfolding linked_def
  proof (intro conjI)
    show "mypages ?t = (mypages s)(p := mypages ?t p, d := (mypages s d)\<lparr>refcnt := refcnt (mypages s d) + 1,
       nonzero_ptes := nonzero_ptes (mypages s d) + 1, nonswap_ptes := nonswap_ptes (mypages s d) + 1\<rparr>)"
      using s5(5) T(4) pd d4(2) by (auto simp: fun_eq_iff)
    show "is_table (use (mypages ?t p)) \<or> use (mypages ?t p) = kPageUseAnonPrivate \<and> \<not> dirty (mypages ?t p) \<and>
        drumslot (mypages ?t p) = - 1"
      using Pt P D(5) is_table_level [of "Suc l"] by simp
  qed (use i z P Pt T F in \<open>simp_all add: fun_eq_iff\<close>)
  have at: "table_at ps ?t (Suc l) p" using Pt P T(1) D(5) by (simp add: table_at_def)
  have ent: "set (entries (wsl (procs ?t ps))) = insert (table_entry p ?t) (set (entries (wsl (procs s ps))))"
    using F(2,4) w(4) Pt table_entry_cong [of s3 p ?t] by simp
  have "space_ok (W(p := 1)) ps ?t"
  proof (rule space_ok_linked [OF s link d _ _ _ _ ent])
    show "new_page (Suc (Suc l)) True (mypages ?t p)" using Pt P by (simp add: new_page_def)
    have "\<not> page_is_root_table p ?t"
      using use_of_level_inj [of "Suc l" VMP_TABLE_LEVELS] at D(5) by (simp add: page_is_root_table_def table_at_def)
    then show "wsle_ok ps ?t (table_entry p ?t)" using table_atD(2) [OF at] by (auto simp: wsle_ok_def table_entry_def)
  qed (use s5(2,3) F(4,5) w(3) in \<open>simp_all add: wsl_counted_def table_entry_def\<close>)
  moreover have "plenty k ps ?t"
    by (rule plenty_taken [OF k s, of _ p]) (use s5(2,5) F w(5,6) T d4(2) D(2) in auto)
  ultimately show thesis using that code at link by blast
qed

text \<open>The tables on the way to an address: \<open>P j\<close> is the table of level \<open>j + 1\<close>.\<close>

definition table_path :: "nat \<Rightarrow> vmm \<Rightarrow> vaddr \<Rightarrow> nat \<Rightarrow> (nat \<Rightarrow> page_ptr) \<Rightarrow> bool" where
  "table_path ps s v l P \<longleftrightarrow> (\<forall>j \<le> l. table_at ps s (Suc j) (P j)) \<and>
     (\<forall>j < l. SOFT_pages s (pte_at (P (Suc j)) (vmp_addr_unpack v ! Suc (Suc j))) =
        vmp_pte_hw_create (of_nat (P j)) True)"

lemma plenty_frame:
  assumes k: "plenty k ps s" and s: "space_ok W ps s" and t: "pfndb t" and fr: "tables_frame ps s t"
    and role: "\<forall>q. same_role (mypages s q) (mypages t q)"
    and same: "\<forall>q. \<not> table_of ps s q \<longrightarrow> mypages t q = mypages s q"
  shows "plenty k ps t"
proof -
  note S = space_okD [OF s]
  have "length (free_pgq t) = length (free_pgq s)"
    using free_pgq_length [OF S(1)] free_pgq_length [OF t] role by (simp add: same_role_def)
  moreover have "spare_pages s \<subseteq> spare_pages t"
  proof
    fix q assume q: "q \<in> spare_pages s"
    then have "\<not> table_of ps s q" using table_not_spare [OF S(2)] by blast
    then show "q \<in> spare_pages t" using q same by (simp add: spare_pages_def)
  qed
  then have "card (spare_pages s) \<le> card (spare_pages t)" by (rule card_mono [rotated]) (simp add: spare_pages_def)
  then have "length (free_pgq s) + length (standby_pgq s) \<le> length (free_pgq t) + length (standby_pgq t)"
    unfolding spare_pages_card [OF S(1)] spare_pages_card [OF t] .
  ultimately show ?thesis using k tables_frameD [OF fr] by (simp add: plenty_def Let_def)
qed

text \<open>\<open>t\<close> differs from \<open>s\<close> in counters of tables, and in what of the working set follows from them.\<close>

definition counters_only :: "nat \<Rightarrow> vmm \<Rightarrow> vmm \<Rightarrow> bool" where
  "counters_only ps s t \<longleftrightarrow> tables_frame ps s t \<and> (\<forall>q. same_role (mypages s q) (mypages t q)) \<and>
     (\<forall>q. \<not> table_of ps s q \<longrightarrow> mypages t q = mypages s q)"

lemma counters_onlyD:
  assumes "counters_only ps s t"
  shows "tables_frame ps s t" and "\<forall>q. same_role (mypages s q) (mypages t q)"
    and "\<not> table_of ps s q \<Longrightarrow> mypages t q = mypages s q" and "SOFT_pages t = SOFT_pages s"
  using assms tables_frameD(1) by (auto simp: counters_only_def)

lemma counters_only_refl [simp]: "counters_only ps s s"
  by (simp add: counters_only_def same_role_def)

lemma counters_only_trans:
  assumes st: "counters_only ps s t" and tu: "counters_only ps t u"
  shows "counters_only ps s u"
  unfolding counters_only_def
proof (intro conjI allI impI)
  show "tables_frame ps s u" by (rule tables_frame_trans [OF counters_onlyD(1) [OF st] counters_onlyD(1) [OF tu]])
  show "same_role (mypages s q) (mypages u q)" for q
    using counters_onlyD(2) [OF st] counters_onlyD(2) [OF tu] by (simp add: same_role_def)
  show "mypages u q = mypages s q" if "\<not> table_of ps s q" for q
    using that counters_onlyD(3) [OF st, of q] counters_onlyD(3) [OF tu, of q] role_table_of [OF counters_onlyD(2) [OF st]]
    by simp
qed

lemma counters_only_update:
  assumes "tables_frame ps s t" and "table_of ps s p" and "mypages t = (mypages s)(p := pg)" and "same_role (mypages s p) pg"
  shows "counters_only ps s t"
  using assms by (auto simp: counters_only_def same_role_def)

lemma wire_valid_ok:
  assumes s: "space_ok W ps s" and p: "table_of ps s p" "W p < 16"
  obtains t where "wire_valid ps (vmp_pte_hw_create (of_nat p) True) s = Ok (p, t)"
    and "space_ok (W(p := W p + 1)) ps t" and "counters_only ps s t" and "grown ps s t"
proof -
  obtain t where t: "vmp_pagetable_page_nonswap_pte_created ps p True s = Ok t"
    "space_ok (W(p := W p + 1)) ps t" "tables_frame ps s t"
    "mypages t = (mypages s)(p := (mypages s p)\<lparr>refcnt := refcnt (mypages s p) + 1,
        nonzero_ptes := nonzero_ptes (mypages s p) + 1, nonswap_ptes := nonswap_ptes (mypages s p) + 1\<rparr>)"
    by (rule pin_ok [OF s p])
  have "wire_valid ps (vmp_pte_hw_create (of_nat p) True) s = Ok (p, t)"
    using t(1) table_use(1) [OF p(1)] by (simp add: wire_valid_def)
  moreover have "grown ps s t"
    by (rule grown_table_counters [OF t(3) p(1) t(4)]) (simp add: same_role_def)
  moreover have "counters_only ps s t"
    by (rule counters_only_update [OF t(3) p(1) t(4)]) (simp add: same_role_def)
  ultimately show thesis using that t(2) by blast
qed

lemma wire_level_step:
  assumes "wire_entry ps (Suc (Suc l)) d (table + PTE_SIZE * (vmp_addr_unpack v ! Suc (Suc l))) s = Ok (p, t)"
    and "load_pte (table + PTE_SIZE * (vmp_addr_unpack v ! Suc (Suc l))) t = Ok x"
  shows "wire_level ps v (Suc (Suc l)) d table pages s =
    wire_level ps v (Suc l) p (vmp_pte_hw_paddr x) (pages[l := Some p]) t"
  using assms by (subst wire_level.simps) (simp del: wire_level.simps)

text \<open>One level of the walk: the table below the entry is present and pinned afterwards. A present table
  needs no memory.\<close>

lemma wire_entry_present:
  assumes s: "space_ok W ps s" and d: "table_at ps s (Suc (Suc l)) d"
    and W: "\<forall>m q. m \<le> Suc l \<longrightarrow> table_at ps s m q \<longrightarrow> W q = 0"
    and f: "SOFT_pages s (pte_at d (vmp_addr_unpack v ! Suc (Suc l))) \<noteq> 0"
  obtains p t where "wire_entry ps (Suc (Suc l)) d (pte_at d (vmp_addr_unpack v ! Suc (Suc l))) s = Ok (p, t)"
    and "space_ok (W(p := 1)) ps t" and "counters_only ps s t" and "grown ps s t" and "table_at ps t (Suc l) p"
    and "SOFT_pages t (pte_at d (vmp_addr_unpack v ! Suc (Suc l))) = vmp_pte_hw_create (of_nat p) True"
    and "\<forall>m q. m \<le> l \<longrightarrow> table_at ps t m q \<longrightarrow> (W(p := 1)) q = 0"
    and "fetch_level (Suc l) (p * PGSIZE) v t = fetch_level (Suc (Suc l)) (d * PGSIZE) v s"
proof -
  let ?i = "vmp_addr_unpack v ! Suc (Suc l)"
  note S = space_okD [OF s] and D = table_atD [OF d]
  have i: "?i < 512" using D(5) by (intro unpack_less) simp_all
  from S(6) d show thesis
  proof (cases rule: fetch_step [where v = v])
    case (some p)
    have Wp: "W p = 0" using W some(1) by auto
    obtain t where w: "wire_valid ps (vmp_pte_hw_create (of_nat p) True) s = Ok (p, t)"
      "space_ok (W(p := W p + 1)) ps t" "counters_only ps s t" "grown ps s t"
      by (rule wire_valid_ok [OF s table_atD(2) [OF some(1)]]) (use Wp in simp_all)
    note C = counters_onlyD [OF w(3)]
    have "wire_entry ps (Suc (Suc l)) d (pte_at d ?i) s = Ok (p, t)"
      using w(1) some(2) D(1) i by (simp add: wire_entry_def vmp_pte_characterise_def)
    moreover have "\<forall>m q. m \<le> l \<longrightarrow> table_at ps t m q \<longrightarrow> (W(p := 1)) q = 0"
      using W table_at_unique [OF some(1)] role_table_at [OF C(2)] by (metis fun_upd_other le_SucI not_less_eq_eq)
    ultimately show thesis
      using that [of p t] w(2-4) Wp some role_table_at [OF C(2)] C(4) fetch_level_cong [OF C(4)] by simp
  qed (use f in simp)
qed

lemma wire_entry_ok:
  assumes s: "space_ok W ps s" and d: "table_at ps s (Suc (Suc l)) d"
    and W: "\<forall>m q. m \<le> Suc l \<longrightarrow> table_at ps s m q \<longrightarrow> W q = 0" and k: "plenty (Suc k) ps s"
  obtains p t where "wire_entry ps (Suc (Suc l)) d (pte_at d (vmp_addr_unpack v ! Suc (Suc l))) s = Ok (p, t)"
    and "space_ok (W(p := 1)) ps t" and "plenty k ps t" and "grown ps s t" and "table_at ps t (Suc l) p"
    and "SOFT_pages t (pte_at d (vmp_addr_unpack v ! Suc (Suc l))) = vmp_pte_hw_create (of_nat p) True"
    and "\<forall>m q. m \<le> l \<longrightarrow> table_at ps t m q \<longrightarrow> (W(p := 1)) q = 0"
    and "SOFT_pages s (pte_at d (vmp_addr_unpack v ! Suc (Suc l))) \<noteq> 0 \<longrightarrow>
      fetch_level (Suc l) (p * PGSIZE) v t = fetch_level (Suc (Suc l)) (d * PGSIZE) v s"
    and "SOFT_pages s (pte_at d (vmp_addr_unpack v ! Suc (Suc l))) = 0 \<longrightarrow> (\<forall>j < 512. SOFT_pages t (pte_at p j) = 0)"
    and "\<forall>q. table_of ps t q \<longrightarrow> table_of ps s q \<or> q = p"
proof (cases "SOFT_pages s (pte_at d (vmp_addr_unpack v ! Suc (Suc l))) = 0")
  case True
  let ?i = "vmp_addr_unpack v ! Suc (Suc l)"
  note D = table_atD [OF d]
  have i: "?i < 512" using D(5) by (intro unpack_less) simp_all
  obtain p t where w: "wire_zero ps (Suc (Suc l)) d (pte_at d ?i) s = Ok (p, t)"
    "space_ok (W(p := 1)) ps t" "plenty k ps t" "table_at ps t (Suc l) p" "linked ps p d ?i True s t"
    by (rule wire_zero_ok [OF s k d i True])
  have "q \<noteq> p" if "table_at ps t m q" "m \<le> l" for m q using that table_at_unique [OF w(4)] by force
  then have "\<forall>m q. m \<le> l \<longrightarrow> table_at ps t m q \<longrightarrow> (W(p := 1)) q = 0"
    using linked_table_at [OF w(5)] W by (metis fun_upd_other le_SucI)
  moreover have "wire_entry ps (Suc (Suc l)) d (pte_at d ?i) s = Ok (p, t)"
    using w(1) True D(1) i by (simp add: wire_entry_def vmp_pte_characterise_def)
  moreover have "\<forall>q. table_of ps t q \<longrightarrow> table_of ps s q \<or> q = p"
    using linked_table_at [OF w(5)] unfolding table_of_level by blast
  ultimately show thesis
    using that w(2-4) linked_grown [OF w(5) d] linked_entry [OF w(5) i, of d] True
      linked_entry [OF w(5), of _ p] by simp
next
  case False
  obtain p t where w: "wire_entry ps (Suc (Suc l)) d (pte_at d (vmp_addr_unpack v ! Suc (Suc l))) s = Ok (p, t)"
    "space_ok (W(p := 1)) ps t" "counters_only ps s t" "grown ps s t" "table_at ps t (Suc l) p"
    "SOFT_pages t (pte_at d (vmp_addr_unpack v ! Suc (Suc l))) = vmp_pte_hw_create (of_nat p) True"
    "\<forall>m q. m \<le> l \<longrightarrow> table_at ps t m q \<longrightarrow> (W(p := 1)) q = 0"
    "fetch_level (Suc l) (p * PGSIZE) v t = fetch_level (Suc (Suc l)) (d * PGSIZE) v s"
    by (rule wire_entry_present [OF s d W False])
  note C = counters_onlyD [OF w(3)]
  have "plenty k ps t"
    using plenty_frame [OF k s space_okD(1) [OF w(2)] C(1,2)] C(3) plenty_mono by force
  then show thesis using that [of p t] w False role_table_of [OF C(2)] by simp
qed

text \<open>What a step adds to the result of the levels below.\<close>

lemma wire_level_Suc:
  assumes e: "wire_entry ps (Suc (Suc l)) d (pte_at d (vmp_addr_unpack v ! Suc (Suc l))) s = Ok (p, t1)"
      "SOFT_pages t1 (pte_at d (vmp_addr_unpack v ! Suc (Suc l))) = vmp_pte_hw_create (of_nat p) True"
      "table_at ps t1 (Suc l) p" "table_at ps t1 (Suc (Suc l)) d"
    and r: "wire_level ps v (Suc l) p (p * PGSIZE) (pages[l := Some p]) t1 = Ok (st, t)" "grown ps t1 t"
      "table_path ps t v l P" "P l = p"
  shows "wire_level ps v (Suc (Suc l)) d (d * PGSIZE) pages s = Ok (st, t)"
    and "table_path ps t v (Suc l) (P(Suc l := d))"
proof -
  let ?i = "vmp_addr_unpack v ! Suc (Suc l)"
  note D = table_atD [OF e(4)]
  have i: "?i < 512" using D(5) by (intro unpack_less) simp_all
  have "d * PGSIZE + PTE_SIZE * ?i = pte_at d ?i" by (simp add: pte_at_def)
  then show "wire_level ps v (Suc (Suc l)) d (d * PGSIZE) pages s = Ok (st, t)"
    using wire_level_step [of ps l d "d * PGSIZE" v s p t1] e(1,2) D(1) i r(1) table_atD(1) [OF e(3)]
    by (simp del: wire_level.simps)
  have "SOFT_pages t (pte_at d ?i) = vmp_pte_hw_create (of_nat p) True"
    using grown_entry [OF r(2) e(4) i] e(2) valid_nonzero [OF hw_create_valid, of "of_nat p" True] by simp
  then show "table_path ps t v (Suc l) (P(Suc l := d))"
    using r(3,4) grown_table_at [OF r(2) e(4)] by (auto simp: table_path_def le_Suc_eq less_Suc_eq)
qed

lemma pins_Suc:
  assumes "P l = p"
  shows "(\<lambda>q. if \<exists>j < l. q = P j then 1 else (W(p := 1)) q) = (\<lambda>q. if \<exists>j < Suc l. q = (P(Suc l := d)) j then 1 else W q)"
proof -
  have "(\<exists>j < Suc l. q = (P(Suc l := d)) j) \<longleftrightarrow> (\<exists>j < l. q = P j) \<or> q = p" for q
    using assms by (metis fun_upd_other less_Suc_eq less_irrefl_nat)
  then show ?thesis by (simp add: fun_eq_iff) blast
qed

lemma wired_pages_Suc:
  assumes "P l = p" and "Suc l \<le> length pages"
  shows "map (\<lambda>j. if j < l then Some (P j) else pages[l := Some p] ! j) [0..<length pages] =
    map (\<lambda>j. if j < Suc l then Some ((P(Suc l := d)) j) else pages ! j) [0..<length pages]"
  using assms by (auto simp: less_Suc_eq nth_list_update)

lemma fetch_zero_table:
  assumes "\<forall>j < 512. SOFT_pages t (pte_at p j) = 0" and "p < SOFT_NPAGES" and "Suc (Suc l) \<le> VMP_TABLE_LEVELS"
  shows "fetch_level (Suc (Suc l)) (p * PGSIZE) v t = Ok None"
proof -
  have "vmp_addr_unpack v ! Suc (Suc l) < 512" using assms(3) by (intro unpack_less) simp_all
  moreover have "p * PGSIZE + PTE_SIZE * (vmp_addr_unpack v ! Suc (Suc l)) = pte_at p (vmp_addr_unpack v ! Suc (Suc l))"
    by (simp add: pte_at_def)
  ultimately show ?thesis using assms by (simp add: Let_def vmp_pte_characterise_def)
qed

text \<open>All levels below \<open>d\<close>, first when every table is there.\<close>

lemma wire_level_present:
  assumes "space_ok W ps s" and "table_at ps s (Suc l) d"
    and "\<forall>m q. m \<le> l \<longrightarrow> table_at ps s m q \<longrightarrow> W q = 0" and "l \<le> length pages"
    and "fetch_level (Suc l) (d * PGSIZE) v s \<noteq> Ok None"
  obtains st t P where "wire_level ps v (Suc l) d (d * PGSIZE) pages s = Ok (st, t)"
    and "space_ok (\<lambda>q. if \<exists>j < l. q = P j then 1 else W q) ps t" and "counters_only ps s t" and "grown ps s t"
    and "table_path ps t v l P" and "P l = d"
    and "st = \<lparr>ws_ps = ps, ws_pte = pte_at (P 0) (vmp_addr_unpack v ! 1),
      ws_pages = map (\<lambda>j. if j < l then Some (P j) else pages ! j) [0..<length pages]\<rparr>"
  using assms
proof (induction l arbitrary: d pages s W thesis)
  case 0
  show ?case
    by (rule "0.prems"(1) [of "\<lparr>ws_ps = ps, ws_pte = pte_at d (vmp_addr_unpack v ! 1), ws_pages = pages\<rparr>" s "\<lambda>_. d"])
      (use "0.prems" in \<open>auto simp: table_path_def pte_at_def map_nth\<close>)
next
  case (Suc l)
  note s = Suc.prems(2) and d = Suc.prems(3) and W = Suc.prems(4)
  have f: "SOFT_pages s (pte_at d (vmp_addr_unpack v ! Suc (Suc l))) \<noteq> 0"
    using space_okD(6) [OF s] d by (cases rule: fetch_step [where v = v]) (use Suc.prems(6) in auto)
  obtain p t1 where e: "wire_entry ps (Suc (Suc l)) d (pte_at d (vmp_addr_unpack v ! Suc (Suc l))) s = Ok (p, t1)"
    "space_ok (W(p := 1)) ps t1" "counters_only ps s t1" "grown ps s t1" "table_at ps t1 (Suc l) p"
    "SOFT_pages t1 (pte_at d (vmp_addr_unpack v ! Suc (Suc l))) = vmp_pte_hw_create (of_nat p) True"
    "\<forall>m q. m \<le> l \<longrightarrow> table_at ps t1 m q \<longrightarrow> (W(p := 1)) q = 0"
    "fetch_level (Suc l) (p * PGSIZE) v t1 = fetch_level (Suc (Suc l)) (d * PGSIZE) v s"
    by (rule wire_entry_present [OF s d W f])
  have pre: "l \<le> length (pages[l := Some p])" "fetch_level (Suc l) (p * PGSIZE) v t1 \<noteq> Ok None"
    using Suc.prems(5,6) e(8) by (simp_all del: fetch_level.simps)
  obtain st t P where r: "wire_level ps v (Suc l) p (p * PGSIZE) (pages[l := Some p]) t1 = Ok (st, t)"
    "space_ok (\<lambda>q. if \<exists>j < l. q = P j then 1 else (W(p := 1)) q) ps t" "counters_only ps t1 t" "grown ps t1 t"
    "table_path ps t v l P" "P l = p"
    "st = \<lparr>ws_ps = ps, ws_pte = pte_at (P 0) (vmp_addr_unpack v ! 1),
      ws_pages = map (\<lambda>j. if j < l then Some (P j) else pages[l := Some p] ! j) [0..<length (pages[l := Some p])]\<rparr>"
    by (rule Suc.IH [OF _ e(2,5,7) pre])
  note step = wire_level_Suc [OF e(1,6,5) grown_table_at [OF e(4) d] r(1,4-6)]
  show ?case
    using Suc.prems(1) [OF step(1) _ counters_only_trans [OF e(3) r(3)] grown_trans [OF e(4) r(4)] step(2)] r(2,7)
      pins_Suc [where P = P, OF r(6), of W d] wired_pages_Suc [where P = P and d = d, OF r(6) Suc.prems(5)] by simp
qed

lemma wire_level_ok:
  assumes "space_ok W ps s" and "table_at ps s (Suc l) d" and "plenty (k + l) ps s"
    and "\<forall>m q. m \<le> l \<longrightarrow> table_at ps s m q \<longrightarrow> W q = 0" and "l \<le> length pages"
  obtains st t P where "wire_level ps v (Suc l) d (d * PGSIZE) pages s = Ok (st, t)"
    and "space_ok (\<lambda>q. if \<exists>j < l. q = P j then 1 else W q) ps t" and "grown ps s t" and "plenty k ps t"
    and "table_path ps t v l P" and "P l = d"
    and "st = \<lparr>ws_ps = ps, ws_pte = pte_at (P 0) (vmp_addr_unpack v ! 1),
      ws_pages = map (\<lambda>j. if j < l then Some (P j) else pages ! j) [0..<length pages]\<rparr>"
    and "fetch_level (Suc l) (d * PGSIZE) v s = Ok None \<longrightarrow> SOFT_pages t (pte_at (P 0) (vmp_addr_unpack v ! 1)) = 0"
    and "\<forall>q. table_of ps t q \<longrightarrow> table_of ps s q \<or> (\<exists>j \<le> l. q = P j)"
  using assms
proof (induction l arbitrary: d pages s W thesis)
  case 0
  show ?case
    by (rule "0.prems"(1) [of "\<lparr>ws_ps = ps, ws_pte = pte_at d (vmp_addr_unpack v ! 1), ws_pages = pages\<rparr>" s "\<lambda>_. d"])
      (use "0.prems" in \<open>auto simp: table_path_def pte_at_def map_nth\<close>)
next
  case (Suc l)
  let ?i = "vmp_addr_unpack v ! Suc (Suc l)"
  note s = Suc.prems(2) and d = Suc.prems(3) and W = Suc.prems(5)
  have k: "plenty (Suc (k + l)) ps s" using Suc.prems(4) by simp
  obtain p t1 where e: "wire_entry ps (Suc (Suc l)) d (pte_at d ?i) s = Ok (p, t1)"
    "space_ok (W(p := 1)) ps t1" "plenty (k + l) ps t1" "grown ps s t1" "table_at ps t1 (Suc l) p"
    "SOFT_pages t1 (pte_at d ?i) = vmp_pte_hw_create (of_nat p) True"
    "\<forall>m q. m \<le> l \<longrightarrow> table_at ps t1 m q \<longrightarrow> (W(p := 1)) q = 0"
    "SOFT_pages s (pte_at d ?i) \<noteq> 0 \<longrightarrow>
      fetch_level (Suc l) (p * PGSIZE) v t1 = fetch_level (Suc (Suc l)) (d * PGSIZE) v s"
    "SOFT_pages s (pte_at d ?i) = 0 \<longrightarrow> (\<forall>j < 512. SOFT_pages t1 (pte_at p j) = 0)"
    "\<forall>q. table_of ps t1 q \<longrightarrow> table_of ps s q \<or> q = p"
    by (rule wire_entry_ok [OF s d W k])
  have len: "l \<le> length (pages[l := Some p])" using Suc.prems(6) by simp
  obtain st t P where r: "wire_level ps v (Suc l) p (p * PGSIZE) (pages[l := Some p]) t1 = Ok (st, t)"
    "space_ok (\<lambda>q. if \<exists>j < l. q = P j then 1 else (W(p := 1)) q) ps t" "grown ps t1 t" "plenty k ps t"
    "table_path ps t v l P" "P l = p"
    "st = \<lparr>ws_ps = ps, ws_pte = pte_at (P 0) (vmp_addr_unpack v ! 1),
      ws_pages = map (\<lambda>j. if j < l then Some (P j) else pages[l := Some p] ! j) [0..<length (pages[l := Some p])]\<rparr>"
    "fetch_level (Suc l) (p * PGSIZE) v t1 = Ok None \<longrightarrow> SOFT_pages t (pte_at (P 0) (vmp_addr_unpack v ! 1)) = 0"
    "\<forall>q. table_of ps t q \<longrightarrow> table_of ps t1 q \<or> (\<exists>j \<le> l. q = P j)"
    by (rule Suc.IH [OF _ e(2,5,3,7) len])
  let ?P = "P(Suc l := d)"
  note step = wire_level_Suc [OF e(1,6,5) grown_table_at [OF e(4) d] r(1,3,5,6)]
  have absent: "fetch_level (Suc (Suc l)) (d * PGSIZE) v s = Ok None \<longrightarrow> SOFT_pages t (pte_at (?P 0) (vmp_addr_unpack v ! 1)) = 0"
  proof (cases "SOFT_pages s (pte_at d ?i) = 0")
    case True
    then have z: "\<forall>j < 512. SOFT_pages t1 (pte_at p j) = 0" using e(9) by blast
    show ?thesis
    proof (cases l)
      case 0
      then have "t = t1" using r(1) by simp
      then show ?thesis using z r(6) 0 unpack_less [of 1] by simp
    next
      case (Suc m)
      then show ?thesis
        using fetch_zero_table [OF z table_atD(1) [OF e(5)], of m v] table_atD(5) [OF d] r(8) by simp
    qed
  qed (use e(8) r(8) in simp)
  have "\<forall>q. table_of ps t q \<longrightarrow> table_of ps s q \<or> (\<exists>j \<le> Suc l. q = ?P j)"
    using r(6,9) e(10) by (metis fun_upd_other le_SucI le_refl not_less_eq_eq)
  then show ?case
    using Suc.prems(1) [OF step(1) _ grown_trans [OF e(4) r(3)] r(4) step(2)] r(2,7) absent
      pins_Suc [where P = P, OF r(6), of W d] wired_pages_Suc [where P = P and d = d, OF r(6) Suc.prems(6)] by simp
qed

lemma table_path_inj:
  "table_path ps s v l P \<Longrightarrow> i \<le> l \<Longrightarrow> j \<le> l \<Longrightarrow> P i = P j \<longleftrightarrow> i = j"
  unfolding table_path_def by (metis nat.inject table_at_unique)

definition wired :: "(nat \<Rightarrow> page_ptr) \<Rightarrow> page_ptr \<Rightarrow> nat" where
  "wired P q = (if \<exists>j < VMP_TABLE_LEVELS. q = P j then 1 else 0)"

text \<open>The root is pinned first.\<close>

lemma wire_root_pinned:
  fixes ps s
  defines "r \<equiv> pml4_page (procs s ps)"
  defines "pages \<equiv> (replicate VMP_TABLE_LEVELS None)[VMP_TABLE_LEVELS - 1 := Some r]"
  assumes s: "space_ok (\<lambda>_. 0) ps s"
  obtains s1 where "vmp_wire_pte ps v s = wire_level ps v (Suc 3) r (r * PGSIZE) pages s1"
    and "space_ok ((\<lambda>_. 0)(r := 1)) ps s1" and "table_at ps s1 (Suc 3) r" and "counters_only ps s s1" and "grown ps s s1"
    and "\<forall>m q. m \<le> 3 \<longrightarrow> table_at ps s1 m q \<longrightarrow> ((\<lambda>_. 0)(r := 1)) q = (0 :: nat)" and "3 \<le> length pages"
    and "fetch_level (Suc 3) (r * PGSIZE) v s1 = vmp_fetch_pte ps v s"
proof -
  note S = space_okD [OF s]
  have r: "table_at ps s VMP_TABLE_LEVELS r" "pml4 (procs s ps) = r * PGSIZE"
    using S(5) by (simp_all add: root_ok_def r_def)
  obtain s1 where s1: "vmp_pagetable_page_nonswap_pte_created ps r True s = Ok s1"
    "space_ok ((\<lambda>_. 0)(r := 0 + 1)) ps s1" "tables_frame ps s s1"
    "mypages s1 = (mypages s)(r := (mypages s r)\<lparr>refcnt := refcnt (mypages s r) + 1,
        nonzero_ptes := nonzero_ptes (mypages s r) + 1, nonswap_ptes := nonswap_ptes (mypages s r) + 1\<rparr>)"
    by (rule pin_ok [OF s table_atD(2) [OF r(1)]]) simp_all
  note F = tables_frameD [OF s1(3)]
  have c1: "counters_only ps s s1"
    by (rule counters_only_update [OF s1(3) table_atD(2) [OF r(1)] s1(4)]) (simp add: same_role_def)
  have g: "grown ps s s1"
    by (rule grown_table_counters [OF s1(3) table_atD(2) [OF r(1)] s1(4)]) (simp add: same_role_def)
  have r1: "table_at ps s1 (Suc 3) r" using role_table_at [OF counters_onlyD(2) [OF c1]] r(1) by simp
  have W: "\<forall>m q. m \<le> 3 \<longrightarrow> table_at ps s1 m q \<longrightarrow> ((\<lambda>_. 0)(r := 1)) q = (0 :: nat)"
    using table_at_unique [OF r1] by fastforce
  have l4: "VMP_TABLE_LEVELS = Suc 3" by simp
  have "vmp_wire_pte ps v s = wire_level ps v (Suc 3) r (r * PGSIZE) pages s1"
    unfolding vmp_wire_pte_def Let_def r_def [symmetric] s1(1) bnd.simps F(7) r(2) pages_def l4 ..
  moreover have "fetch_level (Suc 3) (r * PGSIZE) v s1 = vmp_fetch_pte ps v s"
    unfolding vmp_fetch_pte_def r(2) l4 by (rule fetch_level_cong [OF F(1)])
  moreover have "space_ok ((\<lambda>_. 0)(r := 1)) ps s1" using s1(2) by simp
  moreover have "3 \<le> length pages" by (simp add: pages_def)
  ultimately show thesis using that c1 g r1 W by blast
qed

lemma wired_all:
  assumes "P 3 = r"
  shows "(\<lambda>q. if \<exists>j < 3. q = P j then 1 else ((\<lambda>_. 0)(r := 1)) q) = wired P"
proof -
  have "j < VMP_TABLE_LEVELS \<longleftrightarrow> j < 3 \<or> j = 3" for j by linarith
  then have "(\<exists>j < VMP_TABLE_LEVELS. q = P j) \<longleftrightarrow> (\<exists>j < 3. q = P j) \<or> q = r" for q
    unfolding assms [symmetric] by blast
  then show ?thesis by (simp add: wired_def fun_eq_iff)
qed

lemma wired_all_pages:
  assumes "P 3 = r" and "pages = (replicate VMP_TABLE_LEVELS None)[VMP_TABLE_LEVELS - 1 := Some r]"
  shows "map (\<lambda>j. if j < 3 then Some (P j) else pages ! j) [0..<length pages] = map (\<lambda>j. Some (P j)) [0..<VMP_TABLE_LEVELS]"
  using assms by (auto simp: nth_list_update intro!: arg_cong [of _ _ P])

text \<open>Wiring an address that has an entry needs no memory.\<close>

lemma wire_pte_present:
  assumes s: "space_ok (\<lambda>_. 0) ps s" and f: "vmp_fetch_pte ps v s \<noteq> Ok None"
  obtains st t P where "vmp_wire_pte ps v s = Ok (st, t)" and "space_ok (wired P) ps t" and "counters_only ps s t"
    and "grown ps s t" and "table_path ps t v 3 P" and "P 3 = pml4_page (procs s ps)"
    and "st = \<lparr>ws_ps = ps, ws_pte = pte_at (P 0) (vmp_addr_unpack v ! 1),
      ws_pages = map (\<lambda>j. Some (P j)) [0..<VMP_TABLE_LEVELS]\<rparr>"
proof -
  let ?r = "pml4_page (procs s ps)"
  let ?pages = "(replicate VMP_TABLE_LEVELS None)[VMP_TABLE_LEVELS - 1 := Some ?r]"
  obtain s1 where s1: "vmp_wire_pte ps v s = wire_level ps v (Suc 3) ?r (?r * PGSIZE) ?pages s1"
    "space_ok ((\<lambda>_. 0)(?r := 1)) ps s1" "table_at ps s1 (Suc 3) ?r" "counters_only ps s s1" "grown ps s s1"
    "\<forall>m q. m \<le> 3 \<longrightarrow> table_at ps s1 m q \<longrightarrow> ((\<lambda>_. 0)(?r := 1)) q = (0 :: nat)" "3 \<le> length ?pages"
    "fetch_level (Suc 3) (?r * PGSIZE) v s1 = vmp_fetch_pte ps v s"
    by (rule wire_root_pinned [OF s])
  obtain st t P where w: "wire_level ps v (Suc 3) ?r (?r * PGSIZE) ?pages s1 = Ok (st, t)"
    "space_ok (\<lambda>q. if \<exists>j < 3. q = P j then 1 else ((\<lambda>_. 0)(?r := 1)) q) ps t" "counters_only ps s1 t" "grown ps s1 t"
    "table_path ps t v 3 P" "P 3 = ?r"
    "st = \<lparr>ws_ps = ps, ws_pte = pte_at (P 0) (vmp_addr_unpack v ! 1),
      ws_pages = map (\<lambda>j. if j < 3 then Some (P j) else ?pages ! j) [0..<length ?pages]\<rparr>"
    by (rule wire_level_present [OF s1(2,3,6,7) f [folded s1(8)]])
  show thesis
    using that [OF s1(1) [unfolded w(1)] w(2) [unfolded wired_all [where P = P, OF w(6)]] counters_only_trans [OF s1(4) w(3)]
      grown_trans [OF s1(5) w(4)] w(5,6)] w(7) wired_all_pages [where P = P, OF w(6) refl] by simp
qed

lemma wire_pte_ok:
  assumes s: "space_ok (\<lambda>_. 0) ps s" and k: "plenty (k + 3) ps s"
  obtains st t P where "vmp_wire_pte ps v s = Ok (st, t)" and "space_ok (wired P) ps t" and "grown ps s t"
    and "plenty k ps t" and "table_path ps t v 3 P" and "P 3 = pml4_page (procs s ps)"
    and "st = \<lparr>ws_ps = ps, ws_pte = pte_at (P 0) (vmp_addr_unpack v ! 1),
      ws_pages = map (\<lambda>j. Some (P j)) [0..<VMP_TABLE_LEVELS]\<rparr>"
    and "vmp_fetch_pte ps v s \<noteq> Ok None \<longrightarrow> counters_only ps s t"
    and "vmp_fetch_pte ps v s = Ok None \<longrightarrow> SOFT_pages t (pte_at (P 0) (vmp_addr_unpack v ! 1)) = 0"
    and "\<forall>q. table_of ps t q \<longrightarrow> table_of ps s q \<or> (\<exists>j \<le> 3. q = P j)"
proof -
  let ?r = "pml4_page (procs s ps)"
  let ?pages = "(replicate VMP_TABLE_LEVELS None)[VMP_TABLE_LEVELS - 1 := Some ?r]"
  obtain s1 where s1: "vmp_wire_pte ps v s = wire_level ps v (Suc 3) ?r (?r * PGSIZE) ?pages s1"
    "space_ok ((\<lambda>_. 0)(?r := 1)) ps s1" "table_at ps s1 (Suc 3) ?r" "counters_only ps s s1" "grown ps s s1"
    "\<forall>m q. m \<le> 3 \<longrightarrow> table_at ps s1 m q \<longrightarrow> ((\<lambda>_. 0)(?r := 1)) q = (0 :: nat)" "3 \<le> length ?pages"
    "fetch_level (Suc 3) (?r * PGSIZE) v s1 = vmp_fetch_pte ps v s"
    by (rule wire_root_pinned [OF s])
  note C = counters_onlyD [OF s1(4)]
  have k1: "plenty (k + 3) ps s1" by (rule plenty_frame [OF k s space_okD(1) [OF s1(2)] C(1,2)]) (use C(3) in blast)
  obtain st t P where w: "wire_level ps v (Suc 3) ?r (?r * PGSIZE) ?pages s1 = Ok (st, t)"
    "space_ok (\<lambda>q. if \<exists>j < 3. q = P j then 1 else ((\<lambda>_. 0)(?r := 1)) q) ps t" "grown ps s1 t" "plenty k ps t"
    "table_path ps t v 3 P" "P 3 = ?r"
    "st = \<lparr>ws_ps = ps, ws_pte = pte_at (P 0) (vmp_addr_unpack v ! 1),
      ws_pages = map (\<lambda>j. if j < 3 then Some (P j) else ?pages ! j) [0..<length ?pages]\<rparr>"
    "fetch_level (Suc 3) (?r * PGSIZE) v s1 = Ok None \<longrightarrow> SOFT_pages t (pte_at (P 0) (vmp_addr_unpack v ! 1)) = 0"
    "\<forall>q. table_of ps t q \<longrightarrow> table_of ps s1 q \<or> (\<exists>j \<le> 3. q = P j)"
    by (rule wire_level_ok [OF s1(2,3) k1 s1(6,7)])
  have code: "vmp_wire_pte ps v s = Ok (st, t)" using s1(1) w(1) by simp
  have "counters_only ps s t" if "vmp_fetch_pte ps v s \<noteq> Ok None"
    by (rule wire_pte_present [OF s that]) (use code in simp)
  then show thesis
    using that [OF code w(2) [unfolded wired_all [where P = P, OF w(6)]] grown_trans [OF s1(5) w(3)] w(4-6)]
      w(7-9) wired_all_pages [where P = P, OF w(6) refl] s1(8) role_table_of [OF C(2)] by simp
qed

lemma wire_release_pages_ok:
  assumes "space_ok W ps s" and "distinct qs" and "\<forall>q \<in> set qs. table_of ps s q \<and> 0 < W q \<and>
      (page_is_root_table q s \<or> 0 < live_ptes (\<lambda>v. v \<noteq> 0) q s)"
  obtains t where "wire_release_pages ps (map Some qs) s = Ok t"
    and "space_ok (\<lambda>q. if q \<in> set qs then W q - 1 else W q) ps t" and "tables_frame ps s t"
    and "mypages t = (\<lambda>q. if q \<in> set qs then (mypages s q)\<lparr>nonzero_ptes := nonzero_ptes (mypages s q) - 1,
       nonswap_ptes := nonswap_ptes (mypages s q) - 1, refcnt := refcnt (mypages s q) - 1\<rparr> else mypages s q)"
  using assms
proof (induction qs arbitrary: s W thesis)
  case Nil
  then show ?case by simp
next
  case (Cons q qs)
  obtain s1 where s1: "vmp_pagetable_page_pte_deleted ps q False s = Ok s1"
    "space_ok (W(q := W q - 1)) ps s1" "tables_frame ps s s1"
    "mypages s1 = (mypages s)(q := (mypages s q)\<lparr>nonzero_ptes := nonzero_ptes (mypages s q) - 1,
       nonswap_ptes := nonswap_ptes (mypages s q) - 1, refcnt := refcnt (mypages s q) - 1\<rparr>)"
    by (rule unpin_ok [OF Cons.prems(2), of q]) (use Cons.prems(4) in auto)
  have role: "\<forall>x. same_role (mypages s x) (mypages s1 x)" using s1(4) by (simp add: same_role_def)
  have nq: "q \<notin> set qs" "distinct qs" using Cons.prems(3) by simp_all
  have "live_ptes P x s1 = live_ptes P x s" for P x
    using tables_frameD(1) [OF s1(3)] by (intro live_ptes_cong) simp
  moreover have "page_is_root_table x s1 = page_is_root_table x s" for x
    using role by (simp add: page_is_root_table_def same_role_def)
  ultimately have pre: "\<forall>x \<in> set qs. table_of ps s1 x \<and> 0 < (W(q := W q - 1)) x \<and>
      (page_is_root_table x s1 \<or> 0 < live_ptes (\<lambda>v. v \<noteq> 0) x s1)"
    using Cons.prems(4) nq role_table_of [OF role] by auto
  obtain t where t: "wire_release_pages ps (map Some qs) s1 = Ok t"
    "space_ok (\<lambda>x. if x \<in> set qs then (W(q := W q - 1)) x - 1 else (W(q := W q - 1)) x) ps t"
    "tables_frame ps s1 t"
    "mypages t = (\<lambda>x. if x \<in> set qs then (mypages s1 x)\<lparr>nonzero_ptes := nonzero_ptes (mypages s1 x) - 1,
       nonswap_ptes := nonswap_ptes (mypages s1 x) - 1, refcnt := refcnt (mypages s1 x) - 1\<rparr> else mypages s1 x)"
    by (rule Cons.IH [OF _ s1(2) nq(2) pre])
  show ?case
  proof (rule Cons.prems(1))
    show "wire_release_pages ps (map Some (q # qs)) s = Ok t" using s1(1) t(1) by simp
    show "tables_frame ps s t" by (rule tables_frame_trans [OF s1(3) t(3)])
    have "(\<lambda>x. if x \<in> set qs then (W(q := W q - 1)) x - 1 else (W(q := W q - 1)) x) =
        (\<lambda>x. if x \<in> set (q # qs) then W x - 1 else W x)"
      using nq by (auto simp: fun_eq_iff)
    with t(2) show "space_ok (\<lambda>x. if x \<in> set (q # qs) then W x - 1 else W x) ps t" by simp
    show "mypages t = (\<lambda>x. if x \<in> set (q # qs) then (mypages s x)\<lparr>nonzero_ptes := nonzero_ptes (mypages s x) - 1,
       nonswap_ptes := nonswap_ptes (mypages s x) - 1, refcnt := refcnt (mypages s x) - 1\<rparr> else mypages s x)"
      using t(4) s1(4) nq by (auto simp: fun_eq_iff)
  qed
qed

text \<open>The pages of a wired path can be released in the order of the levels.\<close>

lemma wired_releasable:
  assumes path: "table_path ps s v 3 P" and live: "0 < live_ptes (\<lambda>v. v \<noteq> 0) (P 0) s"
  shows "distinct (map P [0..<VMP_TABLE_LEVELS])"
    and "\<forall>q \<in> set (map P [0..<VMP_TABLE_LEVELS]). table_of ps s q \<and> 0 < wired P q \<and>
      (page_is_root_table q s \<or> 0 < live_ptes (\<lambda>v. v \<noteq> 0) q s)"
proof -
  let ?qs = "map P [0..<VMP_TABLE_LEVELS]"
  have set: "set ?qs = P ` {..<VMP_TABLE_LEVELS}" by (simp add: lessThan_atLeast0 del: upt_rec_numeral)
  show "distinct ?qs"
    using table_path_inj [OF path] by (auto simp: distinct_map inj_on_def simp del: upt_rec_numeral)
  have "table_of ps s (P j) \<and> 0 < wired P (P j) \<and>
      (page_is_root_table (P j) s \<or> 0 < live_ptes (\<lambda>v. v \<noteq> 0) (P j) s)" if "j < VMP_TABLE_LEVELS" for j
  proof (intro conjI)
    show "table_of ps s (P j)" using path that table_atD(2) [of ps s "Suc j" "P j"] by (simp add: table_path_def)
    show "0 < wired P (P j)" using that by (auto simp: wired_def)
    show "page_is_root_table (P j) s \<or> 0 < live_ptes (\<lambda>v. v \<noteq> 0) (P j) s"
    proof (cases j)
      case (Suc i)
      then have "SOFT_pages s (pte_at (P j) (vmp_addr_unpack v ! Suc j)) = vmp_pte_hw_create (of_nat (P i)) True"
        using path that by (auto simp: table_path_def)
      then have "SOFT_pages s (pte_at (P j) (vmp_addr_unpack v ! Suc j)) \<noteq> 0" by simp
      then show ?thesis using live_ptes_pos [OF unpack_less, of "Suc j"] that by simp
    qed (use live in simp)
  qed
  then show "\<forall>q \<in> set ?qs. table_of ps s q \<and> 0 < wired P q \<and>
      (page_is_root_table q s \<or> 0 < live_ptes (\<lambda>v. v \<noteq> 0) q s)"
    unfolding set ball_simps by simp
qed

lemma release_path:
  assumes "ws_ps st = ps" and "ws_pages st = map (\<lambda>j. Some (P j)) [0..<VMP_TABLE_LEVELS]"
  shows "vmp_pte_wire_state_release st s = wire_release_pages ps (map Some (map P [0..<VMP_TABLE_LEVELS])) s"
  using assms by (simp add: vmp_pte_wire_state_release_def comp_def)

lemma wire_release_ok:
  assumes s: "space_ok (wired P) ps s" and path: "table_path ps s v 3 P"
    and live: "0 < live_ptes (\<lambda>v. v \<noteq> 0) (P 0) s"
    and st: "ws_ps st = ps" "ws_pages st = map (\<lambda>j. Some (P j)) [0..<VMP_TABLE_LEVELS]"
  obtains t where "vmp_pte_wire_state_release st s = Ok t" and "space_ok (\<lambda>_. 0) ps t" and "tables_frame ps s t"
    and "mypages t = (\<lambda>q. if q \<in> P ` {..<VMP_TABLE_LEVELS}
       then (mypages s q)\<lparr>nonzero_ptes := nonzero_ptes (mypages s q) - 1,
         nonswap_ptes := nonswap_ptes (mypages s q) - 1, refcnt := refcnt (mypages s q) - 1\<rparr> else mypages s q)"
proof -
  let ?qs = "map P [0..<VMP_TABLE_LEVELS]"
  have set: "set ?qs = P ` {..<VMP_TABLE_LEVELS}" by (simp add: lessThan_atLeast0 del: upt_rec_numeral)
  obtain t where t: "wire_release_pages ps (map Some ?qs) s = Ok t"
    "space_ok (\<lambda>q. if q \<in> set ?qs then wired P q - 1 else wired P q) ps t" "tables_frame ps s t"
    "mypages t = (\<lambda>q. if q \<in> set ?qs then (mypages s q)\<lparr>nonzero_ptes := nonzero_ptes (mypages s q) - 1,
       nonswap_ptes := nonswap_ptes (mypages s q) - 1, refcnt := refcnt (mypages s q) - 1\<rparr> else mypages s q)"
    by (rule wire_release_pages_ok [OF s wired_releasable [OF path live]])
  have "(\<lambda>q. if q \<in> set ?qs then wired P q - 1 else wired P q) = (\<lambda>_. 0)"
    unfolding set by (auto simp: wired_def fun_eq_iff)
  then show thesis using that t release_path [OF st] unfolding set by simp
qed

lemma path_fetch:
  "table_path ps s v l P \<Longrightarrow> fetch_level (Suc l) (P l * PGSIZE) v s = Ok (Some (pte_at (P 0) (vmp_addr_unpack v ! 1)))"
proof (induction l)
  case 0
  then show ?case by (simp add: pte_at_def)
next
  case (Suc l)
  let ?i = "vmp_addr_unpack v ! Suc (Suc l)"
  have d: "table_at ps s (Suc (Suc l)) (P (Suc l))" "table_at ps s (Suc l) (P l)"
    "SOFT_pages s (pte_at (P (Suc l)) ?i) = vmp_pte_hw_create (of_nat (P l)) True"
    using Suc.prems by (auto simp: table_path_def)
  have i: "?i < 512" using table_atD(5) [OF d(1)] by (intro unpack_less) simp_all
  have a: "P (Suc l) * PGSIZE + PTE_SIZE * ?i = pte_at (P (Suc l)) ?i" by (simp add: pte_at_def)
  have "fetch_level (Suc (Suc l)) (P (Suc l) * PGSIZE) v s = fetch_level (Suc l) (P l * PGSIZE) v s"
    using fetch_level_step [of "P (Suc l) * PGSIZE" v l s] d i table_atD(1) [OF d(1)] table_atD(1) [OF d(2)]
    by (simp add: a del: fetch_level.simps)
  moreover have "table_path ps s v l P" using Suc.prems by (simp add: table_path_def)
  ultimately show ?case using Suc.IH by simp
qed

lemma path_fetch_pte:
  assumes "table_path ps s v 3 P" and "pml4 (procs s ps) = P 3 * PGSIZE"
  shows "vmp_fetch_pte ps v s = Ok (Some (pte_at (P 0) (vmp_addr_unpack v ! 1)))"
proof -
  have l4: "VMP_TABLE_LEVELS = Suc 3" by simp
  show ?thesis unfolding vmp_fetch_pte_def assms(2) l4 by (rule path_fetch [OF assms(1)])
qed

text \<open>The counters of a table are determined by its entries.\<close>

lemma counters_determined:
  assumes s: "space_ok W ps s" and t: "space_ok W ps t" and role: "same_role (mypages s p) (mypages t p)"
    and p: "table_of ps s p" and mem: "SOFT_pages t = SOFT_pages s"
  shows "mypages t p = mypages s p"
proof -
  have pt: "table_of ps t p" using p role by (simp add: table_of_def same_role_def)
  have l: "live_ptes P p t = live_ptes P p s" for P by (rule live_ptes_cong) (simp add: mem)
  have "nonzero_ptes (mypages t p) = nonzero_ptes (mypages s p)"
    "nonswap_ptes (mypages t p) = nonswap_ptes (mypages s p)"
    using space_okD(9) [OF s] space_okD(9) [OF t] p pt by (simp_all add: counted_def l)
  moreover have "refcnt (mypages s p) = nonswap_ptes (mypages s p) + 1"
    "refcnt (mypages t p) = nonswap_ptes (mypages t p) + 1"
    using table_okD(1) [OF space_okD(2) [OF s] p] table_okD(1) [OF space_okD(2) [OF t] pt]
    by (simp_all add: table_ok_def)
  ultimately show ?thesis using role by (auto simp: same_role_def intro: vm_page.equality)
qed

section \<open>Properties of wiring\<close>

text \<open>C6. Wiring an address of a consistent address space succeeds when there is memory for three tables, the most
  that can be missing (\<open>plenty\<close>; in a shortage a missing table ends in an assertion, see the faults without
  memory): it creates them, pins every table on the way once, and returns the address of the
  leaf entry, the same that the table walk finds afterwards. Whatever was mapped stays mapped with its
  contents, and the address space stays consistent.\<close>

theorem wire_pte_reaches_leaf:
  assumes "space_ok (\<lambda>_. 0) ps s" and "plenty (k + 3) ps s"
  shows "\<exists>st t P. vmp_wire_pte ps v s = Ok (st, t) \<and> space_ok (wired P) ps t \<and> grown ps s t \<and> plenty k ps t
    \<and> ws_pages st = map (\<lambda>j. Some (P j)) [0..<VMP_TABLE_LEVELS]
    \<and> (\<forall>j < VMP_TABLE_LEVELS. table_at ps t (Suc j) (P j))
    \<and> vmp_fetch_pte ps v t = Ok (Some (ws_pte st))
    \<and> (\<forall>a. vmp_fetch_pte ps v s = Ok (Some a) \<longrightarrow> ws_pte st = a \<and> SOFT_pages t = SOFT_pages s)"
proof -
  obtain st t P where w: "vmp_wire_pte ps v s = Ok (st, t)" "space_ok (wired P) ps t" "grown ps s t"
    "plenty k ps t" "table_path ps t v 3 P" "P 3 = pml4_page (procs s ps)"
    "st = \<lparr>ws_ps = ps, ws_pte = pte_at (P 0) (vmp_addr_unpack v ! 1),
      ws_pages = map (\<lambda>j. Some (P j)) [0..<VMP_TABLE_LEVELS]\<rparr>"
    "vmp_fetch_pte ps v s \<noteq> Ok None \<longrightarrow> counters_only ps s t"
    by (rule wire_pte_ok [OF assms, of v]) blast
  have r: "pml4 (procs t ps) = P 3 * PGSIZE"
    using w(3,6) space_okD(5) [OF assms(1)] by (simp add: grown_def root_ok_def)
  have f: "vmp_fetch_pte ps v t = Ok (Some (ws_pte st))" using path_fetch_pte [OF w(5) r] w(7) by simp
  have "ws_pte st = a \<and> SOFT_pages t = SOFT_pages s" if "vmp_fetch_pte ps v s = Ok (Some a)" for a
    using that w(8) f fetch_level_cong [of t s] counters_onlyD(4) [of ps s t] tables_frameD(7) [OF counters_onlyD(1), of ps s t]
    by (auto simp: vmp_fetch_pte_def)
  moreover have "table_at ps t (Suc j) (P j)" if "j < VMP_TABLE_LEVELS" for j
    using that w(5) by (simp add: table_path_def)
  ultimately show ?thesis using w(1-4,7) f by (intro exI [of _ st] exI [of _ t] exI [of _ P]) simp
qed

theorem wire_pte_reaches_leaf_witness:
  "\<exists>st t. vmp_wire_pte 0 0x123456789 sample_root = Ok (st, t) \<and> vmp_fetch_pte 0 0x123456789 t = Ok (Some (ws_pte st))"
  using wire_pte_reaches_leaf [OF sample_root_ok(1), of 0 "0x123456789"] sample_root_ok(2) [of 3] by auto

end
