(* ===== verification/Leaf_Entries.thy ===== *)
theory Leaf_Entries
  imports Wiring
begin

text \<open>
  Changes to a leaf entry of a consistent address space that keep it in core: a mapping that becomes a
  transition entry when its page is evicted, a transition entry that becomes a mapping again, a mapping
  that becomes writeable. One lemma covers them all.
\<close>

section \<open>Changing a leaf entry\<close>

lemma fetch_level_same:
  assumes ok: "dirs_ok ps s"
    and mem: "\<And>l d i. table_at ps s (Suc (Suc l)) d \<Longrightarrow> i < 512 \<Longrightarrow> SOFT_pages t (pte_at d i) = SOFT_pages s (pte_at d i)"
  shows "table_at ps s (Suc l) d \<Longrightarrow> fetch_level (Suc l) (d * PGSIZE) v t = fetch_level (Suc l) (d * PGSIZE) v s"
proof (induction l arbitrary: d)
  case (Suc l)
  let ?i = "vmp_addr_unpack v ! Suc (Suc l)"
  note D = table_atD [OF Suc.prems]
  have i: "?i < 512" using D(5) by (intro unpack_less) simp_all
  have a: "d * PGSIZE + PTE_SIZE * ?i = pte_at d ?i" by (simp add: pte_at_def)
  note same = mem [OF Suc.prems i]
  from ok Suc.prems show ?case
  proof (cases rule: fetch_step [where v = v])
    case none
    then have "fetch_level (Suc (Suc l)) (d * PGSIZE) v t = Ok None"
      using D(1) i same by (simp add: a Let_def vmp_pte_characterise_def)
    with none show ?thesis by (simp del: fetch_level.simps)
  next
    case (some p)
    have "fetch_level (Suc (Suc l)) (d * PGSIZE) v t = fetch_level (Suc l) (p * PGSIZE) v t"
      using fetch_level_step [of "d * PGSIZE" v l t] D(1) i same some(2) table_atD(1) [OF some(1)]
      by (simp add: a del: fetch_level.simps)
    with some Suc.IH [OF some(1)] show ?thesis by (simp del: fetch_level.simps)
  qed
qed simp

lemma small_of_nat_inj:
  assumes "p < SOFT_NPAGES" and "q < SOFT_NPAGES" and "(of_nat p :: uint64_t) = of_nat q"
  shows "p = q"
proof -
  have "unat (of_nat p :: uint64_t) = unat (of_nat q :: uint64_t)" using assms(3) by simp
  then show ?thesis using assms(1,2) by (simp add: unsigned_of_nat take_bit_nat_eq_self)
qed

text \<open>An entry in core refers to one page.\<close>

lemma entry_target_unique:
  assumes "p < SOFT_NPAGES" and "q < SOFT_NPAGES"
    and "(\<exists>w. v = vmp_pte_hw_create (of_nat p) w) \<or> v = vmp_pte_trans_create 0 (of_nat p)"
    and "(\<exists>w. v = vmp_pte_hw_create (of_nat q) w) \<or> v = vmp_pte_trans_create 0 (of_nat q)"
  shows "p = q"
proof (rule small_of_nat_inj [OF assms(1,2)])
  have t: "soft_payload (vmp_pte_trans_create 0 (of_nat n)) = of_nat n" if "n < SOFT_NPAGES" for n
  proof -
    have "take_bit 61 (of_nat n :: uint64_t) = of_nat n"
      using that by (simp add: word_unat_eq_iff unsigned_take_bit_eq unsigned_of_nat take_bit_nat_eq_self)
    then show ?thesis by (simp add: vmp_pte_trans_create_def)
  qed
  have h: "vmp_pte_hw_pfn (vmp_pte_hw_create (of_nat n) w) = of_nat n" if "n < SOFT_NPAGES" for n w
    using that by (simp add: small_pfn)
  have "pte_valid (vmp_pte_hw_create n w)" "\<not> pte_valid (vmp_pte_trans_create 0 n)" for n w
    by (simp_all add: vmp_pte_trans_create_def)
  with assms show "(of_nat p :: uint64_t) = of_nat q" using t h by metis
qed

text \<open>The entry at \<open>a\<close>, which refers to the private page \<open>q\<close>, and the record of \<open>q\<close> change; the entry stays in core.\<close>

definition leaf_changed :: "nat \<Rightarrow> page_ptr \<Rightarrow> nat \<Rightarrow> page_ptr \<Rightarrow> vmm \<Rightarrow> vmm \<Rightarrow> bool" where
  "leaf_changed ps d i q s t \<longleftrightarrow> table_at ps s (Suc 0) d \<and> i < 512 \<and> anon_at ps s (pte_at d i) q \<and>
     in_core (SOFT_pages s (pte_at d i)) \<and> in_core (SOFT_pages t (pte_at d i)) \<and>
     (\<forall>a. a \<noteq> pte_at d i \<longrightarrow> SOFT_pages t a = SOFT_pages s a) \<and>
     (\<forall>p. p \<noteq> q \<longrightarrow> mypages t p = mypages s p) \<and> anon_at ps t (pte_at d i) q \<and>
     nonzero_ptes (mypages t q) = nonzero_ptes (mypages s q) \<and>
     nonswap_ptes (mypages t q) = nonswap_ptes (mypages s q) \<and>
     ((\<exists>w. SOFT_pages t (pte_at d i) = vmp_pte_hw_create (of_nat q) w) \<and> refcnt (mypages t q) = 1 \<or>
      SOFT_pages t (pte_at d i) = vmp_pte_trans_create 0 (of_nat q) \<and> refcnt (mypages t q) = 0) \<and>
     SOFT_pages_base t = SOFT_pages_base s \<and> pml4 (procs t ps) = pml4 (procs s ps) \<and>
     pml4_page (procs t ps) = pml4_page (procs s ps)"

lemma in_core_nonzero: "in_core v \<Longrightarrow> v \<noteq> 0"
  by (simp add: in_core_def)

lemma leaf_changed_table_at:
  assumes "leaf_changed ps d i q s t"
  shows "table_at ps t l p = table_at ps s l p"
proof (cases "p = q")
  case True
  have "use_of_level l \<noteq> kPageUseAnonPrivate" if "0 < l" "l \<le> VMP_TABLE_LEVELS"
    using level_cases [OF that] by auto
  then show ?thesis using True assms by (auto simp: leaf_changed_def anon_at_def table_at_def)
qed (use assms in \<open>simp add: leaf_changed_def table_at_def\<close>)

lemma leaf_changed_fetch:
  assumes "leaf_changed ps d i q s t" and "dirs_ok ps s" and "root_ok ps s"
  shows "vmp_fetch_pte ps v t = vmp_fetch_pte ps v s"
proof -
  have r: "table_at ps s (Suc 3) (pml4_page (procs s ps))" "pml4 (procs s ps) = pml4_page (procs s ps) * PGSIZE"
    "pml4 (procs t ps) = pml4 (procs s ps)"
    using assms(1,3) by (simp_all add: root_ok_def leaf_changed_def)
  have l4: "VMP_TABLE_LEVELS = Suc 3" by simp
  have "SOFT_pages t (pte_at x j) = SOFT_pages s (pte_at x j)" if "table_at ps s (Suc (Suc l)) x" "j < 512" for l x j
  proof -
    have "x \<noteq> d" using that(1) assms(1) table_at_unique by (fastforce simp: leaf_changed_def)
    then show ?thesis using assms(1) that(2) by (simp add: leaf_changed_def)
  qed
  from fetch_level_same [OF assms(2) this r(1)] show ?thesis
    unfolding vmp_fetch_pte_def r(2,3) l4 .
qed

lemma leaf_changed_links:
  assumes s: "space_ok W ps s" and c: "leaf_changed ps d i q s t"
  shows "dirs_ok ps t" and "root_ok ps t" and "leaves_ok ps t" and "backlinks_ok ps t"
proof -
  note S = space_okD [OF s] and C = c [unfolded leaf_changed_def] and at = leaf_changed_table_at [OF c]
  have other: "mypages t p = mypages s p" if "table_at ps s l p" for l p
    using that C level_cases [of l] by (cases "p = q") (auto simp: table_at_def anon_at_def)
  have ent: "SOFT_pages t (pte_at x j) = SOFT_pages s (pte_at x j)" if "x \<noteq> d \<or> j \<noteq> i" "j < 512" for x j
    using C that by simp
  show "root_ok ps t" using S(5) C by (simp add: root_ok_def at)
  show "dirs_ok ps t"
    unfolding dirs_ok_def at
  proof (intro allI impI)
    fix l x j :: nat assume x: "table_at ps s (Suc (Suc l)) x" and j: "j < 512"
    have "x \<noteq> d" using x C table_at_unique by fastforce
    then have "SOFT_pages t (pte_at x j) = SOFT_pages s (pte_at x j)" using ent j by blast
    with S(6) x j other show "SOFT_pages t (pte_at x j) = 0 \<or> (\<exists>p. table_at ps s (Suc l) p \<and>
        referent_pte (mypages t p) = pte_at x j \<and> SOFT_pages t (pte_at x j) = vmp_pte_hw_create (of_nat p) True)"
      unfolding dirs_ok_def by metis
  qed
  have anon: "p \<noteq> q" if "anon_at ps s a p" "a \<noteq> pte_at d i" for a p using that C by (auto simp: anon_at_def)
  show "leaves_ok ps t"
    unfolding leaves_ok_def at
  proof (intro allI impI)
    fix x j :: nat assume x: "table_at ps s (Suc 0) x" and j: "j < 512"
    show "leaf_ok ps t (pte_at x j)"
    proof (cases "x = d \<and> j = i")
      case True
      then show ?thesis using C by (auto simp: leaf_ok_def Let_def)
    next
      case False
      have ok: "leaf_ok ps s (pte_at x j)" using S(7) x j by (simp add: leaves_ok_def)
      have "anon_at ps t (pte_at x j) p \<and> refcnt (mypages t p) = refcnt (mypages s p)" if "anon_at ps s (pte_at x j) p" for p
        using anon [OF that] that C False j by (auto simp: anon_at_def)
      moreover have "SOFT_pages t (pte_at x j) = SOFT_pages s (pte_at x j)" using ent False j by blast
      ultimately show ?thesis using ok unfolding leaf_ok_def Let_def by metis
    qed
  qed
  show "backlinks_ok ps t"
    unfolding backlinks_ok_def
  proof (intro allI impI)
    fix p assume p: "p < SOFT_NPAGES" "use (mypages t p) = kPageUseAnonPrivate" "process (mypages t p) = ps"
    show "backlink_ok ps t p"
    proof (cases "p = q")
      case True
      then show ?thesis unfolding backlink_ok_def at using C by (intro exI [of _ d] exI [of _ i]) blast
    next
      case False
      then have same: "mypages t p = mypages s p" using C by blast
      then obtain x j where x: "table_at ps s (Suc 0) x" "j < 512" "anon_at ps s (pte_at x j) p"
        "(\<exists>w. SOFT_pages s (pte_at x j) = vmp_pte_hw_create (of_nat p) w) \<and> refcnt (mypages s p) = 1 \<or>
          SOFT_pages s (pte_at x j) = vmp_pte_trans_create 0 (of_nat p) \<and> refcnt (mypages s p) = 0"
        using S(13) p unfolding backlinks_ok_def backlink_ok_def by metis
      have "x \<noteq> d \<or> j \<noteq> i"
      proof (rule ccontr)
        assume "\<not> ?thesis"
        then have xj: "x = d" "j = i" by simp_all
        have "backlink_ok ps s q" using S(13) C by (simp add: backlinks_ok_def anon_at_def)
        then have "(\<exists>w. SOFT_pages s (pte_at d i) = vmp_pte_hw_create (of_nat q) w) \<or>
            SOFT_pages s (pte_at d i) = vmp_pte_trans_create 0 (of_nat q)"
          using C unfolding backlink_ok_def anon_at_def by auto
        from entry_target_unique [OF p(1) _ _ this] x(4) xj False C show False by (auto simp: anon_at_def)
      qed
      then have "SOFT_pages t (pte_at x j) = SOFT_pages s (pte_at x j)" using ent x(2) by blast
      with x same show ?thesis unfolding backlink_ok_def at by (intro exI [of _ x] exI [of _ j]) (simp add: anon_at_def)
    qed
  qed
qed


lemma leaf_changed_counted:
  assumes s: "space_ok W ps s" and c: "leaf_changed ps d i q s t"
  shows "counted W ps t" and "idle_clean t"
proof -
  note S = space_okD [OF s] and C = c [unfolded leaf_changed_def] and at = leaf_changed_table_at [OF c]
  have nz: "SOFT_pages s (pte_at d i) \<noteq> 0" "SOFT_pages t (pte_at d i) \<noteq> 0" using C in_core_nonzero by blast+
  have live: "live_ptes P x t = live_ptes P x s" if "P (SOFT_pages s (pte_at d i))" "P (SOFT_pages t (pte_at d i))" for P x
  proof (cases "x = d")
    case True
    have "\<forall>j<512. j \<noteq> i \<longrightarrow> SOFT_pages t (pte_at d j) = SOFT_pages s (pte_at d j)" using C by simp
    from live_ptes_write [OF _ this, of P] C that True show ?thesis by simp
  next
    case False
    then show ?thesis by (intro live_ptes_cong) (use C in simp)
  qed
  show "counted W ps t"
    unfolding counted_def table_of_level at
  proof (intro allI impI)
    fix x assume x: "\<exists>l. table_at ps s l x"
    then have "x \<noteq> q" using C table_atD(3) by (fastforce simp: anon_at_def is_table_def)
    then have "mypages t x = mypages s x" using C by blast
    then show "W x \<le> 16 \<and> nonzero_ptes (mypages t x) = of_nat (live_ptes (\<lambda>v. v \<noteq> 0) x t + W x) \<and>
        nonswap_ptes (mypages t x) = of_nat (live_ptes in_core x t + W x)"
      using S(9) x live [of "\<lambda>v. v \<noteq> 0" x] live [of in_core x] nz C
      by (simp add: counted_def table_of_level)
  qed
  show "idle_clean t"
    unfolding idle_clean_def
  proof (intro allI impI)
    fix x assume x: "x < SOFT_NPAGES" "\<not> is_table (use (mypages t x))"
    show "nonzero_ptes (mypages t x) = 0 \<and> nonswap_ptes (mypages t x) = 0 \<and>
        (use (mypages t x) = kPageUseFree \<longrightarrow> referent_pte (mypages t x) = 0)"
      using x S(3) C by (cases "x = q") (auto simp: idle_clean_def anon_at_def is_table_def)
  qed
qed

lemma wsle_ok_table:
  assumes "wsle_ok ps s e" and "is_pagetable e"
  obtains p where "table_of ps s p" and "e = table_entry p s" and "\<not> page_is_root_table p s"
  using assms unfolding wsle_ok_def by auto

lemma wsle_ok_data:
  assumes "wsle_ok ps s e" and "\<not> is_pagetable e"
  obtains a q where "wsle_vaddr e \<notin> direct_map s" and "maps_anon ps (wsle_vaddr e) a q s"
  using assms unfolding wsle_ok_def by auto

lemma valid_leaf:
  assumes "leaf_ok ps s a" and "pte_valid (SOFT_pages s a)" and "vmp_pte_hw_pfn (SOFT_pages s a) = of_nat p"
    and "p < SOFT_NPAGES"
  obtains w where "SOFT_pages s a = vmp_pte_hw_create (of_nat p) w" and "anon_at ps s a p" and "refcnt (mypages s p) = 1"
proof -
  obtain q w where q: "SOFT_pages s a = vmp_pte_hw_create (of_nat q) w" "anon_at ps s a q" "refcnt (mypages s q) = 1"
    using assms(1,2) by (auto simp: leaf_ok_def Let_def vmp_pte_trans_create_def vmp_pte_characterise_def)
  have "q < SOFT_NPAGES" using q(2) by (simp add: anon_at_def)
  then have "q = p" using q(1) assms(3,4) small_of_nat_inj by (simp add: small_pfn)
  with q that show thesis by blast
qed

lemma maps_anon_leaf:
  assumes "space_ok W ps s" and "maps_anon ps v a p s"
  shows "anon_at ps s a p" and "leaf_ok ps s a"
    and "\<exists>d. table_at ps s (Suc 0) d \<and> a = pte_at d (vmp_addr_unpack v ! 1)"
proof -
  note S = space_okD [OF assms(1)]
  have m: "vmp_fetch_pte ps v s = Ok (Some a)" "pte_valid (SOFT_pages s a)" "p < SOFT_NPAGES"
    "vmp_pte_hw_pfn (SOFT_pages s a) = of_nat p"
    using assms(2) by (simp_all add: maps_anon_def)
  show d: "\<exists>d. table_at ps s (Suc 0) d \<and> a = pte_at d (vmp_addr_unpack v ! 1)"
    by (rule fetch_pte_kept(2) [OF S(6,5) _ refl m(1)]) (simp add: dirs_kept_def)
  then show l: "leaf_ok ps s a" using S(7) unpack_less [of 1] by (auto simp: leaves_ok_def)
  show "anon_at ps s a p" by (rule valid_leaf [OF l m(2,4,3)])
qed

text \<open>The working set may lose addresses, or gain one for the entry; an address of the entry stays only
  when the entry is valid.\<close>

lemma space_ok_leaf_changed:
  assumes s: "space_ok W ps s" and c: "leaf_changed ps d i q s t" and t: "pfndb t" "tables_ok ps t"
      "wsl_counted (wsl (procs t ps))"
    and sub: "set (entries (wsl (procs t ps))) \<subseteq> insert e0 (set (entries (wsl (procs s ps))))"
    and e0: "e0 \<in> set (entries (wsl (procs s ps))) \<or> \<not> is_pagetable e0 \<and> wsle_vaddr e0 \<notin> direct_map s \<and>
       vmp_fetch_pte ps (wsle_vaddr e0) s = Ok (Some (pte_at d i)) \<and> \<not> pte_valid (SOFT_pages s (pte_at d i))"
    and valid: "\<And>e. e \<in> set (entries (wsl (procs t ps))) \<Longrightarrow> \<not> is_pagetable e \<Longrightarrow>
       vmp_fetch_pte ps (wsle_vaddr e) s = Ok (Some (pte_at d i)) \<Longrightarrow> pte_valid (SOFT_pages t (pte_at d i))"
  shows "space_ok W ps t"
proof -
  note S = space_okD [OF s] and C = c [unfolded leaf_changed_def] and at = leaf_changed_table_at [OF c]
  note fetch = leaf_changed_fetch [OF c S(6,5)]
  have pv: "page_vaddr p t = page_vaddr p s" if "p < SOFT_NPAGES" for p
    using page_vaddr_page [OF S(1) that] page_vaddr_page [OF t(1) that] C by simp
  then have dm: "direct_map t = direct_map s" unfolding direct_map_def by (intro image_cong) auto
  have d: "d < SOFT_NPAGES" using C table_atD(1) by blast
  have ws: "wsle_ok ps t e" if e: "e \<in> set (entries (wsl (procs t ps)))" for e
  proof (cases "is_pagetable e")
    case True
    then have "e \<in> set (entries (wsl (procs s ps)))" using e sub e0 by auto
    then obtain p where p: "table_of ps s p" "e = table_entry p s" "\<not> page_is_root_table p s"
      using S(8) True wsle_ok_table by metis
    moreover have "table_entry p t = table_entry p s" using pv p(1) by (simp add: table_entry_def table_of_def)
    moreover have "\<not> page_is_root_table p t"
      using C p(1,3) by (cases "p = q") (auto simp: page_is_root_table_def anon_at_def)
    ultimately show ?thesis using True at by (auto simp: wsle_ok_def table_of_level)
  next
    case False
    have dme: "wsle_vaddr e \<notin> direct_map t"
      using e sub e0 S(8) False dm unfolding wsle_ok_def by (metis insertE subsetD)
    show ?thesis
    proof (cases "vmp_fetch_pte ps (wsle_vaddr e) s = Ok (Some (pte_at d i))")
      case True
      have "pte_valid (SOFT_pages t (pte_at d i))" by (rule valid [OF e False True])
      then obtain w where "SOFT_pages t (pte_at d i) = vmp_pte_hw_create (of_nat q) w" "refcnt (mypages t q) = 1"
        using C by (auto simp: vmp_pte_trans_create_def)
      then have "maps_anon ps (wsle_vaddr e) (pte_at d i) q t"
        using C True d by (simp add: maps_anon_def fetch anon_at_def small_pfn)
      with False dme show ?thesis by (auto simp: wsle_ok_def)
    next
      case other: False
      then have "e \<in> set (entries (wsl (procs s ps)))" using e sub e0 by auto
      then obtain a p where m: "maps_anon ps (wsle_vaddr e) a p s" using S(8) False wsle_ok_data by metis
      then have a: "a \<noteq> pte_at d i" using other by (auto simp: maps_anon_def)
      have "anon_at ps s a p" by (rule maps_anon_leaf(1) [OF s m])
      then have "p \<noteq> q" using C a by (auto simp: anon_at_def)
      then have "maps_anon ps (wsle_vaddr e) a p t" using m C a fetch by (simp add: maps_anon_def)
      with False dme show ?thesis by (auto simp: wsle_ok_def)
    qed
  qed
  have no_share: "vmp_fetch_pte ps (wsle_vaddr y) s \<noteq> vmp_fetch_pte ps (wsle_vaddr e0) s"
    if y: "y \<in> set (entries (wsl (procs s ps)))" "\<not> is_pagetable y" "e0 \<notin> set (entries (wsl (procs s ps)))" for y
  proof -
    obtain a q where "maps_anon ps (wsle_vaddr y) a q s" using S(8) y(1,2) wsle_ok_data by metis
    with e0 y(3) show ?thesis by (auto simp: maps_anon_def)
  qed
  have "ws_unique ps t"
    unfolding ws_unique_def fetch
  proof (intro ballI impI)
    fix x y assume x: "x \<in> set (entries (wsl (procs t ps)))" "\<not> is_pagetable x"
      and y: "y \<in> set (entries (wsl (procs t ps)))" "\<not> is_pagetable y"
      and eq: "vmp_fetch_pte ps (wsle_vaddr x) s = vmp_fetch_pte ps (wsle_vaddr y) s"
    have m: "x = e0 \<or> x \<in> set (entries (wsl (procs s ps)))" "y = e0 \<or> y \<in> set (entries (wsl (procs s ps)))"
      using x y sub by auto
    with S(12) x y eq no_share [of x] no_share [of y] show "x = y" unfolding ws_unique_def by metis
  qed
  then show ?thesis
    using t ws leaf_changed_links [OF s c] leaf_changed_counted [OF s c] by (simp add: space_ok_def)
qed

end
