(* ===== verification/Logical_Memory.thy ===== *)
theory Logical_Memory
  imports Leaf_Entries
begin

text \<open>
  What a process sees of its memory, whatever the memory manager does to its pages: the word that an
  address denotes. An address that was never touched denotes zero; one that is mapped or in transition
  denotes the word of its page. Growing the address space and changing the state of a page leave every
  word as it is, so eviction, wiring and the faults that need no transfer are invisible.
\<close>

section \<open>The words of an address space\<close>

definition leaf_entry :: "nat \<Rightarrow> vaddr \<Rightarrow> vmm \<Rightarrow> pte" where
  "leaf_entry ps v s = (case vmp_fetch_pte ps v s of Ok (Some a) \<Rightarrow> SOFT_pages s a | _ \<Rightarrow> 0)"

text \<open>\<open>off\<close> is an offset in the page; a page that is in the page file has no word in memory.\<close>

definition vm_word :: "nat \<Rightarrow> vaddr \<Rightarrow> nat \<Rightarrow> vmm \<Rightarrow> uint64_t option" where
  "vm_word ps v off s = (let e = leaf_entry ps v s in
     if e = 0 then Some 0
     else case vmp_pte_characterise e of
       Ok kPTEKindValid \<Rightarrow> Some (SOFT_pages s (vmp_pte_hw_paddr e + off))
     | Ok kPTEKindTrans \<Rightarrow> Some (SOFT_pages s (vmp_pte_trans_paddr e + off))
     | _ \<Rightarrow> None)"

lemma trans_paddr_of_nat: "q < SOFT_NPAGES \<Longrightarrow> vmp_pte_trans_paddr (vmp_pte_trans_create u (of_nat q)) = q * PGSIZE"
  by (simp add: vmp_pte_trans_paddr_def vmp_pte_trans_create_def take_bit_of_nat take_bit_nat_eq_self)

lemma hw_characterise [simp]: "vmp_pte_characterise (vmp_pte_hw_create n w) = Ok kPTEKindValid"
  by (simp add: vmp_pte_characterise_def)

text \<open>An entry that gives access to the page \<open>q\<close>.\<close>

definition refers_to :: "pte \<Rightarrow> page_ptr \<Rightarrow> bool" where
  "refers_to e q \<longleftrightarrow> q < SOFT_NPAGES \<and>
     ((\<exists>w. e = vmp_pte_hw_create (of_nat q) w) \<or> e = vmp_pte_trans_create 0 (of_nat q))"

lemma refers_to_unique: "refers_to e p \<Longrightarrow> refers_to e q \<Longrightarrow> p = q"
  unfolding refers_to_def using entry_target_unique by blast

lemma refers_to_create [simp]:
  "q < SOFT_NPAGES \<Longrightarrow> refers_to (vmp_pte_hw_create (of_nat q) w) q"
  "q < SOFT_NPAGES \<Longrightarrow> refers_to (vmp_pte_trans_create 0 (of_nat q)) q"
  by (auto simp: refers_to_def)

lemma refers_to_nonzero: "refers_to e q \<Longrightarrow> e \<noteq> 0"
  by (auto simp: refers_to_def)

lemma vm_word_page:
  "refers_to (leaf_entry ps v s) q \<Longrightarrow> vm_word ps v off s = Some (SOFT_pages s (q * PGSIZE + off))"
  by (auto simp: refers_to_def vm_word_def Let_def trans_paddr_of_nat)

lemma vm_word_zero: "leaf_entry ps v s = 0 \<Longrightarrow> vm_word ps v off s = Some 0"
  by (simp add: vm_word_def)

lemma vm_word_swap: "vmp_pte_characterise (leaf_entry ps v s) = Ok kPTEKindSwap \<Longrightarrow> vm_word ps v off s = None"
  by (cases "leaf_entry ps v s = 0") (simp_all add: vm_word_def vmp_pte_characterise_def [of 0])

text \<open>The entry of an address is a leaf of the address space.\<close>

lemma fetch_leaf:
  assumes "space_ok W ps s" and "vmp_fetch_pte ps v s = Ok (Some a)"
  obtains d where "table_at ps s (Suc 0) d" and "a = pte_at d (vmp_addr_unpack v ! 1)" and "leaf_ok ps s a"
proof -
  note S = space_okD [OF assms(1)]
  have "\<exists>d. table_at ps s (Suc 0) d \<and> a = pte_at d (vmp_addr_unpack v ! 1)"
    by (rule fetch_pte_kept(2) [OF S(6,5) _ refl assms(2)]) (simp add: dirs_kept_def)
  with S(7) unpack_less [of 1] that show thesis by (auto simp: leaves_ok_def)
qed

lemma leaf_entry_fetch:
  assumes "leaf_entry ps v s \<noteq> 0"
  obtains a where "vmp_fetch_pte ps v s = Ok (Some a)" and "leaf_entry ps v s = SOFT_pages s a"
  using assms by (auto simp: leaf_entry_def split: outcome.splits option.splits)

lemma leaf_entry_cases:
  assumes s: "space_ok W ps s"
  obtains (zero) "leaf_entry ps v s = 0"
  | (page) a q where "vmp_fetch_pte ps v s = Ok (Some a)" and "leaf_entry ps v s = SOFT_pages s a"
      and "refers_to (SOFT_pages s a) q" and "anon_at ps s a q"
  | (swap) a where "vmp_fetch_pte ps v s = Ok (Some a)" and "leaf_entry ps v s = SOFT_pages s a"
      and "vmp_pte_characterise (SOFT_pages s a) = Ok kPTEKindSwap"
proof (cases "leaf_entry ps v s = 0")
  case False
  then obtain a where a: "vmp_fetch_pte ps v s = Ok (Some a)" "leaf_entry ps v s = SOFT_pages s a"
    by (rule leaf_entry_fetch)
  obtain d where "leaf_ok ps s a" by (rule fetch_leaf [OF s a(1)])
  with False a page swap show thesis unfolding leaf_ok_def Let_def refers_to_def anon_at_def by metis
qed (use zero in blast)

section \<open>Growth keeps every word\<close>

lemma new_link_cases:
  assumes n: "new_links ps s t" and d: "table_of ps t d" "i < 512"
  obtains (same) "SOFT_pages t (pte_at d i) = (if table_of ps s d then SOFT_pages s (pte_at d i) else 0)"
  | (new) p w where "p < SOFT_NPAGES" and "SOFT_pages t (pte_at d i) = vmp_pte_hw_create (of_nat p) w"
      and "use (mypages s p) = kPageUseFree" and "\<not> table_of ps s p"
      and "\<not> is_table (use (mypages t p)) \<longrightarrow> (\<forall>b. b div PGSIZE = p \<longrightarrow> SOFT_pages t b = 0)"
proof -
  have "\<not> table_of ps s p" if "use (mypages s p) = kPageUseFree" for p
    using that table_use(2) [of ps s p] by auto
  with n d that show thesis unfolding new_links_def by metis
qed

lemma hw_target_unique:
  "p < SOFT_NPAGES \<Longrightarrow> q < SOFT_NPAGES \<Longrightarrow>
     vmp_pte_hw_create (of_nat p) w = vmp_pte_hw_create (of_nat q) w' \<Longrightarrow> p = q"
  using entry_target_unique [of p q "vmp_pte_hw_create (of_nat p) w"] by blast

text \<open>Below a table that is new the walk finds nothing, or an entry of a new leaf table.\<close>

lemma fetch_new_table:
  assumes t: "dirs_ok ps t" and n: "new_links ps s t"
  shows "table_at ps t (Suc l) d \<Longrightarrow> \<not> table_of ps s d \<Longrightarrow>
    fetch_level (Suc l) (d * PGSIZE) v t = Ok None \<or>
    (\<exists>d'. fetch_level (Suc l) (d * PGSIZE) v t = Ok (Some (pte_at d' (vmp_addr_unpack v ! 1))) \<and>
       table_at ps t (Suc 0) d' \<and> \<not> table_of ps s d')"
proof (induction l arbitrary: d)
  case 0
  then show ?case by (auto simp: pte_at_def)
next
  case (Suc l)
  from t Suc.prems(1) show ?case
  proof (cases rule: fetch_step [where v = v])
    case (some p)
    have i: "vmp_addr_unpack v ! Suc (Suc l) < 512"
      using table_atD(5) [OF Suc.prems(1)] by (intro unpack_less) simp_all
    from n table_atD(2) [OF Suc.prems(1)] i have "\<not> table_of ps s p"
    proof (cases rule: new_link_cases)
      case same
      then show ?thesis using Suc.prems(2) some(2) by simp
    next
      case (new p' w)
      then show ?thesis using hw_target_unique [of p' p w True] some(2) table_atD(1) [OF some(1)] by auto
    qed
    with Suc.IH [OF some(1)] some(3) show ?thesis by (simp del: fetch_level.simps)
  qed simp
qed

text \<open>Below a table that is not new the walk finds what it found before; where that was nothing, it may
  find an entry of a new leaf table.\<close>

lemma fetch_old_table:
  assumes s: "dirs_ok ps s" and t: "dirs_ok ps t" and g: "grown ps s t"
  shows "table_at ps s (Suc l) d \<Longrightarrow>
    fetch_level (Suc l) (d * PGSIZE) v t = fetch_level (Suc l) (d * PGSIZE) v s \<or>
    fetch_level (Suc l) (d * PGSIZE) v s = Ok None \<and>
    (\<exists>d'. fetch_level (Suc l) (d * PGSIZE) v t = Ok (Some (pte_at d' (vmp_addr_unpack v ! 1))) \<and>
       table_at ps t (Suc 0) d' \<and> \<not> table_of ps s d')"
proof (induction l arbitrary: d)
  case 0
  then show ?case by simp
next
  case (Suc l)
  note dt = grown_table_at [OF g Suc.prems]
  have i: "vmp_addr_unpack v ! Suc (Suc l) < 512" using table_atD(5) [OF Suc.prems] by (intro unpack_less) simp_all
  have a: "d * PGSIZE + PTE_SIZE * (vmp_addr_unpack v ! Suc (Suc l)) = pte_at d (vmp_addr_unpack v ! Suc (Suc l))"
    by (simp add: pte_at_def)
  from s Suc.prems show ?case
  proof (cases rule: fetch_step [where v = v])
    case none
    from t dt show ?thesis
    proof (cases rule: fetch_step [where v = v])
      case (some p)
      from grownD(1) [OF g] table_atD(2) [OF dt] i have "\<not> table_of ps s p"
      proof (cases rule: new_link_cases)
        case same
        then show ?thesis using none(1) some(2) table_atD(2) [OF Suc.prems] by simp
      next
        case (new p' w)
        then show ?thesis using hw_target_unique [of p' p w True] some(2) table_atD(1) [OF some(1)] by auto
      qed
      from fetch_new_table [OF t grownD(1) [OF g] some(1) this, of v] none(2) some(3) show ?thesis
        by (auto simp del: fetch_level.simps)
    qed (use none in \<open>simp del: fetch_level.simps\<close>)
  next
    case (some p)
    have "SOFT_pages t (pte_at d (vmp_addr_unpack v ! Suc (Suc l))) = vmp_pte_hw_create (of_nat p) True"
      using grown_entry [OF g Suc.prems i] some(2) by simp
    then have "fetch_level (Suc (Suc l)) (d * PGSIZE) v t = fetch_level (Suc l) (p * PGSIZE) v t"
      using fetch_level_step [of "d * PGSIZE" v l t] i table_atD(1) [OF Suc.prems] table_atD(1) [OF some(1)]
      by (simp add: a del: fetch_level.simps)
    with some(3) Suc.IH [OF some(1)] show ?thesis by (simp del: fetch_level.simps)
  qed
qed

lemma grown_fetch_pte:
  assumes s: "space_ok W ps s" and t: "space_ok W' ps t" and g: "grown ps s t"
  obtains (same) "vmp_fetch_pte ps v t = vmp_fetch_pte ps v s"
  | (new) d where "vmp_fetch_pte ps v s = Ok None"
      and "vmp_fetch_pte ps v t = Ok (Some (pte_at d (vmp_addr_unpack v ! 1)))"
      and "table_at ps t (Suc 0) d" and "\<not> table_of ps s d"
proof -
  note S = space_okD [OF s] and T = space_okD [OF t]
  have r: "table_at ps s (Suc 3) (pml4_page (procs s ps))" "pml4 (procs s ps) = pml4_page (procs s ps) * PGSIZE"
    "pml4 (procs t ps) = pml4 (procs s ps)"
    using S(5) g by (simp_all add: root_ok_def grown_def)
  have l4: "VMP_TABLE_LEVELS = Suc 3" by simp
  from fetch_old_table [OF S(6) T(6) g r(1), of v] same new show thesis
    unfolding vmp_fetch_pte_def r(2,3) l4 by blast
qed

text \<open>A new entry of a leaf table denotes zeroes.\<close>

lemma new_leaf_word:
  assumes t: "space_ok W ps t" and n: "new_links ps s t" and a: "vmp_fetch_pte ps v t = Ok (Some a)"
    and z: "table_of ps s (a div PGSIZE) \<longrightarrow> SOFT_pages s a = 0" and off: "off < PGSIZE"
  shows "vm_word ps v off t = Some 0"
proof -
  obtain d where d: "table_at ps t (Suc 0) d" "a = pte_at d (vmp_addr_unpack v ! 1)" "leaf_ok ps t a"
    by (rule fetch_leaf [OF t a])
  have i: "vmp_addr_unpack v ! 1 < 512" by (rule unpack_less) simp_all
  have e: "leaf_entry ps v t = SOFT_pages t a" using a by (simp add: leaf_entry_def)
  from n table_atD(2) [OF d(1)] i show ?thesis
  proof (cases rule: new_link_cases)
    case same
    then have "SOFT_pages t a = 0" using z d(2) i by (auto split: if_splits)
    then show ?thesis using e by (simp add: vm_word_zero)
  next
    case (new p w)
    then have r: "refers_to (leaf_entry ps v t) p" using e d(2) by (auto simp: refers_to_def)
    obtain w' where "anon_at ps t a p"
      by (rule valid_leaf [OF d(3), of p]) (use new d(2) in \<open>simp_all add: small_pfn\<close>)
    then have "\<not> is_table (use (mypages t p))" by (simp add: anon_at_def is_table_def)
    moreover have "(p * PGSIZE + off) div PGSIZE = p" using off by simp
    ultimately have "SOFT_pages t (p * PGSIZE + off) = 0" using new(5) by blast
    then show ?thesis using vm_word_page [OF r] by simp
  qed
qed

lemma grown_vm_word:
  assumes s: "space_ok W ps s" and t: "space_ok W' ps t" and g: "grown ps s t" and off: "off < PGSIZE"
  shows "vm_word ps v off t = vm_word ps v off s"
  using s t g
proof (cases rule: grown_fetch_pte [where v = v])
  case (new d)
  have "vm_word ps v off t = Some 0"
    by (rule new_leaf_word [OF t grownD(1) [OF g] new(2) _ off]) (use new(4) unpack_less [of 1] in simp)
  then show ?thesis using new(1) by (simp add: vm_word_zero leaf_entry_def)
next
  case same
  have keep: "leaf_entry ps v t = leaf_entry ps v s" if nz: "leaf_entry ps v s \<noteq> 0"
  proof -
    obtain a where a: "vmp_fetch_pte ps v s = Ok (Some a)" "leaf_entry ps v s = SOFT_pages s a"
      using nz by (rule leaf_entry_fetch)
    obtain d where "table_at ps s (Suc 0) d" "a = pte_at d (vmp_addr_unpack v ! 1)" by (rule fetch_leaf [OF s a(1)])
    then have "SOFT_pages t a = SOFT_pages s a" using grown_entry [OF g] unpack_less [of 1] nz a(2) by simp
    with a same show ?thesis by (simp add: leaf_entry_def)
  qed
  from s show ?thesis
  proof (cases rule: leaf_entry_cases [where v = v])
    case zero
    show ?thesis
    proof (cases "leaf_entry ps v t = 0")
      case False
      then obtain a where a: "vmp_fetch_pte ps v t = Ok (Some a)" by (rule leaf_entry_fetch)
      then have "SOFT_pages s a = 0" using zero same by (simp add: leaf_entry_def)
      then have "vm_word ps v off t = Some 0" using new_leaf_word [OF t grownD(1) [OF g] a _ off] by blast
      with zero show ?thesis by (simp add: vm_word_zero)
    qed (use zero in \<open>simp add: vm_word_zero\<close>)
  next
    case (page a q)
    have r: "refers_to (leaf_entry ps v s) q" using page(2,3) by simp
    then have r': "refers_to (leaf_entry ps v t) q" using keep refers_to_nonzero by simp
    have "SOFT_pages t (q * PGSIZE + off) = SOFT_pages s (q * PGSIZE + off)"
      using grownD(6) [OF g, of "q * PGSIZE + off"] page(4) off by (simp add: anon_at_def is_table_def)
    with vm_word_page [OF r] vm_word_page [OF r'] show ?thesis by simp
  next
    case (swap a)
    have sw: "vmp_pte_characterise (leaf_entry ps v s) = Ok kPTEKindSwap" using swap(2,3) by simp
    then have "leaf_entry ps v s \<noteq> 0" by (auto simp: vmp_pte_characterise_def [of 0])
    with keep sw show ?thesis by (simp add: vm_word_swap)
  qed
qed

section \<open>A change of a page's state keeps every word\<close>

lemma leaf_changed_refers:
  assumes s: "space_ok W ps s" and c: "leaf_changed ps d i q s t"
  shows "refers_to (SOFT_pages s (pte_at d i)) q" and "refers_to (SOFT_pages t (pte_at d i)) q"
proof -
  note C = c [unfolded leaf_changed_def]
  have "backlink_ok ps s q" using space_okD(13) [OF s] C by (simp add: backlinks_ok_def anon_at_def)
  then show "refers_to (SOFT_pages s (pte_at d i)) q" using C unfolding backlink_ok_def anon_at_def refers_to_def by auto
  show "refers_to (SOFT_pages t (pte_at d i)) q" using C by (auto simp: refers_to_def anon_at_def)
qed

lemma leaf_changed_vm_word:
  assumes s: "space_ok W ps s" and c: "leaf_changed ps d i q s t" and off: "off < PGSIZE"
  shows "vm_word ps v off t = vm_word ps v off s"
proof -
  note S = space_okD [OF s] and C = c [unfolded leaf_changed_def]
  note fetch = leaf_changed_fetch [OF c S(6,5)]
  have d: "is_table (use (mypages s d))" using C table_atD(3) by blast
  have q: "q < SOFT_NPAGES" "use (mypages s q) = kPageUseAnonPrivate" using C by (simp_all add: anon_at_def)
  note e = leaf_changed_refers [OF s c]
  have mem: "SOFT_pages t (p * PGSIZE + off) = SOFT_pages s (p * PGSIZE + off)" if "\<not> is_table (use (mypages s p))" for p
  proof -
    have "(p * PGSIZE + off) div PGSIZE = p" using off by simp
    moreover have "pte_at d i div PGSIZE = d" using C by simp
    ultimately have "p * PGSIZE + off \<noteq> pte_at d i" using d that by metis
    then show ?thesis using C by blast
  qed
  show ?thesis
  proof (cases "vmp_fetch_pte ps v s = Ok (Some (pte_at d i))")
    case True
    then have "refers_to (leaf_entry ps v s) q" "refers_to (leaf_entry ps v t) q"
      using e fetch by (simp_all add: leaf_entry_def)
    then show ?thesis using mem [of q] q(2) by (simp add: vm_word_page is_table_def)
  next
    case False
    then have same: "leaf_entry ps v t = leaf_entry ps v s"
      using fetch C by (auto simp: leaf_entry_def split: outcome.splits option.splits)
    from s show ?thesis
    proof (cases rule: leaf_entry_cases [where v = v])
      case (page a p)
      then show ?thesis using same mem [of p] by (simp add: vm_word_page anon_at_def is_table_def)
    qed (use same in \<open>simp_all add: vm_word_zero vm_word_swap\<close>)
  qed
qed

lemma maps_anon_refers:
  assumes "space_ok W ps s" and "maps_anon ps v a q s"
  shows "refers_to (SOFT_pages s a) q" and "leaf_entry ps v s = SOFT_pages s a"
proof -
  have m: "vmp_fetch_pte ps v s = Ok (Some a)" "pte_valid (SOFT_pages s a)" "q < SOFT_NPAGES"
    "vmp_pte_hw_pfn (SOFT_pages s a) = of_nat q"
    using assms(2) by (simp_all add: maps_anon_def)
  show "refers_to (SOFT_pages s a) q"
    by (rule valid_leaf [OF maps_anon_leaf(2) [OF assms] m(2,4,3)]) (use m(3) in simp)
  show "leaf_entry ps v s = SOFT_pages s a" using m(1) by (simp add: leaf_entry_def)
qed

text \<open>Whatever was mapped stays mapped when the entry that changes ends up valid.\<close>

lemma leaf_changed_maps_anon:
  assumes s: "space_ok W ps s" and c: "leaf_changed ps d i q s t" and valid: "pte_valid (SOFT_pages t (pte_at d i))"
    and m: "maps_anon ps u b p s"
  shows "maps_anon ps u b p t"
proof -
  note S = space_okD [OF s] and C = c [unfolded leaf_changed_def]
  note fetch = leaf_changed_fetch [OF c S(6,5), of u]
  have p: "anon_at ps s b p" by (rule maps_anon_leaf(1) [OF s m])
  show ?thesis
  proof (cases "b = pte_at d i")
    case True
    have "p = q" using refers_to_unique maps_anon_refers(1) [OF s m] leaf_changed_refers(1) [OF s c] True by blast
    moreover obtain w where "SOFT_pages t b = vmp_pte_hw_create (of_nat q) w" "refcnt (mypages t q) = 1"
      using C True valid by auto
    ultimately show ?thesis using m fetch C by (simp add: maps_anon_def anon_at_def small_pfn)
  next
    case False
    then have "p \<noteq> q" using p C by (auto simp: anon_at_def)
    then show ?thesis using m fetch C False by (simp add: maps_anon_def)
  qed
qed

end
