(* ===== verification/Private_Pages.thy ===== *)
theory Private_Pages
  imports Logical_Memory
begin

text \<open>
  What the memory manager does to the private pages of a process: growing the address space and changing
  the state of a page leave every private page its page file slot and its contents, and a page becomes
  dirty no later than the moment its mapping stops being writeable.
\<close>

section \<open>Private pages\<close>

definition private_page :: "nat \<Rightarrow> vmm \<Rightarrow> page_ptr \<Rightarrow> bool" where
  "private_page ps s q \<longleftrightarrow> q < SOFT_NPAGES \<and> use (mypages s q) = kPageUseAnonPrivate \<and> process (mypages s q) = ps"

text \<open>A page that is clean, and to which the process cannot store: it is not mapped, or write-protected.\<close>

definition quiet :: "vmm \<Rightarrow> page_ptr \<Rightarrow> bool" where
  "quiet s q \<longleftrightarrow> \<not> dirty (mypages s q) \<and>
     \<not> (pte_valid (SOFT_pages s (referent_pte (mypages s q))) \<and>
        vmp_pte_hw_is_writeable (SOFT_pages s (referent_pte (mypages s q))))"

definition zero_filled :: "vmm \<Rightarrow> page_ptr \<Rightarrow> bool" where
  "zero_filled s q \<longleftrightarrow> (\<forall>a. a div PGSIZE = q \<longrightarrow> SOFT_pages s a = 0)"

text \<open>The pages of a system with one process: free pages, its tables, its private pages.\<close>

definition ordinary_pages :: "nat \<Rightarrow> vmm \<Rightarrow> bool" where
  "ordinary_pages ps s \<longleftrightarrow>
     (\<forall>q < SOFT_NPAGES. use (mypages s q) = kPageUseFree \<or> table_of ps s q \<or> private_page ps s q)"

text \<open>Private pages stay and keep their slots and their contents; new ones have no slot and are zero.\<close>

definition data_kept :: "nat \<Rightarrow> vmm \<Rightarrow> vmm \<Rightarrow> bool" where
  "data_kept ps s t \<longleftrightarrow> vmp_pagefile_state t = vmp_pagefile_state s \<and>
     (ordinary_pages ps s \<longrightarrow> ordinary_pages ps t) \<and>
     (\<forall>q. private_page ps s q \<longrightarrow> private_page ps t q \<and> drumslot (mypages t q) = drumslot (mypages s q) \<and>
        (\<forall>a. a div PGSIZE = q \<longrightarrow> SOFT_pages t a = SOFT_pages s a) \<and> (quiet t q \<longrightarrow> quiet s q)) \<and>
     (\<forall>q. private_page ps t q \<and> \<not> private_page ps s q \<longrightarrow> drumslot (mypages t q) = - 1 \<and> zero_filled t q)"

lemma data_keptD:
  assumes "data_kept ps s t"
  shows "vmp_pagefile_state t = vmp_pagefile_state s" and "ordinary_pages ps s \<Longrightarrow> ordinary_pages ps t"
    and "private_page ps s q \<Longrightarrow> private_page ps t q"
    and "private_page ps s q \<Longrightarrow> drumslot (mypages t q) = drumslot (mypages s q)"
    and "private_page ps s q \<Longrightarrow> a div PGSIZE = q \<Longrightarrow> SOFT_pages t a = SOFT_pages s a"
    and "private_page ps s q \<Longrightarrow> quiet t q \<Longrightarrow> quiet s q"
    and "private_page ps t q \<Longrightarrow> \<not> private_page ps s q \<Longrightarrow> drumslot (mypages t q) = - 1 \<and> zero_filled t q"
  using assms by (simp_all add: data_kept_def)

lemma data_kept_refl [simp]: "data_kept ps s s"
  by (simp add: data_kept_def)

lemma data_kept_trans:
  assumes st: "data_kept ps s t" and tu: "data_kept ps t u"
  shows "data_kept ps s u"
proof -
  note S = data_keptD [OF st] and T = data_keptD [OF tu]
  have "drumslot (mypages u q) = - 1 \<and> zero_filled u q" if q: "private_page ps u q" "\<not> private_page ps s q" for q
  proof (cases "private_page ps t q")
    case True
    then show ?thesis using S(7) [OF True q(2)] T(4,5) [OF True] by (simp add: zero_filled_def)
  qed (use T(7) q in blast)
  moreover have "private_page ps u q \<and> drumslot (mypages u q) = drumslot (mypages s q) \<and>
      (\<forall>a. a div PGSIZE = q \<longrightarrow> SOFT_pages u a = SOFT_pages s a) \<and> (quiet u q \<longrightarrow> quiet s q)" if q: "private_page ps s q" for q
    using S(3-6) [OF q] T(3-6) [OF S(3) [OF q]] by simp
  ultimately show ?thesis using S(1,2) T(1,2) by (simp add: data_kept_def)
qed

lemma data_kept_same:
  assumes "mypages t = mypages s" and "SOFT_pages t = SOFT_pages s" and "vmp_pagefile_state t = vmp_pagefile_state s"
  shows "data_kept ps s t"
  using assms by (auto simp: data_kept_def ordinary_pages_def private_page_def table_of_def quiet_def)

section \<open>The entry of a private page\<close>

lemma private_entry:
  assumes "space_ok W ps s" and "private_page ps s q"
  obtains d i where "table_at ps s (Suc 0) d" and "i < 512" and "referent_pte (mypages s q) = pte_at d i"
    and "refers_to (SOFT_pages s (pte_at d i)) q" and "anon_at ps s (pte_at d i) q"
proof -
  have "backlink_ok ps s q" using space_okD(13) [OF assms(1)] assms(2) by (simp add: backlinks_ok_def private_page_def)
  then show thesis using assms(2) unfolding backlink_ok_def
    by (auto simp: anon_at_def private_page_def intro: that)
qed

lemma private_entry_unique:
  assumes s: "space_ok W ps s" and "private_page ps s p" and "private_page ps s q"
    and "referent_pte (mypages s p) = referent_pte (mypages s q)"
  shows "p = q"
proof -
  obtain a where "refers_to (SOFT_pages s a) p" "referent_pte (mypages s p) = a"
    by (rule private_entry [OF s assms(2)]) simp
  moreover obtain b where "refers_to (SOFT_pages s b) q" "referent_pte (mypages s q) = b"
    by (rule private_entry [OF s assms(3)]) simp
  ultimately show ?thesis using assms(4) refers_to_unique by auto
qed

section \<open>Growth and changes of state\<close>

lemma grown_data_kept:
  assumes s: "space_ok W ps s" and g: "grown ps s t"
  shows "data_kept ps s t"
  unfolding data_kept_def
proof (intro conjI allI impI)
  show "vmp_pagefile_state t = vmp_pagefile_state s" using g by (simp add: grown_def)
  show "ordinary_pages ps t" if "ordinary_pages ps s"
    unfolding ordinary_pages_def
  proof (intro allI impI)
    fix q assume q: "q < SOFT_NPAGES"
    show "use (mypages t q) = kPageUseFree \<or> table_of ps t q \<or> private_page ps t q"
    proof (cases "use (mypages s q) = kPageUseFree")
      case True
      then show ?thesis
        using grownD(7) [OF g] q by (auto simp: newcomers_def unused_data_def private_page_def table_of_def)
    next
      case False
      then show ?thesis
        using that q grownD(2) [OF g False] grown_table_of [OF g, of q]
        by (auto simp: ordinary_pages_def private_page_def same_role_def)
    qed
  qed
next
  fix q assume q: "private_page ps s q"
  then have u: "use (mypages s q) \<noteq> kPageUseFree" "\<not> is_table (use (mypages s q))"
    by (simp_all add: private_page_def is_table_def)
  note pg = grownD(4) [OF g u]
  show "private_page ps t q" "drumslot (mypages t q) = drumslot (mypages s q)"
    using q pg by (simp_all add: private_page_def)
  show "SOFT_pages t a = SOFT_pages s a" if "a div PGSIZE = q" for a
    using grownD(6) [OF g] u that by simp
  obtain d i where e: "table_at ps s (Suc 0) d" "i < 512" "referent_pte (mypages s q) = pte_at d i"
    "refers_to (SOFT_pages s (pte_at d i)) q" by (rule private_entry [OF s q])
  have "SOFT_pages t (pte_at d i) = SOFT_pages s (pte_at d i)"
    by (rule grown_entry [OF g e(1,2) refers_to_nonzero [OF e(4)]])
  then show "quiet s q" if "quiet t q" using that e(3) pg by (simp add: quiet_def)
next
  fix q assume q: "private_page ps t q \<and> \<not> private_page ps s q"
  have "use (mypages s q) = kPageUseFree"
  proof (rule ccontr)
    assume "use (mypages s q) \<noteq> kPageUseFree"
    from grownD(2) [OF g this] q show False by (auto simp: private_page_def same_role_def)
  qed
  then have "unused_data ps t q"
    using q grownD(7) [OF g] by (auto simp: newcomers_def private_page_def is_table_def)
  then show "drumslot (mypages t q) = - 1" "zero_filled t q" by (simp_all add: unused_data_def zero_filled_def)
qed

lemma leaf_changed_data_kept:
  assumes s: "space_ok W ps s" and c: "leaf_changed ps d i q s t"
    and t: "vmp_pagefile_state t = vmp_pagefile_state s" "drumslot (mypages t q) = drumslot (mypages s q)"
      "quiet t q \<Longrightarrow> quiet s q"
  shows "data_kept ps s t"
proof -
  note C = c [unfolded leaf_changed_def]
  have d: "is_table (use (mypages s d))" using C table_atD(3) by blast
  have q: "private_page ps s q" "private_page ps t q" "referent_pte (mypages s q) = pte_at d i"
    using C by (simp_all add: anon_at_def private_page_def)
  have pp: "private_page ps t x = private_page ps s x" for x
    using C q by (cases "x = q") (simp_all add: private_page_def)
  have tab: "table_of ps t x = table_of ps s x" for x unfolding table_of_level leaf_changed_table_at [OF c] ..
  have "use (mypages t x) = use (mypages s x)" for x
    using C by (cases "x = q") (simp_all add: anon_at_def)
  then have ord: "ordinary_pages ps t = ordinary_pages ps s" by (simp add: ordinary_pages_def pp tab)
  have mem: "SOFT_pages t a = SOFT_pages s a" if "private_page ps s (a div PGSIZE)" for a
  proof -
    have "a div PGSIZE \<noteq> d" using that d by (auto simp: private_page_def is_table_def)
    then have "a \<noteq> pte_at d i" using C by auto
    then show ?thesis using C by blast
  qed
  have "drumslot (mypages t x) = drumslot (mypages s x) \<and> (quiet t x \<longrightarrow> quiet s x)" if x: "private_page ps s x" for x
  proof (cases "x = q")
    case False
    then have same: "mypages t x = mypages s x" using C by blast
    have "referent_pte (mypages s x) \<noteq> pte_at d i" using private_entry_unique [OF s x q(1)] q(3) False by auto
    then have "SOFT_pages t (referent_pte (mypages s x)) = SOFT_pages s (referent_pte (mypages s x))" using C by blast
    with same show ?thesis by (simp add: quiet_def)
  qed (use t in simp)
  with t(1) ord pp mem show ?thesis by (simp add: data_kept_def)
qed

end
