(* ===== verification/Fault_Resolution.thy ===== *)
theory Fault_Resolution
  imports Fault Private_Pages
begin

text \<open>
  What a page fault achieves in a consistent address space: every kind of entry that the handler can
  resolve without the page file (never touched, in transition, write-protected, valid) becomes a valid
  mapping, and the address space stays consistent.
\<close>

section \<open>The demand-zero fault\<close>

lemma space_ok_wirings:
  assumes "space_ok W ps s" and "\<And>q. table_of ps s q \<Longrightarrow> W' q = W q"
  shows "space_ok W' ps s"
  using assms by (auto simp: space_ok_def counted_def)

lemma data_entry_tables_ok:
  assumes s: "tables_ok ps s" and t: "mypages t = mypages s" "SOFT_pages_base t = SOFT_pages_base s"
    and w: "wsl_ok (wsl (procs t ps))" "set (entries (wsl (procs t ps))) = insert e (set (entries (wsl (procs s ps))))"
      "wsl_queue (wsl (procs t ps)) = (if locked then wsl_queue (wsl (procs s ps)) else wsl_queue (wsl (procs s ps)) @ [e])"
    and e: "\<not> is_pagetable e"
  shows "tables_ok ps t"
proof -
  have "table_ok ps t q" if q: "table_of ps t q" for q
  proof -
    have "table_ok ps s q" using s q t(1) by (simp add: tables_ok_def table_of_def)
    moreover have te: "table_entry q t = table_entry q s" by (rule table_entry_cong) (use t in simp_all)
    moreover have "table_entry q s \<noteq> e" using e by (auto simp: table_entry_def)
    ultimately show ?thesis
      using t(1) w(2,3) by (auto simp: table_ok_def page_is_root_table_def locked_entries_def split: if_splits)
  qed
  with s w(1) t(2) show ?thesis by (simp add: tables_ok_def low_base_def)
qed

text \<open>An address of the process that is not in the working set yet.\<close>

lemma data_key_absent:
  assumes s: "space_ok W ps s" and v: "low_vaddr v" "v \<notin> direct_map s"
    and nv: "\<And>a q. \<not> maps_anon ps v a q s"
  shows "vmp_wsl_find ps v s = None"
proof -
  note S = space_okD [OF s]
  have "wsle_vaddr e \<noteq> v" if "e \<in> set (entries (wsl (procs s ps)))" for e
  proof
    assume ev: "wsle_vaddr e = v"
    have "wsle_ok ps s e" using S(8) that by blast
    with ev nv have "is_pagetable e" unfolding wsle_ok_def by metis
    with \<open>wsle_ok ps s e\<close> obtain p where "table_of ps s p" "e = table_entry p s" by (auto simp: wsle_ok_def)
    with ev v(2) show False by (auto simp: direct_map_def table_entry_def table_of_def)
  qed
  then show ?thesis unfolding vmp_wsl_find_def wsl_find_None_iff [OF S(10) v(1)] by blast
qed

lemma leaf_path:
  assumes "table_path ps s v 3 P"
  shows "table_at ps s (Suc 0) (P 0)" and "vmp_addr_unpack v ! 1 < 512"
  using assms unpack_less [of 1] by (simp_all add: table_path_def)

lemma dirs_kept_path:
  assumes k: "dirs_kept ps s t" and at: "\<And>l p. table_at ps s l p \<Longrightarrow> table_at ps t l p" and path: "table_path ps s v 3 P"
  shows "table_path ps t v 3 P"
  unfolding table_path_def
proof (intro conjI allI impI)
  show "table_at ps t (Suc j) (P j)" if "j \<le> 3" for j using at path that by (simp add: table_path_def)
  fix j :: nat assume j: "j < 3"
  then have d: "table_at ps s (Suc (Suc j)) (P (Suc j))"
    "SOFT_pages s (pte_at (P (Suc j)) (vmp_addr_unpack v ! Suc (Suc j))) = vmp_pte_hw_create (of_nat (P j)) True"
    using path by (simp_all add: table_path_def)
  have i: "vmp_addr_unpack v ! Suc (Suc j) < 512" using j by (intro unpack_less) simp_all
  have "SOFT_pages s (pte_at (P (Suc j)) (vmp_addr_unpack v ! Suc (Suc j))) \<noteq> 0" using d(2) by simp
  with k d(1) i d(2)
  show "SOFT_pages t (pte_at (P (Suc j)) (vmp_addr_unpack v ! Suc (Suc j))) = vmp_pte_hw_create (of_nat (P j)) True"
    unfolding dirs_kept_def by metis
qed

lemma no_mapping:
  assumes "table_path ps s v 3 P" and "root_ok ps s" and "P 3 = pml4_page (procs s ps)"
    and "\<not> pte_valid (SOFT_pages s (pte_at (P 0) (vmp_addr_unpack v ! 1)))"
  shows "\<not> maps_anon ps v a q s"
  using assms path_fetch_pte [OF assms(1)] by (auto simp: maps_anon_def root_ok_def)

text \<open>What the fault does to the page frame database and the working set, before the invariant of the
  address space is looked at.\<close>

lemma fault_zero_counted:
  assumes s: "space_ok W 0 s" and d: "table_at 0 s (Suc 0) d" and i: "i < 512" and k: "plenty (Suc k) 0 s"
  obtains p s1 s3 where "vmp_page_alloc_locked kPageUseAnonPrivate False s = Ok (Some p, s1)"
    and "taken p s s1" and "handed_out p kPageUseAnonPrivate s1"
    and "vmp_pagetable_page_nonswap_pte_created 0 d True
      (write_pte (pte_at d i) (vmp_pte_hw_create (of_nat p) b) (page_update p (\<lambda>pg. pg\<lparr>process := 0\<rparr>) s1)) = Ok s3"
    and "pfndb s3" and "tables_ok 0 s3" and "plenty k 0 s3" and "p \<noteq> d"
    and "mypages s3 = (mypages s)(p := (mypages s1 p)\<lparr>process := 0\<rparr>, d := (mypages s d)\<lparr>refcnt := refcnt (mypages s d) + 1,
        nonzero_ptes := nonzero_ptes (mypages s d) + 1, nonswap_ptes := nonswap_ptes (mypages s d) + 1\<rparr>)"
    and "SOFT_pages s3 = (\<lambda>a. if a = pte_at d i then vmp_pte_hw_create (of_nat p) b else if a div PGSIZE = p then 0 else SOFT_pages s a)"
    and "tables_frame 0 (write_pte (pte_at d i) (vmp_pte_hw_create (of_nat p) b) (page_update p (\<lambda>pg. pg\<lparr>process := 0\<rparr>) s1)) s3"
proof -
  note S = space_okD [OF s] and D = table_atD [OF d]
  obtain p s1 where s1: "vmp_page_alloc_locked kPageUseAnonPrivate False s = Ok (Some p, s1)" "taken p s s1"
    "handed_out p kPageUseAnonPrivate s1"
    by (rule plenty_alloc [OF s k, of kPageUseAnonPrivate]) simp
  note H = s1(3) [unfolded handed_out_def] and pd = taken_not_table [OF s1(2) d]
  let ?u = "page_update p (\<lambda>pg. pg\<lparr>process := 0\<rparr>) s1"
  let ?s2 = "write_pte (pte_at d i) (vmp_pte_hw_create (of_nat p) b) ?u"
  have "taken p s ?u" by (rule taken_page_update [OF s1(2)]) (simp add: same_place_def)
  note T = takenD [OF this]
  have ok2: "tables_ok 0 ?s2"
    by (rule tables_ok_other [OF S(2), where p = p]) (use T H in \<open>simp_all add: table_of_def is_table_def\<close>)
  have d2: "table_of 0 ?s2 d" "mypages ?s2 d = mypages s d" using D(2) T(4) pd by (auto simp: table_of_def)
  obtain s3 where s3: "vmp_pagetable_page_nonswap_pte_created 0 d True ?s2 = Ok s3" "pfndb s3" "tables_ok 0 s3"
    "tables_frame 0 ?s2 s3"
    "mypages s3 = (mypages ?s2)(d := (mypages ?s2 d)\<lparr>refcnt := refcnt (mypages ?s2 d) + 1,
        nonzero_ptes := nonzero_ptes (mypages ?s2 d) + 1, nonswap_ptes := nonswap_ptes (mypages ?s2 d) + 1\<rparr>)"
    by (rule nonswap_created_ok [OF _ ok2 d2(1), of True])
      (use T(3) counted_bounds(3) [OF S(9) D(2)] d2(2) in simp_all)
  note F = tables_frameD [OF s3(4)]
  have m3: "mypages s3 = (mypages s)(p := (mypages s1 p)\<lparr>process := 0\<rparr>, d := (mypages s d)\<lparr>refcnt := refcnt (mypages s d) + 1,
      nonzero_ptes := nonzero_ptes (mypages s d) + 1, nonswap_ptes := nonswap_ptes (mypages s d) + 1\<rparr>)"
    using s3(5) T(4) pd d2(2) by (auto simp: fun_eq_iff)
  have "plenty k 0 s3"
    by (rule plenty_taken [OF k s s3(2), of p]) (use k F T m3 D(2) in \<open>auto simp: plenty_def Let_def\<close>)
  then show thesis using that [OF s1 s3(1-3) _ pd m3 _ s3(4)] F(1) T(9) by (simp add: fun_eq_iff)
qed

text \<open>The page then enters the working set as the youngest entry.\<close>

lemma data_page_entered:
  assumes s: "space_ok W 0 s" and t: "pfndb t" "tables_ok 0 t" "plenty k 0 t" and same: "tables_frame 0 u t"
      "procs u = procs s" "vmparam u = vmparam s"
    and v: "low_vaddr v" and none: "vmp_wsl_find 0 v s = None"
  obtains w where "vmp_wsl_insert 0 v False False t = Ok (wsl_update_ps 0 (\<lambda>_. w) t)"
    and "tables_ok 0 (wsl_update_ps 0 (\<lambda>_. w) t)" and "wsl_counted w"
    and "set (entries w) = insert \<lparr>wsle_vaddr = v, is_pagetable = False\<rparr> (set (entries (wsl (procs s 0))))"
    and "nentries w \<le> wsl_max w"
    and "unat (wsl_max w) \<le> unat (wsl_max (wsl (procs s 0))) + unat (ws_page_expansion_count (vmparam s))"
    and "data_queue w = data_queue (wsl (procs s 0)) @ [\<lparr>wsle_vaddr = v, is_pagetable = False\<rparr>]"
proof -
  note F = tables_frameD [OF same(1)]
  let ?e = "\<lparr>wsle_vaddr = v, is_pagetable = False\<rparr>"
  have none': "vmp_wsl_find 0 v t = None" using none F(4) same(2) by (simp add: vmp_wsl_find_def wsl_find_def)
  have w3: "wsl_ok (wsl (procs t 0))" "wsl_counted (wsl (procs t 0))"
    using t(2) space_okD(4) [OF s] F(4,5) same(2) by (simp_all add: tables_ok_def wsl_counted_def)
  obtain w where w: "vmp_wsl_insert 0 v False False t = Ok (wsl_update_ps 0 (\<lambda>_. w) t)"
    "wsl_ok w" "wsl_counted w" "set (entries w) = insert ?e (set (entries (wsl (procs t 0))))"
    "wsl_queue w = (if False then wsl_queue (wsl (procs t 0)) else wsl_queue (wsl (procs t 0)) @ [?e])"
    "nentries w \<le> wsl_max w"
    "unat (wsl_max w) \<le> unat (wsl_max (wsl (procs t 0))) + unat (ws_page_expansion_count (vmparam t))"
    by (rule wsl_insert_plenty [OF t(1) w3 t(3) none' v])
  have "tables_ok 0 (wsl_update_ps 0 (\<lambda>_. w) t)"
    by (rule data_entry_tables_ok [OF t(2), where e = ?e and locked = False]) (use w in simp_all)
  moreover have "data_queue w = data_queue (wsl (procs s 0)) @ [?e]" using w(5) F(11) same(2) by (simp add: data_queue_def)
  ultimately show thesis using that w F(3,4,6) same(2,3) by simp
qed

lemma fault_zero_ok:
  assumes s: "space_ok (wired P) 0 s" and path: "table_path 0 s v 3 P" "P 3 = pml4_page (procs s 0)"
    and z: "SOFT_pages s (pte_at (P 0) (vmp_addr_unpack v ! 1)) = 0" and k: "plenty (Suc k) 0 s"
    and vad: "vad_section vad = None" and v: "low_vaddr v" "v \<notin> direct_map s"
    and st: "ws_pte st = pte_at (P 0) (vmp_addr_unpack v ! 1)" "ws_pages st ! 0 = Some (P 0)"
  obtains p t where "fault_zero v wr vad st None s = Ok (0, None, t)" and "space_ok (wired P) 0 t"
    and "linked 0 p (P 0) (vmp_addr_unpack v ! 1) (wr \<and> vad_writeable vad) s t"
    and "use (mypages t p) = kPageUseAnonPrivate" and "plenty k 0 t"
    and "maps_anon 0 v (pte_at (P 0) (vmp_addr_unpack v ! 1)) p t" and "table_path 0 t v 3 P"
    and "vmp_wsl_find 0 v t \<noteq> None"
    and "data_queue (wsl (procs t 0)) = data_queue (wsl (procs s 0)) @ [\<lparr>wsle_vaddr = v, is_pagetable = False\<rparr>]"
proof -
  let ?i = "vmp_addr_unpack v ! 1" and ?d = "P 0" and ?wr = "wr \<and> vad_writeable vad"
  let ?a = "pte_at (P 0) (vmp_addr_unpack v ! 1)" and ?e = "\<lparr>wsle_vaddr = v, is_pagetable = False\<rparr>"
  note S = space_okD [OF s] and L = leaf_path [OF path(1)]
  note D = table_atD [OF L(1)]
  obtain p s1 s3 where a: "vmp_page_alloc_locked kPageUseAnonPrivate False s = Ok (Some p, s1)"
    "taken p s s1" "handed_out p kPageUseAnonPrivate s1"
    "vmp_pagetable_page_nonswap_pte_created 0 ?d True
      (write_pte ?a (vmp_pte_hw_create (of_nat p) ?wr) (page_update p (\<lambda>pg. pg\<lparr>process := 0\<rparr>) s1)) = Ok s3"
    "pfndb s3" "tables_ok 0 s3" "plenty k 0 s3" "p \<noteq> ?d"
    "mypages s3 = (mypages s)(p := (mypages s1 p)\<lparr>process := 0\<rparr>, ?d := (mypages s ?d)\<lparr>refcnt := refcnt (mypages s ?d) + 1,
        nonzero_ptes := nonzero_ptes (mypages s ?d) + 1, nonswap_ptes := nonswap_ptes (mypages s ?d) + 1\<rparr>)"
    "SOFT_pages s3 = (\<lambda>a. if a = ?a then vmp_pte_hw_create (of_nat p) ?wr else if a div PGSIZE = p then 0 else SOFT_pages s a)"
    "tables_frame 0 (write_pte ?a (vmp_pte_hw_create (of_nat p) ?wr) (page_update p (\<lambda>pg. pg\<lparr>process := 0\<rparr>) s1)) s3"
    by (rule fault_zero_counted [OF s L k, of ?wr])
  note T = takenD [OF a(2)] and H = a(3) [unfolded handed_out_def] and F = tables_frameD [OF a(11)]
  have none: "vmp_wsl_find 0 v s = None"
    using data_key_absent [OF s v] no_mapping [OF path(1) S(5) path(2)] z by simp
  obtain w where w: "vmp_wsl_insert 0 v False False s3 = Ok (wsl_update_ps 0 (\<lambda>_. w) s3)"
    "tables_ok 0 (wsl_update_ps 0 (\<lambda>_. w) s3)" "wsl_counted w"
    "set (entries w) = insert ?e (set (entries (wsl (procs s 0))))" "nentries w \<le> wsl_max w"
    "unat (wsl_max w) \<le> unat (wsl_max (wsl (procs s 0))) + unat (ws_page_expansion_count (vmparam s))"
    "data_queue w = data_queue (wsl (procs s 0)) @ [?e]"
    by (rule data_page_entered [OF s a(5-7,11) _ _ v(1) none]) (simp_all add: T)
  let ?t = "page_update p (\<lambda>pg. pg\<lparr>referent_pte := ?a\<rparr>) (wsl_update_ps 0 (\<lambda>_. w) s3)"
  have P: "mypages ?t p = (mypages s1 p)\<lparr>process := 0, referent_pte := ?a\<rparr>" using a(8,9) by simp
  have pft: "pfndb ?t" by (rule pfndb_page_update) (use a(5) T(1) in \<open>simp_all add: same_place_def\<close>)
  have okt: "tables_ok 0 ?t"
    by (rule tables_ok_other [OF w(2), where p = p]) (use a(8,9) H in \<open>simp_all add: table_of_def is_table_def\<close>)
  have link: "linked 0 p ?d ?i ?wr s ?t"
    unfolding linked_def
    by (intro conjI) (use T L z P H F a(8-10) in \<open>simp_all add: fun_eq_iff\<close>)
  note G = linked_grown [OF link L(1)]
  have patht: "table_path 0 ?t v 3 P"
    by (rule dirs_kept_path [OF grown_dirs_kept [OF G(1)] grown_table_at [OF G(1)] path(1)])
  have code: "fault_zero v wr vad st None s = Ok (0, None, ?t)"
    using vad a(1,4) w(1) st D(1) L(2) pfndb_pfn [OF T(3,1)] by (simp add: fault_zero_def mdl_record_def Let_def)
  have maps: "maps_anon 0 v ?a p ?t"
    using path_fetch_pte [OF patht] S(5) path(2) L(2) D(1) T(1) P H linked_entry [OF link L(2), of ?d] G(1)
    by (simp add: maps_anon_def root_ok_def grown_def small_pfn)
  have dm: "direct_map ?t = direct_map s" by (rule direct_map_cong [OF S(1) pft]) (use G(1) in \<open>simp add: grown_def\<close>)
  have "space_ok ((wired P)(p := 1)) 0 ?t"
  proof (rule space_ok_linked [OF s link L(1) _ pft okt])
    show "wsle_ok 0 ?t ?e" using maps v(2) dm by (auto simp: wsle_ok_def)
  qed (use P H w(3,4) maps in \<open>simp_all add: new_page_def maps_anon_def\<close>)
  then have ok: "space_ok (wired P) 0 ?t"
    by (rule space_ok_wirings) (use P H in \<open>auto simp: table_of_def is_table_def\<close>)
  have "plenty k 0 ?t"
    by (rule plenty_taken [OF k s pft, of p]) (use F w(5,6) T a(9) table_atD(2) [OF L(1)] in auto)
  moreover have "vmp_wsl_find 0 v ?t \<noteq> None"
    using wsl_find_None_iff [OF space_okD(10) [OF ok] v(1)] w(4) by (auto simp: vmp_wsl_find_def)
  moreover have "use (mypages ?t p) = kPageUseAnonPrivate" using P H by simp
  moreover have "data_queue (wsl (procs ?t 0)) = data_queue (wsl (procs s 0)) @ [?e]" using w(7) by simp
  ultimately show thesis using that [OF code ok link] maps patht by blast
qed

section \<open>The other faults\<close>

lemma leaf_changed_path:
  assumes "leaf_changed ps d i q s t" and "table_path ps s v 3 P"
  shows "table_path ps t v 3 P"
proof (rule dirs_kept_path [OF _ _ assms(2)])
  show "table_at ps t l p" if "table_at ps s l p" for l p using that leaf_changed_table_at [OF assms(1)] by simp
  have "x \<noteq> d" if "table_at ps s (Suc (Suc l)) x" for l x
    using that assms(1) table_at_unique by (fastforce simp: leaf_changed_def)
  then show "dirs_kept ps s t" using assms(1) by (auto simp: dirs_kept_def leaf_changed_def)
qed

lemma set_writeable_create: "pte_set_writeable (vmp_pte_hw_create n w) = vmp_pte_hw_create n True"
  by (rule bit_word_eqI) (auto simp: pte_set_writeable_def vmp_pte_hw_create_def bit_set_field Let_def)

lemma fault_trans_ok:
  assumes s: "space_ok (wired P) 0 s" and path: "table_path 0 s v 3 P" "P 3 = pml4_page (procs s 0)"
    and a: "a = pte_at (P 0) (vmp_addr_unpack v ! 1)"
    and tr: "SOFT_pages s a = vmp_pte_trans_create 0 (of_nat q)" "anon_at 0 s a q" "refcnt (mypages s q) = 0"
    and k: "plenty (Suc k) 0 s" and v: "low_vaddr v" "v \<notin> direct_map s"
  obtains t where "fault_trans v wr a None s = Ok (0, None, t)" and "space_ok (wired P) 0 t"
    and "leaf_changed 0 (P 0) (vmp_addr_unpack v ! 1) q s t" and "maps_anon 0 v a q t" and "plenty k 0 t"
    and "SOFT_pages t = (SOFT_pages s)(a := vmp_pte_hw_create (of_nat q) False)"
    and "vad_tree (procs t 0) = vad_tree (procs s 0)" and "vmp_wsl_find 0 v t \<noteq> None" and "data_kept 0 s t"
proof -
  let ?i = "vmp_addr_unpack v ! 1" and ?d = "P 0"
  note S = space_okD [OF s] and L = leaf_path [OF path(1)]
  note D = table_atD [OF L(1)]
  have q: "q < SOFT_NPAGES" "use (mypages s q) = kPageUseAnonPrivate" using tr(2) by (simp_all add: anon_at_def)
  obtain s1 where s1: "vmp_page_retain_locked q s = Ok s1" "pfndb s1"
    "mypages s1 = (mypages s)(q := bump_ref (mypages s q))" "rest_unchanged s s1"
    by (rule retain_ok [OF S(1) q(1)]) (use q tr(3) in simp_all)
  define s2 where "s2 = write_pte a (vmp_pte_hw_create (of_nat q) False) s1"
  have R: "procs s2 = procs s" "SOFT_pages_base s2 = SOFT_pages_base s" "vmparam s2 = vmparam s"
    "SOFT_pages s2 = (SOFT_pages s)(a := vmp_pte_hw_create (of_nat q) False)"
    using s1(4) by (simp_all add: s2_def rest_unchanged_def)
  have pf2: "pfndb s2" using s1(2) by (simp add: s2_def)
  have none: "vmp_wsl_find 0 v s2 = None"
    using data_key_absent [OF s v] no_mapping [OF path(1) S(5) path(2)] tr(1) a R(1) by (simp add: vmp_wsl_find_def)
  have use2: "\<forall>x. x \<noteq> q \<longrightarrow> use (mypages s2 x) = use (mypages s x)" using s1(3) by (simp add: s2_def)
  have same2: "\<forall>x. x \<noteq> q \<longrightarrow> \<not> table_of 0 s x \<longrightarrow> mypages s2 x = mypages s x" using s1(3) by (simp add: s2_def)
  have k2: "plenty k 0 s2"
    by (rule plenty_taken [OF k s pf2 R(3) _ _ use2 same2]) (use k R in \<open>auto simp: plenty_def Let_def\<close>)
  have w2: "wsl_ok (wsl (procs s2 0))" "wsl_counted (wsl (procs s2 0))" using S(4,10) R(1) by simp_all
  let ?e = "\<lparr>wsle_vaddr = v, is_pagetable = False\<rparr>"
  obtain w where w: "vmp_wsl_insert 0 v False False s2 = Ok (wsl_update_ps 0 (\<lambda>_. w) s2)"
    "wsl_ok w" "wsl_counted w" "set (entries w) = insert ?e (set (entries (wsl (procs s2 0))))"
    "wsl_queue w = (if False then wsl_queue (wsl (procs s2 0)) else wsl_queue (wsl (procs s2 0)) @ [?e])"
    "nentries w \<le> wsl_max w"
    "unat (wsl_max w) \<le> unat (wsl_max (wsl (procs s2 0))) + unat (ws_page_expansion_count (vmparam s2))"
    by (rule wsl_insert_plenty [OF pf2 w2 k2 none v(1)])
  define t where "t = wsl_update_ps 0 (\<lambda>_. w) s2"
  have pft: "pfndb t" using pf2 by (simp add: t_def)
  have "tables_ok 0 s2"
    by (rule tables_ok_other [OF S(2), of q]) (use s1(3) q R in \<open>simp_all add: s2_def table_of_def is_table_def\<close>)
  then have okt: "tables_ok 0 t"
    by (rule data_entry_tables_ok [where e = ?e and locked = False]) (use w in \<open>simp_all add: t_def\<close>)
  have pfnq: "pfn (mypages s1 q) = of_nat q" by (rule pfndb_pfn [OF s1(2) q(1)])
  have code: "fault_trans v wr a None s = Ok (0, None, t)"
  proof -
    have "load_pte a s = Ok (vmp_pte_trans_create 0 (of_nat q))" "store_pte a x u = Ok (write_pte a x u)" for x u
      using D(1) L(2) a tr(1) by simp_all
    then show ?thesis
      using s1(1) w(1) q(1) pfnq by (simp add: fault_trans_def trans_paddr_of_nat t_def s2_def)
  qed
  have ch: "leaf_changed 0 ?d ?i q s t"
    using L tr a s1(3) R by (auto simp: leaf_changed_def anon_at_def t_def s2_def)
  note fetch = leaf_changed_fetch [OF ch S(6,5)]
  have fv: "vmp_fetch_pte 0 v s = Ok (Some a)"
    using path_fetch_pte [OF path(1)] S(5) path(2) a by (simp add: root_ok_def)
  have ok: "space_ok (wired P) 0 t"
    by (rule space_ok_leaf_changed [OF s ch pft okt, of ?e])
      (use w R a tr(1) fv v(2) in \<open>auto simp: t_def\<close>)
  have maps: "maps_anon 0 v a q t"
    using fetch fv L D(1) q s1(3) R tr(3) a by (simp add: maps_anon_def t_def s2_def small_pfn)
  have "plenty k 0 t"
    by (rule plenty_taken [OF k s pft, of q]) (use w R use2 same2 in \<open>simp_all add: t_def\<close>)
  moreover have "vmp_wsl_find 0 v t \<noteq> None"
    using wsl_find_None_iff [OF space_okD(10) [OF ok] v(1)] w(4) by (auto simp: vmp_wsl_find_def t_def)
  moreover have "data_kept 0 s t"
    by (rule leaf_changed_data_kept [OF s ch])
      (use s1(3,4) tr a in \<open>simp_all add: t_def s2_def rest_unchanged_def quiet_def anon_at_def\<close>)
  ultimately show thesis using that [OF code ok ch maps] R by (simp add: t_def)
qed

lemma fault_write_protected_ok:
  assumes s: "space_ok W 0 s" and d: "table_at 0 s (Suc 0) d" "i < 512" and a: "a = pte_at d i"
    and hw: "SOFT_pages s a = vmp_pte_hw_create (of_nat q) False" "anon_at 0 s a q" "refcnt (mypages s q) = 1"
    and vad: "\<not> vad_cow vad"
  obtains t where "fault_write_protected vad a None s = Ok (0, None, t)" and "space_ok W 0 t"
    and "leaf_changed 0 d i q s t" and "t = write_pte a (vmp_pte_hw_create (of_nat q) True) s"
proof -
  note S = space_okD [OF s]
  let ?t = "write_pte a (vmp_pte_hw_create (of_nat q) True) s"
  have sw: "pte_set_writeable (vmp_pte_hw_create (of_nat q) False) = vmp_pte_hw_create (of_nat q) True"
    by (rule set_writeable_create)
  have code: "fault_write_protected vad a None s = Ok (0, None, ?t)"
    using vad hw(1) table_atD(1) [OF d(1)] d(2) sw unfolding a by (simp add: fault_write_protected_def)
  have ch: "leaf_changed 0 d i q s ?t"
    using d hw a by (auto simp: leaf_changed_def anon_at_def)
  have "space_ok W 0 ?t"
  proof (cases "entries (wsl (procs s 0))")
    case Nil
    then show ?thesis
      using S(1,2,4) leaf_changed_links [OF s ch] leaf_changed_counted [OF s ch]
      by (simp add: space_ok_def ws_unique_def)
  next
    case (Cons e es)
    then show ?thesis
      by (intro space_ok_leaf_changed [OF s ch, of e]) (use S(1,2,4) a in auto)
  qed
  with that code ch show thesis by blast
qed

section \<open>The whole fault\<close>

text \<open>Every table below the root has an entry in core, so that no table is evictable.\<close>

definition tables_busy :: "nat \<Rightarrow> vmm \<Rightarrow> bool" where
  "tables_busy ps s \<longleftrightarrow> (\<forall>p. table_of ps s p \<longrightarrow> page_is_root_table p s \<or> 0 < live_ptes in_core p s)"

lemma live_ptes_pos_iff: "0 < live_ptes Q p s \<longleftrightarrow> (\<exists>i < 512. Q (SOFT_pages s (pte_at p i)))"
  unfolding live_ptes_def by (subst card_gt_0_iff) auto

lemma busy_queue_is_data:
  assumes s: "space_ok (\<lambda>_. 0) ps s" and b: "tables_busy ps s"
  shows "\<forall>e \<in> set (wsl_queue (wsl (procs s ps))). \<not> is_pagetable e"
proof (intro ballI notI)
  note S = space_okD [OF s]
  fix e assume e: "e \<in> set (wsl_queue (wsl (procs s ps)))" and pt: "is_pagetable e"
  have "wsle_ok ps s e" using S(8) e wsl_okD(3) [OF S(10)] by blast
  then obtain p where p: "table_of ps s p" "e = table_entry p s" "\<not> page_is_root_table p s"
    by (rule wsle_ok_table [OF _ pt])
  have "0 < live_ptes in_core p s" using b p(1,3) unfolding tables_busy_def by blast
  then have "nonswap_ptes (mypages s p) \<noteq> 0"
    using counted_bounds(2) [OF S(9) p(1)] S(9) p(1) live_ptes_le [of in_core p s]
    by (auto simp: counted_def word_unat_eq_iff unsigned_of_nat take_bit_nat_eq_self)
  moreover have "table_ok ps s p" by (rule table_okD(1) [OF S(2) p(1)])
  ultimately have "e \<in> locked_entries (wsl (procs s ps))" using p(2,3) by (simp add: table_ok_def)
  with e show False by (simp add: locked_entries_def)
qed

text \<open>\<open>t\<close> has the tables of \<open>s\<close> and those of \<open>N\<close>, and a table with an entry in core keeps one.\<close>

definition busy_step :: "nat \<Rightarrow> page_ptr set \<Rightarrow> vmm \<Rightarrow> vmm \<Rightarrow> bool" where
  "busy_step ps N s t \<longleftrightarrow> (\<forall>p. table_of ps t p \<longrightarrow> p \<in> N \<or> table_of ps s p \<and>
     (page_is_root_table p s \<longrightarrow> page_is_root_table p t) \<and>
     (0 < live_ptes in_core p s \<longrightarrow> 0 < live_ptes in_core p t))"

lemma busy_step_refl [simp]: "busy_step ps N s s"
  by (simp add: busy_step_def)

lemma busy_stepD:
  assumes "busy_step ps N s t" and "table_of ps t p" and "p \<notin> N"
  shows "table_of ps s p" and "page_is_root_table p s \<longrightarrow> page_is_root_table p t"
    and "0 < live_ptes in_core p s \<longrightarrow> 0 < live_ptes in_core p t"
  using assms(1) [unfolded busy_step_def, THEN spec, THEN mp, OF assms(2)] assms(3) by simp_all

lemma busy_step_trans:
  assumes st: "busy_step ps N s t" and tu: "busy_step ps {} t u"
  shows "busy_step ps N s u"
  unfolding busy_step_def
proof (intro allI impI)
  fix p assume p: "table_of ps u p"
  have "p \<notin> {}" by simp
  note U = busy_stepD [OF tu p this]
  show "p \<in> N \<or> table_of ps s p \<and> (page_is_root_table p s \<longrightarrow> page_is_root_table p u) \<and>
      (0 < live_ptes in_core p s \<longrightarrow> 0 < live_ptes in_core p u)"
    using U busy_stepD [OF st U(1)] by auto
qed

lemma busy_step_busy:
  assumes "busy_step ps N s t" and "tables_busy ps s" and "\<And>p. p \<in> N \<Longrightarrow> 0 < live_ptes in_core p t"
  shows "tables_busy ps t"
  unfolding tables_busy_def
proof (intro allI impI)
  fix p assume p: "table_of ps t p"
  show "page_is_root_table p t \<or> 0 < live_ptes in_core p t"
  proof (cases "p \<in> N")
    case False
    note T = busy_stepD [OF assms(1) p False]
    from assms(2) T(1) have "page_is_root_table p s \<or> 0 < live_ptes in_core p s" unfolding tables_busy_def by iprover
    with T(2,3) show ?thesis by auto
  qed (use assms(3) [of p] in simp)
qed

lemma grown_busy_step:
  assumes g: "grown ps s t" and n: "\<And>p. table_of ps t p \<Longrightarrow> table_of ps s p \<or> p \<in> N"
  shows "busy_step ps N s t"
  unfolding busy_step_def
proof (intro allI impI)
  fix p assume "table_of ps t p"
  with n have "p \<in> N \<or> table_of ps s p" by blast
  moreover have "page_is_root_table p t" if "table_of ps s p" "page_is_root_table p s"
    using that grownD(3) [OF g, of p] table_use(2) [OF that(1)] by (simp add: page_is_root_table_def)
  moreover have "0 < live_ptes in_core p t" if p: "table_of ps s p" "0 < live_ptes in_core p s"
  proof -
    obtain i where i: "i < 512" "in_core (SOFT_pages s (pte_at p i))" using p(2) by (auto simp: live_ptes_pos_iff)
    then have "SOFT_pages t (pte_at p i) = SOFT_pages s (pte_at p i)"
      using grownD(5) [OF g, of "pte_at p i"] table_use(2) [OF p(1)] in_core_nonzero by simp
    with i show ?thesis by (auto simp: live_ptes_pos_iff)
  qed
  ultimately show "p \<in> N \<or> table_of ps s p \<and> (page_is_root_table p s \<longrightarrow> page_is_root_table p t) \<and>
      (0 < live_ptes in_core p s \<longrightarrow> 0 < live_ptes in_core p t)" by blast
qed

lemma leaf_changed_busy_step:
  assumes c: "leaf_changed ps d i q s t"
  shows "busy_step ps {} s t"
  unfolding busy_step_def
proof (intro allI impI disjI2 conjI)
  note C = c [unfolded leaf_changed_def]
  fix p assume "table_of ps t p"
  then show p: "table_of ps s p" unfolding table_of_level leaf_changed_table_at [OF c] .
  have "p \<noteq> q" using p C by (auto simp: table_of_def anon_at_def is_table_def)
  then show "page_is_root_table p t" if "page_is_root_table p s" using that C by (simp add: page_is_root_table_def)
  assume "0 < live_ptes in_core p s"
  then obtain j where j: "j < 512" "in_core (SOFT_pages s (pte_at p j))" by (auto simp: live_ptes_pos_iff)
  then have "in_core (SOFT_pages t (pte_at p j))" using C by (cases "pte_at p j = pte_at d i") simp_all
  with j(1) show "0 < live_ptes in_core p t" by (auto simp: live_ptes_pos_iff)
qed

text \<open>The wiring, seen from the entry of the faulting address.\<close>

text \<open>How many pages the tables that an address lacks may take.\<close>

definition tables_need :: "vaddr \<Rightarrow> vmm \<Rightarrow> nat" where
  "tables_need v s = (if vmp_fetch_pte 0 v s = Ok None then 3 else 0)"

lemma wire_pte_need:
  assumes s: "space_ok (\<lambda>_. 0) 0 s" and k: "plenty (k + tables_need v s) 0 s"
  obtains st t P where "vmp_wire_pte 0 v s = Ok (st, t)" and "space_ok (wired P) 0 t" and "grown 0 s t"
    and "plenty k 0 t" and "table_path 0 t v 3 P" and "P 3 = pml4_page (procs s 0)"
    and "st = \<lparr>ws_ps = 0, ws_pte = pte_at (P 0) (vmp_addr_unpack v ! 1),
      ws_pages = map (\<lambda>j. Some (P j)) [0..<VMP_TABLE_LEVELS]\<rparr>"
    and "vmp_fetch_pte 0 v s \<noteq> Ok None \<longrightarrow> counters_only 0 s t"
    and "vmp_fetch_pte 0 v s = Ok None \<longrightarrow> SOFT_pages t (pte_at (P 0) (vmp_addr_unpack v ! 1)) = 0"
    and "\<forall>q. table_of 0 t q \<longrightarrow> table_of 0 s q \<or> (\<exists>j \<le> 3. q = P j)"
proof (cases "vmp_fetch_pte 0 v s = Ok None")
  case True
  then have "plenty (k + 3) 0 s" using k by (simp add: tables_need_def)
  then show thesis by (rule wire_pte_ok [OF s, of k v]) (rule that)
next
  case False
  then have k: "plenty k 0 s" using k by (simp add: tables_need_def)
  obtain st t P where w: "vmp_wire_pte 0 v s = Ok (st, t)" "space_ok (wired P) 0 t" "counters_only 0 s t"
    "grown 0 s t" "table_path 0 t v 3 P" "P 3 = pml4_page (procs s 0)"
    "st = \<lparr>ws_ps = 0, ws_pte = pte_at (P 0) (vmp_addr_unpack v ! 1),
      ws_pages = map (\<lambda>j. Some (P j)) [0..<VMP_TABLE_LEVELS]\<rparr>"
    by (rule wire_pte_present [OF s False])
  note C = counters_onlyD [OF w(3)]
  have "plenty k 0 t" by (rule plenty_frame [OF k s space_okD(1) [OF w(2)] C(1,2)]) (use C(3) in blast)
  then show thesis using that [OF w(1,2,4) _ w(5-7)] w(3) False role_table_of [OF C(2)] by simp
qed

lemma fault_wire_need:
  assumes s: "space_ok (\<lambda>_. 0) 0 s" and k: "plenty (k + tables_need v s) 0 s"
  obtains st t P where "vmp_wire_pte 0 v s = Ok (st, t)" and "space_ok (wired P) 0 t" and "grown 0 s t"
    and "plenty k 0 t" and "table_path 0 t v 3 P" and "P 3 = pml4_page (procs t 0)"
    and "ws_ps st = 0" and "ws_pte st = pte_at (P 0) (vmp_addr_unpack v ! 1)"
    and "ws_pages st = map (\<lambda>j. Some (P j)) [0..<VMP_TABLE_LEVELS]"
    and "load_pte (ws_pte st) t = Ok (leaf_entry 0 v s)" and "SOFT_pages t (ws_pte st) = leaf_entry 0 v s"
    and "leaf_ok 0 t (ws_pte st)" and "direct_map t = direct_map s" and "busy_step 0 (P ` {..3}) s t"
    and "vmp_fetch_pte 0 v s \<noteq> Ok None \<longrightarrow> data_queue (wsl (procs t 0)) = data_queue (wsl (procs s 0))"
proof -
  obtain st t P where w: "vmp_wire_pte 0 v s = Ok (st, t)" "space_ok (wired P) 0 t" "grown 0 s t"
    "plenty k 0 t" "table_path 0 t v 3 P" "P 3 = pml4_page (procs s 0)"
    "st = \<lparr>ws_ps = 0, ws_pte = pte_at (P 0) (vmp_addr_unpack v ! 1),
      ws_pages = map (\<lambda>j. Some (P j)) [0..<VMP_TABLE_LEVELS]\<rparr>"
    "vmp_fetch_pte 0 v s \<noteq> Ok None \<longrightarrow> counters_only 0 s t"
    "vmp_fetch_pte 0 v s = Ok None \<longrightarrow> SOFT_pages t (pte_at (P 0) (vmp_addr_unpack v ! 1)) = 0"
    "\<forall>q. table_of 0 t q \<longrightarrow> table_of 0 s q \<or> (\<exists>j \<le> 3. q = P j)"
    by (rule wire_pte_need [OF s k])
  let ?a = "pte_at (P 0) (vmp_addr_unpack v ! 1)"
  note L = leaf_path [OF w(5)]
  have r: "pml4 (procs t 0) = P 3 * PGSIZE" "P 3 = pml4_page (procs t 0)"
    using w(3,6) space_okD(5) [OF s] by (simp_all add: grown_def root_ok_def)
  have e: "SOFT_pages t ?a = leaf_entry 0 v s"
  proof (cases "vmp_fetch_pte 0 v s = Ok None")
    case True
    then show ?thesis using w(9) by (simp add: leaf_entry_def)
  next
    case False
    then have F: "tables_frame 0 s t" using w(8) counters_onlyD(1) by blast
    then have "vmp_fetch_pte 0 v s = vmp_fetch_pte 0 v t"
      using fetch_level_cong [OF tables_frameD(1) [OF F]] tables_frameD(7) [OF F] by (simp add: vmp_fetch_pte_def)
    then show ?thesis using path_fetch_pte [OF w(5) r(1)] tables_frameD(1) [OF F] by (simp add: leaf_entry_def)
  qed
  have "direct_map t = direct_map s"
    by (rule direct_map_cong [OF space_okD(1) [OF s] space_okD(1) [OF w(2)]]) (use w(3) in \<open>simp add: grown_def\<close>)
  moreover have "leaf_ok 0 t ?a" using space_okD(7) [OF w(2)] L by (simp add: leaves_ok_def)
  moreover have "load_pte ?a t = Ok (leaf_entry 0 v s)" using e L table_atD(1) [OF L(1)] by simp
  moreover have "busy_step 0 (P ` {..3}) s t" by (rule grown_busy_step [OF w(3)]) (use w(10) in auto)
  moreover have "vmp_fetch_pte 0 v s \<noteq> Ok None \<longrightarrow> data_queue (wsl (procs t 0)) = data_queue (wsl (procs s 0))"
    using w(8) counters_onlyD(1) tables_frameD(11) by blast
  ultimately show thesis using that [OF w(1-5) r(2)] w(7) e by simp
qed

lemma tables_need_le: "tables_need v s \<le> 3"
  by (simp add: tables_need_def)

lemmas fault_wire_ok = fault_wire_need [OF _ plenty_mono [OF _ add_left_mono [OF tables_need_le]]]

text \<open>The release, once the entry is not empty.\<close>

lemma fault_finish_ok:
  assumes s: "space_ok (wired P) 0 s" and path: "table_path 0 s v 3 P" and k: "plenty k 0 s"
    and e: "SOFT_pages s (pte_at (P 0) (vmp_addr_unpack v ! 1)) \<noteq> 0"
    and st: "ws_ps st = 0" "ws_pages st = map (\<lambda>j. Some (P j)) [0..<VMP_TABLE_LEVELS]"
  obtains t where "vmp_pte_wire_state_release st s = Ok t" and "space_ok (\<lambda>_. 0) 0 t" and "grown 0 s t"
    and "plenty k 0 t" and "SOFT_pages t = SOFT_pages s" and "vmp_wsl_find 0 v t = vmp_wsl_find 0 v s"
    and "busy_step 0 {} s t" and "data_queue (wsl (procs t 0)) = data_queue (wsl (procs s 0))"
proof -
  have live: "0 < live_ptes (\<lambda>v. v \<noteq> 0) (P 0) s"
    by (rule live_ptes_pos [OF leaf_path(2) [OF path]]) (rule e)
  obtain t where t: "vmp_pte_wire_state_release st s = Ok t" "space_ok (\<lambda>_. 0) 0 t" "tables_frame 0 s t"
    "mypages t = (\<lambda>q. if q \<in> P ` {..<VMP_TABLE_LEVELS}
       then (mypages s q)\<lparr>nonzero_ptes := nonzero_ptes (mypages s q) - 1,
         nonswap_ptes := nonswap_ptes (mypages s q) - 1, refcnt := refcnt (mypages s q) - 1\<rparr> else mypages s q)"
    by (rule wire_release_ok [OF s path live st])
  note F = tables_frameD [OF t(3)]
  have role: "\<forall>q. same_role (mypages s q) (mypages t q)" using t(4) by (simp add: same_role_def)
  have tab: "is_table (use (mypages s q))" if q: "q \<in> P ` {..<VMP_TABLE_LEVELS}" for q
  proof -
    obtain j where j: "j < VMP_TABLE_LEVELS" "q = P j" using q by auto
    then have "table_at 0 s (Suc j) q" using path by (simp add: table_path_def)
    then show ?thesis by (rule table_atD(3))
  qed
  have "new_links 0 s t" by (rule new_links_same [OF F(1)]) (simp add: role_table_of [OF role])
  moreover have "newcomers 0 s t" using role by (auto simp: newcomers_def same_role_def)
  ultimately have g: "grown 0 s t" using F role t(4) tab by (auto simp: grown_def)
  have "busy_step 0 {} s t" by (rule grown_busy_step [OF g]) (simp add: role_table_of [OF role])
  moreover have "mypages t q = mypages s q" if q: "\<not> table_of 0 s q" for q
  proof -
    have "q \<notin> P ` {..<VMP_TABLE_LEVELS}"
    proof
      assume "q \<in> P ` {..<VMP_TABLE_LEVELS}"
      then obtain j where "j < VMP_TABLE_LEVELS" "q = P j" by auto
      then have "table_at 0 s (Suc j) q" using path by (simp add: table_path_def)
      then show False using table_atD(2) q by blast
    qed
    then show ?thesis using t(4) by simp
  qed
  then have "plenty k 0 t" by (intro plenty_frame [OF k s space_okD(1) [OF t(2)] t(3) role]) blast
  moreover have "vmp_wsl_find 0 v t = vmp_wsl_find 0 v s" using F(4) by (simp add: vmp_wsl_find_def wsl_find_def)
  ultimately show thesis using that g t(1,2) F(1,11) by blast
qed

text \<open>The entry that a fault leaves behind: a page that is mapped for the first time is writeable when the
  fault is a write that the range allows, a page taken back from transition is not writeable yet.\<close>

definition resolved_entry :: "bool \<Rightarrow> vm_vad \<Rightarrow> pte \<Rightarrow> page_ptr \<Rightarrow> pte" where
  "resolved_entry wr vad e q = vmp_pte_hw_create (of_nat q)
     (if e = 0 then wr \<and> vad_writeable vad
      else pte_valid e \<and> (wr \<or> vmp_pte_hw_is_writeable e))"

text \<open>The entries that change become valid.\<close>

definition validated :: "vmm \<Rightarrow> vmm \<Rightarrow> bool" where
  "validated s t \<longleftrightarrow> (\<forall>u. leaf_entry 0 u t = leaf_entry 0 u s \<or> pte_valid (leaf_entry 0 u t))"

lemma validated_refl [simp]: "validated s s"
  by (simp add: validated_def)

lemma validated_trans: "validated s t \<Longrightarrow> validated t u \<Longrightarrow> validated s u"
  unfolding validated_def by metis

lemma grown_validated:
  assumes s: "space_ok W 0 s" and t: "space_ok W' 0 t" and g: "grown 0 s t"
  shows "validated s t"
  unfolding validated_def
proof
  fix u
  have i: "vmp_addr_unpack u ! 1 < 512" by (rule unpack_less) simp_all
  note n = grownD(1) [OF g]
  from s t g show "leaf_entry 0 u t = leaf_entry 0 u s \<or> pte_valid (leaf_entry 0 u t)"
  proof (cases rule: grown_fetch_pte [where v = u])
    case (new d)
    from n table_atD(2) [OF new(3)] i show ?thesis
      by (cases rule: new_link_cases) (use new in \<open>simp_all add: leaf_entry_def\<close>)
  next
    case same
    show ?thesis
    proof (cases "leaf_entry 0 u t = 0")
      case True
      show ?thesis
      proof (rule ccontr)
        assume "\<not> ?thesis"
        then have "leaf_entry 0 u s \<noteq> 0" using True by simp
        then obtain a where a: "vmp_fetch_pte 0 u s = Ok (Some a)" "leaf_entry 0 u s = SOFT_pages s a"
          by (rule leaf_entry_fetch)
        obtain d where "table_at 0 s (Suc 0) d" "a = pte_at d (vmp_addr_unpack u ! 1)" by (rule fetch_leaf [OF s a(1)])
        then have "SOFT_pages t a = SOFT_pages s a"
          using grown_entry [OF g _ i] a \<open>leaf_entry 0 u s \<noteq> 0\<close> by simp
        then show False using a same True \<open>leaf_entry 0 u s \<noteq> 0\<close> by (simp add: leaf_entry_def)
      qed
    next
      case False
      then obtain a where a: "vmp_fetch_pte 0 u t = Ok (Some a)" "leaf_entry 0 u t = SOFT_pages t a"
        by (rule leaf_entry_fetch)
      obtain d where d: "table_at 0 t (Suc 0) d" "a = pte_at d (vmp_addr_unpack u ! 1)" by (rule fetch_leaf [OF t a(1)])
      have e: "leaf_entry 0 u s = SOFT_pages s a" using a(1) same by (simp add: leaf_entry_def)
      from n table_atD(2) [OF d(1)] i show ?thesis
        by (cases rule: new_link_cases) (use a(2) d(2) e False in \<open>auto split: if_splits\<close>)
    qed
  qed
qed

lemma leaf_changed_validated:
  assumes s: "space_ok W 0 s" and c: "leaf_changed 0 d i q s t" and v: "pte_valid (SOFT_pages t (pte_at d i))"
  shows "validated s t"
  unfolding validated_def
proof
  fix u
  have "SOFT_pages t a = SOFT_pages s a \<or> a = pte_at d i" for a using c by (auto simp: leaf_changed_def)
  then show "leaf_entry 0 u t = leaf_entry 0 u s \<or> pte_valid (leaf_entry 0 u t)"
    using leaf_changed_fetch [OF c space_okD(6,5) [OF s]] v
    by (auto simp: leaf_entry_def split: outcome.splits option.splits)
qed

text \<open>What the branches of the handler have in common: \<open>s\<close> is the state after the wiring.\<close>

definition branch_ok :: "vaddr \<Rightarrow> bool \<Rightarrow> vm_vad \<Rightarrow> (nat \<Rightarrow> page_ptr) \<Rightarrow> nat \<Rightarrow> vmm \<Rightarrow> page_ptr \<Rightarrow> vmm \<Rightarrow> bool" where
  "branch_ok v wr vad P k s q t \<longleftrightarrow> (let a = pte_at (P 0) (vmp_addr_unpack v ! 1) in
     space_ok (wired P) 0 t \<and> table_path 0 t v 3 P \<and> plenty k 0 t \<and> maps_anon 0 v a q t \<and>
     SOFT_pages t a = resolved_entry wr vad (SOFT_pages s a) q \<and>
     (if SOFT_pages s a = 0 then use (mypages s q) = kPageUseFree else refers_to (SOFT_pages s a) q) \<and>
     (\<forall>u off. off < PGSIZE \<longrightarrow> vm_word 0 u off t = vm_word 0 u off s) \<and>
     (\<forall>u b p. maps_anon 0 u b p s \<longrightarrow> maps_anon 0 u b p t) \<and> vad_tree (procs t 0) = vad_tree (procs s 0) \<and>
     SOFT_pages_base t = SOFT_pages_base s \<and> busy_step 0 {} s t \<and> validated s t \<and> data_kept 0 s t \<and>
     (SOFT_pages s a = 0 \<longrightarrow> data_queue (wsl (procs t 0)) =
        data_queue (wsl (procs s 0)) @ [\<lparr>wsle_vaddr = v, is_pagetable = False\<rparr>]))"

lemma zero_branch_ok:
  assumes s: "space_ok (wired P) 0 s" and path: "table_path 0 s v 3 P" "P 3 = pml4_page (procs s 0)"
    and z: "SOFT_pages s (ws_pte st) = 0" and k: "plenty (Suc k) 0 s"
    and vad: "vad_section vad = None" and v: "low_vaddr v" "v \<notin> direct_map s"
    and st: "ws_pte st = pte_at (P 0) (vmp_addr_unpack v ! 1)" "ws_pages st ! 0 = Some (P 0)"
  obtains p t where "fault_zero v wr vad st None s = Ok (0, None, t)" and "branch_ok v wr vad P k s p t"
proof -
  note L = leaf_path [OF path(1)]
  obtain p t where t: "fault_zero v wr vad st None s = Ok (0, None, t)" "space_ok (wired P) 0 t"
    "linked 0 p (P 0) (vmp_addr_unpack v ! 1) (wr \<and> vad_writeable vad) s t"
    "use (mypages t p) = kPageUseAnonPrivate" "plenty k 0 t"
    "maps_anon 0 v (pte_at (P 0) (vmp_addr_unpack v ! 1)) p t" "table_path 0 t v 3 P"
    "data_queue (wsl (procs t 0)) = data_queue (wsl (procs s 0)) @ [\<lparr>wsle_vaddr = v, is_pagetable = False\<rparr>]"
    by (rule fault_zero_ok [OF s path z [unfolded st(1)] k vad v st, of wr])
  have g: "grown 0 s t" by (rule linked_grown(1) [OF t(3) L(1)])
  have "use (mypages s p) = kPageUseFree" "vad_tree (procs t 0) = vad_tree (procs s 0)"
    "SOFT_pages_base t = SOFT_pages_base s"
    using t(3) by (simp_all add: linked_def)
  moreover have "busy_step 0 {} s t"
  proof (rule grown_busy_step [OF g])
    fix q assume q: "table_of 0 t q"
    have "q \<noteq> p" using q t(4) by (auto simp: table_of_def is_table_def)
    then have "table_of 0 s q" using q linked_table_at [OF t(3)] unfolding table_of_level by blast
    then show "table_of 0 s q \<or> q \<in> {}" ..
  qed
  ultimately have "branch_ok v wr vad P k s p t"
    unfolding branch_ok_def Let_def
    using t(2,5,6,7,8) linked_entry [OF t(3) L(2), of "P 0"] z [unfolded st(1)]
      grown_vm_word [OF s t(2) g] grown_maps_anon [OF s g] grown_validated [OF s t(2) g] grown_data_kept [OF s g]
    by (simp add: resolved_entry_def)
  with that t(1) show thesis by blast
qed

lemma trans_branch_ok:
  assumes s: "space_ok (wired P) 0 s" and path: "table_path 0 s v 3 P" "P 3 = pml4_page (procs s 0)"
    and a: "a = pte_at (P 0) (vmp_addr_unpack v ! 1)"
    and tr: "SOFT_pages s a = vmp_pte_trans_create 0 (of_nat q)" "anon_at 0 s a q" "refcnt (mypages s q) = 0"
    and k: "plenty (Suc k) 0 s" and v: "low_vaddr v" "v \<notin> direct_map s"
  obtains t where "fault_trans v wr a None s = Ok (0, None, t)" and "branch_ok v wr vad P k s q t"
proof -
  obtain t where t: "fault_trans v wr a None s = Ok (0, None, t)" "space_ok (wired P) 0 t"
    "leaf_changed 0 (P 0) (vmp_addr_unpack v ! 1) q s t" "maps_anon 0 v a q t" "plenty k 0 t"
    "SOFT_pages t = (SOFT_pages s)(a := vmp_pte_hw_create (of_nat q) False)"
    "vad_tree (procs t 0) = vad_tree (procs s 0)" "data_kept 0 s t"
    by (rule fault_trans_ok [OF s path a tr k v, of wr])
  have "pte_valid (SOFT_pages t (pte_at (P 0) (vmp_addr_unpack v ! 1)))" using t(6) a by simp
  from leaf_changed_validated [OF s t(3) this] have "branch_ok v wr vad P k s q t"
    unfolding branch_ok_def Let_def a [symmetric]
    using t t(3) [unfolded leaf_changed_def] leaf_changed_path [OF t(3) path(1)] leaf_changed_busy_step [OF t(3)] leaf_changed_vm_word [OF s t(3)] leaf_changed_maps_anon [OF s t(3)] tr a
    by (simp add: resolved_entry_def anon_at_def)
  with that t(1) show thesis by blast
qed

lemma valid_branch_ok:
  assumes s: "space_ok (wired P) 0 s" and path: "table_path 0 s v 3 P" "P 3 = pml4_page (procs s 0)"
    and a: "a = pte_at (P 0) (vmp_addr_unpack v ! 1)"
    and hw: "SOFT_pages s a = vmp_pte_hw_create (of_nat q) w" "anon_at 0 s a q" "refcnt (mypages s q) = 1"
    and k: "plenty (Suc k) 0 s" and vad: "\<not> vad_cow vad"
  obtains t where "(if \<not> w \<and> wr then fault_write_protected vad a None s else fault_valid a None s) = Ok (0, None, t)"
    and "branch_ok v wr vad P k s q t"
proof -
  note L = leaf_path [OF path(1)] and S = space_okD [OF s]
  have f: "vmp_fetch_pte 0 v s = Ok (Some a)" using path_fetch_pte [OF path(1)] S(5) path(2) a by (simp add: root_ok_def)
  have k': "plenty k 0 s" by (rule plenty_mono [OF k]) simp
  have m: "maps_anon 0 v a q s"
    using f hw L table_atD(1) [OF L(1)] a by (simp add: maps_anon_def anon_at_def small_pfn)
  show thesis
  proof (cases "\<not> w \<and> wr")
    case True
    then have hw': "SOFT_pages s a = vmp_pte_hw_create (of_nat q) False" using hw(1) by simp
    obtain t where t: "fault_write_protected vad a None s = Ok (0, None, t)" "space_ok (wired P) 0 t"
      "leaf_changed 0 (P 0) (vmp_addr_unpack v ! 1) q s t" "t = write_pte a (vmp_pte_hw_create (of_nat q) True) s"
      by (rule fault_write_protected_ok [OF s L a hw' hw(2,3) vad])
    have pl: "plenty k 0 t" using k' t(4) by (simp add: plenty_def)
    have valid: "pte_valid (SOFT_pages t (pte_at (P 0) (vmp_addr_unpack v ! 1)))" using t(4) a by simp
    have anon: "referent_pte (mypages s q) = a" using hw(2) by (simp add: anon_at_def)
    have "data_kept 0 s t"
      by (rule leaf_changed_data_kept [OF s t(3)]) (use anon t(4) in \<open>simp_all add: quiet_def\<close>)
    then have "branch_ok v wr vad P k s q t"
      unfolding branch_ok_def Let_def a [symmetric]
      using t(2) pl leaf_changed_busy_step [OF t(3)] leaf_changed_path [OF t(3) path(1)] leaf_changed_vm_word [OF s t(3)]
        leaf_changed_validated [OF s t(3) valid] leaf_changed_maps_anon [OF s t(3) valid] m hw hw' True t(4)
      by (simp add: resolved_entry_def anon_at_def)
    with that t(1) True show thesis by simp
  next
    case False
    have "branch_ok v wr vad P k s q s"
      unfolding branch_ok_def Let_def a [symmetric]
      using s path k' m hw False by (auto simp: resolved_entry_def anon_at_def busy_step_def)
    then show thesis using that False by (auto simp: fault_valid_def)
  qed
qed

text \<open>The tables on the way to an entry in core are busy.\<close>

lemma path_in_core:
  assumes "table_path ps s v 3 P" and "j \<le> 3" and "in_core (SOFT_pages s (pte_at (P 0) (vmp_addr_unpack v ! 1)))"
  shows "\<exists>i < 512. in_core (SOFT_pages s (pte_at (P j) i))"
proof (cases j)
  case 0
  then show ?thesis using assms(3) leaf_path(2) [OF assms(1)] by auto
next
  case (Suc l)
  then have "SOFT_pages s (pte_at (P j) (vmp_addr_unpack v ! Suc j)) = vmp_pte_hw_create (of_nat (P l)) True"
    using assms(1,2) by (simp add: table_path_def)
  then show ?thesis using unpack_less [of "Suc j" v] assms(2) by (intro exI [of _ "vmp_addr_unpack v ! Suc j"]) simp
qed

text \<open>A kind of entry that is resolved without a transfer.\<close>

lemma leaf_branch_cases:
  assumes "leaf_ok ps s a" and "vmp_pte_characterise (SOFT_pages s a) \<noteq> Ok kPTEKindSwap"
  obtains (zero) "SOFT_pages s a = 0"
  | (valid) q w where "SOFT_pages s a = vmp_pte_hw_create (of_nat q) w" and "anon_at ps s a q" and "refcnt (mypages s q) = 1"
  | (trans) q where "SOFT_pages s a = vmp_pte_trans_create 0 (of_nat q)" and "anon_at ps s a q" and "refcnt (mypages s q) = 0"
  using assms unfolding leaf_ok_def Let_def by blast

lemma characterise_zero [simp]: "vmp_pte_characterise 0 = Ok kPTEKindZero"
  by (simp add: vmp_pte_characterise_def)

text \<open>The branch that a fault takes once the entry is wired.\<close>

lemma fault_branch:
  assumes vad: "vmp_ps_vad_find (fe_key env) 0 v s = Some vad" "vad_section vad = None" "\<not> vad_cow vad"
    and w: "vmp_wire_pte 0 v s = Ok (st, s1)" "space_ok (wired P) 0 s1" "table_path 0 s1 v 3 P"
      "P 3 = pml4_page (procs s1 0)" "ws_pte st = pte_at (P 0) (vmp_addr_unpack v ! 1)" "ws_pages st ! 0 = Some (P 0)"
      "load_pte (ws_pte st) s1 = Ok e" "SOFT_pages s1 (ws_pte st) = e" "leaf_ok 0 s1 (ws_pte st)"
    and k: "plenty (Suc k) 0 s1" and v: "low_vaddr v" "v \<notin> direct_map s1" and e: "vmp_pte_characterise e \<noteq> Ok kPTEKindSwap"
  obtains q s2 where "do_fault env v wr (None, file, s) =
      bnd (vmp_pte_wire_state_release st s2) (\<lambda>s. Ok (0, None, file, s))"
    and "branch_ok v wr vad P k s1 q s2"
proof -
  note code = do_fault_def [of env v wr "(None, file, s)", simplified vad(1) w(1,7) Let_def split bnd.simps option.case]
  from w(9) e have "vmp_pte_characterise (SOFT_pages s1 (ws_pte st)) \<noteq> Ok kPTEKindSwap" using w(8) by simp
  with w(9) show thesis
  proof (cases rule: leaf_branch_cases)
    case zero
    obtain p t where "fault_zero v wr vad st None s1 = Ok (0, None, t)" "branch_ok v wr vad P k s1 p t"
      by (rule zero_branch_ok [OF w(2-4) zero k vad(2) v w(5,6)])
    then show thesis using that [of t p] zero w(8) by (simp add: code)
  next
    case (valid q wt)
    obtain t where "(if \<not> wt \<and> wr then fault_write_protected vad (ws_pte st) None s1 else fault_valid (ws_pte st) None s1)
        = Ok (0, None, t)" "branch_ok v wr vad P k s1 q t"
      by (rule valid_branch_ok [OF w(2-5) valid k vad(3)])
    then show thesis using that [of t q] valid(1) w(8) by (simp add: code split: if_splits)
  next
    case (trans q)
    obtain t where "fault_trans v wr (ws_pte st) None s1 = Ok (0, None, t)" "branch_ok v wr vad P k s1 q t"
      by (rule trans_branch_ok [OF w(2-5) trans k v])
    then show thesis using that [of t q] trans(1) w(8) by (simp add: code)
  qed
qed

lemma do_fault_need:
  assumes s: "space_ok (\<lambda>_. 0) 0 s" and k: "plenty (k + (tables_need v s + 1)) 0 s"
    and vad: "vmp_ps_vad_find (fe_key env) 0 v s = Some vad" "vad_section vad = None" "\<not> vad_cow vad"
    and v: "low_vaddr v" "v \<notin> direct_map s"
    and e: "vmp_pte_characterise (leaf_entry 0 v s) \<noteq> Ok kPTEKindSwap"
  obtains t a q where "do_fault env v wr (None, file, s) = Ok (0, None, file, t)" and "space_ok (\<lambda>_. 0) 0 t"
    and "plenty k 0 t" and "maps_anon 0 v a q t" and "SOFT_pages t a = resolved_entry wr vad (leaf_entry 0 v s) q"
    and "if leaf_entry 0 v s = 0 then use (mypages s q) = kPageUseFree else refers_to (leaf_entry 0 v s) q"
    and "\<forall>u off. off < PGSIZE \<longrightarrow> vm_word 0 u off t = vm_word 0 u off s"
    and "\<forall>u b p. maps_anon 0 u b p s \<longrightarrow> maps_anon 0 u b p t" and "vad_tree (procs t 0) = vad_tree (procs s 0)"
    and "direct_map t = direct_map s" and "tables_busy 0 s \<longrightarrow> tables_busy 0 t" and "validated s t"
    and "data_kept 0 s t"
    and "leaf_entry 0 v s = 0 \<longrightarrow> vmp_fetch_pte 0 v s \<noteq> Ok None \<longrightarrow> data_queue (wsl (procs t 0)) =
      data_queue (wsl (procs s 0)) @ [\<lparr>wsle_vaddr = v, is_pagetable = False\<rparr>]"
proof -
  have k': "plenty (Suc k + tables_need v s) 0 s" using k by (simp add: add.commute)
  obtain st s1 P where w: "vmp_wire_pte 0 v s = Ok (st, s1)" "space_ok (wired P) 0 s1" "grown 0 s s1"
    "plenty (Suc k) 0 s1" "table_path 0 s1 v 3 P" "P 3 = pml4_page (procs s1 0)"
    "ws_ps st = 0" "ws_pte st = pte_at (P 0) (vmp_addr_unpack v ! 1)"
    "ws_pages st = map (\<lambda>j. Some (P j)) [0..<VMP_TABLE_LEVELS]"
    "load_pte (ws_pte st) s1 = Ok (leaf_entry 0 v s)" "SOFT_pages s1 (ws_pte st) = leaf_entry 0 v s"
    "leaf_ok 0 s1 (ws_pte st)" "direct_map s1 = direct_map s" "busy_step 0 (P ` {..3}) s s1"
    "vmp_fetch_pte 0 v s \<noteq> Ok None \<longrightarrow> data_queue (wsl (procs s1 0)) = data_queue (wsl (procs s 0))"
    by (rule fault_wire_need [OF s k'])
  have p0: "ws_pages st ! 0 = Some (P 0)" using w(9) by simp
  have dm: "v \<notin> direct_map s1" using v(2) w(13) by simp
  obtain q s2 where b: "do_fault env v wr (None, file, s) =
      bnd (vmp_pte_wire_state_release st s2) (\<lambda>s. Ok (0, None, file, s))" "branch_ok v wr vad P k s1 q s2"
    by (rule fault_branch [OF vad w(1,2,5,6,8) p0 w(10-12,4) v(1) dm e])
  note B = b(2) [unfolded branch_ok_def Let_def w(8) [symmetric] w(11)]
  have nz: "SOFT_pages s2 (pte_at (P 0) (vmp_addr_unpack v ! 1)) \<noteq> 0"
    using B w(8) by (simp add: resolved_entry_def)
  obtain t where t: "vmp_pte_wire_state_release st s2 = Ok t" "space_ok (\<lambda>_. 0) 0 t" "grown 0 s2 t"
    "plenty k 0 t" "SOFT_pages t = SOFT_pages s2" "busy_step 0 {} s2 t"
    "data_queue (wsl (procs t 0)) = data_queue (wsl (procs s2 0))"
    by (rule fault_finish_ok [OF _ _ _ nz w(7,9), of k]) (use B in auto)
  have s2: "space_ok (wired P) 0 s2" using B by blast
  show thesis
  proof (rule that [OF _ t(2) t(4)])
    show "do_fault env v wr (None, file, s) = Ok (0, None, file, t)" using b(1) t(1) by simp
    show "maps_anon 0 v (ws_pte st) q t" using grown_maps_anon [OF s2 t(3)] B by blast
    show "SOFT_pages t (ws_pte st) = resolved_entry wr vad (leaf_entry 0 v s) q" using B t(5) by simp
    show "if leaf_entry 0 v s = 0 then use (mypages s q) = kPageUseFree else refers_to (leaf_entry 0 v s) q"
      using B grownD(3) [OF w(3), of q] by (auto split: if_splits)
    show "\<forall>u off. off < PGSIZE \<longrightarrow> vm_word 0 u off t = vm_word 0 u off s"
      using B grown_vm_word [OF s w(2,3)] grown_vm_word [OF s2 t(2,3)] by simp
    show "\<forall>u b p. maps_anon 0 u b p s \<longrightarrow> maps_anon 0 u b p t"
      using B grown_maps_anon [OF s w(3)] grown_maps_anon [OF s2 t(3)] by blast
    show "leaf_entry 0 v s = 0 \<longrightarrow> vmp_fetch_pte 0 v s \<noteq> Ok None \<longrightarrow> data_queue (wsl (procs t 0)) =
      data_queue (wsl (procs s 0)) @ [\<lparr>wsle_vaddr = v, is_pagetable = False\<rparr>]"
      using B t(7) w(15) by simp
    show "vad_tree (procs t 0) = vad_tree (procs s 0)" using B w(3) t(3) by (simp add: grown_def)
    show "data_kept 0 s t"
      using data_kept_trans [OF data_kept_trans [OF grown_data_kept [OF s w(3)]] grown_data_kept [OF s2 t(3)]] B by blast
    show "validated s t"
      using validated_trans [OF validated_trans [OF grown_validated [OF s w(2,3)]] grown_validated [OF s2 t(2,3)]] B by blast
    have N: "0 < live_ptes in_core p t" if p: "p \<in> P ` {..3}" for p
    proof -
      obtain j where j: "p = P j" "j \<le> 3" using p by auto
      have "\<exists>i < 512. in_core (SOFT_pages s2 (pte_at p i))"
        using path_in_core [of 0 s2 v P j] j B w(8) by (simp add: resolved_entry_def)
      then show ?thesis using t(5) by (simp add: live_ptes_pos_iff)
    qed
    have "busy_step 0 (P ` {..3}) s t"
      using busy_step_trans [OF busy_step_trans [OF w(14)] t(6)] B by blast
    then show "tables_busy 0 s \<longrightarrow> tables_busy 0 t" using busy_step_busy N by blast
    show "direct_map t = direct_map s"
      by (rule direct_map_cong [OF space_okD(1) [OF s] space_okD(1) [OF t(2)]]) (use B w(3) t(3) in \<open>simp add: grown_def\<close>)
  qed
qed

text \<open>Three tables and the page are enough for any fault.\<close>

lemma tables_need_page: "tables_need v s + 1 \<le> 4"
  by (simp add: tables_need_def)

lemmas do_fault_ok = do_fault_need [OF _ plenty_mono [OF _ add_left_mono [OF tables_need_page]]]

end
