(* ===== verification/Simulation.thy ===== *)
theory Simulation
  imports Simulator Fault_Resolution
begin

text \<open>
  The simulator as a whole: its start-up establishes a consistent address space with memory to spare,
  and an access through the simulated MMU ends at the page that the fault handler mapped.
\<close>

section \<open>Start-up\<close>

text \<open>The invariant does not depend on which pages are clean, nor on their slots, as long as the page queues
  are right.\<close>

definition same_but_clean :: "vmm \<Rightarrow> vmm \<Rightarrow> bool" where
  "same_but_clean s t \<longleftrightarrow> (\<forall>p. pfn (mypages t p) = pfn (mypages s p) \<and> use (mypages t p) = use (mypages s p) \<and>
       refcnt (mypages t p) = refcnt (mypages s p) \<and> nonzero_ptes (mypages t p) = nonzero_ptes (mypages s p) \<and>
       nonswap_ptes (mypages t p) = nonswap_ptes (mypages s p) \<and>
       referent_pte (mypages t p) = referent_pte (mypages s p) \<and> process (mypages t p) = process (mypages s p)) \<and>
     SOFT_pages t = SOFT_pages s \<and> SOFT_pages_base t = SOFT_pages_base s"

lemma same_but_cleanD:
  assumes "same_but_clean s t"
  shows "pfn (mypages t p) = pfn (mypages s p)" and "use (mypages t p) = use (mypages s p)"
    and "refcnt (mypages t p) = refcnt (mypages s p)" and "nonzero_ptes (mypages t p) = nonzero_ptes (mypages s p)"
    and "nonswap_ptes (mypages t p) = nonswap_ptes (mypages s p)"
    and "referent_pte (mypages t p) = referent_pte (mypages s p)"
    and "process (mypages t p) = process (mypages s p)"
    and "SOFT_pages t = SOFT_pages s" and "SOFT_pages_base t = SOFT_pages_base s"
  using assms by (simp_all add: same_but_clean_def)

lemma space_ok_same_but_clean:
  assumes same: "same_but_clean s t" and db: "pfndb t = pfndb s"
    and ps: "wsl (procs t ps) = wsl (procs s ps)" "pml4 (procs t ps) = pml4 (procs s ps)"
      "pml4_page (procs t ps) = pml4_page (procs s ps)"
  shows "space_ok W ps t = space_ok W ps s" and "leaf_entry ps v t = leaf_entry ps v s"
    and "tables_busy ps t = tables_busy ps s"
proof -
  note D = same_but_cleanD [OF same]
  have f: "vmp_fetch_pte ps v t = vmp_fetch_pte ps v s" for v
    using fetch_level_cong [OF D(8)] ps(2) by (simp add: vmp_fetch_pte_def)
  then show "leaf_entry ps v t = leaf_entry ps v s" by (simp add: leaf_entry_def D split: outcome.split option.split)
  have m: "maps_anon ps v a q t = maps_anon ps v a q s" for v a q using f by (simp add: maps_anon_def D)
  have pv: "page_vaddr p t = page_vaddr p s" for p by (simp add: page_vaddr_def vmp_page_paddr_def D)
  have tb: "table_at ps t l p = table_at ps s l p" "table_of ps t p = table_of ps s p"
    "table_entry p t = table_entry p s" "anon_at ps t a p = anon_at ps s a p" for l p a
    using pv by (simp_all add: table_at_def table_of_def table_entry_def anon_at_def D)
  have live: "live_ptes P p t = live_ptes P p s" for P p by (simp add: live_ptes_def D)
  then show "tables_busy ps t = tables_busy ps s" by (simp add: tables_busy_def tb page_is_root_table_def D)
  have "tables_ok ps t = tables_ok ps s"
    using ps tb by (simp add: tables_ok_def table_ok_def low_base_def page_is_root_table_def D)
  moreover have "leaf_ok ps t a = leaf_ok ps s a" "backlink_ok ps t p = backlink_ok ps s p" "wsle_ok ps t e = wsle_ok ps s e" for a p e
    using tb m pv by (simp_all add: leaf_ok_def backlink_ok_def wsle_ok_def direct_map_def page_is_root_table_def D)
  ultimately show "space_ok W ps t = space_ok W ps s"
    using ps db tb f live
    by (simp add: space_ok_def idle_clean_def root_ok_def dirs_ok_def leaves_ok_def counted_def ws_unique_def backlinks_ok_def D)
qed

text \<open>Nor does it depend on the address descriptors, the events or the page file.\<close>

lemma space_ok_cong:
  assumes "mypages t = mypages s" "SOFT_pages t = SOFT_pages s" "SOFT_pages_base t = SOFT_pages_base s"
    and "\<And>q. queue_of q t = queue_of q s" "vmstat t = vmstat s"
    and "wsl (procs t ps) = wsl (procs s ps)" "pml4 (procs t ps) = pml4 (procs s ps)"
      "pml4_page (procs t ps) = pml4_page (procs s ps)"
  shows "space_ok W ps t = space_ok W ps s"
  by (rule space_ok_same_but_clean [OF _ pfndb_cong [OF assms(1,4,5)] assms(6-8)]) (simp add: same_but_clean_def assms)

text \<open>The range that \<^verbatim>\<open>main\<close> allocates.\<close>

definition main_vad :: vm_vad where
  "main_vad = \<lparr>vad_writeable = True, vad_max_protection = True, vad_inherit_shared = False, vad_cow = False,
     vad_offset = 0, vad_start = 0, vad_end = 0x2000000000, vad_section = None\<rparr>"

lemma main_vad_find:
  assumes "vad_tree (procs s 0) = Elm False False Null main_vad Null"
  shows "vmp_ps_vad_find key 0 v s = (if v < 0x2000000000 then Some main_vad else None)"
  using assms by (auto simp: vmp_ps_vad_find_def vmp_vad_cmp_def main_vad_def)

lemma new_root_untouched:
  assumes s: "space_ok W ps s" and z: "\<And>i. i < 512 \<Longrightarrow> SOFT_pages s (pte_at (pml4_page (procs s ps)) i) = 0"
  shows "leaf_entry ps v s = 0"
proof -
  let ?r = "pml4_page (procs s ps)"
  have r: "table_at ps s (Suc (Suc 2)) ?r" "pml4 (procs s ps) = ?r * PGSIZE"
    using space_okD(5) [OF s] by (simp_all add: root_ok_def)
  have l4: "VMP_TABLE_LEVELS = Suc (Suc 2)" by simp
  from space_okD(6) [OF s] r(1) have "fetch_level (Suc (Suc 2)) (?r * PGSIZE) v s = Ok None"
  proof (cases rule: fetch_step [where v = v])
    case (some p)
    then show ?thesis using z [OF unpack_less, of "Suc (Suc 2)" v] by simp
  qed
  then show ?thesis unfolding leaf_entry_def vmp_fetch_pte_def r(2) l4 by simp
qed

text \<open>The first page, which becomes the root table.\<close>

lemma boot_first_page:
  assumes fd: "fd \<noteq> - 1"
  obtains s1 s2 s3 where "SIM_pages_init (boot_state base) = Ok s1" and "SIM_paging_init fd s1 = Ok s2"
    and "vmp_page_alloc_locked kPageUsePML4 True s2 = Ok (Some 0, s3)" and "pfndb s3" and "handed_out 0 kPageUsePML4 s3"
    and "free_pgq s3 = [Suc 0..<SOFT_NPAGES]"
    and "\<forall>x. x \<noteq> 0 \<longrightarrow> mypages s3 x = (if x < SOFT_NPAGES then zero_page\<lparr>pfn := of_nat x, use := kPageUseFree\<rparr> else zero_page)"
    and "procs s3 = (\<lambda>_. zero_process)" and "SOFT_pages_base s3 = base"
    and "\<exists>pf. vmp_pagefile_state s3 = snd (init_vmp_pagefile True (Some fd) (1024 * 1024) pf)"
proof -
  let ?b = "boot_state base"
  obtain s1 where s1: "SIM_pages_init ?b = Ok s1" "pfndb s1" "free_pgq s1 = [0..<SOFT_NPAGES]"
    "nfree (vmstat s1) = 32" "rest_unchanged ?b s1"
    "\<forall>p. mypages s1 p = (if p < SOFT_NPAGES then (mypages ?b p)\<lparr>pfn := of_nat p, dirty := False,
       referent_pte := 0, nonzero_ptes := 0, refcnt := 0, use := kPageUseFree\<rparr> else mypages ?b p)"
    by (rule SIM_pages_init_ok [of ?b]) (simp_all add: boot_state_def)
  obtain s2 where s2: "SIM_paging_init fd s1 = Ok s2" "s2 = s1\<lparr>vmp_pagefile_state := vmp_pagefile_state s2\<rparr>"
    using fd by (simp add: SIM_paging_init_def)
  have q2: "queue_of q s2 = queue_of q s1" for q by (subst s2(2), cases q) simp_all
  have m2: "mypages s2 = mypages s1" "vmstat s2 = vmstat s1" "procs s2 = procs s1"
    "SOFT_pages_base s2 = SOFT_pages_base s1" "free_pgq s2 = free_pgq s1"
    by (subst s2(2), simp)+
  have pf2: "pfndb s2" using s1(2) pfndb_cong [OF m2(1) q2 m2(2)] by simp
  have cl2: "idle_clean s2" using s1(6) m2(1) by (simp add: idle_clean_def boot_state_def zero_page_def)
  have fr: "free_pgq s2 = 0 # [Suc 0..<SOFT_NPAGES]" using s1(3) m2(5) upt_conv_Cons [of 0 SOFT_NPAGES] by simp
  obtain s3 where s3: "vmp_page_alloc_locked kPageUsePML4 True s2 = Ok (Some 0, s3)" "pfndb s3"
    "handed_out 0 kPageUsePML4 s3" "free_pgq s3 = [Suc 0..<SOFT_NPAGES]" "\<forall>x. x \<noteq> 0 \<longrightarrow> mypages s3 x = mypages s2 x"
    "procs s3 = procs s2" "SOFT_pages_base s3 = SOFT_pages_base s2"
    "vmp_pagefile_state s3 = vmp_pagefile_state s2"
    by (rule alloc_free_ok [OF pf2 cl2 _ fr, of True kPageUsePML4]) simp_all
  have "mypages s3 x = (if x < SOFT_NPAGES then zero_page\<lparr>pfn := of_nat x, use := kPageUseFree\<rparr> else zero_page)" if "x \<noteq> 0" for x
    using that s3(5) m2(1) s1(6) by (simp add: boot_state_def zero_page_def)
  moreover have "vmp_pagefile_state s2 = snd (init_vmp_pagefile True (Some fd) (1024 * 1024) (vmp_pagefile_state s1))"
    using s2(1) fd by (auto simp: SIM_paging_init_def)
  then have "\<exists>pf. vmp_pagefile_state s3 = snd (init_vmp_pagefile True (Some fd) (1024 * 1024) pf)" using s3(8) by auto
  ultimately show thesis
    using that [OF s1(1) s2(1) s3(1-4)] s3(6,7) m2(3,4) s1(5) by (simp add: rest_unchanged_def boot_state_def)
qed

lemma kernel_root_ok:
  fixes s
  defines "t \<equiv> kernel_ps_init 0 (page_update 0 (\<lambda>pg. pg\<lparr>process := 0\<rparr>) s)"
  assumes s: "pfndb s" "handed_out 0 kPageUsePML4 s" "procs s = (\<lambda>_. zero_process)" "SOFT_pages_base s < 2 ^ 62"
    and pages: "\<forall>x. x \<noteq> 0 \<longrightarrow> mypages s x = (if x < SOFT_NPAGES then zero_page\<lparr>pfn := of_nat x, use := kPageUseFree\<rparr> else zero_page)"
  shows "space_ok (\<lambda>_. 0) 0 t" and "\<forall>p. table_of 0 t p \<longrightarrow> page_is_root_table p t"
    and "pml4_page (procs t 0) = 0" and "\<forall>i < 512. SOFT_pages t (pte_at 0 i) = 0"
    and "wsl (procs t 0) = \<lparr>wsl_queue = [], wsl_tree = Null, nlocked = 0, nentries = 0, wsl_max = 4\<rparr>"
    and "vad_tree (procs t 0) = Null" and "free_pgq t = free_pgq s" and "SOFT_pages_base t = SOFT_pages_base s"
    and "vmparam t = \<lparr>ws_page_expansion_count = 4, min_avail_for_expansion = 8, min_avail_for_alloc = 4\<rparr>"
proof -
  note H = s(2) [unfolded handed_out_def]
  have p3: "pfndb (page_update 0 (\<lambda>pg. pg\<lparr>process := 0\<rparr>) s)"
    by (rule pfndb_page_update [OF s(1)]) (simp_all add: same_place_def)
  have "queue_of q t = queue_of q (page_update 0 (\<lambda>pg. pg\<lparr>process := 0\<rparr>) s)" for q
    by (cases q) (simp_all add: t_def kernel_ps_init_def)
  from pfndb_cong [OF _ this] p3 have pf: "pfndb t" by (simp add: t_def kernel_ps_init_def)
  have pages': "mypages t p = (if p = 0 then (mypages s 0)\<lparr>process := 0\<rparr>
      else if p < SOFT_NPAGES then zero_page\<lparr>pfn := of_nat p, use := kPageUseFree\<rparr> else zero_page)" for p
    using pages by (simp add: t_def kernel_ps_init_def)
  show ps: "pml4_page (procs t 0) = 0"
    "wsl (procs t 0) = \<lparr>wsl_queue = [], wsl_tree = Null, nlocked = 0, nentries = 0, wsl_max = 4\<rparr>"
    "vad_tree (procs t 0) = Null" "free_pgq t = free_pgq s" "SOFT_pages_base t = SOFT_pages_base s"
    "vmparam t = \<lparr>ws_page_expansion_count = 4, min_avail_for_expansion = 8, min_avail_for_alloc = 4\<rparr>"
    using s(3) by (simp_all add: t_def kernel_ps_init_def zero_process_def)
  have root: "pml4 (procs t 0) = 0"
    using pfndb_pfn [OF s(1), of 0] by (simp add: t_def kernel_ps_init_def vmp_page_paddr_def vmp_pfn_to_paddr_def)
  have use: "use (mypages t p) = (if p = 0 then kPageUsePML4 else if p < SOFT_NPAGES then kPageUseFree else kPageUseInvalid)" for p
    using pages' H by (simp add: zero_page_def)
  have zero: "SOFT_pages t a = 0" if "a div PGSIZE = 0" for a
    using H that by (simp add: t_def kernel_ps_init_def)
  then show "\<forall>i < 512. SOFT_pages t (pte_at 0 i) = 0" by simp
  show "\<forall>p. table_of 0 t p \<longrightarrow> page_is_root_table p t"
    using use by (auto simp: table_of_def is_table_def page_is_root_table_def split: if_splits)
  show "space_ok (\<lambda>_. 0) 0 t"
  proof (rule fresh_space_ok [OF pf])
    show "idle_clean t" using pages' H by (simp add: idle_clean_def zero_page_def)
    show "low_base t" using s(4) ps(5) by (simp add: low_base_def)
    show "\<forall>a. a div PGSIZE = pml4_page (procs t 0) \<longrightarrow> SOFT_pages t a = 0" using zero by (simp add: ps)
  qed (use ps root use pages' H in \<open>auto simp: table_at_def table_of_def is_table_def split: if_splits\<close>)
qed

lemma main_init_ok:
  assumes base: "base < 2 ^ 62" and fd: "fd \<noteq> - 1"
  obtains t where "main_init fd (boot_state base) = Ok t" and "space_ok (\<lambda>_. 0) 0 t" and "plenty 22 0 t"
    and "vad_tree (procs t 0) = Elm False False Null main_vad Null" and "SOFT_pages_base t = base"
    and "\<forall>v. leaf_entry 0 v t = 0" and "tables_busy 0 t"
    and "ordinary_pages 0 t" and "\<forall>q. \<not> private_page 0 t q"
    and "\<exists>pf. vmp_pagefile_state t = snd (init_vmp_pagefile True (Some fd) (1024 * 1024) pf)"
    and "free_pgq t = [Suc 0..<SOFT_NPAGES]"
proof -
  obtain s1 s2 s3 where s: "SIM_pages_init (boot_state base) = Ok s1" "SIM_paging_init fd s1 = Ok s2"
    "vmp_page_alloc_locked kPageUsePML4 True s2 = Ok (Some 0, s3)" "pfndb s3" "handed_out 0 kPageUsePML4 s3"
    "free_pgq s3 = [Suc 0..<SOFT_NPAGES]"
    "\<forall>x. x \<noteq> 0 \<longrightarrow> mypages s3 x = (if x < SOFT_NPAGES then zero_page\<lparr>pfn := of_nat x, use := kPageUseFree\<rparr> else zero_page)"
    "procs s3 = (\<lambda>_. zero_process)" "SOFT_pages_base s3 = base"
    "\<exists>pf. vmp_pagefile_state s3 = snd (init_vmp_pagefile True (Some fd) (1024 * 1024) pf)"
    by (rule boot_first_page [OF fd])
  define s4 where "s4 = kernel_ps_init 0 (page_update 0 (\<lambda>pg. pg\<lparr>process := 0\<rparr>) s3)"
  have b: "SOFT_pages_base s3 < 2 ^ 62" using base s(9) by simp
  note K = kernel_root_ok [OF s(4,5,8) b s(7), folded s4_def]
  define t where "t = vad_tree_update_ps 0 (Elm False False Null main_vad Null)
    (s4\<lparr>vmp_balancer_event := False, vmp_pgwriter_event := False, vmp_sufficient_pages_event := False\<rparr>)"
  have code: "main_init fd (boot_state base) = Ok t"
    using s(1-3) K(6)
    by (simp add: main_init_def Let_def s4_def [symmetric] t_def vm_ps_allocate_def vm_ps_map_section_view_def
        main_vad_def RB_INSERT_def RB_INSERT_FINISH_def vad_tree_update_ps_def)
  have t: "wsl (procs t 0) = wsl (procs s4 0)" "vad_tree (procs t 0) = Elm False False Null main_vad Null"
    "pml4_page (procs t 0) = pml4_page (procs s4 0)" "mypages t = mypages s4" "SOFT_pages t = SOFT_pages s4"
    "SOFT_pages_base t = SOFT_pages_base s4" "free_pgq t = free_pgq s4" "vmparam t = vmparam s4"
    by (simp_all add: t_def vad_tree_update_ps_def)
  have ok: "space_ok (\<lambda>_. 0) 0 t"
  proof -
    have "space_ok (\<lambda>_. 0) 0 t = space_ok (\<lambda>_. 0) 0 s4"
    proof (rule space_ok_cong)
      show "queue_of q t = queue_of q s4" for q by (cases q) (simp_all add: t_def vad_tree_update_ps_def)
    qed (simp_all add: t_def vad_tree_update_ps_def)
    with K(1) show ?thesis by simp
  qed
  have "leaf_entry 0 v t = 0" for v by (rule new_root_untouched [OF ok]) (simp add: t K)
  moreover have "tables_busy 0 t" using K(2) t(4) by (simp add: tables_busy_def table_of_def page_is_root_table_def)
  moreover have "plenty 22 0 t" using s(6) by (simp add: plenty_def Let_def t K del: upt_rec_numeral)
  moreover have root: "use (mypages t 0) = kPageUsePML4" "process (mypages t 0) = 0"
    using s(5) t(4) by (simp_all add: s4_def kernel_ps_init_def handed_out_def)
  have free: "use (mypages t q) = kPageUseFree" if "q < SOFT_NPAGES" "q \<noteq> 0" for q
    using that s(7) t(4) by (simp add: s4_def kernel_ps_init_def)
  have "ordinary_pages 0 t"
    unfolding ordinary_pages_def using root free by (metis is_table_level le_refl table_of_def use_of_level_simps(4) zero_less_numeral)
  moreover have "\<not> private_page 0 t q" for q
    using root free [of q] by (cases "q = 0") (auto simp: private_page_def)
  moreover have "vmp_pagefile_state t = vmp_pagefile_state s3" by (simp add: t_def s4_def kernel_ps_init_def vad_tree_update_ps_def)
  moreover have "free_pgq t = [Suc 0..<SOFT_NPAGES]" using s(6) t(7) K(7) by (simp only:)
  ultimately show thesis using that [OF code ok] t(2,6) K(8) s(9,10) by (simp del: upt_rec_numeral)
qed

section \<open>The simulated MMU\<close>

text \<open>One level of the walk in a consistent address space.\<close>

lemma mmu_step_table:
  assumes s: "dirs_ok 0 s" and d: "table_at 0 s l d" and l: "2 \<le> l"
  obtains (none) "fetch_level l (d * PGSIZE) v s = Ok None"
      and "\<forall>msg k. mmu_step msg (d * PGSIZE) (vmp_addr_unpack v ! l) s k = Ok (MmuFault msg)"
  | (some) p where "table_at 0 s (l - 1) p" and "vmp_pte_hw_paddr (vmp_pte_hw_create (of_nat p) True) = p * PGSIZE"
      and "fetch_level l (d * PGSIZE) v s = fetch_level (l - 1) (p * PGSIZE) v s"
      and "\<forall>msg k. mmu_step msg (d * PGSIZE) (vmp_addr_unpack v ! l) s k = k (vmp_pte_hw_create (of_nat p) True)"
proof -
  obtain m where m: "l = Suc (Suc m)" using l by (metis Suc_diff_le add_2_eq_Suc diff_add_inverse le_add_diff_inverse)
  let ?i = "vmp_addr_unpack v ! l"
  have i: "?i < 512" using table_atD(4,5) [OF d] by (rule unpack_less)
  have a: "d * PGSIZE + PTE_SIZE * ?i = pte_at d ?i" by (simp add: pte_at_def)
  have step: "mmu_step msg (d * PGSIZE) ?i s k =
      (if \<not> pte_valid (SOFT_pages s (pte_at d ?i)) then Ok (MmuFault msg) else k (SOFT_pages s (pte_at d ?i)))" for msg k
    using table_atD(1) [OF d] i by (simp add: mmu_step_def a)
  from s d [unfolded m] show thesis
  proof (cases rule: fetch_step [where v = v])
    case none
    with that(1) step show thesis by (simp add: m del: fetch_level.simps)
  next
    case (some p)
    with that(2) step table_atD(1) [OF some(1)] show thesis by (simp add: m del: fetch_level.simps)
  qed
qed

text \<open>The last step of the walk, at the leaf table.\<close>

definition mmu_leaf :: "vaddr \<Rightarrow> bool \<Rightarrow> page_ptr \<Rightarrow> vmm \<Rightarrow> mmu_result outcome" where
  "mmu_leaf v wr d s = mmu_step ''mmu: invalid entry in pml1'' (d * PGSIZE) (vmp_addr_unpack v ! 1) s (\<lambda>v1.
     if wr \<and> \<not> vmp_pte_hw_is_writeable v1 then Ok (MmuFault ''mmu: write protected'')
     else Ok (MmuPaddr (vmp_pte_hw_paddr v1 + vmp_addr_unpack v ! 0)))"

lemma mmu_walk_cases:
  assumes s: "space_ok W 0 s"
  obtains (none) msg where "vmp_fetch_pte 0 v s = Ok None" and "mmu_walk v wr s = Ok (MmuFault msg)"
  | (leaf) d where "table_at 0 s (Suc 0) d" and "vmp_fetch_pte 0 v s = Ok (Some (pte_at d (vmp_addr_unpack v ! 1)))"
      and "mmu_walk v wr s = mmu_leaf v wr d s"
proof -
  note S = space_okD [OF s]
  let ?r = "pml4_page (procs s 0)"
  have r: "table_at 0 s 4 ?r" "pml4 (procs s 0) = ?r * PGSIZE" using S(5) by (simp_all add: root_ok_def)
  have le: "2 \<le> (4 :: nat)" "2 \<le> (3 :: nat)" "2 \<le> (2 :: nat)" by simp_all
  note defs = vmp_fetch_pte_def mmu_walk_def Let_def r(2)
  from S(6) r(1) le(1) show thesis
  proof (cases rule: mmu_step_table [where v = v])
    case l3: (some p3)
    then have t3: "table_at 0 s 3 p3" by simp
    from S(6) t3 le(2) show thesis
    proof (cases rule: mmu_step_table [where v = v])
      case l2: (some p2)
      then have t2: "table_at 0 s 2 p2" by simp
      from S(6) t2 le(3) show thesis
      proof (cases rule: mmu_step_table [where v = v])
        case l1: (some p1)
        then have "table_at 0 s (Suc 0) p1" by simp
        moreover have "vmp_fetch_pte 0 v s = Ok (Some (pte_at p1 (vmp_addr_unpack v ! 1)))"
          using l3(3) l2(3) l1(3) by (simp add: defs pte_at_def)
        moreover have "mmu_walk v wr s = mmu_leaf v wr p1 s"
          using l3(2,4) l2(2,4) l1(2,4) by (simp add: defs mmu_leaf_def)
        ultimately show thesis by (rule leaf)
      qed (use none l3 l2 in \<open>simp_all add: defs\<close>)
    qed (use none l3 in \<open>simp_all add: defs\<close>)
  qed (use none in \<open>simp_all add: defs\<close>)
qed

text \<open>The MMU agrees with the memory manager's own walk.\<close>

lemma mmu_walk_leaf:
  assumes s: "space_ok W 0 s"
  shows "if pte_valid (leaf_entry 0 v s) \<and> (wr \<longrightarrow> vmp_pte_hw_is_writeable (leaf_entry 0 v s))
    then mmu_walk v wr s = Ok (MmuPaddr (vmp_pte_hw_paddr (leaf_entry 0 v s) + vmp_addr_unpack v ! 0))
    else \<exists>msg. mmu_walk v wr s = Ok (MmuFault msg)"
  using s
proof (cases rule: mmu_walk_cases [where v = v and wr = wr])
  case (none msg)
  then show ?thesis by (simp add: leaf_entry_def)
next
  case (leaf d)
  have i: "vmp_addr_unpack v ! 1 < 512" by (rule unpack_less) simp_all
  have "d * PGSIZE + PTE_SIZE * (vmp_addr_unpack v ! 1) = pte_at d (vmp_addr_unpack v ! 1)" by (simp add: pte_at_def)
  then show ?thesis
    using leaf table_atD(1) [OF leaf(1)] i by (auto simp: leaf_entry_def mmu_leaf_def mmu_step_def)
qed

section \<open>An access\<close>

text \<open>An access together with the number of faults it takes.\<close>

inductive access_in ::
    "(backing \<times> vmm \<Rightarrow> backing \<times> vmm \<Rightarrow> bool) \<Rightarrow> fault_env \<Rightarrow> vaddr \<Rightarrow> bool \<Rightarrow>
     backing \<times> vmm \<Rightarrow> nat \<Rightarrow> paddr \<times> backing \<times> vmm \<Rightarrow> bool"
  for others env addr for_write where
  in_hit: "mmu_walk addr for_write (snd fs) = Ok (MmuPaddr pa) \<Longrightarrow>
     access_in others env addr for_write fs 0 (pa, fs)"
| in_fault: "mmu_walk addr for_write (snd fs) = Ok (MmuFault msg) \<Longrightarrow>
     vm_fault others env addr for_write (None, fs) (out, fs') \<Longrightarrow>
     access_in others env addr for_write fs' n r \<Longrightarrow> access_in others env addr for_write fs (Suc n) r"

lemma access_iff_access_in: "access others env addr for_write fs r \<longleftrightarrow> (\<exists>n. access_in others env addr for_write fs n r)"
proof
  show "\<exists>n. access_in others env addr for_write fs n r" if "access others env addr for_write fs r"
    using that by (induction rule: access.induct) (blast intro: in_hit in_fault)+
  have "access others env addr for_write fs r" if "access_in others env addr for_write fs n r" for n
    using that by (induction rule: access_in.induct) (blast intro: access_hit access_fault)+
  then show "\<exists>n. access_in others env addr for_write fs n r \<Longrightarrow> access others env addr for_write fs r" by blast
qed

lemma access_in_hit_iff:
  assumes "mmu_walk addr for_write (snd fs) = Ok (MmuPaddr pa)"
  shows "access_in others env addr for_write fs n r \<longleftrightarrow> n = 0 \<and> r = (pa, fs)"
  using assms by (auto elim: access_in.cases intro: in_hit)

lemma access_in_fault_iff:
  assumes w: "mmu_walk addr for_write (snd fs) = Ok (MmuFault msg)"
    and f: "do_fault env addr for_write (None, fs) = Ok (0, None, fs')"
  shows "access_in others env addr for_write fs n r \<longleftrightarrow> (\<exists>m. n = Suc m \<and> access_in others env addr for_write fs' m r)"
proof
  assume "access_in others env addr for_write fs n r"
  then show "\<exists>m. n = Suc m \<and> access_in others env addr for_write fs' m r"
  proof (cases rule: access_in.cases)
    case (in_fault msg' out fs'' m)
    from in_fault(3) have "fs'' = fs'" by (cases rule: vm_fault.cases) (use f in simp_all)
    with in_fault(1,4) show ?thesis by simp
  qed (use w in simp)
next
  assume "\<exists>m. n = Suc m \<and> access_in others env addr for_write fs' m r"
  with w f show "access_in others env addr for_write fs n r" by (blast intro: in_fault fault_done)
qed

text \<open>The two rules as equations, for a walk that succeeds and for a fault that is resolved at once.\<close>

lemma access_hit_iff:
  assumes "mmu_walk addr for_write (snd fs) = Ok (MmuPaddr pa)"
  shows "access others env addr for_write fs r \<longleftrightarrow> r = (pa, fs)"
  using assms by (auto elim: access.cases intro: access_hit)

lemma access_fault_iff:
  assumes w: "mmu_walk addr for_write (snd fs) = Ok (MmuFault msg)"
    and f: "do_fault env addr for_write (None, fs) = Ok (0, None, fs')"
  shows "access others env addr for_write fs r \<longleftrightarrow> access others env addr for_write fs' r"
proof
  assume "access others env addr for_write fs r"
  then show "access others env addr for_write fs' r"
  proof (cases rule: access.cases)
    case (access_fault msg' out fs'')
    from access_fault(2) have "fs'' = fs'" by (cases rule: vm_fault.cases) (use f in simp_all)
    with access_fault(3) show ?thesis by simp
  qed (use w in simp)
next
  assume "access others env addr for_write fs' r"
  with w f show "access others env addr for_write fs r" by (blast intro: access_fault fault_done)
qed

lemma valid_entry_maps:
  assumes s: "space_ok W ps s" and v: "pte_valid (leaf_entry ps v s)"
  obtains a q where "maps_anon ps v a q s" and "leaf_entry ps v s = SOFT_pages s a"
proof -
  have "leaf_entry ps v s \<noteq> 0" using v by auto
  then obtain a where a: "vmp_fetch_pte ps v s = Ok (Some a)" "leaf_entry ps v s = SOFT_pages s a"
    by (rule leaf_entry_fetch)
  obtain d where d: "table_at ps s (Suc 0) d" "a = pte_at d (vmp_addr_unpack v ! 1)" "leaf_ok ps s a"
    by (rule fetch_leaf [OF s a(1)])
  obtain q w where q: "SOFT_pages s a = vmp_pte_hw_create (of_nat q) w" "anon_at ps s a q" "refcnt (mypages s q) = 1"
    using d(3) v a(2) by (auto simp: leaf_ok_def Let_def vmp_pte_characterise_def)
  then have "maps_anon ps v a q s"
    using a(1) d(1,2) table_atD(1) [OF d(1)] unpack_less [of 1] by (simp add: maps_anon_def anon_at_def small_pfn)
  with that a(2) show thesis by blast
qed

lemma mapped_walk:
  assumes s: "space_ok W 0 s" and m: "maps_anon 0 v a q s" and wr: "wr \<longrightarrow> vmp_pte_hw_is_writeable (SOFT_pages s a)"
  shows "mmu_walk v wr (snd (file, s)) = Ok (MmuPaddr (q * PGSIZE + vmp_addr_unpack v ! 0))"
proof -
  note R = maps_anon_refers [OF s m]
  have valid: "pte_valid (SOFT_pages s a)" "q < SOFT_NPAGES" using m by (simp_all add: maps_anon_def)
  then have "vmp_pte_hw_paddr (SOFT_pages s a) = q * PGSIZE" using R(1) by (auto simp: refers_to_def)
  then show ?thesis using mmu_walk_leaf [OF s, of v wr] R(2) valid(1) wr by simp
qed

lemmas access_mapped = access_hit_iff [OF mapped_walk]
lemmas access_in_mapped = access_in_hit_iff [OF mapped_walk]

lemma missing_walk:
  assumes s: "space_ok W 0 s" and miss: "\<not> (pte_valid (leaf_entry 0 v s) \<and> (wr \<longrightarrow> vmp_pte_hw_is_writeable (leaf_entry 0 v s)))"
  obtains msg where "mmu_walk v wr (snd (file, s)) = Ok (MmuFault msg)"
  using mmu_walk_leaf [OF s, of v wr] miss by (auto split: if_splits)

lemma access_faults:
  assumes s: "space_ok W 0 s" and miss: "\<not> (pte_valid (leaf_entry 0 v s) \<and> (wr \<longrightarrow> vmp_pte_hw_is_writeable (leaf_entry 0 v s)))"
    and f: "do_fault env v wr (None, file, s) = Ok (0, None, file, t)"
  shows "access others env v wr (file, s) r \<longleftrightarrow> access others env v wr (file, t) r"
    and "access_in others env v wr (file, s) n r \<longleftrightarrow> (\<exists>m. n = Suc m \<and> access_in others env v wr (file, t) m r)"
proof -
  obtain msg where m: "mmu_walk v wr (snd (file, s)) = Ok (MmuFault msg)" by (rule missing_walk [OF s miss])
  show "access others env v wr (file, s) r \<longleftrightarrow> access others env v wr (file, t) r" by (rule access_fault_iff [OF m f])
  show "access_in others env v wr (file, s) n r \<longleftrightarrow> (\<exists>m. n = Suc m \<and> access_in others env v wr (file, t) m r)"
    by (rule access_in_fault_iff [OF m f])
qed

text \<open>How many faults an access takes: none when the MMU finds its page, two when it is a write to a page in
  transition, which a first fault maps without write permission, and one in the other cases.\<close>

definition faults_taken :: "bool \<Rightarrow> pte \<Rightarrow> nat" where
  "faults_taken wr e =
     (if pte_valid e \<and> (wr \<longrightarrow> vmp_pte_hw_is_writeable e) then 0
      else if wr \<and> e \<noteq> 0 \<and> \<not> pte_valid e then 2 else 1)"

lemma access_ok:
  assumes s: "space_ok (\<lambda>_. 0) 0 s" and k: "plenty (k + (tables_need v s + 2)) 0 s"
    and vad: "vmp_ps_vad_find (fe_key env) 0 v s = Some vad" "vad_section vad = None" "\<not> vad_cow vad"
      "wr \<longrightarrow> vad_writeable vad"
    and v: "low_vaddr v" "v \<notin> direct_map s"
    and e: "vmp_pte_characterise (leaf_entry 0 v s) \<noteq> Ok kPTEKindSwap"
  obtains t a q where "\<forall>n r. access_in others env v wr (file, s) n r \<longleftrightarrow>
      n = faults_taken wr (leaf_entry 0 v s) \<and> r = (q * PGSIZE + vmp_addr_unpack v ! 0, file, t)"
    and "space_ok (\<lambda>_. 0) 0 t" and "plenty k 0 t" and "maps_anon 0 v a q t"
    and "wr \<longrightarrow> vmp_pte_hw_is_writeable (SOFT_pages t a)"
    and "\<forall>u off. off < PGSIZE \<longrightarrow> vm_word 0 u off t = vm_word 0 u off s"
    and "vad_tree (procs t 0) = vad_tree (procs s 0)" and "direct_map t = direct_map s"
proof (cases "pte_valid (leaf_entry 0 v s) \<and> (wr \<longrightarrow> vmp_pte_hw_is_writeable (leaf_entry 0 v s))")
  case True
  then have valid: "pte_valid (leaf_entry 0 v s)" by simp
  obtain a q where m: "maps_anon 0 v a q s" "leaf_entry 0 v s = SOFT_pages s a" by (rule valid_entry_maps [OF s valid])
  with True have w: "wr \<longrightarrow> vmp_pte_hw_is_writeable (SOFT_pages s a)" by simp
  have "plenty k 0 s" by (rule plenty_mono [OF k]) simp
  from that [OF _ s this m(1) w] show thesis using access_in_mapped [OF s m(1) w] True by (simp add: faults_taken_def)
next
  case miss: False
  have k1: "plenty (Suc k + (tables_need v s + 1)) 0 s" using k by simp
  obtain t1 a1 q1 where f1: "do_fault env v wr (None, file, s) = Ok (0, None, file, t1)" "space_ok (\<lambda>_. 0) 0 t1"
    "plenty (Suc k) 0 t1" "maps_anon 0 v a1 q1 t1" "SOFT_pages t1 a1 = resolved_entry wr vad (leaf_entry 0 v s) q1"
    "\<forall>u off. off < PGSIZE \<longrightarrow> vm_word 0 u off t1 = vm_word 0 u off s"
    "vad_tree (procs t1 0) = vad_tree (procs s 0)" "direct_map t1 = direct_map s"
    by (rule do_fault_need [OF s k1 vad(1-3) v e, of wr "file"])
  note e1 = maps_anon_refers(2) [OF f1(2,4)]
  show thesis
  proof (cases "wr \<longrightarrow> vmp_pte_hw_is_writeable (SOFT_pages t1 a1)")
    case True
    have "faults_taken wr (leaf_entry 0 v s) = 1"
      using miss True f1(5) by (auto simp: faults_taken_def resolved_entry_def split: if_splits)
    then have acc: "\<forall>n r. access_in others env v wr (file, s) n r \<longleftrightarrow>
        n = faults_taken wr (leaf_entry 0 v s) \<and> r = (q1 * PGSIZE + vmp_addr_unpack v ! 0, file, t1)"
      using access_faults(2) [OF s miss f1(1)] access_in_mapped [OF f1(2,4) True] by auto
    have "plenty k 0 t1" by (rule plenty_mono [OF f1(3)]) simp
    from that [OF acc f1(2) this f1(4) True f1(6-8)] show thesis .
  next
    case False
    have hw: "SOFT_pages t1 a1 = vmp_pte_hw_create (of_nat q1) False"
      using False f1(5) by (simp add: resolved_entry_def split: if_splits)
    have vad1: "vmp_ps_vad_find (fe_key env) 0 v t1 = Some vad" using vad(1) f1(7) by (simp add: vmp_ps_vad_find_def)
    have v1: "v \<notin> direct_map t1" using v(2) f1(8) by simp
    have ns: "vmp_pte_characterise (leaf_entry 0 v t1) \<noteq> Ok kPTEKindSwap" using e1 hw by simp
    have "vmp_fetch_pte 0 v t1 \<noteq> Ok None" using f1(4) by (simp add: maps_anon_def)
    then have k2: "plenty (k + (tables_need v t1 + 1)) 0 t1" using f1(3) by (simp add: tables_need_def)
    obtain t a q where f: "do_fault env v wr (None, file, t1) = Ok (0, None, file, t)" "space_ok (\<lambda>_. 0) 0 t"
      "plenty k 0 t" "maps_anon 0 v a q t" "SOFT_pages t a = resolved_entry wr vad (leaf_entry 0 v t1) q"
      "\<forall>u off. off < PGSIZE \<longrightarrow> vm_word 0 u off t = vm_word 0 u off t1"
      "vad_tree (procs t 0) = vad_tree (procs t1 0)" "direct_map t = direct_map t1"
      by (rule do_fault_need [OF f1(2) k2 vad1 vad(2,3) v(1) v1 ns, of wr "file"])
    have wr: "wr \<longrightarrow> vmp_pte_hw_is_writeable (SOFT_pages t a)" using f(5) e1 hw by (simp add: resolved_entry_def)
    have miss1: "\<not> (pte_valid (leaf_entry 0 v t1) \<and> (wr \<longrightarrow> vmp_pte_hw_is_writeable (leaf_entry 0 v t1)))"
      using e1 hw False by simp
    have "faults_taken wr (leaf_entry 0 v s) = 2"
      using miss False f1(5) vad(4) by (auto simp: faults_taken_def resolved_entry_def split: if_splits)
    then have acc: "\<forall>n r. access_in others env v wr (file, s) n r \<longleftrightarrow>
        n = faults_taken wr (leaf_entry 0 v s) \<and> r = (q * PGSIZE + vmp_addr_unpack v ! 0, file, t)"
      using access_faults(2) [OF s miss f1(1)] access_faults(2) [OF f1(2) miss1 f(1)] access_in_mapped [OF f(2,4) wr]
      by (auto simp: numeral_2_eq_2)
    show thesis by (rule that [OF acc f(2-4) wr]) (use f f1 in simp_all)
  qed
qed

section \<open>Properties of the simulator\<close>

text \<open>The direct map lies above the range that \<^verbatim>\<open>main\<close> allocates when the array of pages does.\<close>

lemma below_direct_map:
  assumes "space_ok W ps s" and "v < SOFT_pages_base s"
  shows "v \<notin> direct_map s"
proof -
  note S = space_okD [OF assms(1)]
  have "v \<noteq> page_vaddr p s" if "p < SOFT_NPAGES" for p
  proof -
    let ?b = "SOFT_pages_base s"
    have b: "unat ?b < 2 ^ 62" using S(11) by (simp add: low_base_def word_less_nat_alt)
    have "page_vaddr p s = of_nat (p * PGSIZE + unat ?b)" using page_vaddr_page [OF S(1) that] by simp
    then have "unat (page_vaddr p s) = p * PGSIZE + unat ?b"
      using b that by (simp add: unsigned_of_nat take_bit_nat_eq_self del: of_nat_add of_nat_mult)
    then have "?b \<le> page_vaddr p s" by (simp add: word_le_nat_alt)
    with assms(2) show ?thesis by auto
  qed
  then show ?thesis by (auto simp: direct_map_def)
qed

text \<open>C11. The start-up of the simulator succeeds when the page file opens and the array of pages lies below
  \<open>2^62\<close>. It leaves a consistent address space with 22 pages to spare, all pages but the root table being
  free, in which every address of the first
  128 GiB lies in the range that \<^verbatim>\<open>main\<close> allocates, no other address lies in any range, and every address
  denotes zero.\<close>

theorem main_init_establishes_space:
  assumes "base < 2 ^ 62" and "fd \<noteq> - 1"
  shows "\<exists>t. main_init fd (boot_state base) = Ok t \<and> space_ok (\<lambda>_. 0) 0 t \<and> plenty 22 0 t
    \<and> free_pgq t = [Suc 0..<SOFT_NPAGES]
    \<and> (\<forall>key v. vmp_ps_vad_find key 0 v t = (if v < 0x2000000000 then Some main_vad else None))
    \<and> (\<forall>v off. vm_word 0 v off t = Some 0)"
proof -
  obtain t where t: "main_init fd (boot_state base) = Ok t" "space_ok (\<lambda>_. 0) 0 t" "plenty 22 0 t"
    "vad_tree (procs t 0) = Elm False False Null main_vad Null" "\<forall>v. leaf_entry 0 v t = 0"
    "free_pgq t = [Suc 0..<SOFT_NPAGES]"
    by (rule main_init_ok [OF assms])
  with main_vad_find [OF t(4)] vm_word_zero show ?thesis by (intro exI [of _ t]) (simp del: upt_rec_numeral)
qed

theorem main_init_establishes_space_witness:
  "\<exists>t. main_init 3 (boot_state 0x10000000000) = Ok t \<and> space_ok (\<lambda>_. 0) 0 t \<and> vm_word 0 0x5000 8 t = Some 0"
  using main_init_establishes_space [of "0x10000000000" 3] by auto

text \<open>C3. A fault that the range permits (the range is anonymous and not copy-on-write, and writeable if the
  access is a write), on an address (below \<open>2^63\<close> and outside the direct map) that is not in the page file,
  when there is memory for the tables the address may lack and for one page. It is resolved at the first attempt: afterwards the address is mapped
  to its own page or, when it had none, to a page that was free. The new mapping is writeable after a
  first touch that writes and after a write to a valid entry, and when it was writeable before; a page in
  transition is mapped read-only. No address changes its contents, no mapping is lost, and the address
  space stays consistent.\<close>

theorem do_fault_resolves:
  assumes "space_ok (\<lambda>_. 0) 0 s" and "plenty (k + (tables_need v s + 1)) 0 s"
    and "vmp_ps_vad_find (fe_key env) 0 v s = Some vad" and "vad_section vad = None" and "\<not> vad_cow vad"
    and "wr \<longrightarrow> vad_writeable vad"
    and "low_vaddr v" and "v \<notin> direct_map s" and "vmp_pte_characterise (leaf_entry 0 v s) \<noteq> Ok kPTEKindSwap"
  shows "\<exists>t a q. do_fault env v wr (None, file, s) = Ok (0, None, file, t)
    \<and> space_ok (\<lambda>_. 0) 0 t \<and> plenty k 0 t \<and> maps_anon 0 v a q t
    \<and> (if leaf_entry 0 v s = 0 then use (mypages s q) = kPageUseFree else refers_to (leaf_entry 0 v s) q)
    \<and> SOFT_pages t a = vmp_pte_hw_create (of_nat q)
        (if leaf_entry 0 v s = 0 then wr
         else pte_valid (leaf_entry 0 v s) \<and> (wr \<or> vmp_pte_hw_is_writeable (leaf_entry 0 v s)))
    \<and> (\<forall>u off. off < PGSIZE \<longrightarrow> vm_word 0 u off t = vm_word 0 u off s)
    \<and> (\<forall>u b p. maps_anon 0 u b p s \<longrightarrow> maps_anon 0 u b p t)"
proof -
  obtain t a q where "do_fault env v wr (None, file, s) = Ok (0, None, file, t)" "space_ok (\<lambda>_. 0) 0 t"
    "plenty k 0 t" "maps_anon 0 v a q t" "SOFT_pages t a = resolved_entry wr vad (leaf_entry 0 v s) q"
    "if leaf_entry 0 v s = 0 then use (mypages s q) = kPageUseFree else refers_to (leaf_entry 0 v s) q"
    "\<forall>u off. off < PGSIZE \<longrightarrow> vm_word 0 u off t = vm_word 0 u off s"
    "\<forall>u b p. maps_anon 0 u b p s \<longrightarrow> maps_anon 0 u b p t"
    by (rule do_fault_need [OF assms(1-5,7-9), of wr "file"])
  with assms(6) show ?thesis unfolding resolved_entry_def
    by (intro exI [of _ t] exI [of _ a] exI [of _ q]) auto
qed

text \<open>The first fault after start-up.\<close>

lemma main_init_first_fault:
  obtains s where "main_init 3 (boot_state 0x10000000000) = Ok s" and "space_ok (\<lambda>_. 0) 0 s" and "plenty 22 0 s"
    and "\<forall>key. vmp_ps_vad_find key 0 0x5008 s = Some main_vad" and "low_vaddr 0x5008" and "0x5008 \<notin> direct_map s"
    and "leaf_entry 0 0x5008 s = 0" and "tables_busy 0 s"
proof -
  obtain s where s: "main_init 3 (boot_state 0x10000000000) = Ok s" "space_ok (\<lambda>_. 0) 0 s" "plenty 22 0 s"
    "vad_tree (procs s 0) = Elm False False Null main_vad Null" "SOFT_pages_base s = 0x10000000000"
    "\<forall>v. leaf_entry 0 v s = 0" "tables_busy 0 s"
    by (rule main_init_ok [of "0x10000000000" 3]) simp_all
  have "0x5008 \<notin> direct_map s" by (rule below_direct_map [OF s(2)]) (simp add: s(5))
  with that s main_vad_find [OF s(4)] show thesis by (simp add: low_vaddr_def)
qed

theorem do_fault_resolves_witness:
  "\<exists>s. main_init 3 (boot_state 0x10000000000) = Ok s \<and> (\<forall>env file. \<exists>t a q.
     do_fault env 0x5008 True (None, file, s) = Ok (0, None, file, t) \<and> maps_anon 0 0x5008 a q t
     \<and> use (mypages s q) = kPageUseFree \<and> SOFT_pages t a = vmp_pte_hw_create (of_nat q) True)"
proof -
  obtain s where s: "main_init 3 (boot_state 0x10000000000) = Ok s" "space_ok (\<lambda>_. 0) 0 s" "plenty 22 0 s"
    "\<forall>key. vmp_ps_vad_find key 0 0x5008 s = Some main_vad" "low_vaddr 0x5008" "0x5008 \<notin> direct_map s"
    "leaf_entry 0 0x5008 s = 0"
    by (rule main_init_first_fault)
  have "plenty (0 + (tables_need 0x5008 s + 1)) 0 s" by (rule plenty_mono [OF s(3)]) (simp add: tables_need_def)
  from do_fault_resolves [OF s(2) this _ _ _ _ s(5,6), of _ main_vad True] s(1,4,7) show ?thesis
    by (simp add: main_vad_def) blast
qed


text \<open>A start-up state whose range is read-only.\<close>

lemma read_only_state:
  obtains s where "space_ok (\<lambda>_. 0) 0 s" and "plenty 22 0 s" and "leaf_entry 0 0x5008 s = 0"
    and "\<forall>key. vmp_ps_vad_find key 0 0x5008 s = Some (main_vad\<lparr>vad_writeable := False\<rparr>)"
    and "low_vaddr 0x5008" and "0x5008 \<notin> direct_map s"
proof -
  obtain s where s: "space_ok (\<lambda>_. 0) 0 s" "plenty 22 0 s" "low_vaddr 0x5008" "0x5008 \<notin> direct_map s"
    "leaf_entry 0 0x5008 s = 0"
    by (rule main_init_first_fault)
  let ?s = "vad_tree_update_ps 0 (Elm False False Null (main_vad\<lparr>vad_writeable := False\<rparr>) Null) s"
  have "queue_of q ?s = queue_of q s" for q by (cases q) (simp_all add: vad_tree_update_ps_def)
  then have db: "pfndb ?s = pfndb s" by (rule pfndb_cong [rotated]) (simp_all add: vad_tree_update_ps_def)
  have same: "same_but_clean s ?s" by (simp add: same_but_clean_def vad_tree_update_ps_def)
  have S: "space_ok (\<lambda>_. 0) 0 ?s" "leaf_entry 0 0x5008 ?s = 0"
    using space_ok_same_but_clean [OF same db, of 0] s(1,5) by (simp_all add: vad_tree_update_ps_def)
  show thesis
  proof (rule that [OF S(1) _ S(2) _ s(3)])
    show "plenty 22 0 ?s" using s(2) by (simp add: plenty_def Let_def vad_tree_update_ps_def)
    show "\<forall>key. vmp_ps_vad_find key 0 0x5008 ?s = Some (main_vad\<lparr>vad_writeable := False\<rparr>)"
      by (simp add: vmp_ps_vad_find_def vmp_vad_cmp_def vad_tree_update_ps_def main_vad_def)
    show "0x5008 \<notin> direct_map ?s"
      using s(4) direct_map_cong [OF space_okD(1) [OF s(1)] space_okD(1) [OF S(1)]] by (simp add: vad_tree_update_ps_def)
  qed
qed


text \<open>C10. The simulated MMU and the memory manager agree on every address of a consistent address space: the
  walk of the MMU reaches the page of the entry that \<^verbatim>\<open>vmp_fetch_pte\<close> finds when that entry is valid and
  permits the access, and faults in every other case; it never leaves simulated memory.\<close>

theorem mmu_agrees_with_fetch:
  assumes "space_ok W 0 s"
  shows "case vmp_fetch_pte 0 v s of
      Ok (Some a) \<Rightarrow>
        if pte_valid (SOFT_pages s a) \<and> (wr \<longrightarrow> vmp_pte_hw_is_writeable (SOFT_pages s a))
        then mmu_walk v wr s = Ok (MmuPaddr (vmp_pte_hw_paddr (SOFT_pages s a) + vmp_addr_unpack v ! 0))
        else \<exists>msg. mmu_walk v wr s = Ok (MmuFault msg)
    | Ok None \<Rightarrow> \<exists>msg. mmu_walk v wr s = Ok (MmuFault msg)
    | Err e \<Rightarrow> False"
  using assms
proof (cases rule: mmu_walk_cases [where v = v and wr = wr])
  case (leaf d)
  have e: "leaf_entry 0 v s = SOFT_pages s (pte_at d (vmp_addr_unpack v ! 1))" using leaf(2) by (simp add: leaf_entry_def)
  show ?thesis using mmu_walk_leaf [OF assms, of v wr] unfolding e leaf(2) by simp
qed simp

theorem mmu_agrees_with_fetch_witness: "\<exists>msg. mmu_walk 0x5008 True sample_root = Ok (MmuFault msg)"
proof -
  have "leaf_entry 0 0x5008 sample_root = 0"
    by (rule new_root_untouched [OF sample_root_ok(1)]) (simp add: sample_root_def boot_state_def)
  then have "vmp_fetch_pte 0 0x5008 sample_root = Ok (Some a) \<Longrightarrow> SOFT_pages sample_root a = 0" for a
    by (simp add: leaf_entry_def)
  with mmu_agrees_with_fetch [OF sample_root_ok(1), of "0x5008" True] show ?thesis
    by (auto split: outcome.splits option.splits)
qed

text \<open>C4. An access that the range permits (as for C3), to an address that is not in the page file, when there is
  memory for the tables the address may lack and for two pages. It ends, and with one possible result,
  the physical address in the page that is mapped afterwards. The number of faults it takes on the way is
  \<open>faults_taken\<close>, at most two; none of them waits. The mapping permits the access, no address changes its
  contents, and the address space stays consistent.\<close>

theorem access_completes:
  assumes "space_ok (\<lambda>_. 0) 0 s" and "plenty (k + (tables_need v s + 2)) 0 s"
    and "vmp_ps_vad_find (fe_key env) 0 v s = Some vad" and "vad_section vad = None" and "\<not> vad_cow vad"
    and "wr \<longrightarrow> vad_writeable vad"
    and "low_vaddr v" and "v \<notin> direct_map s" and "vmp_pte_characterise (leaf_entry 0 v s) \<noteq> Ok kPTEKindSwap"
  shows "\<exists>t a q. (\<forall>r. access others env v wr (file, s) r \<longleftrightarrow> r = (q * PGSIZE + vmp_addr_unpack v ! 0, file, t))
    \<and> (\<forall>n r. access_in others env v wr (file, s) n r \<longleftrightarrow>
        n = faults_taken wr (leaf_entry 0 v s) \<and> r = (q * PGSIZE + vmp_addr_unpack v ! 0, file, t))
    \<and> faults_taken wr (leaf_entry 0 v s) \<le> 2
    \<and> space_ok (\<lambda>_. 0) 0 t \<and> plenty k 0 t \<and> maps_anon 0 v a q t
    \<and> (wr \<longrightarrow> vmp_pte_hw_is_writeable (SOFT_pages t a))
    \<and> (\<forall>u off. off < PGSIZE \<longrightarrow> vm_word 0 u off t = vm_word 0 u off s)"
proof -
  obtain t a q where t: "\<forall>n r. access_in others env v wr (file, s) n r \<longleftrightarrow>
      n = faults_taken wr (leaf_entry 0 v s) \<and> r = (q * PGSIZE + vmp_addr_unpack v ! 0, file, t)"
    "space_ok (\<lambda>_. 0) 0 t" "plenty k 0 t" "maps_anon 0 v a q t" "wr \<longrightarrow> vmp_pte_hw_is_writeable (SOFT_pages t a)"
    "\<forall>u off. off < PGSIZE \<longrightarrow> vm_word 0 u off t = vm_word 0 u off s"
    by (rule access_ok [OF assms, of others "file"])
  then have "\<forall>r. access others env v wr (file, s) r \<longleftrightarrow> r = (q * PGSIZE + vmp_addr_unpack v ! 0, file, t)"
    by (simp add: access_iff_access_in)
  with t show ?thesis by (intro exI [of _ t] exI [of _ a] exI [of _ q]) (simp add: faults_taken_def)
qed

theorem access_completes_witness:
  "\<exists>s. main_init 3 (boot_state 0x10000000000) = Ok s
     \<and> (\<forall>others env file. \<exists>t q. access_in others env 0x5008 True (file, s) 1 (q * PGSIZE + 8, file, t)
          \<and> vm_word 0 0x5008 8 t = Some 0)"
proof -
  obtain s where s: "main_init 3 (boot_state 0x10000000000) = Ok s" "space_ok (\<lambda>_. 0) 0 s" "plenty 22 0 s"
    "\<forall>key. vmp_ps_vad_find key 0 0x5008 s = Some main_vad" "low_vaddr 0x5008" "0x5008 \<notin> direct_map s"
    "leaf_entry 0 0x5008 s = 0"
    by (rule main_init_first_fault)
  have k: "plenty (0 + (tables_need 0x5008 s + 2)) 0 s" by (rule plenty_mono [OF s(3)]) (simp add: tables_need_def)
  have o0: "vmp_addr_unpack 0x5008 ! 0 = 8" by (simp add: vmp_addr_unpack_def get_field_def)
  have w: "vm_word 0 0x5008 8 s = Some 0" using s(7) by (rule vm_word_zero)
  have one: "faults_taken True (leaf_entry 0 0x5008 s) = 1" using s(7) by (simp add: faults_taken_def)
  have "\<exists>t q. access_in others env 0x5008 True (file, s) 1 (q * PGSIZE + 8, file, t) \<and> vm_word 0 0x5008 8 t = Some 0"
    for others env "file"
    using access_completes [OF s(2) k, of env main_vad True others "file"] s(4-7) w one
    by (auto simp: main_vad_def o0)
  with s(1) show ?thesis by blast
qed

text \<open>The state after a first write fault, for evaluating the operations that follow on it.\<close>

lemma first_fault_state:
  obtains s t a q env "file" where "main_init 3 (boot_state 0x10000000000) = Ok s" and "plenty 4 0 s"
    and "vmp_ps_vad_find (fe_key env) 0 0x5008 s = Some main_vad" and "vad_section main_vad = None"
    and "\<not> vad_cow main_vad" and "low_vaddr 0x5008" and "0x5008 \<notin> direct_map s"
    and "do_fault env 0x5008 True (None, file, s) = Ok (0, None, file, t)" and "space_ok (\<lambda>_. 0) 0 t"
    and "maps_anon 0 0x5008 a q t" and "vmp_pte_hw_is_writeable (SOFT_pages t a)" and "tables_busy 0 t"
    and "vm_word 0 0x5008 8 t = Some 0" and "plenty 3 0 t"
proof -
  obtain s where s: "main_init 3 (boot_state 0x10000000000) = Ok s" "space_ok (\<lambda>_. 0) 0 s" "plenty 22 0 s"
    "\<forall>key. vmp_ps_vad_find key 0 0x5008 s = Some main_vad" "low_vaddr 0x5008" "0x5008 \<notin> direct_map s"
    "leaf_entry 0 0x5008 s = 0" "tables_busy 0 s"
    by (rule main_init_first_fault)
  define env where "env = \<lparr>fe_key = main_vad, fe_iop = undefined, fe_pager = 0\<rparr>"
  have k: "plenty (18 + 4) 0 s" "plenty 4 0 s" using s(3) plenty_mono [OF s(3)] by simp_all
  have f: "vmp_ps_vad_find (fe_key env) 0 0x5008 s = Some main_vad" "vad_section main_vad = None" "\<not> vad_cow main_vad"
    using s(4) by (simp_all add: main_vad_def)
  have ns: "vmp_pte_characterise (leaf_entry 0 0x5008 s) \<noteq> Ok kPTEKindSwap" using s(7) by simp
  obtain t a q where t: "do_fault env 0x5008 True (None, undefined, s) = Ok (0, None, undefined, t)"
    "space_ok (\<lambda>_. 0) 0 t" "maps_anon 0 0x5008 a q t" "SOFT_pages t a = resolved_entry True main_vad (leaf_entry 0 0x5008 s) q"
    "\<forall>u off. off < PGSIZE \<longrightarrow> vm_word 0 u off t = vm_word 0 u off s" "tables_busy 0 s \<longrightarrow> tables_busy 0 t"
    "plenty 18 0 t"
    by (rule do_fault_ok [OF s(2) k(1) f s(5,6) ns, of True undefined])
  have "vmp_pte_hw_is_writeable (SOFT_pages t a)" using t(4) s(7) by (simp add: resolved_entry_def main_vad_def)
  moreover have "vm_word 0 0x5008 8 t = Some 0" using t(5) vm_word_zero [OF s(7)] by simp
  moreover have "plenty 3 0 t" using plenty_mono [OF t(7)] by simp
  ultimately show thesis using that [OF s(1) k(2) f s(5,6) t(1-3)] t(6) s(8) by simp
qed

text \<open>C14. The faults that the handler gives up on: an address in no range fails an assertion; in a consistent
  address space with memory to spare, a first touch of a range that maps a section, and a write to a
  write-protected page of a copy-on-write range, stop the system.\<close>

theorem do_fault_failures:
  "(vmp_ps_vad_find (fe_key env) 0 v s = None \<longrightarrow>
      do_fault env v wr (out, file, s) = Err (Kassert ''vad != NULL''))
   \<and> (space_ok (\<lambda>_. 0) 0 s \<and> plenty 3 0 s \<and> vmp_ps_vad_find (fe_key env) 0 v s = Some vad \<longrightarrow>
      (leaf_entry 0 v s = 0 \<and> vad_section vad \<noteq> None \<longrightarrow>
        do_fault env v wr (out, file, s) = kfatal ''Do file read fault'')
      \<and> (pte_valid (leaf_entry 0 v s) \<and> \<not> vmp_pte_hw_is_writeable (leaf_entry 0 v s) \<and> vad_cow vad \<longrightarrow>
        do_fault env v True (out, file, s) = kfatal ''cow section fault''))"
proof (intro conjI impI; (elim conjE)?)
  assume "vmp_ps_vad_find (fe_key env) 0 v s = None"
  then show "do_fault env v wr (out, file, s) = Err (Kassert ''vad != NULL'')" by (simp add: do_fault_def)
next
  assume s: "space_ok (\<lambda>_. 0) 0 s" "plenty 3 0 s" and vad: "vmp_ps_vad_find (fe_key env) 0 v s = Some vad"
  have k: "plenty (0 + 3) 0 s" using s(2) by simp
  obtain st t where w: "vmp_wire_pte 0 v s = Ok (st, t)" "load_pte (ws_pte st) t = Ok (leaf_entry 0 v s)"
    by (rule fault_wire_ok [OF s(1) k])
  show "do_fault env v wr (out, file, s) = kfatal ''Do file read fault''" if "leaf_entry 0 v s = 0" "vad_section vad \<noteq> None"
    using that w vad by (auto simp: do_fault_def fault_zero_def kfatal_def)
  show "do_fault env v True (out, file, s) = kfatal ''cow section fault''"
    if "pte_valid (leaf_entry 0 v s)" "\<not> vmp_pte_hw_is_writeable (leaf_entry 0 v s)" "vad_cow vad"
    using that w vad by (auto simp: do_fault_def fault_write_protected_def vmp_pte_characterise_def kfatal_def)
qed

theorem do_fault_failures_witness:
  "\<exists>s. main_init 3 (boot_state 0x10000000000) = Ok s
     \<and> (\<forall>env out file. do_fault env 0x2000000000 True (out, file, s) = Err (Kassert ''vad != NULL''))"
proof -
  obtain s where s: "main_init 3 (boot_state 0x10000000000) = Ok s"
    "vad_tree (procs s 0) = Elm False False Null main_vad Null"
    by (rule main_init_ok [of "0x10000000000" 3]) simp_all
  have "vmp_ps_vad_find key 0 0x2000000000 s = None" for key using main_vad_find [OF s(2)] by simp
  then have "do_fault env 0x2000000000 True (out, file, s) = Err (Kassert ''vad != NULL'')" for env out "file"
    using do_fault_failures [of env "0x2000000000" s True out "file"] by blast
  with s(1) show ?thesis by blast
qed

text \<open>The entry found by wiring is the one of the walk.\<close>

lemma wired_entry:
  assumes s: "space_ok W 0 s" and c: "counters_only 0 s t" and path: "table_path 0 t v 3 P" and r: "P 3 = pml4_page (procs s 0)"
  shows "vmp_fetch_pte 0 v s = Ok (Some (pte_at (P 0) (vmp_addr_unpack v ! 1)))"
    and "SOFT_pages t (pte_at (P 0) (vmp_addr_unpack v ! 1)) = leaf_entry 0 v s"
proof -
  note F = tables_frameD [OF counters_onlyD(1) [OF c]]
  have "pml4 (procs t 0) = P 3 * PGSIZE" using F(7) r space_okD(5) [OF s] by (simp add: root_ok_def)
  then have "vmp_fetch_pte 0 v t = Ok (Some (pte_at (P 0) (vmp_addr_unpack v ! 1)))" by (rule path_fetch_pte [OF path])
  moreover have "vmp_fetch_pte 0 v s = vmp_fetch_pte 0 v t"
    using fetch_level_cong [OF F(1)] F(7) by (simp add: vmp_fetch_pte_def)
  ultimately show f: "vmp_fetch_pte 0 v s = Ok (Some (pte_at (P 0) (vmp_addr_unpack v ! 1)))" by simp
  show "SOFT_pages t (pte_at (P 0) (vmp_addr_unpack v ! 1)) = leaf_entry 0 v s" using f F(1) by (simp add: leaf_entry_def)
qed

text \<open>Releasing the wiring of an address whose tables were all there undoes it.\<close>

lemma wired_release:
  assumes s: "space_ok (\<lambda>_. 0) 0 s" and t: "space_ok (wired P) 0 t" and c: "counters_only 0 s t"
    and path: "table_path 0 t v 3 P" and live: "0 < live_ptes (\<lambda>v. v \<noteq> 0) (P 0) t"
    and st: "ws_ps st = 0" "ws_pages st = map (\<lambda>j. Some (P j)) [0..<VMP_TABLE_LEVELS]"
  obtains u where "vmp_pte_wire_state_release st t = Ok u" and "space_ok (\<lambda>_. 0) 0 u"
    and "mypages u = mypages s" and "SOFT_pages u = SOFT_pages s" and "tables_frame 0 s u"
proof -
  note F = counters_onlyD [OF c]
  obtain u where u: "vmp_pte_wire_state_release st t = Ok u" "space_ok (\<lambda>_. 0) 0 u" "tables_frame 0 t u"
    "mypages u = (\<lambda>q. if q \<in> P ` {..<VMP_TABLE_LEVELS}
       then (mypages t q)\<lparr>nonzero_ptes := nonzero_ptes (mypages t q) - 1,
         nonswap_ptes := nonswap_ptes (mypages t q) - 1, refcnt := refcnt (mypages t q) - 1\<rparr> else mypages t q)"
    by (rule wire_release_ok [OF t path live st])
  have mem: "SOFT_pages u = SOFT_pages s" using tables_frameD(1) [OF F(1)] tables_frameD(1) [OF u(3)] by simp
  have role: "same_role (mypages s q) (mypages u q)" for q using F(2) u(4) by (simp add: same_role_def)
  have "mypages u q = mypages s q" for q
  proof (cases "table_of 0 s q")
    case True
    then show ?thesis by (rule counters_determined [OF s u(2) role _ mem])
  next
    case False
    have "table_of 0 t (P j)" if "j < VMP_TABLE_LEVELS" for j
      using that path table_atD(2) [of 0 t "Suc j" "P j"] by (simp add: table_path_def)
    then have "q \<notin> P ` {..<VMP_TABLE_LEVELS}" using False role_table_of [OF F(2)] by blast
    then show ?thesis using u(4) F(3) [OF False] by simp
  qed
  then show thesis using that [OF u(1,2) _ mem tables_frame_trans [OF F(1) u(3)]] by blast
qed

text \<open>C13. Wiring the entry of an address that has one, and releasing the wiring, restores the memory, every page
  record and the address descriptors; it needs no memory, and the address space is consistent afterwards.\<close>

theorem wire_release_restores:
  assumes s: "space_ok (\<lambda>_. 0) 0 s" and e: "leaf_entry 0 v s \<noteq> 0"
  shows "\<exists>st t u. vmp_wire_pte 0 v s = Ok (st, t) \<and> vmp_pte_wire_state_release st t = Ok u
    \<and> space_ok (\<lambda>_. 0) 0 u \<and> mypages u = mypages s \<and> SOFT_pages u = SOFT_pages s
    \<and> vad_tree (procs u 0) = vad_tree (procs s 0)"
proof -
  obtain a where a: "vmp_fetch_pte 0 v s = Ok (Some a)" "leaf_entry 0 v s = SOFT_pages s a"
    using e by (rule leaf_entry_fetch)
  then have f: "vmp_fetch_pte 0 v s \<noteq> Ok None" by simp
  obtain st t P where w: "vmp_wire_pte 0 v s = Ok (st, t)" "space_ok (wired P) 0 t" "counters_only 0 s t"
    "grown 0 s t" "table_path 0 t v 3 P" "P 3 = pml4_page (procs s 0)"
    "st = \<lparr>ws_ps = 0, ws_pte = pte_at (P 0) (vmp_addr_unpack v ! 1),
      ws_pages = map (\<lambda>j. Some (P j)) [0..<VMP_TABLE_LEVELS]\<rparr>"
    by (rule wire_pte_present [OF s f])
  have "SOFT_pages t (pte_at (P 0) (vmp_addr_unpack v ! 1)) \<noteq> 0"
    using wired_entry [OF s w(3,5,6)] a e by simp
  then have "0 < live_ptes (\<lambda>v. v \<noteq> 0) (P 0) t" by (rule live_ptes_pos [OF leaf_path(2) [OF w(5)]])
  then obtain u where "vmp_pte_wire_state_release st t = Ok u" "space_ok (\<lambda>_. 0) 0 u"
    "mypages u = mypages s" "SOFT_pages u = SOFT_pages s" "tables_frame 0 s u"
    by (rule wired_release [OF s w(2,3,5), of st]) (simp_all add: w(7))
  then show ?thesis using w(1) tables_frameD(9) [of 0 s u] by blast
qed

theorem wire_release_restores_witness:
  "\<exists>s st t u. space_ok (\<lambda>_. 0) 0 s \<and> leaf_entry 0 0x5008 s \<noteq> 0 \<and> vmp_wire_pte 0 0x5008 s = Ok (st, t)
     \<and> vmp_pte_wire_state_release st t = Ok u \<and> mypages u = mypages s"
proof -
  obtain t a q where t: "space_ok (\<lambda>_. 0) 0 t" "maps_anon 0 0x5008 a q t" "plenty 3 0 t"
    by (rule first_fault_state)
  have "leaf_entry 0 0x5008 t \<noteq> 0" using maps_anon_refers [OF t(1,2)] refers_to_nonzero by simp
  with wire_release_restores [OF t(1) this] t(1) show ?thesis by blast
qed

end
