(* ===== verification/Eviction.thy ===== *)
theory Eviction
  imports Simulation
begin

text \<open>
  Eviction in a consistent address space: trimming a working set (\<^verbatim>\<open>wsl_trim_1\<close>, \<^verbatim>\<open>vmp_wsl_trim_n\<close>) takes the
  oldest addresses out of the working set and leaves their pages in transition, with their contents.
\<close>

section \<open>Eviction keeps the address space consistent\<close>

lemma data_entry_removed_tables_ok:
  assumes s: "tables_ok ps s" and e: "\<not> is_pagetable e"
    and t: "\<forall>p. table_of ps t p \<longrightarrow> table_of ps s p \<and> mypages t p = mypages s p" "SOFT_pages_base t = SOFT_pages_base s"
    and w: "wsl_ok (wsl (procs t ps))" "set (entries (wsl (procs t ps))) = set (entries (wsl (procs s ps))) - {e}"
      "set (wsl_queue (wsl (procs t ps))) = set (wsl_queue (wsl (procs s ps))) - {e}"
  shows "tables_ok ps t"
proof -
  have "table_ok ps t q" if q: "table_of ps t q" for q
  proof -
    have same: "table_of ps s q" "mypages t q = mypages s q" using t(1) q by blast+
    have "table_ok ps s q" by (rule table_okD(1) [OF s same(1)])
    moreover have "table_entry q t = table_entry q s" by (rule table_entry_cong) (use same t in simp_all)
    moreover have "table_entry q s \<noteq> e" using e by (auto simp: table_entry_def)
    ultimately show ?thesis
      using same(2) w(2,3) by (auto simp: table_ok_def page_is_root_table_def locked_entries_def split: if_splits)
  qed
  with s w(1) t(2) show ?thesis by (simp add: tables_ok_def low_base_def)
qed

text \<open>What trimming leaves alone, besides memory and page records.\<close>

definition trim_frame :: "nat \<Rightarrow> vmm \<Rightarrow> vmm \<Rightarrow> bool" where
  "trim_frame ps s t \<longleftrightarrow> SOFT_pages_base t = SOFT_pages_base s \<and>
     vad_tree (procs t ps) = vad_tree (procs s ps) \<and> wsl_max (wsl (procs t ps)) = wsl_max (wsl (procs s ps)) \<and>
     nentries (wsl (procs t ps)) \<le> nentries (wsl (procs s ps)) \<and>
     (\<forall>v. vmp_fetch_pte ps v t = vmp_fetch_pte ps v s) \<and> (\<forall>q. referent_pte (mypages t q) = referent_pte (mypages s q))"

lemma trim_keeps_space:
  fixes ps s
  defines "w \<equiv> wsl (procs s ps)"
  assumes s: "space_ok W ps s" and e: "wsl_queue w = e # rest" "\<not> is_pagetable e"
  obtains t a q where "wsl_trim_1 ps s = Ok (Some e, t)" and "space_ok W ps t" and "maps_anon ps (wsle_vaddr e) a q s"
    and "SOFT_pages t = (SOFT_pages s)(a := vmp_pte_trans_create 0 (of_nat q))"
    and "mypages t = (mypages s)(q := evicted (SOFT_pages s a) (mypages s q))"
    and "wsl_queue (wsl (procs t ps)) = rest" and "set (entries (wsl (procs t ps))) = set (entries w) - {e}"
    and "nentries (wsl (procs t ps)) = nentries w - 1" and "vmparam t = vmparam s"
    and "leaf_changed ps (a div PGSIZE) (vmp_addr_unpack (wsle_vaddr e) ! 1) q s t" and "data_kept ps s t"
    and "trim_frame ps s t"
proof -
  note S = space_okD [OF s, folded w_def]
  have ee: "e \<in> set (entries w)" using wsl_okD(3) [OF S(10)] e(1) by auto
  have oke: "wsle_ok ps s e" using S(8) ee by blast
  obtain a q where m: "wsle_vaddr e \<notin> direct_map s" "maps_anon ps (wsle_vaddr e) a q s" by (rule wsle_ok_data [OF oke e(2)])
  obtain d where d: "table_at ps s (Suc 0) d" "a = pte_at d (vmp_addr_unpack (wsle_vaddr e) ! 1)"
    using maps_anon_leaf(3) [OF s m(2)] by blast
  let ?i = "vmp_addr_unpack (wsle_vaddr e) ! 1"
  have M: "vmp_fetch_pte ps (wsle_vaddr e) s = Ok (Some a)" "pte_valid (SOFT_pages s a)" "q < SOFT_NPAGES"
    "vmp_pte_hw_pfn (SOFT_pages s a) = of_nat q" using m(2) by (simp_all add: maps_anon_def)
  obtain wr where v: "SOFT_pages s a = vmp_pte_hw_create (of_nat q) wr" "anon_at ps s a q" "refcnt (mypages s q) = 1"
    by (rule valid_leaf [OF maps_anon_leaf(2) [OF s m(2)] M(2,4,3)])
  obtain t tr where t: "wsl_trim_1 ps s = Ok (Some e, t)" "pfndb t"
    "procs t = (procs s)(ps := (procs s ps)\<lparr>wsl := w\<lparr>wsl_queue := rest, wsl_tree := tr, nentries := nentries w - 1\<rparr>\<rparr>)"
    "wsl_ok (wsl (procs t ps))" "set (inorder tr) = set (entries w) - {e}"
    "SOFT_pages t = (SOFT_pages s)(a := vmp_pte_trans_create 0 (of_nat q))"
    "mypages t = (mypages s)(q := evicted (SOFT_pages s a) (mypages s q))"
    "SOFT_pages_base t = SOFT_pages_base s" "vmparam t = vmparam s" "vmp_pagefile_state t = vmp_pagefile_state s"
    using wsl_trim_1_anon_ok [OF S(1) S(10) [unfolded w_def] e(1) [unfolded w_def] e(2) m(2), folded w_def] by metis
  have ev: "use (evicted v pg) = use pg" "process (evicted v pg) = process pg" "referent_pte (evicted v pg) = referent_pte pg"
    "refcnt (evicted v pg) = refcnt pg - 1" "nonzero_ptes (evicted v pg) = nonzero_ptes pg"
    "nonswap_ptes (evicted v pg) = nonswap_ptes pg" for v pg
    by (simp_all add: evicted_def Let_def)
  have i: "?i < 512" by (rule unpack_less) simp_all
  have ch: "leaf_changed ps d ?i q s t"
    using d i v t(3,6,7,8) ev by (simp add: leaf_changed_def anon_at_def)
  have nq: "e \<notin> set rest" using wsl_okD(2) [OF S(10)] e(1) by simp
  have tab: "table_of ps s p \<and> mypages t p = mypages s p" if "table_of ps t p" for p
    using that t(7) v(2) ev by (cases "p = q") (auto simp: table_of_def anon_at_def is_table_def)
  have okt: "tables_ok ps t"
    by (rule data_entry_removed_tables_ok [OF S(2) e(2) _ t(8,4)]) (use tab t(3,5) e(1) nq in \<open>auto simp: w_def [symmetric]\<close>)
  have n: "nentries w \<noteq> 0" using S(4) ee by (cases "entries w") (auto simp: wsl_counted_def)
  have "length (inorder tr) = length (entries w) - 1"
    using length_entries_card [OF S(10)] length_entries_card [OF t(4)] t(3,5) ee by simp
  then have cnt: "wsl_counted (wsl (procs t ps))"
    using S(4) t(3) unat_minus_one [OF n] by (simp add: wsl_counted_def)
  have gone: False if "x \<in> set (entries (wsl (procs t ps)))" "\<not> is_pagetable x"
    "vmp_fetch_pte ps (wsle_vaddr x) s = Ok (Some (pte_at d ?i))" for x
  proof -
    have "x \<in> set (entries w)" "x \<noteq> e" using that(1) t(3,5) by auto
    with S(12) ee e(2) that(2,3) M(1) d(2) show False unfolding ws_unique_def w_def by metis
  qed
  have "space_ok W ps t"
    by (rule space_ok_leaf_changed [OF s ch t(2) okt cnt, of e]) (use t(3,5) ee gone in \<open>auto simp: w_def [symmetric]\<close>)
  moreover have "data_kept ps s t"
  proof (rule leaf_changed_data_kept [OF s ch t(10)])
    show "drumslot (mypages t q) = drumslot (mypages s q)" using t(7) by (simp add: evicted_def Let_def)
    assume "quiet t q"
    then show "quiet s q" using t(7) v(2) by (simp add: quiet_def evicted_def anon_at_def Let_def)
  qed
  moreover have "a div PGSIZE = d" using d(2) i by simp
  moreover have "trim_frame ps s t"
    using t(3,7,8) n leaf_changed_fetch [OF ch S(6,5)] ev(3)
    by (simp add: trim_frame_def w_def [symmetric] word_le_nat_alt unat_minus_one)
  ultimately show thesis using that t m(2) ch by simp
qed

text \<open>An entry of a page table is where eviction ends: the code for it is not written.\<close>

lemma evict_table_fails: "is_table (use (mypages s p)) \<Longrightarrow> wsl_evict ps p a s \<noteq> Ok t"
  by (auto simp: wsl_evict_def is_table_def vmp_md_transition_table_pointers_def bnd_Ok_iff split: if_splits)

lemma trim_table_fails:
  assumes s: "space_ok W ps s" and e: "wsl_queue (wsl (procs s ps)) = e # rest" "is_pagetable e"
  shows "\<exists>x. wsl_trim_1 ps s = Err x"
proof (cases "wsl_trim_1 ps s")
  case (Ok r)
  note S = space_okD [OF s]
  have "wsle_ok ps s e" using S(8) wsl_okD(3) [OF S(10)] e(1) by auto
  then obtain p where p: "table_of ps s p" "e = table_entry p s" by (rule wsle_ok_table [OF _ e(2)])
  have lt: "p < SOFT_NPAGES" by (rule table_use(1) [OF p(1)])
  have v: "V2P (SOFT_pages_base s) (wsle_vaddr e) = p * PGSIZE"
    using pfndb_page_paddr [OF S(1) lt] lt by (simp add: p(2) table_entry_def page_vaddr_def)
  have keeps: "mypages y = mypages x \<and> SOFT_pages_base y = SOFT_pages_base x" if "on_wsl f ps x = Ok y" for f x y
    using that by (auto simp: on_wsl_def)
  from Ok e obtain s1 s2 where u: "on_wsl (wsl_queue_remove e) ps s = Ok s1" "on_wsl (wsl_tree_remove e) ps s1 = Ok s2"
    by (auto simp: wsl_trim_1_def TAILQ_FIRST_def)
  define u where "u = wsl_update_ps ps (\<lambda>w. w\<lparr>nentries := nentries w - 1\<rparr>) s2"
  have same: "mypages u = mypages s" "SOFT_pages_base u = SOFT_pages_base s" "mypages s2 = mypages s" "SOFT_pages_base s2 = SOFT_pages_base s"
    using keeps [OF u(1)] keeps [OF u(2)] by (simp_all add: u_def)
  obtain t where "wsl_evict ps p (referent_pte (mypages u p)) u = Ok t"
    using Ok e u v lt same by (auto simp: wsl_trim_1_def TAILQ_FIRST_def Let_def u_def [symmetric])
  then show ?thesis using evict_table_fails [of u p] p(1) same(1) by (simp add: table_of_def)
qed simp

text \<open>The entry of the evicted address is in transition, and no other transition entry changes.\<close>

lemma trim_step_leaf:
  assumes s: "space_ok W ps s" and m: "maps_anon ps v a q s"
    and mem: "SOFT_pages t = (SOFT_pages s)(a := vmp_pte_trans_create 0 (of_nat q))" and c: "leaf_changed ps d i q' s t"
  shows "vmp_pte_characterise (leaf_entry ps v t) = Ok kPTEKindTrans"
    and "\<forall>u. vmp_pte_characterise (leaf_entry ps u s) = Ok kPTEKindTrans \<longrightarrow> leaf_entry ps u t = leaf_entry ps u s"
proof -
  note fetch = leaf_changed_fetch [OF c space_okD(6,5) [OF s]]
  show "vmp_pte_characterise (leaf_entry ps v t) = Ok kPTEKindTrans"
    using m mem fetch [of v] by (simp add: leaf_entry_def maps_anon_def)
  have "vmp_pte_characterise (SOFT_pages s a) \<noteq> Ok kPTEKindTrans"
    using m by (auto simp: maps_anon_def vmp_pte_characterise_def)
  then show "\<forall>u. vmp_pte_characterise (leaf_entry ps u s) = Ok kPTEKindTrans \<longrightarrow> leaf_entry ps u t = leaf_entry ps u s"
    using mem fetch by (auto simp: leaf_entry_def split: outcome.splits option.splits)
qed

lemma trim_loop_ok:
  assumes "space_ok W ps s" and "\<forall>e \<in> set (take n (wsl_queue (wsl (procs s ps)))). \<not> is_pagetable e"
  obtains t where "trim_loop ps i n s = Ok (i + min n (length (wsl_queue (wsl (procs s ps)))), t)"
    and "space_ok W ps t" and "wsl_queue (wsl (procs t ps)) = drop n (wsl_queue (wsl (procs s ps)))"
    and "set (entries (wsl (procs t ps))) = set (entries (wsl (procs s ps))) - set (take n (wsl_queue (wsl (procs s ps))))"
    and "\<forall>a. \<not> is_table (use (mypages s (a div PGSIZE))) \<longrightarrow> SOFT_pages t a = SOFT_pages s a"
    and "\<forall>p. use (mypages t p) = use (mypages s p)"
    and "\<forall>v off. off < PGSIZE \<longrightarrow> vm_word ps v off t = vm_word ps v off s"
    and "\<forall>e \<in> set (take n (wsl_queue (wsl (procs s ps)))). vmp_pte_characterise (leaf_entry ps (wsle_vaddr e) t) = Ok kPTEKindTrans"
    and "\<forall>v. vmp_pte_characterise (leaf_entry ps v s) = Ok kPTEKindTrans \<longrightarrow> leaf_entry ps v t = leaf_entry ps v s"
    and "busy_step ps {} s t" and "data_kept ps s t" and "trim_frame ps s t"
  using assms
proof (induction n arbitrary: i s thesis)
  case 0
  show ?case by (rule "0.prems"(1) [of s]) (use "0.prems"(2) in \<open>simp_all add: trim_frame_def\<close>)
next
  case (Suc n)
  let ?w = "wsl (procs s ps)"
  show ?case
  proof (cases "wsl_queue ?w")
    case Nil
    then have "trim_loop ps i (Suc n) s = Ok (i, s)" by (simp add: wsl_trim_1_def TAILQ_FIRST_def)
    then show ?thesis by (intro Suc.prems(1) [of s]) (use Suc.prems(2) Nil in \<open>simp_all add: trim_frame_def\<close>)
  next
    case (Cons e rest)
    have e: "\<not> is_pagetable e" using Suc.prems(3) Cons by simp
    obtain t a q where t: "wsl_trim_1 ps s = Ok (Some e, t)" "space_ok W ps t" "maps_anon ps (wsle_vaddr e) a q s"
      "SOFT_pages t = (SOFT_pages s)(a := vmp_pte_trans_create 0 (of_nat q))"
      "mypages t = (mypages s)(q := evicted (SOFT_pages s a) (mypages s q))"
      "wsl_queue (wsl (procs t ps)) = rest" "set (entries (wsl (procs t ps))) = set (entries ?w) - {e}"
      "leaf_changed ps (a div PGSIZE) (vmp_addr_unpack (wsle_vaddr e) ! 1) q s t" "data_kept ps s t" "trim_frame ps s t"
      by (rule trim_keeps_space [OF Suc.prems(2) Cons e])
    have data: "\<forall>x \<in> set (take n (wsl_queue (wsl (procs t ps)))). \<not> is_pagetable x" using Suc.prems(3) Cons t(6) by simp
    obtain u where u: "trim_loop ps (Suc i) n t = Ok (Suc i + min n (length rest), u)" "space_ok W ps u"
      "wsl_queue (wsl (procs u ps)) = drop n rest"
      "set (entries (wsl (procs u ps))) = set (entries (wsl (procs t ps))) - set (take n rest)"
      "\<forall>a. \<not> is_table (use (mypages t (a div PGSIZE))) \<longrightarrow> SOFT_pages u a = SOFT_pages t a"
      "\<forall>p. use (mypages u p) = use (mypages t p)"
      "\<forall>v off. off < PGSIZE \<longrightarrow> vm_word ps v off u = vm_word ps v off t"
      "\<forall>e \<in> set (take n rest). vmp_pte_characterise (leaf_entry ps (wsle_vaddr e) u) = Ok kPTEKindTrans"
      "\<forall>v. vmp_pte_characterise (leaf_entry ps v t) = Ok kPTEKindTrans \<longrightarrow> leaf_entry ps v u = leaf_entry ps v t"
      "busy_step ps {} t u" "data_kept ps t u" "trim_frame ps t u"
      using Suc.IH [OF _ t(2) data, of "Suc i"] unfolding t(6) by blast
    note step = trim_step_leaf [OF Suc.prems(2) t(3,4,8)]
    have use: "use (mypages t p) = use (mypages s p)" for p by (simp add: t(5) evicted_def Let_def)
    obtain d where d: "table_at ps s (Suc 0) d" "a = pte_at d (vmp_addr_unpack (wsle_vaddr e) ! 1)"
      using maps_anon_leaf(3) [OF Suc.prems(2) t(3)] by blast
    have "a div PGSIZE = d" using d(2) unpack_less [of 1] by simp
    then have "SOFT_pages t b = SOFT_pages s b" if "\<not> is_table (use (mypages s (b div PGSIZE)))" for b
      using that t(4) table_atD(3) [OF d(1)] by auto
    then have "\<forall>b. \<not> is_table (use (mypages s (b div PGSIZE))) \<longrightarrow> SOFT_pages u b = SOFT_pages s b"
      using u(5) use by simp
    moreover have "set (entries (wsl (procs u ps))) = set (entries ?w) - set (take (Suc n) (wsl_queue ?w))"
      using u(4) t(7) Cons by auto
    moreover have "trim_loop ps i (Suc n) s = Ok (i + min (Suc n) (length (wsl_queue ?w)), u)"
      using t(1) u(1) Cons by simp
    moreover have "\<forall>v off. off < PGSIZE \<longrightarrow> vm_word ps v off u = vm_word ps v off s"
      using u(7) leaf_changed_vm_word [OF Suc.prems(2) t(8)] by simp
    moreover have "\<forall>x \<in> set (take (Suc n) (wsl_queue ?w)). vmp_pte_characterise (leaf_entry ps (wsle_vaddr x) u) = Ok kPTEKindTrans"
      using u(8,9) step(1) Cons by simp
    moreover have "\<forall>v. vmp_pte_characterise (leaf_entry ps v s) = Ok kPTEKindTrans \<longrightarrow> leaf_entry ps v u = leaf_entry ps v s"
      using u(9) step(2) by simp
    moreover have "busy_step ps {} s u" by (rule busy_step_trans [OF leaf_changed_busy_step [OF t(8)] u(10)])
    moreover have "data_kept ps s u" by (rule data_kept_trans [OF t(9) u(11)])
    moreover have "trim_frame ps s u" using t(10) u(12) order_trans by (auto simp: trim_frame_def)
    ultimately show ?thesis by (intro Suc.prems(1) [of u]) (use u(2,3,6) use Cons in simp_all)
  qed
qed

text \<open>When one of the entries to be taken out is a table, the loop does not get past it.\<close>

lemma trim_loop_fails:
  assumes "space_ok W ps s" and "\<exists>e \<in> set (take n (wsl_queue (wsl (procs s ps)))). is_pagetable e"
  shows "\<exists>x. trim_loop ps i n s = Err x"
  using assms
proof (induction n arbitrary: i s)
  case (Suc n)
  obtain e rest where q: "wsl_queue (wsl (procs s ps)) = e # rest"
    using Suc.prems(2) by (cases "wsl_queue (wsl (procs s ps))") auto
  show ?case
  proof (cases "is_pagetable e")
    case True
    then show ?thesis using trim_table_fails [OF Suc.prems(1) q] by auto
  next
    case False
    obtain t where t: "wsl_trim_1 ps s = Ok (Some e, t)" "space_ok W ps t" "wsl_queue (wsl (procs t ps)) = rest"
      by (rule trim_keeps_space [OF Suc.prems(1) q False])
    then show ?thesis using Suc.IH [of t "Suc i"] Suc.prems(2) q False by simp
  qed
qed simp

lemma busy_prefix_is_data:
  assumes "space_ok (\<lambda>_. 0) ps s" and "tables_busy ps s"
  shows "\<forall>e \<in> set (take n (wsl_queue (wsl (procs s ps)))). \<not> is_pagetable e"
  using busy_queue_is_data [OF assms] in_set_takeD by fast

section \<open>Properties of eviction\<close>



end
