(* ===== verification/Writeback.thy ===== *)
theory Writeback
  imports Pgwriter
begin

text \<open>
  A pass of the page writer (\<^verbatim>\<open>vmp_pgwriter\<close> of \<^verbatim>\<open>vm/pgwriter.c\<close>) composes the page queues, the page file
  allocator, I/O packets and memory descriptor lists. This theory follows a pass: every modified
  page gets a slot of its own and its bytes are in the file at that slot when it reaches the standby
  queue, from which allocation may steal it.
\<close>

section \<open>Pages and their slots\<close>

definition page_slot :: "vmm \<Rightarrow> page_ptr \<Rightarrow> nat option" where
  "page_slot s p = (if drumslot (mypages s p) = - 1 then None else Some (unat (drumslot (mypages s p))))"

definition anon_page :: "vmm \<Rightarrow> page_ptr \<Rightarrow> bool" where
  "anon_page s p \<longleftrightarrow> p < SOFT_NPAGES \<and> use (mypages s p) = kPageUseAnonPrivate"

text \<open>The slot of a private page is in use, and no other private page has it.\<close>

definition slots_ok :: "vmm \<Rightarrow> bool" where
  "slots_ok s \<longleftrightarrow>
     (\<forall>p k. anon_page s p \<and> page_slot s p = Some k \<longrightarrow> k \<in> used_slots (vmp_pagefile_state s)) \<and>
     (\<forall>p q k. anon_page s p \<and> anon_page s q \<and> page_slot s p = Some k \<and> page_slot s q = Some k \<longrightarrow> p = q)"

text \<open>What a pass needs: an open page file of at most \<open>2 ^ 51\<close> slots, so that every offset is
  non-negative, with a free slot for every modified page that has none.\<close>

definition pagefile_open :: "vmp_pagefile \<Rightarrow> bool" where
  "pagefile_open pf \<longleftrightarrow> pagefile_ok pf \<and> unat (total_slots pf) < 2 ^ 51 \<and> (\<exists>fd. pf_vnode pf = Some fd \<and> fd \<noteq> - 1)"

definition writeback_ready :: "vmm \<Rightarrow> bool" where
  "writeback_ready s \<longleftrightarrow> pfndb s \<and> slots_ok s \<and> pagefile_open (vmp_pagefile_state s) \<and>
     (\<forall>p\<in>set (modified_pgq s). anon_page s p) \<and>
     length (filter (\<lambda>p. page_slot s p = None) (modified_pgq s)) \<le> unat (free_slots (vmp_pagefile_state s))"

text \<open>The descriptor lists and packets the page writer allocated when it started.\<close>

definition packets_ok :: "pgwriter \<Rightarrow> bool" where
  "packets_ok pw \<longleftrightarrow> length (pw_mdls pw) = MAX_IOPS \<and> length (pw_iops pw) = MAX_IOPS \<and>
     (\<forall>m\<in>set (pw_mdls pw). mdl_pages m \<noteq> [])"

definition names_page :: "vm_mdl \<Rightarrow> page_ptr \<Rightarrow> bool" where
  "names_page mdl p \<longleftrightarrow> mdl_nentries mdl = 1 \<and> mdl_pages mdl \<noteq> [] \<and> mdl_pages mdl ! 0 = Some p"

definition same_memory :: "vmm \<Rightarrow> vmm \<Rightarrow> bool" where
  "same_memory s t \<longleftrightarrow> SOFT_pages t = SOFT_pages s \<and> SOFT_pages_base t = SOFT_pages_base s \<and>
     vmparam t = vmparam s \<and> procs t = procs s"

lemma same_memory_refl [simp]: "same_memory s s"
  by (simp add: same_memory_def)

lemma same_memory_trans: "same_memory s t \<Longrightarrow> same_memory t u \<Longrightarrow> same_memory s u"
  by (simp add: same_memory_def)

lemma mem_byte_same: "same_memory s t \<Longrightarrow> mem_byte a t = mem_byte a s"
  by (simp add: same_memory_def mem_byte_def)

lemma rest_unchanged_same_memory: "rest_unchanged s t \<Longrightarrow> same_memory s t"
  by (simp add: rest_unchanged_def same_memory_def)

section \<open>Taking a page off the modified queue\<close>

lemma modified_page:
  assumes "pfndb s" and "p \<in> set (modified_pgq s)"
  shows "p < SOFT_NPAGES" and "refcnt (mypages s p) = 0" and "dirty (mypages s p)"
    and "use (mypages s p) \<noteq> kPageUseFree"
  using pfndb_queue_iff [OF assms(1), of p QModified] assms(2)
  by (auto simp: place_def split: if_splits)

lemma retain_modified:
  assumes inv: "pfndb s" and q: "modified_pgq s = p # ps" and u: "use (mypages s p) = kPageUseAnonPrivate"
  obtains r where "vmp_page_retain_locked p s = Ok r" and "pfndb r"
    and "mypages r = (mypages s)(p := (mypages s p)\<lparr>refcnt := 1\<rparr>)" and "rest_unchanged s r"
    and "modified_pgq r = ps" and "standby_pgq r = standby_pgq s" and "free_pgq r = free_pgq s"
proof -
  note m = modified_page [OF inv, of p, unfolded q, simplified]
  obtain r where r: "vmp_page_retain_locked p s = Ok r" "pfndb r"
    "mypages r = (mypages s)(p := bump_ref (mypages s p))" "rest_unchanged s r"
    by (rule retain_ok [OF inv m(1) m(4)]) (use m u in auto)
  have "modified_pgq r = ps \<and> standby_pgq r = standby_pgq s \<and> free_pgq r = free_pgq s"
    using r(1) m u q
    by (auto simp: vmp_page_retain_locked_def Let_def pgq_remove_def TAILQ_REMOVE_def)
  with r m(2) show thesis by (intro that [of r]) simp_all
qed

text \<open>The statistics count the queues.\<close>

lemma pfndb_counts: "pfndb s \<Longrightarrow> qcount (Some q) (vmstat s) = of_nat (length (queue_of q s))"
  by (simp add: pfndb_def) (metis distinct_card)

text \<open>Those who wait for memory are told when there is enough: a shortage is on record, or the event is set,
  and it is set when there are sufficient pages.\<close>

definition waiters_told :: "vmm \<Rightarrow> bool" where
  "waiters_told s \<longleftrightarrow> (vmp_was_shortage s \<or> vmp_sufficient_pages_event s) \<and>
     (vmp_page_sufficience s \<longrightarrow> vmp_sufficient_pages_event s)"

lemma requeue_waiters_told:
  assumes "requeue_pageable p s = Ok t" and "vmp_was_shortage s \<or> vmp_sufficient_pages_event s"
  shows "waiters_told t"
proof -
  have set: "waiters_told v" if "u\<lparr>vmp_was_shortage := False, vmp_sufficient_pages_event := True\<rparr> = v" for u v
    using that by (auto simp: waiters_told_def)
  have unset: "waiters_told (snd (check_shortage u))"
    if "vmp_was_shortage u \<or> vmp_sufficient_pages_event u"
      "\<not> (vmp_was_shortage (snd (check_shortage u)) \<and> vmp_page_sufficience (snd (check_shortage u)))" for u
    using that by (auto simp: waiters_told_def check_shortage_def Let_def)
  have keep: "vmp_was_shortage (vmstat_update f u) \<or> vmp_sufficient_pages_event (vmstat_update f u)"
    if "pgq_insert_tail q p s = Ok u" for q f u
    using assms(2) that by (cases q) (auto simp: pgq_insert_tail_def split: if_splits)
  show ?thesis
    using assms(1) set [OF refl] unset [OF keep]
    by (cases "dirty (mypages s p)") (auto simp: requeue_pageable_def Let_def intro: set split: if_splits)
qed

lemma release_clean:
  assumes inv: "pfndb s" and p: "anon_page s p" and r: "refcnt (mypages s p) = 1" and d: "\<not> dirty (mypages s p)"
  obtains t where "vmp_page_release_locked p s = Ok t" and "pfndb t" and "rest_unchanged s t"
    and "mypages t = (mypages s)(p := (mypages s p)\<lparr>refcnt := 0\<rparr>)"
    and "modified_pgq t = modified_pgq s" and "standby_pgq t = standby_pgq s @ [p]" and "free_pgq t = free_pgq s"
    and "waiters_told s \<longrightarrow> waiters_told t"
proof -
  have lt: "p < SOFT_NPAGES" and u: "use (mypages s p) = kPageUseAnonPrivate"
    using p by (simp_all add: anon_page_def)
  obtain t where t: "vmp_page_release_locked p s = Ok t" "pfndb t" "rest_unchanged s t"
    "mypages t = (mypages s)(p := released (mypages s p))"
    by (rule release_ok [OF inv lt]) (use r u in auto)
  let ?e = "vmstat_update (\<lambda>st. st\<lparr>nactive := nactive st - 1\<rparr>) (page_update p drop_ref s)"
  have "on_no_queue p s" using on_no_queue_iff [OF inv lt] r u by (simp add: place_def)
  then have "on_no_queue p ?e" by (simp add: on_no_queue_def)
  then obtain t' where t': "requeue_pageable p ?e = Ok t'"
    "\<forall>q. queue_of q t' = (if q = (if dirty (mypages ?e p) then QModified else QStandby)
          then queue_of q ?e @ [p] else queue_of q ?e)"
    by (rule requeue_ok)
  have eq: "t' = t" using t(1) t'(1) lt r u by (simp add: vmp_page_release_locked_def Let_def)
  have "waiters_told s \<longrightarrow> waiters_told t"
    using requeue_waiters_told [OF t'(1)] by (simp add: eq waiters_told_def page_update_def)
  moreover from eq t'(2) d have "queue_of q t = (if q = QStandby then queue_of q s @ [p] else queue_of q s)" for q
    by simp
  from this [of QModified] this [of QStandby] this [of QFree] t r u calculation show thesis
    by (intro that [of t]) (simp_all add: released_def)
qed

section \<open>One page of the loop\<close>

lemma page_update_pfndb:
  assumes inv: "pfndb s" and p: "p < SOFT_NPAGES" and e: "mypages t = (mypages s)(p := pg)"
    and f: "pfn pg = pfn (mypages s p)" "use pg = use (mypages s p)" "refcnt pg = refcnt (mypages s p)"
    and a: "refcnt (mypages s p) \<noteq> 0"
    and same: "\<And>q. queue_of q t = queue_of q s" "vmstat t = vmstat s"
  shows "pfndb t"
proof (rule pfndbI [OF inv p _ e refl])
  show "page_wf p pg" using inv p f by (auto simp: pfndb_def page_wf_def)
  show "place pg = place (mypages s p)" using f a by (simp add: place_def)
qed (use inv same in \<open>auto simp: pfndb_def\<close>)

text \<open>The slot of the page: its own, or one that was not in use.\<close>

lemma choose_slot:
  assumes pf: "pagefile_open (vmp_pagefile_state s)"
    and have_slot: "page_slot s p = None \<Longrightarrow> free_slots (vmp_pagefile_state s) \<noteq> 0"
    and own: "\<And>k. page_slot s p = Some k \<Longrightarrow> k \<in> used_slots (vmp_pagefile_state s)"
  obtains k pf' where "(if drumslot (mypages s p) = - 1 then
            bnd (vmp_pagefile_alloc (vmp_pagefile_state s)) (\<lambda>(swapdesc, pf).
            Ok (page_update p (\<lambda>pg. pg\<lparr>drumslot := swapdesc\<rparr>) (s\<lparr>vmp_pagefile_state := pf\<rparr>)))
          else Ok s) = Ok (page_update p (\<lambda>pg. pg\<lparr>drumslot := of_nat k\<rparr>) (s\<lparr>vmp_pagefile_state := pf'\<rparr>))"
    and "pagefile_open pf'" and "pf_vnode pf' = pf_vnode (vmp_pagefile_state s)"
    and "used_slots pf' = insert k (used_slots (vmp_pagefile_state s))" and "k < 2 ^ 51"
    and "total_slots pf' = total_slots (vmp_pagefile_state s)"
    and "page_slot s p = Some k \<and> pf' = vmp_pagefile_state s \<or>
      page_slot s p = None \<and> k \<notin> used_slots (vmp_pagefile_state s) \<and>
        unat (free_slots pf') = unat (free_slots (vmp_pagefile_state s)) - 1"
proof -
  let ?pf = "vmp_pagefile_state s"
  have ok: "pagefile_ok ?pf" "unat (total_slots ?pf) < 2 ^ 51" using pf by (simp_all add: pagefile_open_def)
  have lt: "k < 2 ^ 51" if "k \<in> used_slots ?pf" for k using that ok(2) by (simp add: used_slots_def)
  show thesis
  proof (cases "page_slot s p")
    case None
    obtain k where k: "vmp_pagefile_alloc ?pf = Ok (of_nat k, take_slot ?pf k)" "k < unat (total_slots ?pf)"
      "\<not> slot_used ?pf k" "pagefile_ok (take_slot ?pf k)" "used_slots (take_slot ?pf k) = insert k (used_slots ?pf)"
      by (rule pagefile_alloc_ok [OF ok(1) have_slot [OF None]])
    have "drumslot (mypages s p) = - 1" using None by (simp add: page_slot_def split: if_splits)
    moreover have "pagefile_open (take_slot ?pf k)"
      using pf k(4) by (simp add: pagefile_open_def take_slot_def)
    moreover have "k \<notin> used_slots ?pf" using k(3) by (simp add: used_slots_def)
    ultimately show thesis
      using None k ok(2) take_slot_ok(2) [OF ok(1) k(2,3)]
      by (intro that [of k "take_slot ?pf k"]) (auto simp: take_slot_def)
  next
    case (Some k)
    then have d: "drumslot (mypages s p) \<noteq> - 1" "k = unat (drumslot (mypages s p))"
      by (simp_all add: page_slot_def split: if_splits)
    have "page_update p (\<lambda>pg. pg\<lparr>drumslot := of_nat k\<rparr>) (s\<lparr>vmp_pagefile_state := ?pf\<rparr>) = s"
      using d(2) by (simp add: page_update_def)
    then show thesis
      using Some d pf own [OF Some] lt by (intro that [of k ?pf]) (auto simp: insert_absorb)
  qed
qed

text \<open>What one round of the loop does before it sends the packet.\<close>

definition cleaned :: "vm_page \<Rightarrow> nat \<Rightarrow> vm_page" where
  "cleaned pg k = pg\<lparr>refcnt := 1, drumslot := of_nat k, dirty := False\<rparr>"

lemma slot_small:
  assumes "k < 2 ^ 51"
  shows "(of_nat k :: uint64_t) \<noteq> - 1" and "unat (of_nat k :: uint64_t) = k"
proof -
  show "unat (of_nat k :: uint64_t) = k" using assms by (simp add: unsigned_of_nat take_bit_nat_eq_self)
  show "(of_nat k :: uint64_t) \<noteq> - 1"
  proof
    assume "(of_nat k :: uint64_t) = - 1"
    then have "(of_nat (Suc k) :: uint64_t) = 0" by simp
    then have "2 ^ 64 dvd Suc k" unfolding word_of_nat_eq_0_iff by simp
    then show False using assms by (auto dest: dvd_imp_le)
  qed
qed

lemma clean_page_ready:
  assumes ready: "writeback_ready s" and q: "modified_pgq s = p # ps" and small: "k < 2 ^ 51"
    and t: "pfndb t" "modified_pgq t = ps" "mypages t = (mypages s)(p := cleaned (mypages s p) k)"
    and pf: "pagefile_open (vmp_pagefile_state t)"
      "used_slots (vmp_pagefile_state t) = insert k (used_slots (vmp_pagefile_state s))"
      "page_slot s p = Some k \<and> vmp_pagefile_state t = vmp_pagefile_state s \<or>
       page_slot s p = None \<and> k \<notin> used_slots (vmp_pagefile_state s) \<and>
        unat (free_slots (vmp_pagefile_state t)) = unat (free_slots (vmp_pagefile_state s)) - 1"
  shows "writeback_ready t"
proof -
  have anon: "anon_page t x = anon_page s x" for x by (simp add: anon_page_def t(3) cleaned_def)
  have slot: "page_slot t x = (if x = p then Some k else page_slot s x)" for x
    using slot_small [OF small] by (simp add: page_slot_def t(3) cleaned_def)
  have s: "slots_ok s" "pfndb s" "\<forall>x\<in>set (p # ps). anon_page s x"
    "length (filter (\<lambda>p. page_slot s p = None) (p # ps)) \<le> unat (free_slots (vmp_pagefile_state s))"
    using ready unfolding q [symmetric] by (simp_all add: writeback_ready_def)
  have p: "anon_page s p" using s(3) by simp
  have other: "page_slot s x \<noteq> Some k" if "anon_page s x" "x \<noteq> p" for x
    using s(1) p pf(3) that unfolding slots_ok_def by blast
  have "slots_ok t"
    unfolding slots_ok_def anon slot pf(2) using s(1) other unfolding slots_ok_def by (auto split: if_splits)
  moreover have "distinct (queue_of QModified s)" using s(2) by (simp add: pfndb_def del: queue_of.simps)
  then have "p \<notin> set ps" using q by simp
  then have "filter (\<lambda>x. page_slot t x = None) ps = filter (\<lambda>x. page_slot s x = None) ps"
    unfolding slot by (auto intro: filter_cong)
  then have "length (filter (\<lambda>x. page_slot t x = None) ps) \<le> unat (free_slots (vmp_pagefile_state t))"
    using s(4) pf(3) by auto
  ultimately show ?thesis using t(1,2) pf(1) s(3) by (simp add: writeback_ready_def anon)
qed

lemma clean_step:
  assumes ready: "writeback_ready s" and q: "modified_pgq s = p # ps" and m: "mdl_pages mdl \<noteq> []"
  defines "mdl' \<equiv> mdl\<lparr>mdl_offset := 0, mdl_nentries := 1, mdl_pages := (mdl_pages mdl)[0 := Some p]\<rparr>"
  obtains r k t where "vmp_page_retain_locked p s = Ok r" and "use (mypages r p) = kPageUseAnonPrivate"
    and "cluster_anon mdl iop p r = Ok (mdl', iop_init_vnode_write (pf_vnode (vmp_pagefile_state s)) mdl' 4096
           (of_nat k * 4096) iop, t)"
    and "k < 2 ^ 51" and "writeback_ready t" and "modified_pgq t = ps" and "standby_pgq t = standby_pgq s"
    and "free_pgq t = free_pgq s" and "same_memory s t"
    and "mypages t = (mypages s)(p := cleaned (mypages s p) k)"
    and "used_slots (vmp_pagefile_state t) = insert k (used_slots (vmp_pagefile_state s))"
    and "page_slot s p = Some k \<or> page_slot s p = None \<and> k \<notin> used_slots (vmp_pagefile_state s)"
    and "pf_vnode (vmp_pagefile_state t) = pf_vnode (vmp_pagefile_state s)"
    and "total_slots (vmp_pagefile_state t) = total_slots (vmp_pagefile_state s)"
proof -
  let ?pf = "vmp_pagefile_state s"
  have s: "slots_ok s" "pfndb s" "pagefile_open ?pf" "anon_page s p"
    "length (filter (\<lambda>p. page_slot s p = None) (p # ps)) \<le> unat (free_slots ?pf)"
    using ready unfolding q [symmetric] by (simp_all add: writeback_ready_def q)
  have u: "use (mypages s p) = kPageUseAnonPrivate" and lt: "p < SOFT_NPAGES"
    using s(4) by (simp_all add: anon_page_def)
  obtain r where r: "vmp_page_retain_locked p s = Ok r" "pfndb r"
    "mypages r = (mypages s)(p := (mypages s p)\<lparr>refcnt := 1\<rparr>)" "rest_unchanged s r"
    "modified_pgq r = ps" "standby_pgq r = standby_pgq s" "free_pgq r = free_pgq s"
    by (rule retain_modified [OF s(2) q u])
  have pfr: "vmp_pagefile_state r = ?pf" using r(4) by (simp add: rest_unchanged_def)
  have slot: "page_slot r p = page_slot s p" by (simp add: page_slot_def r(3))
  have have_slot: "free_slots ?pf \<noteq> 0" if "page_slot s p = None" using s(5) that by auto
  have own: "k \<in> used_slots ?pf" if "page_slot s p = Some k" for k
    using s(1,4) that by (auto simp: slots_ok_def)
  obtain k pf' where k: "(if drumslot (mypages r p) = - 1 then
            bnd (vmp_pagefile_alloc ?pf) (\<lambda>(swapdesc, pf).
            Ok (page_update p (\<lambda>pg. pg\<lparr>drumslot := swapdesc\<rparr>) (r\<lparr>vmp_pagefile_state := pf\<rparr>)))
          else Ok r) = Ok (page_update p (\<lambda>pg. pg\<lparr>drumslot := of_nat k\<rparr>) (r\<lparr>vmp_pagefile_state := pf'\<rparr>))"
    "pagefile_open pf'" "pf_vnode pf' = pf_vnode ?pf" "used_slots pf' = insert k (used_slots ?pf)" "k < 2 ^ 51"
    "total_slots pf' = total_slots ?pf"
    "page_slot s p = Some k \<and> pf' = ?pf \<or> page_slot s p = None \<and> k \<notin> used_slots ?pf \<and>
        unat (free_slots pf') = unat (free_slots ?pf) - 1"
    by (rule choose_slot [where s = r and p = p, unfolded pfr slot, OF s(3) have_slot own])
  let ?t = "page_update p (\<lambda>pg. pg\<lparr>dirty := False\<rparr>)
    (page_update p (\<lambda>pg. pg\<lparr>drumslot := of_nat k\<rparr>) (r\<lparr>vmp_pagefile_state := pf'\<rparr>))"
  have pages: "mypages ?t = (mypages s)(p := cleaned (mypages s p) k)"
    by (simp add: r(3) cleaned_def)
  have q_same: "queue_of x ?t = queue_of x r" for x by (cases x) simp_all
  have "pfndb ?t"
  proof (rule page_update_pfndb [OF r(2) lt _ _ _ _ _ q_same])
    show "mypages ?t = (mypages r)(p := (mypages r p)\<lparr>drumslot := of_nat k, dirty := False\<rparr>)" by simp
  qed (simp_all add: r(3))
  then have ready': "writeback_ready ?t"
    using k by (intro clean_page_ready [OF ready q k(5) _ _ pages]) (auto simp: r(5))
  have "cluster_anon mdl iop p r = Ok (mdl', iop_init_vnode_write (pf_vnode ?pf) mdl' 4096 (of_nat k * 4096) iop, ?t)"
    unfolding cluster_anon_def pfr k(1) using m k(3) by (simp add: mdl'_def Let_def)
  moreover have "same_memory s ?t" using r(4) by (simp add: same_memory_def rest_unchanged_def)
  moreover have "page_slot s p = Some k \<or> page_slot s p = None \<and> k \<notin> used_slots ?pf" using k(7) by blast
  ultimately show thesis
    using r u k ready' pages by (intro that [of r k ?t]) simp_all
qed

section \<open>The file\<close>

lemma iop_send_page:
  assumes "iop_vnode iop = Some fd" and "fd \<noteq> - 1" and "names_page (iop_mdl iop) p" and "iop_is_write iop"
  shows "iop_send iop (file, s) = Ok (iop\<lparr>iop_event := True\<rparr>, pwrite (vmp_page_paddr p s) (iop_offset iop) s file, s)"
  using assms by (simp add: iop_send_def names_page_def Let_def)

lemma pwrite_slot:
  fixes d :: paddr and s :: vmm and "file" :: backing
  assumes k: "k < 2 ^ 51"
  defines "file' \<equiv> pwrite d (of_nat k * 4096) s file"
  shows "f_size file' = max (f_size file) (k * PGSIZE + PGSIZE)"
    and "j < PGSIZE \<Longrightarrow> f_byte file' (k * PGSIZE + j) = mem_byte (d + j) s"
    and "i < f_size file \<Longrightarrow> i div PGSIZE \<noteq> k \<Longrightarrow> f_byte file' i = f_byte file i"
proof -
  have lt: "k * 4096 < 2 ^ 63" using k by simp
  have w: "(of_nat k * 4096 :: uint64_t) = of_nat (k * 4096)" by simp
  have u: "unat (of_nat k * 4096 :: uint64_t) = k * 4096"
    unfolding w using lt by (simp add: unsigned_of_nat take_bit_nat_eq_self del: of_nat_mult)
  have "bit (of_nat k * 4096 :: uint64_t) 63 = bit (unat (of_nat k * 4096 :: uint64_t)) 63"
    by (simp add: bit_unsigned_iff)
  then have "\<not> bit (of_nat k * 4096 :: uint64_t) 63"
    unfolding u using lt by (simp add: bit_iff_odd)
  then have "\<not> sint (of_nat k * 4096 :: uint64_t) < 0"
    using bit_last_iff [of "of_nat k * 4096 :: uint64_t"] by simp
  then have f: "file' = file\<lparr>f_size := max (f_size file) (k * PGSIZE + PGSIZE),
      f_byte := (\<lambda>i. if k * PGSIZE \<le> i \<and> i < k * PGSIZE + PGSIZE then mem_byte (d + (i - k * PGSIZE)) s
                     else if f_size file \<le> i then 0 else f_byte file i)\<rparr>"
    by (simp add: file'_def pwrite_def u Let_def)
  show "f_size file' = max (f_size file) (k * PGSIZE + PGSIZE)" by (simp add: f)
  show "f_byte file' (k * PGSIZE + j) = mem_byte (d + j) s" if "j < PGSIZE" using that by (simp add: f)
  show "f_byte file' i = f_byte file i" if "i < f_size file" "i div PGSIZE \<noteq> k"
  proof -
    have "\<not> (k * PGSIZE \<le> i \<and> i < k * PGSIZE + PGSIZE)" using that(2) by (auto intro: div_nat_eqI)
    then show ?thesis using that(1) by (auto simp: f)
  qed
qed

text \<open>The effect of cleaning the pages \<open>ps\<close>: each is active and clean and its bytes are in the file at
  its slot; other pages, and the slots of the file that belong to nothing in \<open>ps\<close>, stay as they were.\<close>

definition page_saved :: "vmm \<Rightarrow> vmm \<Rightarrow> backing \<Rightarrow> page_ptr \<Rightarrow> bool" where
  "page_saved s t file' p \<longleftrightarrow> (\<exists>k. mypages t p = cleaned (mypages s p) k \<and> k < 2 ^ 51 \<and>
     (page_slot s p = None \<or> page_slot s p = Some k) \<and>
     k * PGSIZE + PGSIZE \<le> f_size file' \<and>
     (\<forall>j < PGSIZE. f_byte file' (k * PGSIZE + j) = mem_byte (p * PGSIZE + j) s))"

definition saved :: "vmm \<Rightarrow> backing \<Rightarrow> page_ptr list \<Rightarrow> vmm \<Rightarrow> backing \<Rightarrow> bool" where
  "saved s file ps t file' \<longleftrightarrow>
     (\<forall>p. p \<notin> set ps \<longrightarrow> mypages t p = mypages s p) \<and>
     (\<forall>p\<in>set ps. page_saved s t file' p) \<and>
     used_slots (vmp_pagefile_state s) \<subseteq> used_slots (vmp_pagefile_state t) \<and>
     (\<forall>k \<in> used_slots (vmp_pagefile_state t). k \<in> used_slots (vmp_pagefile_state s) \<or>
        (\<exists>p\<in>set ps. page_slot t p = Some k)) \<and>
     total_slots (vmp_pagefile_state t) = total_slots (vmp_pagefile_state s) \<and>
     f_size file \<le> f_size file' \<and>
     (\<forall>i < f_size file. i div PGSIZE \<in> used_slots (vmp_pagefile_state s) \<and>
        (\<forall>p\<in>set ps. page_slot s p \<noteq> Some (i div PGSIZE)) \<longrightarrow> f_byte file' i = f_byte file i) \<and>
     same_memory s t"

lemma saved_Nil [simp]: "saved s file [] s file"
  by (simp add: saved_def)

lemma page_slot_same: "mypages t p = mypages s p \<Longrightarrow> page_slot t p = page_slot s p"
  by (simp add: page_slot_def)

lemma page_slot_cleaned: "mypages t p = cleaned pg k \<Longrightarrow> k < 2 ^ 51 \<Longrightarrow> page_slot t p = Some k"
  using slot_small [of k] by (simp add: page_slot_def cleaned_def)

text \<open>One page, then the rest.\<close>

lemma saved_Cons:
  assumes ready: "slots_ok s1" "anon_page s1 p" "\<forall>x\<in>set ps. anon_page s1 x"
    and p: "p \<notin> set ps" and small: "k < 2 ^ 51"
    and pages: "mypages s1 = (mypages s)(p := cleaned (mypages s p) k)" and mem: "same_memory s s1"
    and used: "used_slots (vmp_pagefile_state s1) = insert k (used_slots (vmp_pagefile_state s))"
    and total: "total_slots (vmp_pagefile_state s1) = total_slots (vmp_pagefile_state s)"
    and fresh: "page_slot s p = Some k \<or> page_slot s p = None \<and> k \<notin> used_slots (vmp_pagefile_state s)"
    and f1: "file1 = pwrite (p * PGSIZE) (of_nat k * 4096) s1 file"
    and rest: "saved s1 file1 ps t file'"
  shows "saved s file (p # ps) t file'"
proof -
  note w = pwrite_slot(1) [OF small, of "p * PGSIZE" s1 "file", folded f1]
    pwrite_slot(2) [OF small, of _ "p * PGSIZE" s1 "file", folded f1]
    pwrite_slot(3) [OF small, of _ "file" "p * PGSIZE" s1, folded f1]
  have slot: "page_slot s1 p = Some k" using small pages by (intro page_slot_cleaned) auto
  have others: "page_slot s1 x \<noteq> Some k" if "x \<in> set ps" for x
    using ready p slot that unfolding slots_ok_def by blast
  have keep: "f_byte file' i = f_byte file1 i" if "i < f_size file1" "i div PGSIZE \<in> used_slots (vmp_pagefile_state s1)"
    "\<forall>x\<in>set ps. page_slot s1 x \<noteq> Some (i div PGSIZE)" for i
    using rest that unfolding saved_def by blast
  have size: "f_size file1 \<le> f_size file'" using rest by (simp add: saved_def)
  have bytes: "f_byte file' (k * PGSIZE + j) = mem_byte (p * PGSIZE + j) s" if "j < PGSIZE" for j
  proof -
    have "k * PGSIZE + j < f_size file1" using that w(1) by simp
    moreover have "(k * PGSIZE + j) div PGSIZE = k" using that by simp
    ultimately have "f_byte file' (k * PGSIZE + j) = f_byte file1 (k * PGSIZE + j)"
      using keep [of "k * PGSIZE + j"] others used by simp
    with w(2) [OF that] show ?thesis using mem by (simp add: mem_byte_same)
  qed
  have "\<forall>i < f_size file. i div PGSIZE \<in> used_slots (vmp_pagefile_state s) \<and>
      (\<forall>x\<in>set (p # ps). page_slot s x \<noteq> Some (i div PGSIZE)) \<longrightarrow> f_byte file' i = f_byte file i"
  proof (intro allI impI; elim conjE)
    fix i assume i: "i < f_size file" "i div PGSIZE \<in> used_slots (vmp_pagefile_state s)"
      "\<forall>x\<in>set (p # ps). page_slot s x \<noteq> Some (i div PGSIZE)"
    have "i div PGSIZE \<noteq> k" using i fresh by auto
    moreover have "page_slot s1 x = page_slot s x" if "x \<in> set ps" for x
      using that p pages by (intro page_slot_same) auto
    ultimately show "f_byte file' i = f_byte file i" using keep [of i] w(1) w(3) [OF i(1)] i used by simp
  qed
  moreover have "\<forall>x\<in>set (p # ps). page_saved s t file' x"
  proof
    fix x assume x: "x \<in> set (p # ps)"
    show "page_saved s t file' x"
    proof (cases "x = p")
      case True
      moreover have "page_slot s p = None \<or> page_slot s p = Some k" using fresh by blast
      ultimately show ?thesis
        unfolding page_saved_def using rest p pages small bytes size w(1)
        by (intro exI [of _ k]) (simp add: saved_def)
    next
      case False
      then have "mypages s1 x = mypages s x" "x \<in> set ps" using x pages by auto
      moreover from this have "page_saved s1 t file' x = page_saved s t file' x"
        using page_slot_same [of s1 x s] by (simp add: page_saved_def mem_byte_same [OF mem])
      ultimately show ?thesis using rest by (simp add: saved_def)
    qed
  qed
  moreover have "\<forall>x. x \<notin> set (p # ps) \<longrightarrow> mypages t x = mypages s x"
    using rest pages by (simp add: saved_def)
  moreover have "same_memory s t" using rest mem by (auto simp: saved_def intro: same_memory_trans)
  moreover have "used_slots (vmp_pagefile_state s) \<subseteq> used_slots (vmp_pagefile_state t)"
    using rest used by (auto simp: saved_def)
  moreover have "f_size file \<le> f_size file'" using size w(1) by simp
  moreover have "mypages t p = mypages s1 p" using rest p by (simp add: saved_def)
  then have "page_slot t p = Some k" using slot page_slot_same [of t p s1] by simp
  then have "\<forall>x\<in>used_slots (vmp_pagefile_state t). x \<in> used_slots (vmp_pagefile_state s) \<or>
      (\<exists>y\<in>set (p # ps). page_slot t y = Some x)"
    using rest used by (auto simp: saved_def)
  moreover have "total_slots (vmp_pagefile_state t) = total_slots (vmp_pagefile_state s)"
    using rest total by (simp add: saved_def)
  ultimately show ?thesis unfolding saved_def by (intro conjI)
qed

section \<open>The loops\<close>

definition packets_kept :: "nat \<Rightarrow> pgwriter \<Rightarrow> pgwriter \<Rightarrow> bool" where
  "packets_kept i pw pw' \<longleftrightarrow> packets_ok pw' \<and> (\<forall>m < i. pw_mdls pw' ! m = pw_mdls pw ! m)"

lemma clean_loop:
  assumes "writeback_ready s" and "modified_pgq s = ps" and "length ps \<le> n" and "i + n = MAX_IOPS"
    and "packets_ok pw" and "n_to_clean \<noteq> 0"
  shows "\<exists>pw' file' t. pgwriter_clean n i n_to_clean (pw, file, s) = Ok (i + length ps, pw', file', t) \<and>
    writeback_ready t \<and> modified_pgq t = [] \<and> standby_pgq t = standby_pgq s \<and> free_pgq t = free_pgq s \<and>
    saved s file ps t file' \<and> packets_kept i pw pw' \<and> (\<forall>m < length ps. names_page (pw_mdls pw' ! (i + m)) (ps ! m))"
  using assms
proof (induction ps arbitrary: s "file" i n pw)
  case Nil
  show ?case
  proof (cases n)
    case 0 with Nil.prems show ?thesis
      by (intro exI [of _ pw] exI [of _ "file"] exI [of _ s]) (simp add: packets_kept_def)
  next
    case (Suc n')
    let ?t = "s\<lparr>vmp_pgwriter_event := False\<rparr>"
    have q: "queue_of q ?t = queue_of q s" for q by (cases q) simp_all
    have db: "pfndb ?t = pfndb s" by (rule pfndb_cong [OF _ q]) simp_all
    have "writeback_ready ?t = writeback_ready s"
      unfolding writeback_ready_def db by (simp add: slots_ok_def anon_page_def page_slot_def)
    then have "writeback_ready ?t" using Nil.prems(1) by simp
    moreover have "saved s file [] ?t file" by (simp add: saved_def same_memory_def)
    moreover have "pgwriter_clean n i n_to_clean (pw, file, s) = Ok (i, pw, file, ?t)"
      using Nil.prems(2,6) unfolding Suc by simp
    ultimately show ?thesis using Nil.prems(2,5)
      by (intro exI [of _ pw] exI [of _ "file"] exI [of _ ?t]) (simp add: packets_kept_def)
  qed
next
  case (Cons p ps)
  then obtain n' where n: "n = Suc n'" by (cases n) auto
  have i: "i < MAX_IOPS" using Cons.prems n by simp
  have len: "length (pw_mdls pw) = MAX_IOPS" "length (pw_iops pw) = MAX_IOPS"
    using Cons.prems(5) by (simp_all add: packets_ok_def)
  let ?mdl = "pw_mdls pw ! i" and ?iop = "pw_iops pw ! i" and ?pf = "vmp_pagefile_state s"
  have "?mdl \<in> set (pw_mdls pw)" using i len by simp
  then have m: "mdl_pages ?mdl \<noteq> []" using Cons.prems(5) unfolding packets_ok_def by blast
  define mdl' where "mdl' = ?mdl\<lparr>mdl_offset := 0, mdl_nentries := 1, mdl_pages := (mdl_pages ?mdl)[0 := Some p]\<rparr>"
  have mdl': "names_page mdl' p" using m by (simp add: mdl'_def names_page_def)
  obtain r k s1 where st: "vmp_page_retain_locked p s = Ok r" "use (mypages r p) = kPageUseAnonPrivate"
    "cluster_anon ?mdl ?iop p r = Ok (mdl', iop_init_vnode_write (pf_vnode ?pf) mdl' 4096 (of_nat k * 4096) ?iop, s1)"
    "k < 2 ^ 51" "writeback_ready s1" "modified_pgq s1 = ps" "standby_pgq s1 = standby_pgq s"
    "free_pgq s1 = free_pgq s" "same_memory s s1" "mypages s1 = (mypages s)(p := cleaned (mypages s p) k)"
    "used_slots (vmp_pagefile_state s1) = insert k (used_slots ?pf)"
    "page_slot s p = Some k \<or> page_slot s p = None \<and> k \<notin> used_slots ?pf" "total_slots (vmp_pagefile_state s1) = total_slots ?pf"
    unfolding mdl'_def by (rule clean_step [OF Cons.prems(1,2) m, of ?iop])
  define iop' where "iop' = iop_init_vnode_write (pf_vnode ?pf) mdl' 4096 (of_nat k * 4096) ?iop"
  define file1 where "file1 = pwrite (p * PGSIZE) (of_nat k * 4096) s1 file"
  obtain fd where fd: "pf_vnode ?pf = Some fd" "fd \<noteq> - 1"
    using Cons.prems(1) by (auto simp: writeback_ready_def pagefile_open_def)
  have s1: "pfndb s1" "slots_ok s1" "\<forall>x\<in>set ps. anon_page s1 x" using st(5,6) by (simp_all add: writeback_ready_def)
  have p: "anon_page s p" and db: "pfndb s" using Cons.prems(1,2) by (simp_all add: writeback_ready_def)
  have ps: "p \<notin> set ps" using db Cons.prems(2) pfndb_def [of s] queue_of.simps(3) [of s] distinct.simps(2) by metis
  have "anon_page s1 p" using p st(10) by (simp add: anon_page_def cleaned_def)
  then have addr: "vmp_page_paddr p s1 = p * PGSIZE" using s1(1) by (simp add: anon_page_def pfndb_page_paddr)
  have send: "iop_send iop' (file, s1) = Ok (iop'\<lparr>iop_event := True\<rparr>, file1, s1)"
    using iop_send_page [of iop' fd p "file" s1] fd mdl' addr
    by (simp add: iop'_def iop_init_vnode_write_def file1_def)
  let ?pw = "\<lparr>pw_mdls = (pw_mdls pw)[i := mdl'], pw_iops = (pw_iops pw)[i := iop'\<lparr>iop_event := True\<rparr>]\<rparr>"
  have "packets_ok ?pw"
    using Cons.prems(5) mdl' by (auto simp: packets_ok_def names_page_def dest!: set_update_subset_insert [THEN subsetD])
  with Cons.IH [OF st(5,6), of n' "Suc i" ?pw file1] Cons.prems n obtain pw' file' t where
    t: "pgwriter_clean n' (Suc i) n_to_clean (?pw, file1, s1) = Ok (Suc i + length ps, pw', file', t)"
    "writeback_ready t" "modified_pgq t = []" "standby_pgq t = standby_pgq s" "free_pgq t = free_pgq s"
    "saved s1 file1 ps t file'" "packets_kept (Suc i) ?pw pw'"
    "\<forall>m < length ps. names_page (pw_mdls pw' ! (Suc i + m)) (ps ! m)"
    using st(7,8) by auto
  have "pgwriter_clean n i n_to_clean (pw, file, s) = Ok (i + length (p # ps), pw', file', t)"
    using t(1) st(1,2,3) send Cons.prems(2,6) unfolding n iop'_def by (simp add: cleanable_def)
  moreover have "saved s file (p # ps) t file'"
    by (rule saved_Cons [OF s1(2) \<open>anon_page s1 p\<close> s1(3) ps st(4,10,9,11,13,12) file1_def t(6)])
  moreover have "pw_mdls pw' ! i = mdl'" using t(7) i len by (simp add: packets_kept_def)
  then have "\<forall>m < length (p # ps). names_page (pw_mdls pw' ! (i + m)) ((p # ps) ! m)"
    using t(8) mdl' by (auto simp: nth_Cons split: nat.split)
  moreover have "packets_kept i pw pw'" using t(7) by (simp add: packets_kept_def)
  ultimately show ?case using t(2-5) by blast
qed

lemma release_one_page:
  assumes "names_page mdl p" and "vmp_page_release_locked p s = Ok t"
  shows "vm_mdl_release_pages mdl s = Ok (mdl\<lparr>mdl_pages := (mdl_pages mdl)[0 := None]\<rparr>, t)"
  using assms by (simp add: vm_mdl_release_pages_def names_page_def)

lemma release_loop:
  assumes "pfndb s" and "distinct ps" and "\<forall>p\<in>set ps. anon_page s p \<and> refcnt (mypages s p) = 1 \<and> \<not> dirty (mypages s p)"
    and "packets_ok pw" and "i + length ps \<le> MAX_IOPS" and "\<forall>m < length ps. names_page (pw_mdls pw ! (i + m)) (ps ! m)"
  shows "\<exists>pw' t. pgwriter_release i (length ps) (pw, s) = Ok (pw', t) \<and> pfndb t \<and> packets_ok pw' \<and>
    rest_unchanged s t \<and> modified_pgq t = modified_pgq s \<and> standby_pgq t = standby_pgq s @ ps \<and>
    free_pgq t = free_pgq s \<and>
    mypages t = (\<lambda>p. if p \<in> set ps then (mypages s p)\<lparr>refcnt := 0\<rparr> else mypages s p) \<and>
    (waiters_told s \<longrightarrow> waiters_told t)"
  using assms
proof (induction ps arbitrary: s i pw)
  case (Cons p ps)
  let ?mdl = "pw_mdls pw ! i"
  have i: "i < length (pw_mdls pw)" using Cons.prems(4,5) by (simp add: packets_ok_def)
  have p: "anon_page s p" "refcnt (mypages s p) = 1" "\<not> dirty (mypages s p)" using Cons.prems(3) by simp_all
  have name: "names_page ?mdl p" using Cons.prems(6) [rule_format, of 0] by simp
  obtain u where u: "vmp_page_release_locked p s = Ok u" "pfndb u" "rest_unchanged s u"
    "mypages u = (mypages s)(p := (mypages s p)\<lparr>refcnt := 0\<rparr>)"
    "modified_pgq u = modified_pgq s" "standby_pgq u = standby_pgq s @ [p]" "free_pgq u = free_pgq s"
    "waiters_told s \<longrightarrow> waiters_told u"
    by (rule release_clean [OF Cons.prems(1) p])
  let ?mdl' = "?mdl\<lparr>mdl_pages := (mdl_pages ?mdl)[0 := None]\<rparr>"
  let ?pw = "pw\<lparr>pw_mdls := (pw_mdls pw)[i := ?mdl']\<rparr>"
  have "packets_ok ?pw"
    using Cons.prems(4) name by (auto simp: packets_ok_def names_page_def dest!: set_update_subset_insert [THEN subsetD])
  moreover have "\<forall>q\<in>set ps. anon_page u q \<and> refcnt (mypages u q) = 1 \<and> \<not> dirty (mypages u q)"
    using Cons.prems(2,3) u(4) by (auto simp: anon_page_def)
  moreover have "names_page (pw_mdls ?pw ! (Suc i + m)) (ps ! m)" if "m < length ps" for m
    using Cons.prems(6) [rule_format, of "Suc m"] that by simp
  ultimately obtain pw' t where t: "pgwriter_release (Suc i) (length ps) (?pw, u) = Ok (pw', t)" "pfndb t"
    "packets_ok pw'" "rest_unchanged u t" "modified_pgq t = modified_pgq u" "standby_pgq t = standby_pgq u @ ps"
    "free_pgq t = free_pgq u"
    "mypages t = (\<lambda>p. if p \<in> set ps then (mypages u p)\<lparr>refcnt := 0\<rparr> else mypages u p)"
    "waiters_told u \<longrightarrow> waiters_told t"
    using Cons.IH [of u ?pw "Suc i"] Cons.prems(2,5) u(2) by auto
  have "pgwriter_release i (length (p # ps)) (pw, s) = Ok (pw', t)"
    using t(1) release_one_page [OF name u(1)] by simp
  moreover have "rest_unchanged s t" using u(3) t(4) by (rule rest_unchanged_trans)
  moreover have "mypages t = (\<lambda>q. if q \<in> set (p # ps) then (mypages s q)\<lparr>refcnt := 0\<rparr> else mypages s q)"
    using t(8) u(4) Cons.prems(2) by (auto simp: fun_eq_iff)
  moreover have "standby_pgq t = standby_pgq s @ p # ps" using t(6) u(6) by simp
  moreover have "waiters_told s \<longrightarrow> waiters_told t" using u(8) t(9) by blast
  ultimately show ?case using t(2,3,5,7) u(5,7)
    by (intro exI [of _ pw'] exI [of _ t]) (simp only: simp_thms)
qed auto

lemma pgwriter_target_nonzero: "pgwriter_target s \<noteq> 0"
proof -
  have "max 32 x \<noteq> 0" "max 16 x \<noteq> 0" for x :: size_t by (auto simp: max_def)
  then show ?thesis by (simp add: pgwriter_target_def)
qed

text \<open>The whole pass: the pages it writes end up clean and idle, each in its slot.\<close>

text \<open>Starting the writes tells nobody anything.\<close>

definition signals :: "vmm \<Rightarrow> bool \<times> bool" where
  "signals s = (vmp_was_shortage s, vmp_sufficient_pages_event s)"

lemma signals_simps [simp]:
  "signals (page_update p f s) = signals s" "signals (vmstat_update g s) = signals s"
  "signals (s\<lparr>free_pgq := xs\<rparr>) = signals s" "signals (s\<lparr>standby_pgq := xs\<rparr>) = signals s"
  "signals (s\<lparr>modified_pgq := xs\<rparr>) = signals s" "signals (s\<lparr>vmp_pagefile_state := pf\<rparr>) = signals s"
  "signals (s\<lparr>vmp_pgwriter_event := b\<rparr>) = signals s" "signals (s\<lparr>SOFT_pages := m\<rparr>) = signals s"
  by (simp_all add: signals_def page_update_def)

lemma retain_signals: "vmp_page_retain_locked p s = Ok t \<Longrightarrow> signals t = signals s"
  by (auto simp: vmp_page_retain_locked_def Let_def pgq_remove_def split: if_splits)

lemma cluster_signals: "cluster_anon mdl iop p s = Ok (mdl', iop', t) \<Longrightarrow> signals t = signals s"
  by (auto simp: cluster_anon_def Let_def split: if_splits)

lemma transfer_signals: "iop_transfer iop i n (file, s) = Ok (file', t) \<Longrightarrow> signals t = signals s"
  by (induction iop i n "(file, s)" arbitrary: "file" s rule: iop_transfer.induct)
    (auto simp: Let_def pread_def split: option.splits if_splits)

lemma clean_signals: "pgwriter_clean n i c (pw, file, s) = Ok (m, pw', file', t) \<Longrightarrow> signals t = signals s"
proof (induction n arbitrary: i pw "file" s)
  case (Suc n)
  show ?case
    using Suc.prems
    by (auto simp: iop_send_def split: if_splits option.splits
        dest!: Suc.IH retain_signals cluster_signals transfer_signals)
qed simp

lemma pgwriter_pass_ok:
  assumes "writeback_ready s" and "packets_ok pw"
  obtains pw' file' u t where "vmp_pgwriter (pw, file, s) = Ok (pw', file', t)"
    and "writeback_ready t" and "packets_ok pw'" and "same_memory s t"
    and "modified_pgq t = []" and "standby_pgq t = standby_pgq s @ modified_pgq s" and "free_pgq t = free_pgq s"
    and "saved s file (modified_pgq s) u file'" and "vmp_pagefile_state t = vmp_pagefile_state u"
    and "mypages t = (\<lambda>p. if p \<in> set (modified_pgq s) then (mypages u p)\<lparr>refcnt := 0\<rparr> else mypages s p)"
    and "waiters_told s \<longrightarrow> waiters_told t"
proof -
  let ?ps = "modified_pgq s"
  have db: "pfndb s" using assms(1) by (simp add: writeback_ready_def)
  then have dist: "distinct ?ps" and sub: "set ?ps \<subseteq> {..<SOFT_NPAGES}"
    unfolding pfndb_def by (metis queue_of.simps(3), auto simp: in_members dest: spec [where x = QModified])
  then have len: "length ?ps \<le> MAX_IOPS" using card_mono [OF _ sub] distinct_card [OF dist] by simp
  from clean_loop [OF assms(1) refl len _ assms(2) pgwriter_target_nonzero [of s], of 0 "file"] obtain pw1 file1 u where
    u: "pgwriter_clean MAX_IOPS 0 (pgwriter_target s) (pw, file, s) = Ok (length ?ps, pw1, file1, u)"
    "writeback_ready u" "modified_pgq u = []" "standby_pgq u = standby_pgq s" "free_pgq u = free_pgq s"
    "saved s file ?ps u file1" "packets_ok pw1" "\<forall>m < length ?ps. names_page (pw_mdls pw1 ! m) (?ps ! m)"
    unfolding packets_kept_def by auto
  have saved: "page_saved s u file1 p" if "p \<in> set ?ps" for p using u(6) that by (simp add: saved_def)
  have "anon_page u p \<and> refcnt (mypages u p) = 1 \<and> \<not> dirty (mypages u p)" if "p \<in> set ?ps" for p
    using saved [OF that] assms(1) that
    by (auto simp: page_saved_def anon_page_def cleaned_def writeback_ready_def)
  then obtain pw' t where t: "pgwriter_release 0 (length ?ps) (pw1, u) = Ok (pw', t)" "pfndb t" "packets_ok pw'"
    "rest_unchanged u t" "modified_pgq t = modified_pgq u" "standby_pgq t = standby_pgq u @ ?ps" "free_pgq t = free_pgq u"
    "mypages t = (\<lambda>p. if p \<in> set ?ps then (mypages u p)\<lparr>refcnt := 0\<rparr> else mypages u p)"
    "waiters_told u \<longrightarrow> waiters_told t"
    using release_loop [of u ?ps pw1 0] u dist len by (auto simp: writeback_ready_def)
  have pf: "vmp_pagefile_state t = vmp_pagefile_state u" using t(4) by (simp add: rest_unchanged_def)
  have slot: "page_slot t p = page_slot u p" "anon_page t p = anon_page u p" for p
    by (simp_all add: page_slot_def anon_page_def t(8))
  have "slots_ok t" using u(2) by (simp add: writeback_ready_def slots_ok_def slot pf)
  then have "writeback_ready t" using u(2,3) t(2,5) by (simp add: writeback_ready_def pf)
  moreover have mem: "same_memory s t"
    using u(6) rest_unchanged_same_memory [OF t(4)] by (auto simp: saved_def intro: same_memory_trans)
  moreover have "vmp_pgwriter (pw, file, s) = Ok (pw', file1, t)" using u(1) t(1) by (simp add: vmp_pgwriter_def)
  moreover have "mypages t = (\<lambda>p. if p \<in> set ?ps then (mypages u p)\<lparr>refcnt := 0\<rparr> else mypages s p)"
    using t(8) u(6) by (simp add: saved_def fun_eq_iff)
  moreover have "waiters_told s \<longrightarrow> waiters_told t"
  proof -
    have count: "nfree (vmstat x) = of_nat (length (free_pgq x))" "nstandby (vmstat x) = of_nat (length (standby_pgq x))"
      if "pfndb x" for x using pfndb_counts [OF that, of QFree] pfndb_counts [OF that, of QStandby] by simp_all
    have "pfndb u" using u(2) by (simp add: writeback_ready_def)
    then have "vmp_page_sufficience u = vmp_page_sufficience s"
      using count [of u] count [OF db] u(4-6) by (simp add: vmp_page_sufficience_def saved_def same_memory_def)
    then show ?thesis using clean_signals [OF u(1)] t(9) by (simp add: waiters_told_def signals_def)
  qed
  ultimately show thesis using that [OF _ _ t(3) _ _ _ _ u(6) pf] t(5-7) u(3-5) by simp
qed

text \<open>A page that the pass took.\<close>

lemma pass_page:
  assumes u: "saved s file ps u file'" and t: "mypages t = (\<lambda>p. if p \<in> set ps then (mypages u p)\<lparr>refcnt := 0\<rparr> else mypages s p)"
    and p: "p \<in> set ps"
  obtains k where "mypages t p = (mypages s p)\<lparr>refcnt := 0, drumslot := of_nat k, dirty := False\<rparr>"
    and "page_slot t p = Some k" and "page_slot s p = None \<or> page_slot s p = Some k"
    and "k * PGSIZE + PGSIZE \<le> f_size file'"
    and "\<forall>j < PGSIZE. f_byte file' (k * PGSIZE + j) = mem_byte (p * PGSIZE + j) s"
proof -
  obtain k where k: "mypages u p = cleaned (mypages s p) k" "k < 2 ^ 51" "k * PGSIZE + PGSIZE \<le> f_size file'"
    "\<forall>j < PGSIZE. f_byte file' (k * PGSIZE + j) = mem_byte (p * PGSIZE + j) s" "page_slot s p = None \<or> page_slot s p = Some k"
    using u p unfolding saved_def page_saved_def by blast
  have "mypages t p = (mypages s p)\<lparr>refcnt := 0, drumslot := of_nat k, dirty := False\<rparr>"
    using t p k(1) by (simp add: cleaned_def)
  then show thesis using that slot_small [OF k(2)] k(3-5) by (simp add: page_slot_def)
qed

section \<open>Properties of a pass\<close>

text \<open>C7. A pass of the page writer when the page file is open and has a free slot for every page of the modified
  queue that lacks one, and the modified pages are private pages (\<open>writeback_ready\<close>): it ends, every page of the
  modified queue moves to the end of the standby queue in order, clean, with a slot that no other
  private page has, and the file holds the page's bytes at that slot. Memory, the other pages and the
  slots of the file that do not belong to a page written keep their contents, and the next pass finds
  everything it needs.\<close>

theorem pgwriter_pass_saves_pages:
  assumes "writeback_ready s" and "packets_ok pw"
  shows "\<exists>pw' file' t. vmp_pgwriter (pw, file, s) = Ok (pw', file', t)
    \<and> writeback_ready t \<and> packets_ok pw' \<and> same_memory s t
    \<and> modified_pgq t = [] \<and> standby_pgq t = standby_pgq s @ modified_pgq s \<and> free_pgq t = free_pgq s
    \<and> (\<forall>p\<in>set (modified_pgq s). \<not> dirty (mypages t p) \<and> (\<exists>k. page_slot t p = Some k
          \<and> (\<forall>j < PGSIZE. k * PGSIZE + j < f_size file'
               \<and> f_byte file' (k * PGSIZE + j) = mem_byte (p * PGSIZE + j) t)))
    \<and> (\<forall>p. p \<notin> set (modified_pgq s) \<longrightarrow> mypages t p = mypages s p)
    \<and> (\<forall>i < f_size file. i div PGSIZE \<in> used_slots (vmp_pagefile_state s)
          \<and> (\<forall>p\<in>set (modified_pgq s). page_slot s p \<noteq> Some (i div PGSIZE)) \<longrightarrow> f_byte file' i = f_byte file i)"
proof -
  let ?ps = "modified_pgq s"
  obtain pw' file' u t where t: "vmp_pgwriter (pw, file, s) = Ok (pw', file', t)" "writeback_ready t" "packets_ok pw'"
    "same_memory s t" "modified_pgq t = []" "standby_pgq t = standby_pgq s @ ?ps" "free_pgq t = free_pgq s"
    "saved s file ?ps u file'" "mypages t = (\<lambda>p. if p \<in> set ?ps then (mypages u p)\<lparr>refcnt := 0\<rparr> else mypages s p)"
    by (rule pgwriter_pass_ok [OF assms])
  have "\<not> dirty (mypages t p) \<and> (\<exists>k. page_slot t p = Some k \<and> (\<forall>j < PGSIZE. k * PGSIZE + j < f_size file'
      \<and> f_byte file' (k * PGSIZE + j) = mem_byte (p * PGSIZE + j) t))" if p: "p \<in> set ?ps" for p
  proof -
    obtain k where k: "mypages t p = (mypages s p)\<lparr>refcnt := 0, drumslot := of_nat k, dirty := False\<rparr>" "page_slot t p = Some k"
      "k * PGSIZE + PGSIZE \<le> f_size file'" "\<forall>j < PGSIZE. f_byte file' (k * PGSIZE + j) = mem_byte (p * PGSIZE + j) s"
      by (rule pass_page [OF t(8,9) p])
    then show ?thesis by (auto simp: mem_byte_same [OF t(4)])
  qed
  then show ?thesis using t by (intro exI [of _ pw'] exI [of _ file'] exI [of _ t]) (simp add: saved_def)
qed

text \<open>Two modified pages without slots, one of them with a word in it.\<close>

definition sample_modified :: vmm where
  "sample_modified = (boot_state 0)\<lparr>
     mypages := (\<lambda>p. if p < 2 then zero_page\<lparr>pfn := of_nat p, use := kPageUseAnonPrivate, dirty := True, drumslot := - 1\<rparr>
                     else zero_page\<lparr>pfn := of_nat p, use := kPageUseFree\<rparr>),
     SOFT_pages := (\<lambda>a. if a = PGSIZE then 0x2A else 0),
     free_pgq := [2..<SOFT_NPAGES], modified_pgq := [1, 0], vmp_pagefile_state := sample_pagefile,
     vmstat := \<lparr>nfree = 30, nmodified = 2, nstandby = 0, nactive = 0, ntotal = 0\<rparr>\<rparr>"

lemma sample_modified_fields:
  "modified_pgq sample_modified = [1, 0]" "standby_pgq sample_modified = []"
  "vmp_pagefile_state sample_modified = sample_pagefile"
  "mem_byte (1 * PGSIZE + 0) sample_modified = 0x2A"
  by (simp_all add: sample_modified_def boot_state_def mem_byte_def)

lemma sample_modified_pages:
  "place (mypages sample_modified p) = Some (if p < 2 then QModified else QFree)"
  "page_wf p (mypages sample_modified p)"
  "anon_page sample_modified p \<longleftrightarrow> p < 2"
  "p < 2 \<Longrightarrow> page_slot sample_modified p = None"
  by (cases "p < 2"; simp add: sample_modified_def place_def page_wf_def anon_page_def page_slot_def zero_page_def)+

lemma sample_modified_ready: "writeback_ready sample_modified"
proof -
  have m: "members (mypages sample_modified) w =
      (if w = Some QFree then {2..<SOFT_NPAGES} else if w = Some QModified then {0, 1} else {})" for w
    by (auto simp: in_members sample_modified_pages split: if_splits)
  have "queue_of q sample_modified = (case q of QFree \<Rightarrow> [2..<SOFT_NPAGES] | QStandby \<Rightarrow> [] | QModified \<Rightarrow> [1, 0])" for q
    by (cases q) (simp_all add: sample_modified_def boot_state_def)
  moreover have "qcount w (vmstat sample_modified) = (if w = Some QFree then 30 else if w = Some QModified then 2 else 0)" for w
    by (cases "(w, vmstat sample_modified)" rule: qcount.cases) (auto simp: sample_modified_def)
  ultimately have "pfndb sample_modified"
    by (auto simp: pfndb_def m sample_modified_pages split: pageq.split simp del: upt_rec_numeral)
  then show ?thesis
    using sample_pagefile_ok
    by (auto simp: writeback_ready_def slots_ok_def pagefile_open_def sample_modified_pages
        sample_pagefile_fields sample_modified_fields)
qed

lemma pgwriter_start_packets: "length iops = MAX_IOPS \<Longrightarrow> packets_ok (pgwriter_start iops)"
  by (simp add: packets_ok_def pgwriter_start_def vm_mdl_alloc_def)

theorem pgwriter_pass_saves_pages_witness:
  "\<exists>pw' file' t k. vmp_pgwriter (pgwriter_start (replicate MAX_IOPS sample_iop), empty_file, sample_modified)
      = Ok (pw', file', t) \<and> standby_pgq t = [1, 0] \<and> modified_pgq t = []
     \<and> page_slot t 1 = Some k \<and> f_byte file' (k * PGSIZE) = 0x2A"
proof -
  let ?pw = "pgwriter_start (replicate MAX_IOPS sample_iop)"
  have "packets_ok ?pw" by (rule pgwriter_start_packets) simp
  from pgwriter_pass_saves_pages [OF sample_modified_ready this, of empty_file, unfolded sample_modified_fields(1)]
  obtain pw' file' t where t: "vmp_pgwriter (?pw, empty_file, sample_modified) = Ok (pw', file', t)"
    "same_memory sample_modified t" "modified_pgq t = []" "standby_pgq t = [1, 0]"
    and "\<forall>p\<in>set [1, 0]. \<not> dirty (mypages t p) \<and> (\<exists>k. page_slot t p = Some k \<and>
      (\<forall>j < PGSIZE. k * PGSIZE + j < f_size file' \<and> f_byte file' (k * PGSIZE + j) = mem_byte (p * PGSIZE + j) t))"
    unfolding sample_modified_fields(2) by auto
  then obtain k where k: "page_slot t 1 = Some k"
    "\<forall>j < PGSIZE. f_byte file' (k * PGSIZE + j) = mem_byte (1 * PGSIZE + j) t"
    by auto
  have "f_byte file' (k * PGSIZE) = 0x2A"
    using k(2) [rule_format, of 0] sample_modified_fields(4) mem_byte_same [OF t(2)] by simp
  with t k show ?thesis by blast
qed

text \<open>A full page file: \<^verbatim>\<open>cluster_anon\<close> does not look at the result of the allocator. The page is marked
  clean and goes to the standby queue although nothing was written.\<close>

lemma full_pagefile_loses_page:
  assumes inv: "pfndb s" and q: "modified_pgq s = [p]" and p: "anon_page s p" "page_slot s p = None"
    and full: "free_slots (vmp_pagefile_state s) = 0"
    and fd: "pf_vnode (vmp_pagefile_state s) = Some fd" "fd \<noteq> - 1" and pw: "packets_ok pw"
  shows "\<exists>pw' t. vmp_pgwriter (pw, file, s) = Ok (pw', file, t) \<and> standby_pgq t = standby_pgq s @ [p] \<and>
    \<not> dirty (mypages t p) \<and> page_slot t p = None"
proof -
  have lt: "p < SOFT_NPAGES" and u: "use (mypages s p) = kPageUseAnonPrivate" using p by (simp_all add: anon_page_def)
  obtain r where r: "vmp_page_retain_locked p s = Ok r" "pfndb r"
    "mypages r = (mypages s)(p := (mypages s p)\<lparr>refcnt := 1\<rparr>)" "rest_unchanged s r"
    "modified_pgq r = []" "standby_pgq r = standby_pgq s" "free_pgq r = free_pgq s"
    by (rule retain_modified [OF inv q u])
  have d: "drumslot (mypages s p) = - 1" using p(2) by (simp add: page_slot_def split: if_splits)
  have pf: "vmp_pagefile_state r = vmp_pagefile_state s" using r(4) by (simp add: rest_unchanged_def)
  let ?mdl = "pw_mdls pw ! 0" and ?iop = "pw_iops pw ! 0"
  let ?u = "page_update p (\<lambda>pg. pg\<lparr>dirty := False\<rparr>) r"
  define mdl' where "mdl' = ?mdl\<lparr>mdl_offset := 0, mdl_nentries := 1, mdl_pages := (mdl_pages ?mdl)[0 := Some p]\<rparr>"
  define iop' where "iop' = iop_init_vnode_write (Some fd) mdl' 4096 (- 4096) ?iop"
  have m: "mdl_pages ?mdl \<noteq> []" using pw nth_mem [of 0 "pw_mdls pw"] unfolding packets_ok_def by simp
  have name: "names_page mdl' p" using m by (simp add: mdl'_def names_page_def)
  have "page_update p (\<lambda>pg. pg\<lparr>drumslot := - 1\<rparr>) (r\<lparr>vmp_pagefile_state := vmp_pagefile_state s\<rparr>) = r"
    using d pf r(3) by (cases r) (auto simp: page_update_def fun_eq_iff)
  then have c: "cluster_anon ?mdl ?iop p r = Ok (mdl', iop', ?u)"
    using m d full fd r(3) unfolding cluster_anon_def
    by (simp add: pf vmp_pagefile_alloc_def mdl'_def iop'_def Let_def)
  have send: "iop_send iop' (file, ?u) = Ok (iop'\<lparr>iop_event := True\<rparr>, file, ?u)"
    using iop_send_page [of iop' fd p "file" ?u] fd(2) name
    by (simp add: iop'_def iop_init_vnode_write_def pwrite_def)
  let ?pw = "\<lparr>pw_mdls = (pw_mdls pw)[0 := mdl'], pw_iops = (pw_iops pw)[0 := iop'\<lparr>iop_event := True\<rparr>]\<rparr>"
  let ?v = "?u\<lparr>vmp_pgwriter_event := False\<rparr>"
  have clean: "pgwriter_clean (Suc (Suc n)) 0 c (pw, file, s) = Ok (1, ?pw, file, ?v)" if "c \<noteq> 0" for n c
    using that q r(1,3,5) u c send by (simp add: cleanable_def)
  have qs: "queue_of x ?v = queue_of x r" for x by (cases x) simp_all
  have "pfndb ?v"
    by (rule page_update_pfndb [OF r(2) lt _ _ _ _ _ qs, where pg = "(mypages r p)\<lparr>dirty := False\<rparr>"])
      (simp_all add: r(3))
  moreover have "anon_page ?v p" "refcnt (mypages ?v p) = 1" "\<not> dirty (mypages ?v p)"
    using p(1) by (simp_all add: anon_page_def r(3))
  ultimately obtain t where t: "vmp_page_release_locked p ?v = Ok t"
    "mypages t = (mypages ?v)(p := (mypages ?v p)\<lparr>refcnt := 0\<rparr>)" "standby_pgq t = standby_pgq ?v @ [p]"
    by (rule release_clean)
  have "pw_mdls ?pw ! 0 = mdl'" using pw by (simp add: packets_ok_def nth_list_update)
  then obtain pw' where "pgwriter_release 0 1 (?pw, ?v) = Ok (pw', t)"
    using release_one_page [OF name t(1)] by simp
  moreover have "pgwriter_clean MAX_IOPS 0 (pgwriter_target s) (pw, file, s) = Ok (1, ?pw, file, ?v)"
    using clean [OF pgwriter_target_nonzero, of 30] by (simp add: eval_nat_numeral del: pgwriter_clean.simps)
  ultimately have "vmp_pgwriter (pw, file, s) = Ok (pw', file, t)" by (simp add: vmp_pgwriter_def)
  moreover have "page_slot t p = None" "\<not> dirty (mypages t p)" using d by (simp_all add: page_slot_def t(2) r(3))
  moreover have "standby_pgq t = standby_pgq s @ [p]" using t(3) r(6) by simp
  ultimately show ?thesis by blast
qed

end
