(* ===== verification/Page_Copies.thy ===== *)
theory Page_Copies
  imports Eviction Writeback
begin

text \<open>
  The page file as a copy of memory: a private page that is clean, and to which the process cannot store,
  is in the file at its slot as it is in memory, or it has no slot and is still zero. The steps of the
  memory manager keep this, and the page file always has room for the modified pages.
\<close>

section \<open>Copies\<close>

definition copy_in_file :: "vmm \<Rightarrow> backing \<Rightarrow> page_ptr \<Rightarrow> bool" where
  "copy_in_file s file q \<longleftrightarrow> (case page_slot s q of
       None \<Rightarrow> zero_filled s q
     | Some k \<Rightarrow> \<forall>j < PGSIZE. k * PGSIZE + j < f_size file \<and>
         f_byte file (k * PGSIZE + j) = mem_byte (q * PGSIZE + j) s)"

definition copies_ok :: "vmm \<Rightarrow> backing \<Rightarrow> bool" where
  "copies_ok s file \<longleftrightarrow> (\<forall>q. private_page 0 s q \<longrightarrow> quiet s q \<longrightarrow> copy_in_file s file q)"

text \<open>Every slot in use belongs to a private page. The file has room for two slots per page frame.\<close>

definition slots_accounted :: "vmm \<Rightarrow> bool" where
  "slots_accounted s \<longleftrightarrow>
     (\<forall>k \<in> used_slots (vmp_pagefile_state s). \<exists>q. private_page 0 s q \<and> page_slot s q = Some k)"

definition paging_inv :: "vmm \<Rightarrow> backing \<Rightarrow> bool" where
  "paging_inv s file \<longleftrightarrow> ordinary_pages 0 s \<and> slots_ok s \<and> slots_accounted s \<and>
     pagefile_open (vmp_pagefile_state s) \<and> 2 * SOFT_NPAGES \<le> unat (total_slots (vmp_pagefile_state s)) \<and>
     copies_ok s file"

lemma mem_byte_page:
  assumes "\<And>a. a div PGSIZE = q \<Longrightarrow> SOFT_pages t a = SOFT_pages s a" and "j < PGSIZE"
  shows "mem_byte (q * PGSIZE + j) t = mem_byte (q * PGSIZE + j) s"
proof -
  have "q * PGSIZE + j = j + 8 * (512 * q)" by simp
  then have m: "(q * PGSIZE + j) mod 8 = j mod 8" by (simp only: mod_mult_self2)
  have "q * PGSIZE + j - (q * PGSIZE + j) mod 8 = q * PGSIZE + (j - j mod 8)"
    unfolding m by (rule diff_add_assoc) (rule mod_less_eq_dividend)
  moreover have "j - j mod 8 < PGSIZE" using assms(2) by (rule less_imp_diff_less)
  then have "(q * PGSIZE + (j - j mod 8)) div PGSIZE = q" by simp
  ultimately show ?thesis using assms(1) by (simp add: mem_byte_def)
qed

lemma page_slot_cong: "drumslot (mypages t q) = drumslot (mypages s q) \<Longrightarrow> page_slot t q = page_slot s q"
  by (simp add: page_slot_def)

lemma copy_in_file_same:
  assumes "drumslot (mypages t q) = drumslot (mypages s q)"
    and "\<And>a. a div PGSIZE = q \<Longrightarrow> SOFT_pages t a = SOFT_pages s a"
  shows "copy_in_file t file q = copy_in_file s file q"
proof -
  have "page_slot t q = page_slot s q" by (rule page_slot_cong [OF assms(1)])
  moreover have "zero_filled t q = zero_filled s q" using assms(2) by (simp add: zero_filled_def)
  moreover have "mem_byte (q * PGSIZE + j) t = mem_byte (q * PGSIZE + j) s" if "j < PGSIZE" for j
    by (rule mem_byte_page [OF assms(2) that])
  ultimately show ?thesis by (simp add: copy_in_file_def split: option.split)
qed

lemma anon_private: "ordinary_pages ps s \<Longrightarrow> anon_page s q \<longleftrightarrow> private_page ps s q"
  by (auto simp: ordinary_pages_def anon_page_def private_page_def table_of_def is_table_def)

section \<open>Steps that write nothing\<close>

lemma data_kept_paging:
  assumes k: "data_kept 0 s t" and s: "paging_inv s file"
  shows "paging_inv t file"
proof -
  note K = data_keptD [OF k] and I = s [unfolded paging_inv_def]
  have ord: "ordinary_pages 0 t" using K(2) I by blast
  have anon: "anon_page s q = private_page 0 s q" "anon_page t q = private_page 0 t q" for q
    using anon_private I ord by blast+
  have slot: "private_page 0 s q \<and> page_slot s q = Some k" if q: "private_page 0 t q" "page_slot t q = Some k" for q k
  proof (cases "private_page 0 s q")
    case True
    then show ?thesis using page_slot_cong [OF K(4)] q(2) by simp
  next
    case False
    then show ?thesis using K(7) [OF q(1)] q(2) by (simp add: page_slot_def)
  qed
  have "slots_ok t" using I slot unfolding slots_ok_def anon K(1) by metis
  moreover have "slots_accounted t"
    unfolding slots_accounted_def K(1)
  proof
    fix x assume "x \<in> used_slots (vmp_pagefile_state s)"
    then obtain q where q: "private_page 0 s q" "page_slot s q = Some x" using I unfolding slots_accounted_def by blast
    then have "page_slot t q = Some x" using page_slot_cong [OF K(4)] by simp
    then show "\<exists>q. private_page 0 t q \<and> page_slot t q = Some x" using K(3) q(1) by blast
  qed
  moreover have "copy_in_file t file q" if q: "private_page 0 t q" "quiet t q" for q
  proof (cases "private_page 0 s q")
    case True
    then have "copy_in_file s file q" using I K(6) q(2) by (simp add: copies_ok_def)
    then show ?thesis using copy_in_file_same [OF K(4) [OF True] K(5) [OF True]] by simp
  next
    case False
    then show ?thesis using K(7) [OF q(1)] by (simp add: copy_in_file_def page_slot_def)
  qed
  ultimately show ?thesis using I ord by (simp add: paging_inv_def copies_ok_def K(1))
qed

section \<open>The page writer\<close>

text \<open>The page file never runs out of slots.\<close>

lemma paging_room:
  assumes s: "paging_inv s file" and d: "distinct ps" "set ps \<subseteq> {..<SOFT_NPAGES}"
  shows "length ps \<le> unat (free_slots (vmp_pagefile_state s))"
proof -
  let ?pf = "vmp_pagefile_state s"
  note I = s [unfolded paging_inv_def]
  have "used_slots ?pf \<subseteq> (\<lambda>q. the (page_slot s q)) ` {..<SOFT_NPAGES}"
  proof
    fix k assume "k \<in> used_slots ?pf"
    then obtain q where q: "private_page 0 s q" "page_slot s q = Some k" using I unfolding slots_accounted_def by blast
    then show "k \<in> (\<lambda>q. the (page_slot s q)) ` {..<SOFT_NPAGES}"
      by (intro image_eqI [of _ _ q]) (simp_all add: private_page_def)
  qed
  then have "card (used_slots ?pf) \<le> SOFT_NPAGES"
    using surj_card_le [of "{..<SOFT_NPAGES}"] by simp
  moreover have "unat (free_slots ?pf) + card (used_slots ?pf) = unat (total_slots ?pf)"
    using I by (simp add: pagefile_open_def pagefile_ok_def)
  moreover have "length ps \<le> SOFT_NPAGES" using card_mono [OF _ d(2)] distinct_card [OF d(1)] by simp
  ultimately show ?thesis using I by linarith
qed

text \<open>A page that nobody holds is private.\<close>

lemma idle_private:
  assumes s: "space_ok W 0 s" and o: "ordinary_pages 0 s"
    and q: "q < SOFT_NPAGES" "use (mypages s q) \<noteq> kPageUseFree" "refcnt (mypages s q) = 0"
  shows "private_page 0 s q"
proof -
  have "\<not> table_of 0 s q"
  proof
    assume t: "table_of 0 s q"
    then have r: "refcnt (mypages s q) = nonswap_ptes (mypages s q) + 1" "nonswap_ptes (mypages s q) < 0x8000"
      using table_okD(1) [OF space_okD(2) [OF s] t] by (simp_all add: table_ok_def)
    have "nonswap_ptes (mypages s q) = - 1" using r(1) q(3) by (simp add: eq_neg_iff_add_eq_0)
    with r(2) show False by simp
  qed
  then show ?thesis using o q by (auto simp: ordinary_pages_def)
qed

lemma modified_private:
  assumes s: "space_ok W 0 s" and o: "ordinary_pages 0 s" and q: "q \<in> set (modified_pgq s)"
  shows "private_page 0 s q"
  using idle_private [OF s o] modified_page [OF space_okD(1) [OF s] q] by blast

text \<open>A page that may be stolen is private and quiet.\<close>

lemma standby_quiet:
  assumes s: "space_ok W 0 s" and o: "ordinary_pages 0 s" and q: "q \<in> set (standby_pgq s)"
  shows "private_page 0 s q" and "quiet s q"
proof -
  have m: "q < SOFT_NPAGES" "use (mypages s q) \<noteq> kPageUseFree" "refcnt (mypages s q) = 0" "\<not> dirty (mypages s q)"
    using pfndb_queue_iff [OF space_okD(1) [OF s], of q QStandby] q by (auto simp: place_def split: if_splits)
  show p: "private_page 0 s q" by (rule idle_private [OF s o m(1-3)])
  have "backlink_ok 0 s q" using space_okD(13) [OF s] p by (simp add: backlinks_ok_def private_page_def)
  then have "SOFT_pages s (referent_pte (mypages s q)) = vmp_pte_trans_create 0 (of_nat q)"
    using m(3) unfolding backlink_ok_def by (auto simp: anon_at_def)
  then show "quiet s q" using m(4) by (simp add: quiet_def)
qed

lemma paging_ready:
  assumes s: "space_ok W 0 s" and p: "paging_inv s file"
  shows "writeback_ready s"
proof -
  note db = space_okD(1) [OF s] and I = p [unfolded paging_inv_def]
  have "distinct (queue_of QModified s)" using db by (simp add: pfndb_def del: queue_of.simps)
  then have "distinct (filter (\<lambda>q. page_slot s q = None) (modified_pgq s))" by simp
  moreover have "set (filter (\<lambda>q. page_slot s q = None) (modified_pgq s)) \<subseteq> {..<SOFT_NPAGES}"
    using modified_page(1) [OF db] by auto
  ultimately have "length (filter (\<lambda>q. page_slot s q = None) (modified_pgq s)) \<le> unat (free_slots (vmp_pagefile_state s))"
    by (rule paging_room [OF p])
  moreover have "anon_page s q" if "q \<in> set (modified_pgq s)" for q
    using modified_private [OF s _ that] anon_private I by blast
  ultimately show ?thesis using db I by (simp add: writeback_ready_def)
qed

text \<open>A pass writes the modified pages; everything else stays.\<close>

text \<open>What a pass does to the page of each frame: it cleans the pages of the modified queue and
  leaves the others alone.\<close>

lemma pass_cleans:
  assumes s: "space_ok W 0 s" and p: "paging_inv s file" and w: "packets_ok pw"
    and run: "vmp_pgwriter (pw, file, s) = Ok (pw', file', t)"
  obtains u where "writeback_ready t" and "same_memory s t" and "saved s file (modified_pgq s) u file'"
    and "vmp_pagefile_state t = vmp_pagefile_state u"
    and "\<forall>q \<in> set (modified_pgq s). page_slot t q = page_slot u q"
    and "\<forall>q \<in> set (modified_pgq s).
      \<exists>k. mypages t q = (mypages s q)\<lparr>refcnt := 0, drumslot := of_nat k, dirty := False\<rparr> \<and> page_slot t q = Some k \<and>
        (page_slot s q = None \<or> page_slot s q = Some k) \<and> k * PGSIZE + PGSIZE \<le> f_size file' \<and>
        (\<forall>j < PGSIZE. f_byte file' (k * PGSIZE + j) = mem_byte (q * PGSIZE + j) s)"
    and "\<forall>q. q \<notin> set (modified_pgq s) \<longrightarrow> mypages t q = mypages s q"
    and "same_but_clean s t" and "pfndb t = pfndb s"
proof -
  let ?ps = "modified_pgq s"
  note db = space_okD(1) [OF s]
  have "writeback_ready s" by (rule paging_ready [OF s p])
  then obtain u where T: "writeback_ready t" "same_memory s t" "saved s file ?ps u file'"
    "vmp_pagefile_state t = vmp_pagefile_state u"
    "mypages t = (\<lambda>p. if p \<in> set ?ps then (mypages u p)\<lparr>refcnt := 0\<rparr> else mypages s p)"
    by (rule pgwriter_pass_ok [OF _ w, of _ "file"]) (use run in simp)
  have taken: "\<exists>k. mypages t q = (mypages s q)\<lparr>refcnt := 0, drumslot := of_nat k, dirty := False\<rparr> \<and> page_slot t q = Some k \<and>
      (page_slot s q = None \<or> page_slot s q = Some k) \<and> k * PGSIZE + PGSIZE \<le> f_size file' \<and>
      (\<forall>j < PGSIZE. f_byte file' (k * PGSIZE + j) = mem_byte (q * PGSIZE + j) s)"
    if "q \<in> set ?ps" for q
    using pass_page [OF T(3,5) that] by metis
  have other: "mypages t q = mypages s q" if "q \<notin> set ?ps" for q using T(5) that by simp
  have slot: "page_slot t q = page_slot u q" if "q \<in> set ?ps" for q using T(5) that by (simp add: page_slot_def)
  have "pfn (mypages t q) = pfn (mypages s q) \<and> use (mypages t q) = use (mypages s q) \<and>
     refcnt (mypages t q) = refcnt (mypages s q) \<and> nonzero_ptes (mypages t q) = nonzero_ptes (mypages s q) \<and>
     nonswap_ptes (mypages t q) = nonswap_ptes (mypages s q) \<and>
     referent_pte (mypages t q) = referent_pte (mypages s q) \<and> process (mypages t q) = process (mypages s q)" for q
    using other [of q] taken [of q] modified_page(2) [OF db, of q] by (cases "q \<in> set ?ps") auto
  then have "same_but_clean s t" using T(2) by (simp add: same_but_clean_def same_memory_def)
  moreover have "pfndb t = pfndb s" using T(1) db by (simp add: writeback_ready_def)
  ultimately show thesis using slot taken other by (intro that [OF T(1-4)]) blast+
qed

text \<open>A slot that a pass leaves in use is the slot of a private page.\<close>

lemma pass_slots_accounted:
  assumes sv: "saved s file ps u file'" and acc: "slots_accounted s"
    and used: "used_slots (vmp_pagefile_state t) = used_slots (vmp_pagefile_state u)"
    and priv: "\<And>q. q \<in> set ps \<Longrightarrow> private_page 0 s q" and slot: "\<And>q. q \<in> set ps \<Longrightarrow> page_slot t q = page_slot u q"
    and kept: "\<And>q k. page_slot s q = Some k \<Longrightarrow> page_slot t q = Some k"
    and pp: "\<And>q. private_page 0 t q = private_page 0 s q"
  shows "slots_accounted t"
  unfolding slots_accounted_def pp used
proof
  fix k assume "k \<in> used_slots (vmp_pagefile_state u)"
  then consider "k \<in> used_slots (vmp_pagefile_state s)" | q where "q \<in> set ps" "page_slot u q = Some k"
    using sv unfolding saved_def by blast
  then show "\<exists>q. private_page 0 s q \<and> page_slot t q = Some k"
  proof cases
    case 1
    then show ?thesis using acc kept unfolding slots_accounted_def by blast
  next
    case 2
    then show ?thesis using priv slot by (intro exI [of _ q]) simp
  qed
qed

text \<open>A page outside the modified queue keeps its copy: no page that the pass writes has its slot.\<close>

lemma pass_keeps_copy:
  assumes I: "paging_inv s file" and sv: "saved s file ps u file'" and mem: "same_memory s t"
    and priv: "\<And>q. q \<in> set ps \<Longrightarrow> private_page 0 s q" and same: "mypages t q = mypages s q"
    and q: "private_page 0 s q" "quiet t q" "q \<notin> set ps"
  shows "copy_in_file t file' q"
proof -
  have M: "SOFT_pages t = SOFT_pages s" using mem by (simp add: same_memory_def)
  note I = I [unfolded paging_inv_def]
  have "quiet s q" using q(2) same by (simp add: quiet_def M)
  then have c: "copy_in_file s file q" using I q(1) by (simp add: copies_ok_def)
  show ?thesis
  proof (cases "page_slot s q")
    case None
    then show ?thesis using c same M by (simp add: copy_in_file_def page_slot_def zero_filled_def split: if_splits)
  next
    case (Some k)
    have anon: "anon_page s q" "\<forall>x \<in> set ps. anon_page s x" using anon_private I q(1) priv by blast+
    have "k \<in> used_slots (vmp_pagefile_state s)" using I anon(1) Some unfolding slots_ok_def by blast
    moreover have "\<forall>x\<in>set ps. page_slot s x \<noteq> Some k" using I anon Some q(3) unfolding slots_ok_def by metis
    moreover have "(k * PGSIZE + j) div PGSIZE = k" if "j < PGSIZE" for j using that by simp
    ultimately have "f_byte file' (k * PGSIZE + j) = f_byte file (k * PGSIZE + j)" "k * PGSIZE + j < f_size file'"
      if "j < PGSIZE" "k * PGSIZE + j < f_size file" for j
      using sv that by (simp_all add: saved_def)
    moreover have "page_slot t q = Some k" using Some page_slot_same [OF same] by simp
    ultimately show ?thesis using c Some by (simp add: copy_in_file_def mem_byte_same [OF mem])
  qed
qed

lemma pass_paging:
  assumes s: "space_ok W 0 s" and p: "paging_inv s file" and w: "packets_ok pw"
    and run: "vmp_pgwriter (pw, file, s) = Ok (pw', file', t)"
  shows "space_ok W 0 t" and "leaf_entry 0 v t = leaf_entry 0 v s" and "tables_busy 0 t = tables_busy 0 s"
    and "SOFT_pages t = SOFT_pages s" and "paging_inv t file'"
proof -
  let ?ps = "modified_pgq s"
  note I = p [unfolded paging_inv_def]
  obtain u where T: "writeback_ready t" "same_memory s t" "saved s file ?ps u file'"
      "vmp_pagefile_state t = vmp_pagefile_state u"
    and slot: "\<forall>q \<in> set ?ps. page_slot t q = page_slot u q"
    and taken: "\<forall>q \<in> set ?ps.
      \<exists>k. mypages t q = (mypages s q)\<lparr>refcnt := 0, drumslot := of_nat k, dirty := False\<rparr> \<and> page_slot t q = Some k \<and>
        (page_slot s q = None \<or> page_slot s q = Some k) \<and> k * PGSIZE + PGSIZE \<le> f_size file' \<and>
        (\<forall>j < PGSIZE. f_byte file' (k * PGSIZE + j) = mem_byte (q * PGSIZE + j) s)"
    and other: "\<forall>q. q \<notin> set ?ps \<longrightarrow> mypages t q = mypages s q"
    and C: "same_but_clean s t" "pfndb t = pfndb s"
    by (rule pass_cleans [OF s p w run])
  have S: "space_ok W 0 t = space_ok W 0 s" "leaf_entry 0 v t = leaf_entry 0 v s"
      "tables_busy 0 t = tables_busy 0 s" for v
    by (rule space_ok_same_but_clean [OF C]; use T(2) in \<open>simp add: same_memory_def\<close>)+
  show "space_ok W 0 t" "leaf_entry 0 v t = leaf_entry 0 v s" "tables_busy 0 t = tables_busy 0 s"
    using S s by simp_all
  show mem: "SOFT_pages t = SOFT_pages s" using T(2) by (simp add: same_memory_def)
  note D = same_but_cleanD [OF C(1)]
  have pp: "private_page 0 t q = private_page 0 s q" and tp: "table_of 0 t q = table_of 0 s q" for q
    by (simp_all add: private_page_def table_of_def D)
  have ord: "ordinary_pages 0 t" using I by (simp add: ordinary_pages_def pp tp D)
  have priv: "private_page 0 s q" if "q \<in> set ?ps" for q using modified_private [OF s _ that] I by blast
  have kept: "page_slot t q = Some k" if "page_slot s q = Some k" for q k
    using taken other page_slot_same [of t q s] that by (cases "q \<in> set ?ps") force+
  have "slots_accounted t"
    by (rule pass_slots_accounted [OF T(3) _ _ priv _ kept pp]) (use I T(4) slot in simp_all)
  moreover have "copy_in_file t file' q" if q: "private_page 0 s q" "quiet t q" for q
  proof (cases "q \<in> set ?ps")
    case True
    with taken show ?thesis by (auto simp: copy_in_file_def mem_byte_same [OF T(2)])
  next
    case False
    show ?thesis by (rule pass_keeps_copy [OF p T(3,2) priv other [rule_format, OF False] q False])
  qed
  ultimately show "paging_inv t file'"
    using I T(1,3,4) ord pp by (simp add: paging_inv_def copies_ok_def writeback_ready_def saved_def)
qed

end
