(* ===== verification/Low_Memory.thy ===== *)
theory Low_Memory
  imports Simulation
begin

text \<open>
  Faults when memory is short: the handler gives up without a trace when the tables of the address are
  there, and does not survive the shortage when it needs a new table.
\<close>

section \<open>The shortage test\<close>

text \<open>The counters of tables do not matter to the statistics.\<close>

lemma counters_only_members:
  assumes s: "tables_ok ps s" and t: "tables_ok ps t" and c: "counters_only ps s t"
  shows "members (mypages t) w = members (mypages s) w"
proof -
  note C = counters_onlyD [OF c]
  have "place (mypages t p) = place (mypages s p)" for p
  proof (cases "table_of ps s p")
    case True
    then have pt: "table_of ps t p" using role_table_of [OF C(2)] by simp
    have "refcnt (mypages u p) \<noteq> 0" if "table_of ps u p" "tables_ok ps u" for u
      using that table_okD(1) [of ps u p] small_count [of "nonswap_ptes (mypages u p)"] by (auto simp: table_ok_def)
    then show ?thesis using True pt s t C(2) by (auto simp: place_def same_role_def table_of_def is_table_def)
  qed (use C(3) in simp)
  then show ?thesis by (simp add: members_def)
qed

lemma counters_only_vmstat:
  assumes s: "space_ok W ps s" and t: "space_ok W' ps t" and c: "counters_only ps s t"
  shows "nfree (vmstat t) = nfree (vmstat s)" and "nstandby (vmstat t) = nstandby (vmstat s)"
    and "nmodified (vmstat t) = nmodified (vmstat s)"
proof -
  have "qcount w (vmstat t) = qcount w (vmstat s)" for w
    using space_okD(1) [OF s] space_okD(1) [OF t] counters_only_members [OF space_okD(2) [OF s] space_okD(2) [OF t] c]
    by (simp add: pfndb_def)
  from this [of "Some QFree"] this [of "Some QModified"] this [of "Some QStandby"]
  show "nfree (vmstat t) = nfree (vmstat s)" "nstandby (vmstat t) = nstandby (vmstat s)"
    "nmodified (vmstat t) = nmodified (vmstat s)" by simp_all
qed

lemma counters_only_shortage:
  assumes "space_ok W ps s" and "space_ok W' ps t" and "counters_only ps s t"
  shows "vmp_page_shortage t = vmp_page_shortage s"
  using counters_only_vmstat [OF assms] tables_frameD(3) [OF counters_onlyD(1) [OF assms(3)]]
  by (simp add: vmp_page_shortage_def)

lemma shortage_alloc: "vmp_page_shortage s \<Longrightarrow> vmp_page_alloc_locked u False s = Ok (None, snd (check_shortage s))"
  by (simp add: vmp_page_alloc_locked_def case_prod_beta)

text \<open>What \<^verbatim>\<open>check_shortage\<close> tells the other threads.\<close>

definition alarms :: "vmm \<Rightarrow> bool \<times> bool \<times> bool \<times> bool" where
  "alarms s = (vmp_was_shortage s, vmp_sufficient_pages_event s, vmp_pgwriter_event s, vmp_balancer_event s)"

definition alarmed :: "vmm \<Rightarrow> vmm \<Rightarrow> bool" where
  "alarmed s t \<longleftrightarrow> vmp_was_shortage t \<and> \<not> vmp_sufficient_pages_event t \<and>
     (4 < nmodified (vmstat s) \<longrightarrow> vmp_pgwriter_event t) \<and>
     (nmodified (vmstat s) + nstandby (vmstat s) < min_avail_for_alloc (vmparam s) * 2 \<longrightarrow> vmp_balancer_event t)"

lemma check_shortage_alarms: "vmp_page_shortage s \<Longrightarrow> alarmed s (snd (check_shortage s))"
  by (simp add: check_shortage_def alarmed_def Let_def)

lemma alarmed_cong: "alarms u = alarms t \<Longrightarrow> alarmed s t \<Longrightarrow> alarmed s u"
  by (simp add: alarms_def alarmed_def)

lemma alarms_simps [simp]:
  "alarms (page_update p f s) = alarms s" "alarms (wsl_update_ps ps g s) = alarms s"
  by (simp_all add: alarms_def page_update_def wsl_update_ps_def)

lemma release_shared_alarms:
  "vmp_page_release_locked p s = Ok t \<Longrightarrow> refcnt (mypages s p) \<noteq> 1 \<Longrightarrow> alarms t = alarms s"
  by (auto simp: vmp_page_release_locked_def Let_def)

lemma pte_deleted_alarms:
  assumes "vmp_pagetable_page_pte_deleted ps p False s = Ok t"
    and "nonzero_ptes (mypages s p) \<noteq> 1 \<or> page_is_root_table p s" and "refcnt (mypages s p) \<noteq> 1"
  shows "alarms t = alarms s"
proof -
  have "page_is_root_table p (page_update p f s) = page_is_root_table p s"
    if "\<And>pg. use (f pg) = use pg" for f using that by (simp add: page_is_root_table_def)
  then show ?thesis
    using assms by (subst (asm) vmp_pagetable_page_pte_deleted.simps)
      (auto simp: Let_def vmp_wsl_unlock_entry_def on_wsl_def dest!: release_shared_alarms split: if_splits)
qed

lemma unpin_alarms:
  assumes s: "space_ok W ps s" and p: "table_of ps s p" and w: "0 < W p"
    and live: "page_is_root_table p s \<or> 0 < live_ptes (\<lambda>v. v \<noteq> 0) p s"
    and r: "vmp_pagetable_page_pte_deleted ps p False s = Ok t"
  shows "alarms t = alarms s"
proof (rule pte_deleted_alarms [OF r])
  note B = counted_bounds [OF space_okD(9) [OF s] p]
  show "nonzero_ptes (mypages s p) \<noteq> 1 \<or> page_is_root_table p s" using B(1) w live by auto
  have "nonswap_ptes (mypages s p) \<noteq> 0" using B(2) w by auto
  then show "refcnt (mypages s p) \<noteq> 1"
    using table_okD(1) [OF space_okD(2) [OF s] p] by (simp add: table_ok_def)
qed

lemma release_pages_alarms:
  assumes "space_ok W ps s" and "distinct qs" and "\<forall>q \<in> set qs. table_of ps s q \<and> 0 < W q \<and>
      (page_is_root_table q s \<or> 0 < live_ptes (\<lambda>v. v \<noteq> 0) q s)"
    and "wire_release_pages ps (map Some qs) s = Ok t"
  shows "alarms t = alarms s"
  using assms
proof (induction qs arbitrary: s W)
  case (Cons q qs)
  obtain s1 where s1: "vmp_pagetable_page_pte_deleted ps q False s = Ok s1"
    "space_ok (W(q := W q - 1)) ps s1" "tables_frame ps s s1"
    "mypages s1 = (mypages s)(q := (mypages s q)\<lparr>nonzero_ptes := nonzero_ptes (mypages s q) - 1,
       nonswap_ptes := nonswap_ptes (mypages s q) - 1, refcnt := refcnt (mypages s q) - 1\<rparr>)"
    by (rule unpin_ok [OF Cons.prems(1), of q]) (use Cons.prems(3) in auto)
  have "alarms s1 = alarms s" by (rule unpin_alarms [OF Cons.prems(1) _ _ _ s1(1)]) (use Cons.prems(3) in auto)
  moreover have "alarms t = alarms s1"
  proof (rule Cons.IH [OF s1(2)])
    have role: "\<forall>x. same_role (mypages s x) (mypages s1 x)" using s1(4) by (simp add: same_role_def)
    have "live_ptes P x s1 = live_ptes P x s" for P x using tables_frameD(1) [OF s1(3)] by (intro live_ptes_cong) simp
    moreover have "page_is_root_table x s1 = page_is_root_table x s" for x
      using role by (simp add: page_is_root_table_def same_role_def)
    ultimately show "\<forall>x \<in> set qs. table_of ps s1 x \<and> 0 < (W(q := W q - 1)) x \<and>
        (page_is_root_table x s1 \<or> 0 < live_ptes (\<lambda>v. v \<noteq> 0) x s1)"
      using Cons.prems(2,3) role_table_of [OF role] by auto
    show "wire_release_pages ps (map Some qs) s1 = Ok t" using Cons.prems(4) s1(1) by simp
  qed (use Cons.prems(2) in simp)
  ultimately show ?case by simp
qed simp

section \<open>Wiring without memory\<close>

lemma wire_entry_short:
  assumes "vmp_page_shortage s" and "d < SOFT_NPAGES" and "i < 512" and "SOFT_pages s (pte_at d i) = 0"
  shows "wire_entry ps (Suc (Suc l)) d (pte_at d i) s = Err (Kassert ''r == 0'')"
  using assms by (simp add: wire_entry_def wire_zero_def shortage_alloc)

lemma wire_level_short:
  assumes "space_ok W ps s" and "table_at ps s (Suc l) d" and "\<forall>m q. m \<le> l \<longrightarrow> table_at ps s m q \<longrightarrow> W q = 0"
    and "fetch_level (Suc l) (d * PGSIZE) v s = Ok None" and "vmp_page_shortage s"
  shows "wire_level ps v (Suc l) d (d * PGSIZE) pages s = Err (Kassert ''r == 0'')"
  using assms
proof (induction l arbitrary: d pages s W)
  case (Suc l)
  let ?i = "vmp_addr_unpack v ! Suc (Suc l)"
  note s = Suc.prems(1) and d = Suc.prems(2) and W = Suc.prems(3)
  note D = table_atD [OF d]
  have i: "?i < 512" using D(5) by (intro unpack_less) simp_all
  have a: "d * PGSIZE + PTE_SIZE * ?i = pte_at d ?i" by (simp add: pte_at_def)
  show ?case
  proof (cases "SOFT_pages s (pte_at d ?i) = 0")
    case True
    then show ?thesis
      using wire_entry_short [OF Suc.prems(5) D(1) i True, of ps l] by (subst wire_level.simps) (simp add: a)
  next
    case False
    obtain p t where e: "wire_entry ps (Suc (Suc l)) d (pte_at d ?i) s = Ok (p, t)"
      "space_ok (W(p := 1)) ps t" "counters_only ps s t" "grown ps s t" "table_at ps t (Suc l) p"
      "SOFT_pages t (pte_at d ?i) = vmp_pte_hw_create (of_nat p) True"
      "\<forall>m q. m \<le> l \<longrightarrow> table_at ps t m q \<longrightarrow> (W(p := 1)) q = 0"
      "fetch_level (Suc l) (p * PGSIZE) v t = fetch_level (Suc (Suc l)) (d * PGSIZE) v s"
      by (rule wire_entry_present [OF s d W False])
    have "wire_level ps v (Suc l) p (p * PGSIZE) (pages[l := Some p]) t = Err (Kassert ''r == 0'')"
      by (rule Suc.IH [OF e(2,5,7)]) (use e(8) Suc.prems(4,5) counters_only_shortage [OF s e(2,3)] in \<open>simp_all del: fetch_level.simps\<close>)
    then show ?thesis
      using wire_level_step [of ps l d "d * PGSIZE" v s p t] e(1,6) D(1) i table_atD(1) [OF e(5)]
      by (simp add: a del: wire_level.simps)
  qed
qed simp

lemma wire_pte_short:
  assumes s: "space_ok (\<lambda>_. 0) ps s" and f: "vmp_fetch_pte ps v s = Ok None" and short: "vmp_page_shortage s"
  shows "vmp_wire_pte ps v s = Err (Kassert ''r == 0'')"
proof -
  let ?r = "pml4_page (procs s ps)"
  let ?pages = "(replicate VMP_TABLE_LEVELS None)[VMP_TABLE_LEVELS - 1 := Some ?r]"
  obtain s1 where s1: "vmp_wire_pte ps v s = wire_level ps v (Suc 3) ?r (?r * PGSIZE) ?pages s1"
    "space_ok ((\<lambda>_. 0)(?r := 1)) ps s1" "table_at ps s1 (Suc 3) ?r" "counters_only ps s s1" "grown ps s s1"
    "\<forall>m q. m \<le> 3 \<longrightarrow> table_at ps s1 m q \<longrightarrow> ((\<lambda>_. 0)(?r := 1)) q = (0 :: nat)" "3 \<le> length ?pages"
    "fetch_level (Suc 3) (?r * PGSIZE) v s1 = vmp_fetch_pte ps v s"
    by (rule wire_root_pinned [OF s])
  show ?thesis
    unfolding s1(1)
    by (rule wire_level_short [OF s1(2,3,6)]) (use s1(8) f short counters_only_shortage [OF s s1(2,4)] in simp_all)
qed

section \<open>Faults without memory\<close>

lemma release_alarms:
  assumes s: "space_ok (wired P) 0 s" and path: "table_path 0 s v 3 P" and live: "0 < live_ptes (\<lambda>v. v \<noteq> 0) (P 0) s"
    and st: "ws_ps st = 0" "ws_pages st = map (\<lambda>j. Some (P j)) [0..<VMP_TABLE_LEVELS]"
    and r: "vmp_pte_wire_state_release st s = Ok t"
  shows "alarms t = alarms s"
  by (rule release_pages_alarms [OF s wired_releasable [OF path live]]) (use r release_path [OF st] in simp)

text \<open>The tests of \<^verbatim>\<open>check_shortage\<close> leave the address space alone.\<close>

lemma check_shortage_space:
  shows "space_ok W ps (snd (check_shortage s)) = space_ok W ps s" and "counters_only ps s (snd (check_shortage s))"
    and "table_path ps (snd (check_shortage s)) v l P = table_path ps s v l P"
    and "live_ptes Q p (snd (check_shortage s)) = live_ptes Q p s"
proof -
  have r: "rest_unchanged s (snd (check_shortage s))" by simp
  then have R: "SOFT_pages (snd (check_shortage s)) = SOFT_pages s" "procs (snd (check_shortage s)) = procs s"
    "SOFT_pages_base (snd (check_shortage s)) = SOFT_pages_base s"
    by (simp_all add: rest_unchanged_def)
  show "space_ok W ps (snd (check_shortage s)) = space_ok W ps s" by (rule space_ok_cong) (simp_all add: R)
  show "counters_only ps s (snd (check_shortage s))"
    using tables_frameI_rest [OF r] by (simp add: counters_only_def same_role_def)
  show "table_path ps (snd (check_shortage s)) v l P = table_path ps s v l P"
    by (simp add: table_path_def table_at_def R)
  show "live_ptes Q p (snd (check_shortage s)) = live_ptes Q p s" by (rule live_ptes_cong) (simp add: R)
qed

lemma fault_without_page:
  assumes s: "space_ok (\<lambda>_. 0) 0 s" and vad: "vmp_ps_vad_find (fe_key env) 0 v s = Some vad" "vad_section vad = None"
    and f: "vmp_fetch_pte 0 v s = Ok (Some a)" "SOFT_pages s a = 0" "0 < live_ptes (\<lambda>v. v \<noteq> 0) (a div PGSIZE) s"
    and short: "vmp_page_shortage s"
  obtains u where "do_fault env v wr (out, file, s) = Ok (- 1, out, file, u)" and "space_ok (\<lambda>_. 0) 0 u"
    and "mypages u = mypages s" and "SOFT_pages u = SOFT_pages s" and "tables_frame 0 s u" and "alarmed s u"
proof -
  have f': "vmp_fetch_pte 0 v s \<noteq> Ok None" using f(1) by simp
  obtain st t P where w: "vmp_wire_pte 0 v s = Ok (st, t)" "space_ok (wired P) 0 t" "counters_only 0 s t"
    "grown 0 s t" "table_path 0 t v 3 P" "P 3 = pml4_page (procs s 0)"
    "st = \<lparr>ws_ps = 0, ws_pte = pte_at (P 0) (vmp_addr_unpack v ! 1),
      ws_pages = map (\<lambda>j. Some (P j)) [0..<VMP_TABLE_LEVELS]\<rparr>"
    by (rule wire_pte_present [OF s f'])
  have st: "ws_ps st = 0" "ws_pages st = map (\<lambda>j. Some (P j)) [0..<VMP_TABLE_LEVELS]" by (simp_all add: w(7))
  note L = leaf_path [OF w(5)] and E = wired_entry [OF s w(3,5,6)] and C = counters_onlyD [OF w(3)]
  have a: "a = pte_at (P 0) (vmp_addr_unpack v ! 1)" using E(1) f(1) by simp
  then have div: "a div PGSIZE = P 0" using L(2) by (simp add: pte_at_div)
  have zero: "SOFT_pages t (ws_pte st) = 0" using C(4) f(2) by (simp add: w(7) a)
  let ?t = "snd (check_shortage t)"
  have short': "vmp_page_shortage t" using short counters_only_shortage [OF s w(2,3)] by simp
  note K = check_shortage_space [where s = t]
  have live: "0 < live_ptes (\<lambda>v. v \<noteq> 0) (P 0) ?t"
    using f(3) live_ptes_cong [of t "P 0" s "\<lambda>v. v \<noteq> 0"] C(4) by (simp add: div K(4))
  have ok: "space_ok (wired P) 0 ?t" "table_path 0 ?t v 3 P" using w(2,5) K by simp_all
  obtain u where u: "vmp_pte_wire_state_release st ?t = Ok u" "space_ok (\<lambda>_. 0) 0 u"
    "mypages u = mypages s" "SOFT_pages u = SOFT_pages s" "tables_frame 0 s u"
    by (rule wired_release [OF s ok(1) counters_only_trans [OF w(3) K(2)] ok(2) live st])
  have "load_pte (ws_pte st) t = Ok 0" using zero L table_atD(1) [OF L(1)] by (simp add: w(7))
  then have "do_fault env v wr (out, file, s) = Ok (- 1, out, file, u)"
    using vad w(1) shortage_alloc [OF short'] u(1) by (simp add: do_fault_def fault_zero_def)
  moreover have "alarmed s u"
  proof (rule alarmed_cong [OF release_alarms [OF ok(1,2) live st u(1)]])
    show "alarmed s ?t"
      using check_shortage_alarms [OF short'] counters_only_vmstat [OF s w(2,3)] tables_frameD(3) [OF C(1)]
      by (simp add: alarmed_def)
  qed
  ultimately show thesis using that u(2-5) by blast
qed

section \<open>A state with one page mapped and little memory\<close>

lemma one_page_state:
  obtains t a q where "space_ok (\<lambda>_. 0) 0 t" and "plenty 18 0 t" and "maps_anon 0 0x5008 a q t"
    and "vad_tree (procs t 0) = Elm False False Null main_vad Null" and "\<forall>v < 0x10000000000. v \<notin> direct_map t"
    and "\<forall>v. vm_word 0 v 0 t \<noteq> None"
proof -
  obtain s where s: "main_init 3 (boot_state 0x10000000000) = Ok s" "space_ok (\<lambda>_. 0) 0 s" "plenty 22 0 s"
    "vad_tree (procs s 0) = Elm False False Null main_vad Null" "SOFT_pages_base s = 0x10000000000"
    "\<forall>v. leaf_entry 0 v s = 0"
    by (rule main_init_ok [of "0x10000000000" 3]) simp_all
  have k: "plenty (18 + 4) 0 s" using s(3) by simp
  have dm: "0x5008 \<notin> direct_map s" by (rule below_direct_map [OF s(2)]) (simp add: s(5))
  have vad: "vmp_ps_vad_find (fe_key \<lparr>fe_key = main_vad, fe_iop = undefined, fe_pager = 0\<rparr>) 0 0x5008 s = Some main_vad"
    using main_vad_find [OF s(4)] by simp
  obtain t a q where t: "space_ok (\<lambda>_. 0) 0 t" "plenty 18 0 t" "maps_anon 0 0x5008 a q t"
    "\<forall>u off. off < PGSIZE \<longrightarrow> vm_word 0 u off t = vm_word 0 u off s" "vad_tree (procs t 0) = vad_tree (procs s 0)"
    "direct_map t = direct_map s"
    by (rule do_fault_ok [OF s(2) k vad _ _ _ dm, of True undefined])
      (use s(6) in \<open>simp_all add: main_vad_def low_vaddr_def\<close>)
  have "vm_word 0 v 0 t \<noteq> None" for v using t(4) s(6) by (simp add: vm_word_zero)
  moreover have "v \<notin> direct_map t" if "v < 0x10000000000" for v
    using below_direct_map [OF s(2), of v] that by (simp add: s(5) t(6))
  ultimately show thesis using that [OF t(1-3)] t(5) s(4) by simp
qed

lemma fetch_same_dirs:
  assumes "\<forall>k. 2 \<le> k \<and> k \<le> Suc n \<longrightarrow> vmp_addr_unpack w ! k = vmp_addr_unpack v ! k"
    and "fetch_level (Suc n) table v s = Ok (Some a)"
  shows "\<exists>b. a = b + PTE_SIZE * (vmp_addr_unpack v ! 1) \<and>
    fetch_level (Suc n) table w s = Ok (Some (b + PTE_SIZE * (vmp_addr_unpack w ! 1)))"
  using assms
proof (induction n arbitrary: table)
  case (Suc n)
  have "vmp_addr_unpack w ! Suc (Suc n) = vmp_addr_unpack v ! Suc (Suc n)" using Suc.prems(1) by simp
  moreover have "\<forall>k. 2 \<le> k \<and> k \<le> Suc n \<longrightarrow> vmp_addr_unpack w ! k = vmp_addr_unpack v ! k" using Suc.prems(1) by simp
  ultimately show ?case
    using Suc.prems(2) Suc.IH unfolding fetch_level.simps(2) [of "Suc n"]
    by (auto simp: Let_def simp del: fetch_level.simps split: if_splits)
qed simp

text \<open>A leaf table has more entries than there are pages.\<close>

lemma empty_leaf_entry:
  assumes s: "space_ok W ps s" and d: "table_at ps s (Suc 0) d"
    and ns: "\<forall>i < 512. vmp_pte_characterise (SOFT_pages s (pte_at d i)) \<noteq> Ok kPTEKindSwap"
  shows "\<exists>i < 512. SOFT_pages s (pte_at d i) = 0"
proof (rule ccontr)
  assume n: "\<not> ?thesis"
  have "\<exists>q. anon_at ps s (pte_at d i) q" if i: "i < 512" for i
  proof -
    have "leaf_ok ps s (pte_at d i)" using space_okD(7) [OF s] d i by (simp add: leaves_ok_def)
    moreover have "SOFT_pages s (pte_at d i) \<noteq> 0" using n i by blast
    ultimately show ?thesis using ns i by (auto simp: leaf_ok_def Let_def)
  qed
  then obtain f where f: "\<And>i. i < 512 \<Longrightarrow> anon_at ps s (pte_at d i) (f i)" by metis
  have "inj_on f {..<512}"
  proof (rule inj_onI)
    fix i j assume "i \<in> {..<512 :: nat}" "j \<in> {..<512}" "f i = f j"
    then have "pte_at d i = pte_at d j" using f [of i] f [of j] by (simp add: anon_at_def)
    then show "i = j" using \<open>i \<in> _\<close> \<open>j \<in> _\<close> by (simp add: pte_at_eq_iff)
  qed
  moreover have "f ` {..<512} \<subseteq> {..<SOFT_NPAGES}" using f by (auto simp: anon_at_def)
  ultimately have "card {..<512 :: nat} \<le> card {..<SOFT_NPAGES}" by (rule card_inj_on_le) simp
  then show False by simp
qed

lemma unpack_page:
  assumes "i < 512"
  shows "vmp_addr_unpack (of_nat (i * PGSIZE)) = [0, i, 0, 0, 0]"
proof -
  have "unat (of_nat (i * PGSIZE) :: vaddr) = i * PGSIZE" by (subst unat_of_nat) (use assms in simp)
  then have "unat (get_field lo len (of_nat (i * PGSIZE) :: vaddr)) = (i * PGSIZE) div 2 ^ lo mod 2 ^ len" for lo len
    unfolding get_field_def unsigned_take_bit_eq unat_drop_bit_eq by (simp only: take_bit_eq_mod drop_bit_eq_div)
  then show ?thesis using assms by (simp add: vmp_addr_unpack_def)
qed

text \<open>The leaf table of one mapped address holds the entries of all pages of the row.\<close>

lemma row_entries:
  assumes s: "space_ok W 0 t" and m: "maps_anon 0 0x5008 a q t"
  obtains d where "table_at 0 t (Suc 0) d" and "a = pte_at d 5"
    and "\<forall>i < 512. vmp_fetch_pte 0 (of_nat (i * PGSIZE)) t = Ok (Some (pte_at d i))"
proof -
  have f0: "vmp_fetch_pte 0 0x5008 t = Ok (Some a)" using m by (simp add: maps_anon_def)
  obtain d where d: "table_at 0 t (Suc 0) d" "a = pte_at d (vmp_addr_unpack 0x5008 ! 1)" by (rule fetch_leaf [OF s f0])
  have "vmp_fetch_pte 0 (of_nat (i * PGSIZE)) t = Ok (Some (pte_at d i))" if i: "i < 512" for i
  proof -
    have same: "\<forall>k. 2 \<le> k \<and> k \<le> Suc 3 \<longrightarrow> vmp_addr_unpack (of_nat (i * PGSIZE)) ! k = vmp_addr_unpack 0x5008 ! k"
      unfolding unpack_page [OF i] by (auto simp: vmp_addr_unpack_def get_field_def nth_Cons split: nat.splits)
    have l4: "VMP_TABLE_LEVELS = Suc 3" by simp
    show ?thesis
      using fetch_same_dirs [OF same f0 [unfolded vmp_fetch_pte_def l4]] d(2) unpack_page [OF i]
      unfolding vmp_fetch_pte_def l4 by (auto simp: pte_at_def simp del: fetch_level.simps)
  qed
  moreover have "vmp_addr_unpack 0x5008 ! 1 = 5" by (simp add: vmp_addr_unpack_def get_field_def)
  ultimately show thesis using that d by simp
qed

lemma untouched_entry:
  assumes s: "space_ok W 0 t" and d: "table_at 0 t (Suc 0) d"
    and f: "\<forall>i < 512. vmp_fetch_pte 0 (of_nat (i * PGSIZE)) t = Ok (Some (pte_at d i))" and w: "\<forall>v. vm_word 0 v 0 t \<noteq> None"
  obtains i where "i < 512" and "SOFT_pages t (pte_at d i) = 0"
proof -
  have "\<forall>i < 512. vmp_pte_characterise (SOFT_pages t (pte_at d i)) \<noteq> Ok kPTEKindSwap"
  proof (intro allI impI)
    fix i :: nat assume i: "i < 512"
    have "leaf_entry 0 (of_nat (i * PGSIZE)) t = SOFT_pages t (pte_at d i)" using f i by (simp add: leaf_entry_def)
    then show "vmp_pte_characterise (SOFT_pages t (pte_at d i)) \<noteq> Ok kPTEKindSwap"
      using w vm_word_swap [of 0 "of_nat (i * PGSIZE)" t 0] by metis
  qed
  then show thesis using that empty_leaf_entry [OF s d] by blast
qed

lemma few_pages_short:
  assumes "pfndb s" and "min_avail_for_alloc (vmparam s) = 1000"
  shows "vmp_page_shortage s"
proof -
  have c: "card (members (mypages s) w) \<le> SOFT_NPAGES" for w
    using card_mono [of "{..<SOFT_NPAGES}" "members (mypages s) w"] by (auto simp: members_def)
  have "nfree (vmstat s) = of_nat (card (members (mypages s) (Some QFree)))"
    "nstandby (vmstat s) = of_nat (card (members (mypages s) (Some QStandby)))"
    using assms(1) qcount.simps by (metis pfndb_def)+
  then have "unat (nfree (vmstat s)) \<le> 32" "unat (nstandby (vmstat s)) \<le> 32"
    using c [of "Some QFree"] c [of "Some QStandby"] by (simp_all add: unat_of_nat)
  then have "unat (nfree (vmstat s) + nstandby (vmstat s)) \<le> 64"
    by (simp add: unat_word_ariths(1))
  then show ?thesis using assms(2) by (simp add: vmp_page_shortage_def word_le_nat_alt)
qed

text \<open>The state with one page mapped, under a limit that no amount of free pages meets.\<close>

lemma short_state:
  obtains s v a where "space_ok (\<lambda>_. 0) 0 s" and "\<forall>key. vmp_ps_vad_find key 0 v s = Some main_vad"
    and "vmp_fetch_pte 0 v s = Ok (Some a)" and "SOFT_pages s a = 0"
    and "0 < live_ptes (\<lambda>v. v \<noteq> 0) (a div PGSIZE) s" and "vmp_page_shortage s"
proof -
  obtain t a0 q where t: "space_ok (\<lambda>_. 0) 0 t" "maps_anon 0 0x5008 a0 q t"
    "vad_tree (procs t 0) = Elm False False Null main_vad Null" "\<forall>v. vm_word 0 v 0 t \<noteq> None"
    by (rule one_page_state)
  obtain d where d: "table_at 0 t (Suc 0) d" "a0 = pte_at d 5"
    "\<forall>i < 512. vmp_fetch_pte 0 (of_nat (i * PGSIZE)) t = Ok (Some (pte_at d i))" by (rule row_entries [OF t(1,2)])
  obtain i where i: "i < 512" "SOFT_pages t (pte_at d i) = 0" by (rule untouched_entry [OF t(1) d(1,3) t(4)])
  let ?v = "of_nat (i * PGSIZE) :: vaddr"
  let ?s = "t\<lparr>vmparam := (vmparam t)\<lparr>min_avail_for_alloc := 1000\<rparr>\<rparr>"
  have "unat ?v = i * PGSIZE" by (subst unat_of_nat) (use i(1) in simp)
  then have vs: "?v < 0x2000000000" using i(1) by (simp add: word_less_nat_alt)
  have "queue_of w ?s = queue_of w t" for w by (cases w) simp_all
  then have s: "space_ok (\<lambda>_. 0) 0 ?s" using t(1) by (subst space_ok_cong [of ?s t]) simp_all
  have "vmp_fetch_pte 0 0x5008 t = Ok (Some a0)" using t(2) by (simp add: maps_anon_def)
  then have "SOFT_pages t a0 \<noteq> 0" using maps_anon_refers [OF t(1,2)] refers_to_nonzero by (simp add: leaf_entry_def)
  then have live: "0 < live_ptes (\<lambda>v. v \<noteq> 0) d ?s" using live_ptes_pos [of 5 "\<lambda>v. v \<noteq> 0" ?s d] d(2) by simp
  show thesis
  proof (rule that [of ?s ?v "pte_at d i"])
    show "\<forall>key. vmp_ps_vad_find key 0 ?v ?s = Some main_vad" using main_vad_find [of ?s] t(3) vs by simp
    show "vmp_fetch_pte 0 ?v ?s = Ok (Some (pte_at d i))" using d(3) i(1) fetch_level_cong [of ?s t]
      by (simp add: vmp_fetch_pte_def)
    show "0 < live_ptes (\<lambda>v. v \<noteq> 0) (pte_at d i div PGSIZE) ?s" using live i(1) by (simp add: pte_at_div)
    show "vmp_page_shortage ?s" by (rule few_pages_short [OF space_okD(1) [OF s]]) simp
  qed (use s i(2) in simp_all)
qed

text \<open>C16. A fault on an untouched address of an anonymous range when memory is short. If the tables of the
  address are there, and the last one has another entry that is not zero, the handler returns \<open>-1\<close>, records
  the shortage and clears the sufficient-pages event, signals the page writer if more than four pages
  are modified and the balancer if the modified and standby pages are fewer than twice the minimum for an
  allocation, and leaves every page record and all of memory as they were. If a table is missing, the
  handler trips an assertion instead.\<close>

theorem fault_without_memory:
  assumes "space_ok (\<lambda>_. 0) 0 s" and "vmp_ps_vad_find (fe_key env) 0 v s = Some vad" and "vad_section vad = None"
    and "vmp_page_shortage s"
  shows "(vmp_fetch_pte 0 v s = Ok (Some a) \<and> SOFT_pages s a = 0 \<and> 0 < live_ptes (\<lambda>v. v \<noteq> 0) (a div PGSIZE) s \<longrightarrow>
      (\<exists>u. do_fault env v wr (out, file, s) = Ok (- 1, out, file, u) \<and> space_ok (\<lambda>_. 0) 0 u
        \<and> mypages u = mypages s \<and> SOFT_pages u = SOFT_pages s
        \<and> vmp_was_shortage u \<and> \<not> vmp_sufficient_pages_event u
        \<and> (4 < nmodified (vmstat s) \<longrightarrow> vmp_pgwriter_event u)
        \<and> (nmodified (vmstat s) + nstandby (vmstat s) < min_avail_for_alloc (vmparam s) * 2 \<longrightarrow> vmp_balancer_event u)))
    \<and> (vmp_fetch_pte 0 v s = Ok None \<longrightarrow> do_fault env v wr (out, file, s) = Err (Kassert ''r == 0''))"
proof (rule conjI)
  show "vmp_fetch_pte 0 v s = Ok (Some a) \<and> SOFT_pages s a = 0 \<and> 0 < live_ptes (\<lambda>v. v \<noteq> 0) (a div PGSIZE) s \<longrightarrow>
      (\<exists>u. do_fault env v wr (out, file, s) = Ok (- 1, out, file, u) \<and> space_ok (\<lambda>_. 0) 0 u
        \<and> mypages u = mypages s \<and> SOFT_pages u = SOFT_pages s
        \<and> vmp_was_shortage u \<and> \<not> vmp_sufficient_pages_event u
        \<and> (4 < nmodified (vmstat s) \<longrightarrow> vmp_pgwriter_event u)
        \<and> (nmodified (vmstat s) + nstandby (vmstat s) < min_avail_for_alloc (vmparam s) * 2 \<longrightarrow> vmp_balancer_event u))"
    using fault_without_page [OF assms(1-3) _ _ _ assms(4), of a wr out "file"] unfolding alarmed_def by metis
  show "vmp_fetch_pte 0 v s = Ok None \<longrightarrow> do_fault env v wr (out, file, s) = Err (Kassert ''r == 0'')"
    using wire_pte_short [OF assms(1) _ assms(4), of v] assms(2) by (simp add: do_fault_def)
qed

theorem fault_without_memory_witness:
  "\<exists>s v u env. space_ok (\<lambda>_. 0) 0 s \<and> vmp_page_shortage s \<and> leaf_entry 0 v s = 0
    \<and> do_fault env v True (None, empty_file, s) = Ok (- 1, None, empty_file, u) \<and> mypages u = mypages s
    \<and> vmp_was_shortage u"
proof -
  obtain s v a where s: "space_ok (\<lambda>_. 0) 0 s" "\<forall>key. vmp_ps_vad_find key 0 v s = Some main_vad"
    "vmp_fetch_pte 0 v s = Ok (Some a)" "SOFT_pages s a = 0" "0 < live_ptes (\<lambda>v. v \<noteq> 0) (a div PGSIZE) s"
    "vmp_page_shortage s"
    by (rule short_state)
  have "leaf_entry 0 v s = 0" using s(3,4) by (simp add: leaf_entry_def)
  then show ?thesis
    using fault_without_memory [OF s(1) s(2) [rule_format] _ s(6), of a _ True None empty_file] s
    by (simp add: main_vad_def) blast
qed

end
