(* ===== verification/Memory_Refinement.thy ===== *)
theory Memory_Refinement
  imports Page_Copies Low_Memory
begin

text \<open>
  The contract of the memory manager towards a program: a flat memory of words. The program's own
  actions are accesses through the MMU and stores to the word that an access reached; the memory
  manager's are resolving a fault, trimming the working set, and the passes of the balancer and the page
  writer, in any order. On the flat memory a store replaces one word, and everything else does nothing.
\<close>

section \<open>Stores\<close>

text \<open>A program stores through the physical address that the MMU gave; only a page's own words change.\<close>

lemma data_write_fetch:
  assumes s: "space_ok W ps s" and q: "\<not> is_table (use (mypages s (pa div PGSIZE)))"
  shows "vmp_fetch_pte ps v (write_pte pa x s) = vmp_fetch_pte ps v s"
    and "table_at ps s l d \<Longrightarrow> i < 512 \<Longrightarrow> SOFT_pages (write_pte pa x s) (pte_at d i) = SOFT_pages s (pte_at d i)"
proof -
  note S = space_okD [OF s]
  show ent: "SOFT_pages (write_pte pa x s) (pte_at d i) = SOFT_pages s (pte_at d i)"
    if "table_at ps s l d" "i < 512" for l d i
    using table_atD(3) [OF that(1)] q that(2) by auto
  have r: "table_at ps s (Suc 3) (pml4_page (procs s ps))" "pml4 (procs s ps) = pml4_page (procs s ps) * PGSIZE"
    using S(5) by (simp_all add: root_ok_def)
  have l4: "VMP_TABLE_LEVELS = Suc 3" by simp
  have "fetch_level (Suc 3) (pml4_page (procs s ps) * PGSIZE) v (write_pte pa x s) =
      fetch_level (Suc 3) (pml4_page (procs s ps) * PGSIZE) v s"
    by (rule fetch_level_same [OF S(6) _ r(1)]) (rule ent)
  then show "vmp_fetch_pte ps v (write_pte pa x s) = vmp_fetch_pte ps v s"
    unfolding vmp_fetch_pte_def write_pte_simps r(2) l4 .
qed

lemma data_write_ok:
  assumes s: "space_ok W ps s" and q: "\<not> is_table (use (mypages s (pa div PGSIZE)))"
  shows "space_ok W ps (write_pte pa x s)"
proof -
  let ?t = "write_pte pa x s"
  note S = space_okD [OF s] and F = data_write_fetch [OF s q, where x = x]
  have at: "table_at ps ?t l p = table_at ps s l p" for l p by (simp add: table_at_def)
  have an: "anon_at ps ?t a p = anon_at ps s a p" for a p by (simp add: anon_at_def)
  have "pfndb ?t" using S(1) by simp
  moreover have "tables_ok ps ?t"
  proof -
    have "table_ok ps ?t p = table_ok ps s p" for p
      by (simp add: table_ok_def table_entry_def page_vaddr_def vmp_page_paddr_def page_is_root_table_def)
    then show ?thesis using S(2) by (simp add: tables_ok_def table_of_def low_base_def)
  qed
  moreover have "idle_clean ?t" using S(3) unfolding idle_clean_def write_pte_simps .
  moreover have "root_ok ps ?t" using S(5) by (simp add: root_ok_def at)
  moreover have "dirs_ok ps ?t"
    using S(6) F(2) unfolding dirs_ok_def at by (simp del: write_pte_simps(2))
  moreover have "leaves_ok ps ?t"
    using S(7) F(2) unfolding leaves_ok_def leaf_ok_def Let_def at an by (simp del: write_pte_simps(2))
  moreover have "backlinks_ok ps ?t"
    unfolding backlinks_ok_def
  proof (intro allI impI)
    fix p assume "p < SOFT_NPAGES" "use (mypages ?t p) = kPageUseAnonPrivate" "process (mypages ?t p) = ps"
    then have "backlink_ok ps s p" using S(13) by (simp add: backlinks_ok_def)
    then obtain d i where "table_at ps s (Suc 0) d" "i < 512" "anon_at ps s (pte_at d i) p"
      "(\<exists>w. SOFT_pages s (pte_at d i) = vmp_pte_hw_create (of_nat p) w) \<and> refcnt (mypages s p) = 1 \<or>
       SOFT_pages s (pte_at d i) = vmp_pte_trans_create 0 (of_nat p) \<and> refcnt (mypages s p) = 0"
      unfolding backlink_ok_def by blast
    then show "backlink_ok ps ?t p"
      unfolding backlink_ok_def at an by (intro exI [of _ d] exI [of _ i]) (simp add: F(2) del: write_pte_simps(2))
  qed
  moreover have "wsle_ok ps ?t e" if e: "wsle_ok ps s e" for e
  proof -
    have "maps_anon ps v a p ?t" if m: "maps_anon ps v a p s" for v a p
    proof -
      obtain d where "table_at ps s (Suc 0) d" "a = pte_at d (vmp_addr_unpack v ! 1)"
        using maps_anon_leaf(3) [OF s m] by blast
      then have "SOFT_pages ?t a = SOFT_pages s a" using F(2) unpack_less [of 1] by (simp del: write_pte_simps(2))
      with m F(1) show ?thesis by (simp add: maps_anon_def del: write_pte_simps(2))
    qed
    moreover have pv: "page_vaddr p ?t = page_vaddr p s" for p by (simp add: page_vaddr_def vmp_page_paddr_def)
    moreover have "table_of ps ?t p = table_of ps s p" "page_is_root_table p ?t = page_is_root_table p s" for p
      by (simp_all add: table_of_def page_is_root_table_def)
    ultimately show ?thesis
      using e unfolding wsle_ok_def table_entry_def direct_map_def by (cases "is_pagetable e") (simp, simp, blast)
  qed
  moreover have "counted W ps ?t"
  proof -
    have "live_ptes P p ?t = live_ptes P p s" if p: "table_of ps s p" for P p
    proof -
      obtain l where "table_at ps s l p" using p by (auto simp: table_of_level)
      then show ?thesis using F(2) by (intro live_ptes_cong) (simp del: write_pte_simps(2))
    qed
    then show ?thesis using S(9) by (simp add: counted_def table_of_def)
  qed
  moreover have "ws_unique ps ?t" using S(12) F(1) by (simp add: ws_unique_def)
  ultimately show ?thesis using S(4,8) by (simp add: space_ok_def)
qed

lemma data_write_word:
  assumes s: "space_ok W ps s" and m: "maps_anon ps v a q s" and off: "off < PGSIZE" "o' < PGSIZE"
  shows "vm_word ps u o' (write_pte (q * PGSIZE + off) x s) =
    (if vmp_fetch_pte ps u s = vmp_fetch_pte ps v s \<and> o' = off then Some x else vm_word ps u o' s)"
proof -
  let ?pa = "q * PGSIZE + off"
  let ?t = "write_pte ?pa x s"
  have d: "?pa div PGSIZE = q" using off(1) by simp
  have anon: "anon_at ps s a q" by (rule maps_anon_leaf(1) [OF s m])
  then have nt: "\<not> is_table (use (mypages s (?pa div PGSIZE)))" using d by (simp add: anon_at_def is_table_def)
  note F = data_write_fetch [OF s nt, where x = x]
  have fv: "vmp_fetch_pte ps v s = Ok (Some a)" using m by (simp add: maps_anon_def)
  have same: "leaf_entry ps u ?t = leaf_entry ps u s"
  proof (cases "\<exists>b. vmp_fetch_pte ps u s = Ok (Some b)")
    case True
    then obtain b where b: "vmp_fetch_pte ps u s = Ok (Some b)" by blast
    obtain e where "table_at ps s (Suc 0) e" "b = pte_at e (vmp_addr_unpack u ! 1)" by (rule fetch_leaf [OF s b])
    then have "SOFT_pages ?t b = SOFT_pages s b" using F(2) unpack_less [of 1] by (simp del: write_pte_simps(2))
    with b F(1) show ?thesis by (simp add: leaf_entry_def del: write_pte_simps(2))
  next
    case False
    with F(1) [of u] show ?thesis by (auto simp: leaf_entry_def split: outcome.splits option.splits)
  qed
  from s show ?thesis
  proof (cases rule: leaf_entry_cases [where v = u])
    case zero
    have "vmp_fetch_pte ps u s \<noteq> vmp_fetch_pte ps v s"
      using zero fv maps_anon_refers [OF s m] refers_to_nonzero by (auto simp: leaf_entry_def)
    then show ?thesis using zero same by (simp add: vm_word_zero)
  next
    case (swap b)
    have "vmp_fetch_pte ps u s \<noteq> vmp_fetch_pte ps v s"
      using swap fv m by (auto simp: maps_anon_def vmp_pte_characterise_def)
    then show ?thesis using swap same by (simp add: vm_word_swap)
  next
    case (page b p)
    have "p = q \<longleftrightarrow> b = a"
      using page(3,4) anon maps_anon_refers(1) [OF s m] refers_to_unique by (auto simp: anon_at_def)
    moreover have "p * PGSIZE + o' = ?pa \<longleftrightarrow> p = q \<and> o' = off"
    proof -
      have "(p * PGSIZE + o') div PGSIZE = p" using off(2) by simp
      then have "p * PGSIZE + o' = ?pa \<Longrightarrow> p = q" using d by metis
      then show ?thesis by auto
    qed
    moreover have "vm_word ps u o' ?t = Some (SOFT_pages ?t (p * PGSIZE + o'))"
      by (rule vm_word_page) (use page same in simp)
    moreover have "vm_word ps u o' s = Some (SOFT_pages s (p * PGSIZE + o'))"
      by (rule vm_word_page) (use page in simp)
    ultimately show ?thesis using page(1) fv by auto
  qed
qed

section \<open>A manager of a flat memory\<close>

text \<open>A run: the steps of the manager in between leave no trace, the stores are recorded.\<close>

inductive mem_run :: "('s \<Rightarrow> 's \<Rightarrow> bool) \<Rightarrow> ('s \<Rightarrow> 'a \<Rightarrow> 'w \<Rightarrow> 's \<Rightarrow> bool) \<Rightarrow> 's \<Rightarrow> ('a \<times> 'w) list \<Rightarrow> 's \<Rightarrow> bool"
  for silent store s where
  run_nil: "mem_run silent store s [] s"
| run_silent: "mem_run silent store s xs t \<Longrightarrow> silent t u \<Longrightarrow> mem_run silent store s xs u"
| run_store: "mem_run silent store s xs t \<Longrightarrow> store t v x u \<Longrightarrow> mem_run silent store s (xs @ [(v, x)]) u"

text \<open>The flat memory after a list of stores; \<open>same v u\<close> holds when \<open>u\<close> names the word at \<open>v\<close>.\<close>

definition apply_stores :: "('a \<Rightarrow> 'a \<Rightarrow> bool) \<Rightarrow> ('a \<Rightarrow> 'w option) \<Rightarrow> ('a \<times> 'w) list \<Rightarrow> 'a \<Rightarrow> 'w option" where
  "apply_stores same m xs = foldl (\<lambda>m (v, x) u. if same v u then Some x else m u) m xs"

lemma apply_stores_simps [simp]:
  "apply_stores same m [] = m"
  "apply_stores same m (xs @ [(v, x)]) u = (if same v u then Some x else apply_stores same m xs u)"
  by (simp_all add: apply_stores_def)

text \<open>What a memory manager promises: \<open>inv\<close> holds between steps, \<open>read\<close> is what the program sees.\<close>

locale flat_memory =
  fixes inv :: "'s \<Rightarrow> bool" and read :: "'s \<Rightarrow> 'a \<Rightarrow> 'w option"
    and silent :: "'s \<Rightarrow> 's \<Rightarrow> bool" and store :: "'s \<Rightarrow> 'a \<Rightarrow> 'w \<Rightarrow> 's \<Rightarrow> bool" and same :: "'a \<Rightarrow> 'a \<Rightarrow> bool"
  assumes silent_inv: "inv s \<Longrightarrow> silent s t \<Longrightarrow> inv t"
    and silent_read: "inv s \<Longrightarrow> silent s t \<Longrightarrow> read t u = read s u"
    and store_inv: "inv s \<Longrightarrow> store s v x t \<Longrightarrow> inv t"
    and store_read: "inv s \<Longrightarrow> store s v x t \<Longrightarrow> read t u = (if same v u then Some x else read s u)"
begin

lemma run_inv: "mem_run silent store s xs t \<Longrightarrow> inv s \<Longrightarrow> inv t"
  by (induction rule: mem_run.induct) (auto intro: silent_inv store_inv)

text \<open>After any run the memory holds at every address the last word stored there.\<close>

lemma run_read: "mem_run silent store s xs t \<Longrightarrow> inv s \<Longrightarrow> read t u = apply_stores same (read s) xs u"
proof (induction rule: mem_run.induct)
  case (run_silent xs t t')
  then show ?case using silent_read [OF run_inv [OF run_silent(1)]] by simp
next
  case (run_store xs t v x t')
  then show ?case using store_read [OF run_inv [OF run_store(1)]] by simp
qed simp

end

section \<open>The memory manager\<close>

text \<open>Two addresses that differ only in bits that no table is indexed by name the same word.\<close>

definition same_word :: "vaddr \<Rightarrow> vaddr \<Rightarrow> bool" where
  "same_word v u \<longleftrightarrow> vmp_addr_unpack u = vmp_addr_unpack v"

lemma fetch_unpack_cong:
  "vmp_addr_unpack u = vmp_addr_unpack v \<Longrightarrow> fetch_level l a u s = fetch_level l a v s"
  by (induction l arbitrary: a) (simp_all add: Let_def cong: if_cong)

lemma fetch_some_step:
  assumes ok: "dirs_ok ps s" and d: "table_at ps s (Suc (Suc l)) d"
    and f: "fetch_level (Suc (Suc l)) (d * PGSIZE) v s = Ok (Some a)"
  obtains p where "table_at ps s (Suc l) p" and "referent_pte (mypages s p) = pte_at d (vmp_addr_unpack v ! Suc (Suc l))"
    and "fetch_level (Suc l) (p * PGSIZE) v s = Ok (Some a)"
  using ok d
proof (cases rule: fetch_step [where v = v])
  case (some p)
  have i: "vmp_addr_unpack v ! Suc (Suc l) < 512" using table_atD(5) [OF d] by (intro unpack_less) simp_all
  from ok d i show thesis
  proof (cases rule: dirs_okE)
    case (table p')
    then have "p' = p" using some(2) hw_target_unique [of p' p True True] table_atD(1) [OF some(1)] table_atD(1) [OF table(1)] by simp
    with table some f that show thesis by (simp del: fetch_level.simps)
  qed (use some(2) in simp)
qed (use f in \<open>simp del: fetch_level.simps\<close>)

text \<open>Different paths through the tables lead to different leaf entries.\<close>

lemma fetch_level_inj:
  assumes ok: "dirs_ok ps s"
  shows "table_at ps s (Suc l) d \<Longrightarrow> table_at ps s (Suc l) d' \<Longrightarrow>
    fetch_level (Suc l) (d * PGSIZE) v s = Ok (Some a) \<Longrightarrow> fetch_level (Suc l) (d' * PGSIZE) u s = Ok (Some a) \<Longrightarrow>
    d = d' \<and> (\<forall>j. 0 < j \<longrightarrow> j \<le> Suc l \<longrightarrow> vmp_addr_unpack v ! j = vmp_addr_unpack u ! j)"
proof (induction l arbitrary: d d')
  case 0
  have "pte_at d (vmp_addr_unpack v ! 1) = pte_at d' (vmp_addr_unpack u ! 1)" using 0(3,4) by (simp add: pte_at_def)
  then have "d = d' \<and> vmp_addr_unpack v ! 1 = vmp_addr_unpack u ! 1" using unpack_less [of 1] by simp
  moreover have "j = 1" if "0 < j" "j \<le> Suc 0" for j using that by simp
  ultimately show ?case by metis
next
  case (Suc l)
  obtain p where p: "table_at ps s (Suc l) p" "referent_pte (mypages s p) = pte_at d (vmp_addr_unpack v ! Suc (Suc l))"
    "fetch_level (Suc l) (p * PGSIZE) v s = Ok (Some a)" by (rule fetch_some_step [OF ok Suc.prems(1,3)])
  obtain p' where p': "table_at ps s (Suc l) p'" "referent_pte (mypages s p') = pte_at d' (vmp_addr_unpack u ! Suc (Suc l))"
    "fetch_level (Suc l) (p' * PGSIZE) u s = Ok (Some a)" by (rule fetch_some_step [OF ok Suc.prems(2,4)])
  have ih: "p = p'" "\<forall>j. 0 < j \<longrightarrow> j \<le> Suc l \<longrightarrow> vmp_addr_unpack v ! j = vmp_addr_unpack u ! j"
    using Suc.IH [OF p(1) p'(1) p(3) p'(3)] by simp_all
  have i: "vmp_addr_unpack w ! Suc (Suc l) < 512" for w
    using table_atD(5) [OF Suc.prems(1)] by (intro unpack_less) simp_all
  have "pte_at d (vmp_addr_unpack v ! Suc (Suc l)) = pte_at d' (vmp_addr_unpack u ! Suc (Suc l))" using p(2) p'(2) ih(1) by simp
  then have "d = d'" "vmp_addr_unpack v ! Suc (Suc l) = vmp_addr_unpack u ! Suc (Suc l)" using i by simp_all
  with ih(2) show ?case by (auto simp: le_Suc_eq)
qed

lemma fetch_pte_inj:
  assumes s: "space_ok W ps s" and f: "vmp_fetch_pte ps v s = Ok (Some a)"
  shows "vmp_fetch_pte ps u s = Ok (Some a) \<and> vmp_addr_unpack u ! 0 = vmp_addr_unpack v ! 0 \<longleftrightarrow> same_word v u"
proof
  let ?r = "pml4_page (procs s ps)"
  have r: "table_at ps s (Suc 3) ?r" "pml4 (procs s ps) = ?r * PGSIZE"
    using space_okD(5) [OF s] by (simp_all add: root_ok_def)
  have l4: "VMP_TABLE_LEVELS = Suc 3" by simp
  note F = vmp_fetch_pte_def [of ps _ s, unfolded r(2) l4]
  assume a: "vmp_fetch_pte ps u s = Ok (Some a) \<and> vmp_addr_unpack u ! 0 = vmp_addr_unpack v ! 0"
  have "\<forall>j. 0 < j \<longrightarrow> j \<le> Suc 3 \<longrightarrow> vmp_addr_unpack v ! j = vmp_addr_unpack u ! j"
    using fetch_level_inj [OF space_okD(6) [OF s] r(1) r(1), of v a u] a f unfolding F by blast
  then have "vmp_addr_unpack u ! j = vmp_addr_unpack v ! j" if "j < 5" for j
    using a that by (cases "j = 0") simp_all
  then show "same_word v u" unfolding same_word_def by (intro nth_equalityI) simp_all
next
  assume "same_word v u"
  then show "vmp_fetch_pte ps u s = Ok (Some a) \<and> vmp_addr_unpack u ! 0 = vmp_addr_unpack v ! 0"
    using f fetch_unpack_cong [of u v] by (simp add: same_word_def vmp_fetch_pte_def)
qed

text \<open>The system: the page file and the state of the memory manager. What the program does: a store of an
  aligned word through the MMU. The words of the simulated memory are those at aligned addresses.\<close>

definition word_aligned :: "vaddr \<Rightarrow> bool" where
  "word_aligned v \<longleftrightarrow> 8 dvd vmp_addr_unpack v ! 0"

definition user_store :: "backing \<times> vmm \<Rightarrow> vaddr \<Rightarrow> uint64_t \<Rightarrow> backing \<times> vmm \<Rightarrow> bool" where
  "user_store fs v x ft \<longleftrightarrow> word_aligned v \<and> (\<exists>pa. mmu_walk v True (snd fs) = Ok (MmuPaddr pa) \<and> ft = (fst fs, write_pte pa x (snd fs)))"

definition user_read :: "backing \<times> vmm \<Rightarrow> vaddr \<Rightarrow> uint64_t option" where
  "user_read fs v = vm_word 0 v (vmp_addr_unpack v ! 0) (snd fs)"

text \<open>What the memory manager does: faults in anonymous ranges that find the pages they need (one, and one for each
  missing table) on the free queue, or that find memory short and give up; trimming; and passes of the
  balancer and of the page writer, \<open>pw\<close> being its packets. No fault here steals a page from the standby
  queue or reads one in: both lose memory in the code (the entry for slot 0 reads as untouched, and the
  page-in reads nothing).\<close>

inductive manager_step :: "backing \<times> vmm \<Rightarrow> backing \<times> vmm \<Rightarrow> bool" where
  step_fault: "plenty (tables_need v s + 1) 0 s \<Longrightarrow> vmp_ps_vad_find (fe_key env) 0 v s = Some vad \<Longrightarrow> vad_section vad = None \<Longrightarrow>
     \<not> vad_cow vad \<Longrightarrow> low_vaddr v \<Longrightarrow> v \<notin> direct_map s \<Longrightarrow>
     do_fault env v wr (None, file, s) = Ok (ret, None, file', t) \<Longrightarrow> manager_step (file, s) (file', t)"
| step_short: "vmp_page_shortage s \<Longrightarrow> vmp_ps_vad_find (fe_key env) 0 v s = Some vad \<Longrightarrow> vad_section vad = None \<Longrightarrow>
     vmp_fetch_pte 0 v s = Ok (Some a) \<Longrightarrow> SOFT_pages s a = 0 \<Longrightarrow> 0 < live_ptes (\<lambda>v. v \<noteq> 0) (a div PGSIZE) s \<Longrightarrow>
     do_fault env v wr (None, file, s) = Ok (ret, None, file', t) \<Longrightarrow> manager_step (file, s) (file', t)"
| step_trim: "vmp_wsl_trim_n 0 n s = Ok (m, t) \<Longrightarrow> manager_step (file, s) (file, t)"
| step_balance: "vmp_balancer woken s = Ok t \<Longrightarrow> manager_step (file, s) (file, t)"
| step_write: "packets_ok pw \<Longrightarrow> vmp_pgwriter (pw, file, s) = Ok (pw', file', t) \<Longrightarrow> manager_step (file, s) (file', t)"

definition manager_inv :: "backing \<times> vmm \<Rightarrow> bool" where
  "manager_inv fs \<longleftrightarrow> space_ok (\<lambda>_. 0) 0 (snd fs) \<and> tables_busy 0 (snd fs) \<and>
     (\<forall>v. vm_word 0 v 0 (snd fs) \<noteq> None) \<and> paging_inv (snd fs) (fst fs)"

lemma no_swap:
  assumes "vm_word ps v off s \<noteq> None"
  shows "vmp_pte_characterise (leaf_entry ps v s) \<noteq> Ok kPTEKindSwap"
proof
  assume "vmp_pte_characterise (leaf_entry ps v s) = Ok kPTEKindSwap"
  from vm_word_swap [OF this, of off] assms show False by simp
qed

text \<open>What every step keeps.\<close>

definition kept :: "backing \<times> vmm \<Rightarrow> backing \<times> vmm \<Rightarrow> bool" where
  "kept fs ft \<longleftrightarrow> space_ok (\<lambda>_. 0) 0 (snd ft) \<and> tables_busy 0 (snd ft) \<and> paging_inv (snd ft) (fst ft) \<and>
     (\<forall>v off. off < PGSIZE \<longrightarrow> vm_word 0 v off (snd ft) = vm_word 0 v off (snd fs))"

lemma kept_refl: "manager_inv fs \<Longrightarrow> kept fs fs"
  by (simp add: kept_def manager_inv_def)

lemma kept_inv: "manager_inv fs \<Longrightarrow> kept fs ft \<Longrightarrow> manager_inv ft"
  by (simp add: kept_def manager_inv_def)

lemma trim_kept:
  assumes s: "manager_inv (file, s)" and t: "vmp_wsl_trim_n 0 n s = Ok (m, t)"
  shows "kept (file, s) (file, t)"
proof -
  have S: "space_ok (\<lambda>_. 0) 0 s" "tables_busy 0 s" "paging_inv s file" using s by (simp_all add: manager_inv_def)
  obtain t' where t': "trim_loop 0 0 (unat n) s = Ok (0 + min (unat n) (length (wsl_queue (wsl (procs s 0)))), t')"
    "space_ok (\<lambda>_. 0) 0 t'" "\<forall>v off. off < PGSIZE \<longrightarrow> vm_word 0 v off t' = vm_word 0 v off s" "busy_step 0 {} s t'"
    "data_kept 0 s t'"
    by (rule trim_loop_ok [OF S(1) busy_prefix_is_data [OF S(1,2)]])
  have "tables_busy 0 t'" by (rule busy_step_busy [OF t'(4) S(2)]) simp
  then show ?thesis using t'(1-3) t data_kept_paging [OF t'(5) S(3)] by (simp add: vmp_wsl_trim_n_def kept_def)
qed

lemma vm_word_same:
  "leaf_entry ps v t = leaf_entry ps v s \<Longrightarrow> SOFT_pages t = SOFT_pages s \<Longrightarrow> vm_word ps v off t = vm_word ps v off s"
  by (simp add: vm_word_def Let_def cong: if_cong outcome.case_cong vmp_pte_kind.case_cong)

lemma event_kept:
  assumes "kept fs (file, t)"
  shows "kept fs (file, t\<lparr>vmp_balancer_event := e\<rparr>)"
proof -
  let ?u = "t\<lparr>vmp_balancer_event := e\<rparr>"
  have "same_but_clean t ?u" by (simp add: same_but_clean_def)
  moreover have "queue_of q ?u = queue_of q t" for q by (cases q) simp_all
  then have "pfndb ?u = pfndb t" by (rule pfndb_cong [rotated]) simp_all
  ultimately have S: "space_ok W 0 ?u = space_ok W 0 t" "leaf_entry 0 v ?u = leaf_entry 0 v t"
    "tables_busy 0 ?u = tables_busy 0 t" for W v
    by (rule space_ok_same_but_clean; simp)+
  have "paging_inv ?u file" by (rule data_kept_paging [OF data_kept_same, where s = t]) (use assms in \<open>simp_all add: kept_def\<close>)
  then show ?thesis using assms S vm_word_same [OF S(2)] by (simp add: kept_def)
qed

lemma manager_step_kept:
  assumes s: "manager_inv fs" and st: "manager_step fs ft"
  shows "kept fs ft"
  using st s
proof cases
  case (step_fault v s env vad wr "file" ret file' t)
  have S: "space_ok (\<lambda>_. 0) 0 s" "tables_busy 0 s" "\<forall>v. vm_word 0 v 0 s \<noteq> None" "paging_inv s file"
    using s step_fault(1) by (simp_all add: manager_inv_def)
  have k: "plenty (0 + (tables_need v s + 1)) 0 s" using step_fault(3) by simp
  have ns: "vmp_pte_characterise (leaf_entry 0 v s) \<noteq> Ok kPTEKindSwap" using S(3) no_swap by blast
  obtain t' where "do_fault env v wr (None, file, s) = Ok (0, None, file, t')" "space_ok (\<lambda>_. 0) 0 t'"
    "\<forall>u off. off < PGSIZE \<longrightarrow> vm_word 0 u off t' = vm_word 0 u off s" "tables_busy 0 s \<longrightarrow> tables_busy 0 t'"
    "data_kept 0 s t'"
    by (rule do_fault_need [OF S(1) k step_fault(4-8) ns, of wr "file"])
  then show ?thesis using step_fault(1,2,9) S(2) data_kept_paging [OF _ S(4)] by (simp add: kept_def)
next
  case (step_short s env v vad a wr "file" ret file' t)
  have S: "space_ok (\<lambda>_. 0) 0 s" "tables_busy 0 s" "paging_inv s file" using s step_short(1) by (simp_all add: manager_inv_def)
  obtain u where u: "do_fault env v wr (None, file, s) = Ok (- 1, None, file, u)" "space_ok (\<lambda>_. 0) 0 u"
    "mypages u = mypages s" "SOFT_pages u = SOFT_pages s" "tables_frame 0 s u"
    by (rule fault_without_page [OF S(1) step_short(4-8,3)])
  have t: "t = u" "file' = file" using u(1) step_short(9) by simp_all
  note F = tables_frameD [OF u(5)]
  have same: "leaf_entry 0 v' u = leaf_entry 0 v' s" for v'
    using fetch_level_cong [OF u(4)] F(7) u(4) by (simp add: leaf_entry_def vmp_fetch_pte_def cong: outcome.case_cong option.case_cong)
  have "tables_busy 0 u"
    using S(2) live_ptes_cong [of u _ s] u(3,4) by (simp add: tables_busy_def table_of_def page_is_root_table_def)
  moreover have "paging_inv u file" by (rule data_kept_paging [OF data_kept_same S(3)]) (use u(3,4,5) in \<open>simp_all add: tables_frame_def\<close>)
  ultimately show ?thesis using u(2) vm_word_same [OF same u(4)] step_short(1,2) t by (simp add: kept_def)
next
  case (step_trim n s m t "file")
  then show ?thesis using trim_kept s by simp
next
  case (step_balance woken s t "file")
  then show ?thesis using kept_refl [OF s] trim_kept event_kept s
    by (auto simp: vmp_balancer_def Let_def bnd_Ok_iff split: if_splits)
next
  case (step_write pw "file" s pw' file' t)
  then have S: "space_ok (\<lambda>_. 0) 0 s" "tables_busy 0 s" "paging_inv s file" using s by (simp_all add: manager_inv_def)
  note P = pass_paging [OF S(1,3) step_write(3,4)]
  show ?thesis using P(1,3,5) S(2) vm_word_same [OF P(2,4)] step_write(1,2) by (simp add: kept_def)
qed

lemma unpack_offset_less: "vmp_addr_unpack v ! 0 < PGSIZE"
proof -
  have "unat (get_field 0 12 v) < 2 ^ 12"
    using take_bit_nat_less_exp [of 12 "unat v"] by (simp add: get_field_def unsigned_take_bit_eq)
  then show ?thesis by (simp add: vmp_addr_unpack_def)
qed

text \<open>A store makes no page dirty that was not writeable.\<close>

lemma store_paging:
  assumes s: "space_ok W 0 s" and p: "paging_inv s file" and m: "maps_anon 0 v a q s"
    and w: "vmp_pte_hw_is_writeable (SOFT_pages s a)" and off: "off < PGSIZE"
  shows "paging_inv (write_pte (q * PGSIZE + off) x s) file"
proof -
  let ?t = "write_pte (q * PGSIZE + off) x s"
  note I = p [unfolded paging_inv_def]
  have d: "(q * PGSIZE + off) div PGSIZE = q" using off by simp
  have mem: "SOFT_pages ?t b = SOFT_pages s b" if "b div PGSIZE \<noteq> q" for b using that d by auto
  have same: "private_page 0 ?t r = private_page 0 s r" "table_of 0 ?t r = table_of 0 s r" "anon_page ?t r = anon_page s r"
    "page_slot ?t r = page_slot s r" for r
    by (simp_all add: private_page_def table_of_def anon_page_def page_slot_def)
  have q: "private_page 0 s q" "referent_pte (mypages s q) = a"
    using maps_anon_leaf(1) [OF s m] by (simp_all add: anon_at_def private_page_def)
  have entry: "quiet ?t r = quiet s r" if r: "private_page 0 s r" for r
  proof -
    obtain e i where e: "table_at 0 s (Suc 0) e" "i < 512" "referent_pte (mypages s r) = pte_at e i"
      by (rule private_entry [OF s r])
    have "e \<noteq> q" using table_atD(3) [OF e(1)] q(1) by (auto simp: private_page_def is_table_def)
    then have "SOFT_pages ?t (referent_pte (mypages s r)) = SOFT_pages s (referent_pte (mypages s r))"
      by (intro mem) (simp add: e)
    then show ?thesis by (simp add: quiet_def del: write_pte_simps(2))
  qed
  have "copy_in_file ?t file r" if r: "private_page 0 s r" "quiet ?t r" for r
  proof -
    have "quiet s r" using entry r by blast
    moreover from this have "r \<noteq> q" using m w q(2) by (auto simp: quiet_def maps_anon_def)
    ultimately show ?thesis
      using I r(1) copy_in_file_same [of ?t r s] mem by (simp add: copies_ok_def del: write_pte_simps(2))
  qed
  then show ?thesis
    using I by (simp add: paging_inv_def ordinary_pages_def slots_ok_def slots_accounted_def copies_ok_def same)
qed

lemma user_store_ok:
  assumes inv: "manager_inv fs" and st: "user_store fs v x ft"
  shows "manager_inv ft \<and> user_read ft u = (if same_word v u then Some x else user_read fs u)"
proof -
  define s t where "s = snd fs" and "t = snd ft"
  have S: "space_ok (\<lambda>_. 0) 0 s" "tables_busy 0 s" "\<forall>v. vm_word 0 v 0 s \<noteq> None" "paging_inv s (fst fs)"
    using inv by (simp_all add: manager_inv_def s_def)
  obtain pa where pa: "mmu_walk v True s = Ok (MmuPaddr pa)" "t = write_pte pa x s" "fst ft = fst fs"
    using st by (auto simp: user_store_def s_def t_def)
  have valid: "pte_valid (leaf_entry 0 v s)" "pa = vmp_pte_hw_paddr (leaf_entry 0 v s) + vmp_addr_unpack v ! 0"
    "vmp_pte_hw_is_writeable (leaf_entry 0 v s)"
    using mmu_walk_leaf [OF S(1), of v True] pa(1) by (auto split: if_splits)
  obtain a q where m: "maps_anon 0 v a q s" "leaf_entry 0 v s = SOFT_pages s a" by (rule valid_entry_maps [OF S(1) valid(1)])
  have q: "q < SOFT_NPAGES" "use (mypages s q) = kPageUseAnonPrivate" using m(1) by (simp_all add: maps_anon_def)
  have pq: "pa = q * PGSIZE + vmp_addr_unpack v ! 0"
    using valid m(2) maps_anon_refers(1) [OF S(1) m(1)] by (auto simp: refers_to_def)
  note o = unpack_offset_less [of v]
  have d: "pa div PGSIZE = q" unfolding pq using o by simp
  then have nt: "\<not> is_table (use (mypages s (pa div PGSIZE)))" using q(2) by (simp add: is_table_def)
  note W = data_write_word [OF S(1) m(1) o, of _ _ x, folded pq pa(2)]
  have "space_ok (\<lambda>_. 0) 0 t" unfolding pa(2) by (rule data_write_ok [OF S(1) nt])
  moreover have "paging_inv t (fst ft)"
    using store_paging [OF S(1,4) m(1) _ o, of x] valid(3) m(2) pa(2,3) by (simp add: pq)
  moreover have "tables_busy 0 t"
    unfolding tables_busy_def
  proof (intro allI impI)
    fix p assume "table_of 0 t p"
    then have p: "table_of 0 s p" by (simp add: pa(2) table_of_def)
    obtain l where l: "table_at 0 s l p" using p by (auto simp: table_of_level)
    have "live_ptes in_core p t = live_ptes in_core p s"
      using data_write_fetch(2) [OF S(1) nt l] unfolding pa(2) by (intro live_ptes_cong) (simp del: write_pte_simps(2))
    moreover have "page_is_root_table p t = page_is_root_table p s" by (simp add: pa(2) page_is_root_table_def)
    ultimately show "page_is_root_table p t \<or> 0 < live_ptes in_core p t" using S(2) p by (auto simp: tables_busy_def)
  qed
  moreover have "\<forall>w. vm_word 0 w 0 t \<noteq> None" using W S(3) by simp
  moreover have "user_read ft u = (if same_word v u then Some x else user_read fs u)"
  proof -
    have fv: "vmp_fetch_pte 0 v s = Ok (Some a)" using m(1) by (simp add: maps_anon_def)
    then show ?thesis
      using W [OF unpack_offset_less [of u], of u] fetch_pte_inj [OF S(1) fv, of u]
      by (simp add: user_read_def s_def [symmetric] t_def [symmetric])
  qed
  ultimately show ?thesis by (simp add: manager_inv_def t_def)
qed

interpretation vm: flat_memory manager_inv user_read manager_step user_store same_word
proof unfold_locales
  fix s t u assume "manager_inv s" "manager_step s t"
  then show "manager_inv t" "user_read t u = user_read s u"
    using manager_step_kept [of s t] kept_inv [of s t] unpack_offset_less [of u] by (simp_all add: user_read_def kept_def)
next
  fix s v x t u assume "manager_inv s" "user_store s v x t"
  then show "manager_inv t" "user_read t u = (if same_word v u then Some x else user_read s u)"
    using user_store_ok [of s v x t u] by simp_all
qed

section \<open>The memory a program sees\<close>

lemma initial_paging:
  assumes "ordinary_pages 0 s" and "\<forall>q. \<not> private_page 0 s q" and fd: "fd \<noteq> - 1"
    and pf: "vmp_pagefile_state s = snd (init_vmp_pagefile True (Some fd) (1024 * 1024) pf)"
  shows "paging_inv s file"
proof -
  have "pagefile_ok (vmp_pagefile_state s) \<and> used_slots (vmp_pagefile_state s) = {} \<and>
      unat (total_slots (vmp_pagefile_state s)) = 256 \<and> pf_vnode (vmp_pagefile_state s) = Some fd"
    using init_pagefile_ok [of "Some fd" True "1024 * 1024" pf] pf by (auto split: prod.splits)
  moreover have "\<not> anon_page s q" for q using assms(1,2) anon_private by blast
  ultimately show ?thesis
    using assms by (simp add: paging_inv_def slots_ok_def slots_accounted_def pagefile_open_def copies_ok_def)
qed

lemma main_init_inv:
  assumes "base < 2 ^ 62" and "fd \<noteq> - 1"
  obtains s where "main_init fd (boot_state base) = Ok s" and "manager_inv (file, s)"
    and "user_read (file, s) = (\<lambda>_. Some 0)"
proof -
  obtain s where s: "main_init fd (boot_state base) = Ok s" "space_ok (\<lambda>_. 0) 0 s" "\<forall>v. leaf_entry 0 v s = 0" "tables_busy 0 s"
    "ordinary_pages 0 s" "\<forall>q. \<not> private_page 0 s q"
    "\<exists>pf. vmp_pagefile_state s = snd (init_vmp_pagefile True (Some fd) (1024 * 1024) pf)"
    by (rule main_init_ok [OF assms])
  then have w: "vm_word 0 v off s = Some 0" for v off by (simp add: vm_word_zero)
  have "paging_inv s file" using initial_paging [OF s(5,6) assms(2)] s(7) by blast
  then show thesis using that [OF s(1)] s w by (simp add: manager_inv_def user_read_def fun_eq_iff)
qed

lemma run_from_start:
  assumes "main_init fd (boot_state base) = Ok s" and "base < 2 ^ 62" and "fd \<noteq> - 1"
    and run: "mem_run manager_step user_store (file, s) xs ft"
  shows "manager_inv ft" and "user_read ft u = apply_stores same_word (\<lambda>_. Some 0) xs u"
proof -
  have s: "manager_inv (file, s)" "user_read (file, s) = (\<lambda>_. Some 0)"
    by (rule main_init_inv [OF assms(2,3), of "file"]; use assms(1) in simp)+
  show "manager_inv ft" by (rule vm.run_inv [OF run s(1)])
  show "user_read ft u = apply_stores same_word (\<lambda>_. Some 0) xs u" using vm.run_read [OF run s(1)] s(2) by simp
qed


lemma plenty_need: "plenty 4 0 s \<Longrightarrow> plenty (tables_need v s + 1) 0 s"
  using plenty_mono [of 4 0 s "tables_need v s + 1"] by (simp add: tables_need_def)

text \<open>A run: a fault and a store, then the working set is trimmed and the page writer cleans what was evicted.\<close>

lemma sample_memory_run:
  obtains s t "file" file' where "main_init 3 (boot_state 0x10000000000) = Ok s"
    and "mem_run manager_step user_store (file, s) [(0x5008, 42)] (file', t)" and "modified_pgq t = []"
proof -
  obtain s u a q env "file" where s: "main_init 3 (boot_state 0x10000000000) = Ok s" "manager_step (file, s) (file, u)"
    "space_ok (\<lambda>_. 0) 0 u" "maps_anon 0 0x5008 a q u" "vmp_pte_hw_is_writeable (SOFT_pages u a)"
    by (rule first_fault_state) (blast intro: step_fault plenty_need)
  have "leaf_entry 0 0x5008 u = SOFT_pages u a" by (rule maps_anon_refers(2) [OF s(3,4)])
  moreover have "pte_valid (SOFT_pages u a)" using s(4) by (simp add: maps_anon_def)
  ultimately obtain pa where pa: "mmu_walk 0x5008 True u = Ok (MmuPaddr pa)"
    using mmu_walk_leaf [OF s(3), of "0x5008" True] s(5) by auto
  define v where "v = write_pte pa 42 u"
  have run: "mem_run manager_step user_store (file, s) ([] @ [(0x5008, 42)]) (file, v)"
  proof (rule run_store)
    show "mem_run manager_step user_store (file, s) [] (file, u)"
      by (rule run_silent [where silent = manager_step, OF run_nil s(2)])
    show "user_store (file, u) 0x5008 42 (file, v)" using pa by (auto simp: user_store_def v_def word_aligned_def vmp_addr_unpack_def get_field_def)
  qed
  have v: "space_ok (\<lambda>_. 0) 0 v" "tables_busy 0 v" using run_from_start(1) [OF s(1) _ _ run] by (simp_all add: manager_inv_def)
  obtain n w where "vmp_wsl_trim_n 0 5 v = Ok (n, w)"
    by (rule trim_loop_ok [OF v(1) busy_prefix_is_data [OF v], of 0 "unat (5 :: size_t)"]) (simp add: vmp_wsl_trim_n_def)
  then have run2: "mem_run manager_step user_store (file, s) [(0x5008, 42)] (file, w)"
    using run_silent [OF run step_trim] by simp
  have w: "space_ok (\<lambda>_. 0) 0 w" "paging_inv w file" using run_from_start(1) [OF s(1) _ _ run2] by (simp_all add: manager_inv_def)
  have pw: "packets_ok (pgwriter_start (replicate MAX_IOPS sample_iop))" by (rule pgwriter_start_packets) simp
  obtain pw' file' t where "vmp_pgwriter (pgwriter_start (replicate MAX_IOPS sample_iop), file, w) = Ok (pw', file', t)"
    "modified_pgq t = []" by (rule pgwriter_pass_ok [OF paging_ready [OF w] pw])
  then show thesis using that [OF s(1) run_silent [OF run2 step_write [OF pw]]] by blast
qed


text \<open>C2. The page file stays a faithful copy in the runs of C1, that is while no page is stolen or read in.
  Since every page writer pass of such a run starts with a free slot for each page that needs one, no two private pages have the same slot, the file
  has a free slot for every modified page that lacks one, and every private page that is clean and that the program
  cannot store to without a fault, in particular every page that may be stolen, is in the file at its slot
  byte for byte, or has no slot and is still all zero.\<close>

theorem page_file_stays_coherent:
  assumes "main_init fd (boot_state base) = Ok s" and "base < 2 ^ 62" and "fd \<noteq> - 1"
    and "mem_run manager_step user_store (file, s) xs (file', t)"
  shows "slots_ok t
    \<and> length (filter (\<lambda>q. page_slot t q = None) (modified_pgq t)) \<le> unat (free_slots (vmp_pagefile_state t))
    \<and> (\<forall>q. private_page 0 t q \<longrightarrow> quiet t q \<longrightarrow> copy_in_file t file' q)
    \<and> (\<forall>q \<in> set (standby_pgq t). copy_in_file t file' q)"
proof -
  have t: "space_ok (\<lambda>_. 0) 0 t" "paging_inv t file'"
    using run_from_start(1) [OF assms] by (simp_all add: manager_inv_def)
  note P = t(2) [unfolded paging_inv_def]
  have "writeback_ready t" by (rule paging_ready [OF t])
  then have "length (filter (\<lambda>q. page_slot t q = None) (modified_pgq t)) \<le> unat (free_slots (vmp_pagefile_state t))"
    by (simp add: writeback_ready_def)
  moreover have "copy_in_file t file' q" if "q \<in> set (standby_pgq t)" for q
    using standby_quiet [OF t(1) _ that] P by (simp add: copies_ok_def)
  ultimately show ?thesis using P by (simp add: copies_ok_def)
qed

theorem page_file_stays_coherent_witness:
  "\<exists>s file t file'. main_init 3 (boot_state 0x10000000000) = Ok s
     \<and> mem_run manager_step user_store (file, s) [(0x5008, 42)] (file', t) \<and> modified_pgq t = []
     \<and> slots_ok t \<and> (\<forall>q \<in> set (standby_pgq t). copy_in_file t file' q)"
proof -
  obtain s t "file" file' where s: "main_init 3 (boot_state 0x10000000000) = Ok s"
    "mem_run manager_step user_store (file, s) [(0x5008, 42)] (file', t)" "modified_pgq t = []"
    by (rule sample_memory_run)
  then show ?thesis using page_file_stays_coherent [OF s(1) _ _ s(2)] by auto
qed

end
