(* ===== verification/Tree_Walk.thy ===== *)
theory Tree_Walk
  imports Rank_Tree
begin

text \<open>
  Walking the trees of \<^verbatim>\<open>kdk/tree.h\<close>: \<^verbatim>\<open>RB_NEXT\<close>, \<^verbatim>\<open>RB_PREV\<close> and the \<^verbatim>\<open>RB_FOREACH\<close> loops, the search for a
  lower bound \<^verbatim>\<open>RB_NFIND\<close>, and the insertions at a known position. A pointer to a node is a cursor: the
  path from the node to the root, innermost frame first, and the subtree at the node. Following a
  parent pointer rebuilds the subtree of the parent from the frame.
\<close>

section \<open>Cursors\<close>

type_synonym 'a cursor = "'a frame list \<times> 'a rbtree"

fun at_node :: "'a cursor \<Rightarrow> bool" where
  "at_node (p, t) \<longleftrightarrow> t \<noteq> Null"

fun cursor_elm :: "'a cursor \<Rightarrow> 'a option" where
  "cursor_elm (p, Null) = None"
| "cursor_elm (p, Elm lb rb l a r) = Some a"

fun cursor_tree :: "'a cursor \<Rightarrow> 'a rbtree" where
  "cursor_tree (p, t) = plug p t"

text \<open>The child on side \<open>d\<close>, and the parent.\<close>

fun child :: "dir \<Rightarrow> 'a cursor \<Rightarrow> 'a cursor" where
  "child d (p, Null) = (p, Null)"
| "child DirL (p, Elm lb rb l a r) = (Frame DirL lb rb a r # p, l)"
| "child DirR (p, Elm lb rb l a r) = (Frame DirR rb lb a l # p, r)"

section \<open>The operations\<close>

text \<open>The loops \<^verbatim>\<open>while (RB_LEFT(elm)) elm = RB_LEFT(elm)\<close> and its mirror image.\<close>

fun outermost :: "dir \<Rightarrow> 'a frame list \<Rightarrow> 'a rbtree \<Rightarrow> 'a cursor" where
  "outermost d p Null = (p, Null)"
| "outermost DirL p (Elm lb rb l a r) =
     (if l = Null then (p, Elm lb rb l a r) else outermost DirL (Frame DirL lb rb a r # p) l)"
| "outermost DirR p (Elm lb rb l a r) =
     (if r = Null then (p, Elm lb rb l a r) else outermost DirR (Frame DirR rb lb a l # p) r)"

text \<open>Up while the node is the child on side \<open>d\<close> of its parent, then to the parent.\<close>

fun climb :: "dir \<Rightarrow> 'a frame list \<Rightarrow> 'a rbtree \<Rightarrow> 'a cursor option" where
  "climb d [] t = None"
| "climb d (Frame d' be bs a sib # p) t =
     (if d' = d then climb d p (mk d' be bs t a sib) else Some (p, mk d' be bs t a sib))"

fun RB_NEXT :: "'a cursor \<Rightarrow> 'a cursor option" where
  "RB_NEXT (p, Null) = None"
| "RB_NEXT (p, Elm lb rb l a r) =
     (if r \<noteq> Null then Some (outermost DirL (Frame DirR rb lb a l # p) r)
      else climb DirR p (Elm lb rb l a r))"

fun RB_PREV :: "'a cursor \<Rightarrow> 'a cursor option" where
  "RB_PREV (p, Null) = None"
| "RB_PREV (p, Elm lb rb l a r) =
     (if l \<noteq> Null then Some (outermost DirR (Frame DirL lb rb a r # p) l)
      else climb DirL p (Elm lb rb l a r))"

text \<open>\<^verbatim>\<open>RB_MIN\<close> and \<^verbatim>\<open>RB_MAX\<close> as cursors; \<open>RB_MINMAX\<close> gives their elements.\<close>

definition RB_END :: "dir \<Rightarrow> 'a rbtree \<Rightarrow> 'a cursor option" where
  "RB_END d t = (if t = Null then None else Some (outermost d [] t))"

text \<open>\<^verbatim>\<open>RB_NFIND\<close>: \<open>res\<close> is the last element passed on the left.\<close>

fun nfind_loop :: "('k \<Rightarrow> 'a \<Rightarrow> int) \<Rightarrow> 'k \<Rightarrow> 'a option \<Rightarrow> 'a rbtree \<Rightarrow> 'a option" where
  "nfind_loop cmp k res Null = res"
| "nfind_loop cmp k res (Elm lb rb l a r) =
     (let comp = cmp k a in
      if comp < 0 then nfind_loop cmp k (Some a) l
      else if comp > 0 then nfind_loop cmp k res r
      else Some a)"

definition RB_NFIND :: "('k \<Rightarrow> 'a \<Rightarrow> int) \<Rightarrow> 'k \<Rightarrow> 'a rbtree \<Rightarrow> 'a option" where
  "RB_NFIND cmp k t = nfind_loop cmp k None t"

text \<open>The descent of \<^verbatim>\<open>RB_INSERT_NEXT\<close> and \<^verbatim>\<open>RB_INSERT_PREV\<close>: from a child pointer of the node along the
  pointers on side \<open>d\<close> down to a null one, whose location is a path.\<close>

fun null_below :: "dir \<Rightarrow> 'a frame list \<Rightarrow> 'a rbtree \<Rightarrow> 'a frame list" where
  "null_below d p Null = p"
| "null_below DirL p (Elm lb rb l a r) = null_below DirL (Frame DirL lb rb a r # p) l"
| "null_below DirR p (Elm lb rb l a r) = null_below DirR (Frame DirR rb lb a l # p) r"

fun RB_INSERT_NEXT :: "'a cursor \<Rightarrow> 'a \<Rightarrow> 'a rbtree outcome" where
  "RB_INSERT_NEXT (p, Null) next = Err (Undefined ''RB_RIGHT(NULL)'')"
| "RB_INSERT_NEXT (p, Elm lb rb l a r) next =
     Ok (RB_INSERT_FINISH (null_below DirL (Frame DirR rb lb a l # p) r) next)"

fun RB_INSERT_PREV :: "'a cursor \<Rightarrow> 'a \<Rightarrow> 'a rbtree outcome" where
  "RB_INSERT_PREV (p, Null) prev = Err (Undefined ''RB_LEFT(NULL)'')"
| "RB_INSERT_PREV (p, Elm lb rb l a r) prev =
     Ok (RB_INSERT_FINISH (null_below DirR (Frame DirL lb rb a r # p) l) prev)"

text \<open>\<^verbatim>\<open>RB_REINSERT\<close>: the key of the node at the cursor may have changed; the node is moved when it is
  out of order with a neighbour. The tree is returned with the result of \<^verbatim>\<open>RB_INSERT\<close>.\<close>

fun RB_REINSERT :: "('a \<Rightarrow> 'a \<Rightarrow> int) \<Rightarrow> 'a cursor \<Rightarrow> 'a option \<times> 'a rbtree" where
  "RB_REINSERT cmp (p, Null) = (None, plug p Null)"
| "RB_REINSERT cmp (p, Elm lb rb l a r) =
     (let c = (p, Elm lb rb l a r);
          before = (case RB_PREV c of None \<Rightarrow> None | Some c' \<Rightarrow> cursor_elm c');
          after = (case RB_NEXT c of None \<Rightarrow> None | Some c' \<Rightarrow> cursor_elm c')
      in if (case before of None \<Rightarrow> False | Some b \<Rightarrow> cmp b a \<ge> 0) \<or>
            (case after of None \<Rightarrow> False | Some b \<Rightarrow> cmp a b \<ge> 0)
         then RB_INSERT cmp a (remove_node p (Elm lb rb l a r))
         else (None, plug p (Elm lb rb l a r)))"

section \<open>What a cursor sees\<close>

text \<open>The elements before and after the node of a cursor.\<close>

fun before :: "'a cursor \<Rightarrow> 'a list" where
  "before (p, Null) = lefts p"
| "before (p, Elm lb rb l a r) = lefts p @ inorder l"

fun after :: "'a cursor \<Rightarrow> 'a list" where
  "after (p, Null) = rights p"
| "after (p, Elm lb rb l a r) = inorder r @ rights p"

text \<open>\<open>points_at c xs a ys\<close>: the cursor is at the element \<open>a\<close> of a tree whose elements are \<open>xs @ a # ys\<close>.\<close>

definition points_at :: "'a cursor \<Rightarrow> 'a list \<Rightarrow> 'a \<Rightarrow> 'a list \<Rightarrow> bool" where
  "points_at c xs a ys \<longleftrightarrow> cursor_elm c = Some a \<and> before c = xs \<and> after c = ys"

lemma cursor_tree_inorder: "points_at c xs a ys \<Longrightarrow> inorder (cursor_tree c) = xs @ a # ys"
  by (cases c rule: cursor_elm.cases) (auto simp: points_at_def inorder_plug)

lemma outermost_tree: "plug p t = plug q u \<Longrightarrow> cursor_tree (outermost d p t) = plug q u"
  by (induction d p t rule: outermost.induct) auto

lemma inorder_Null_iff [simp]: "inorder t = [] \<longleftrightarrow> t = Null"
  by (cases t) auto

lemma outermost_L:
  "inorder t = a # xs \<Longrightarrow> points_at (outermost DirL p t) (lefts p) a (xs @ rights p)"
proof (induction "DirL" p t arbitrary: xs rule: outermost.induct)
  case (2 p lb rb l b r)
  show ?case
  proof (cases "inorder l")
    case Nil with 2 show ?thesis by (simp add: points_at_def)
  next
    case (Cons c ys)
    with 2 show ?thesis by auto
  qed
qed auto

lemma outermost_R:
  "inorder t = xs @ [a] \<Longrightarrow> points_at (outermost DirR p t) (lefts p @ xs) a (rights p)"
proof (induction "DirR" p t arbitrary: xs rule: outermost.induct)
  case (3 p lb rb l b r)
  show ?case
  proof (cases "inorder r" rule: rev_cases)
    case Nil with 3 show ?thesis by (simp add: points_at_def)
  next
    case (snoc ys c)
    with 3 show ?thesis by auto
  qed
qed auto

lemma climb_R:
  "rights p = a # ys \<Longrightarrow> \<exists>c. climb DirR p t = Some c \<and> points_at c (lefts p @ inorder t) a ys"
proof (induction "DirR" p t rule: climb.induct)
  case (2 d' be bs b sib p t)
  then show ?case by (cases d') (auto simp: points_at_def)
qed auto

lemma climb_L:
  "lefts p = xs @ [a] \<Longrightarrow> \<exists>c. climb DirL p t = Some c \<and> points_at c xs a (inorder t @ rights p)"
proof (induction "DirL" p t rule: climb.induct)
  case (2 d' be bs b sib p t)
  then show ?case by (cases d') (auto simp: points_at_def)
qed auto

lemma climb_None:
  "rights p = [] \<Longrightarrow> climb DirR p t = None"
  "lefts p = [] \<Longrightarrow> climb DirL p t = None"
proof -
  show "rights p = [] \<Longrightarrow> climb DirR p t = None"
  proof (induction "DirR" p t rule: climb.induct)
    case (2 d' be bs b sib p t) then show ?case by (cases d') auto
  qed simp
  show "lefts p = [] \<Longrightarrow> climb DirL p t = None"
  proof (induction "DirL" p t rule: climb.induct)
    case (2 d' be bs b sib p t) then show ?case by (cases d') auto
  qed simp
qed

lemma climb_tree: "climb d p t = Some c \<Longrightarrow> cursor_tree c = plug p t"
  by (induction d p t rule: climb.induct) (auto split: if_splits)

text \<open>\<^verbatim>\<open>RB_NEXT\<close> and \<^verbatim>\<open>RB_PREV\<close> move by one element and stay in the same tree.\<close>

lemma RB_NEXT_step:
  assumes "points_at c xs a (b # ys)"
  obtains c' where "RB_NEXT c = Some c'" and "points_at c' (xs @ [a]) b ys" and "cursor_tree c' = cursor_tree c"
proof -
  from assms obtain p lb rb l r where c: "c = (p, Elm lb rb l a r)" "xs = lefts p @ inorder l"
    "b # ys = inorder r @ rights p"
    by (cases c rule: cursor_elm.cases) (auto simp: points_at_def)
  show thesis
  proof (cases "inorder r")
    case Nil
    then have r: "r = Null" and e: "rights p = b # ys" using c by simp_all
    obtain c' where "climb DirR p (Elm lb rb l a r) = Some c'"
      "points_at c' (lefts p @ inorder (Elm lb rb l a r)) b ys"
      using climb_R [OF e] by blast
    with r c that [of c'] climb_tree [of DirR p "Elm lb rb l a r" c'] show thesis by simp
  next
    case (Cons b' zs)
    let ?p = "Frame DirR rb lb a l # p"
    have "points_at (outermost DirL ?p r) (lefts ?p) b (zs @ rights p)"
      using outermost_L [OF Cons, of ?p] c Cons by simp
    moreover have "r \<noteq> Null" using Cons by auto
    ultimately show thesis
      using Cons c that [of "outermost DirL ?p r"] outermost_tree [of ?p r ?p r DirL] by auto
  qed
qed

lemma RB_NEXT_end: "points_at c xs a [] \<Longrightarrow> RB_NEXT c = None"
  by (cases c rule: cursor_elm.cases) (auto simp: points_at_def climb_None)

lemma RB_PREV_step:
  assumes "points_at c (xs @ [b]) a ys"
  obtains c' where "RB_PREV c = Some c'" and "points_at c' xs b (a # ys)" and "cursor_tree c' = cursor_tree c"
proof -
  from assms obtain p lb rb l r where c: "c = (p, Elm lb rb l a r)" "xs @ [b] = lefts p @ inorder l"
    "ys = inorder r @ rights p"
    by (cases c rule: cursor_elm.cases) (auto simp: points_at_def)
  show thesis
  proof (cases "inorder l" rule: rev_cases)
    case Nil
    then have l: "l = Null" and e: "lefts p = xs @ [b]" using c by simp_all
    obtain c' where "climb DirL p (Elm lb rb l a r) = Some c'"
      "points_at c' xs b (inorder (Elm lb rb l a r) @ rights p)"
      using climb_L [OF e] by blast
    with l c that [of c'] climb_tree [of DirL p "Elm lb rb l a r" c'] show thesis by simp
  next
    case (snoc zs b')
    let ?p = "Frame DirL lb rb a r # p"
    have "points_at (outermost DirR ?p l) (lefts ?p @ zs) b (rights ?p)"
      using outermost_R [OF snoc, of ?p] c snoc by simp
    moreover have "l \<noteq> Null" using snoc by auto
    ultimately show thesis
      using snoc c that [of "outermost DirR ?p l"] outermost_tree [of ?p l ?p l DirR] by auto
  qed
qed

lemma RB_PREV_end: "points_at c [] a ys \<Longrightarrow> RB_PREV c = None"
  by (cases c rule: cursor_elm.cases) (auto simp: points_at_def climb_None)

lemma RB_END_points:
  "inorder t = a # ys \<Longrightarrow> \<exists>c. RB_END DirL t = Some c \<and> points_at c [] a ys"
  "inorder t = xs @ [a] \<Longrightarrow> \<exists>c. RB_END DirR t = Some c \<and> points_at c xs a []"
proof -
  assume e: "inorder t = a # ys"
  then have "t \<noteq> Null" by auto
  then show "\<exists>c. RB_END DirL t = Some c \<and> points_at c [] a ys"
    using outermost_L [OF e, of "[]"] by (intro exI [of _ "outermost DirL [] t"]) (simp add: RB_END_def)
next
  assume e: "inorder t = xs @ [a]"
  then have "t \<noteq> Null" by auto
  then show "\<exists>c. RB_END DirR t = Some c \<and> points_at c xs a []"
    using outermost_R [OF e, of "[]"] by (intro exI [of _ "outermost DirR [] t"]) (simp add: RB_END_def)
qed

lemma RB_END_MINMAX: "RB_MINMAX d t = (case RB_END d t of None \<Rightarrow> None | Some c \<Rightarrow> cursor_elm c)"
proof -
  have "t \<noteq> Null \<Longrightarrow> RB_MINMAX d t = cursor_elm (outermost d p t)" for p
    by (induction d p t rule: outermost.induct) auto
  then show ?thesis by (cases "t = Null") (auto simp: RB_END_def)
qed

section \<open>The loops\<close>

text \<open>\<^verbatim>\<open>RB_FOREACH\<close> and \<^verbatim>\<open>RB_FOREACH_REVERSE\<close>, with the elements the body sees, in order. The number of
  elements not yet seen decreases.\<close>

lemma at_points: "at_node c \<Longrightarrow> \<exists>a. points_at c (before c) a (after c)"
  by (cases c rule: cursor_elm.cases) (auto simp: points_at_def)

lemma RB_NEXT_decreases: "RB_NEXT c = Some c' \<Longrightarrow> length (after c') < length (after c)"
proof -
  assume nx: "RB_NEXT c = Some c'"
  then have "at_node c" by (cases c rule: RB_NEXT.cases) auto
  then obtain a where a: "points_at c (before c) a (after c)" using at_points by blast
  show ?thesis
  proof (cases "after c")
    case Nil with a nx RB_NEXT_end [of c] show ?thesis by simp
  next
    case (Cons b ys)
    with a nx RB_NEXT_step [of c "before c" a b ys] show ?thesis by (auto simp: points_at_def)
  qed
qed

lemma RB_PREV_decreases: "RB_PREV c = Some c' \<Longrightarrow> length (before c') < length (before c)"
proof -
  assume prev: "RB_PREV c = Some c'"
  then have "at_node c" by (cases c rule: RB_PREV.cases) auto
  then obtain a where a: "points_at c (before c) a (after c)" using at_points by blast
  show ?thesis
  proof (cases "before c" rule: rev_cases)
    case Nil with a prev RB_PREV_end [of c] show ?thesis by simp
  next
    case (snoc xs b)
    with a prev RB_PREV_step [of c xs b a "after c"] show ?thesis by (auto simp: points_at_def)
  qed
qed

function RB_FOREACH_FROM :: "'a cursor option \<Rightarrow> 'a list" where
  "RB_FOREACH_FROM None = []"
| "RB_FOREACH_FROM (Some c) =
     (case cursor_elm c of None \<Rightarrow> [] | Some a \<Rightarrow> a # RB_FOREACH_FROM (RB_NEXT c))"
  by pat_completeness auto
termination
  by (relation "measure (\<lambda>x. case x of None \<Rightarrow> 0 | Some c \<Rightarrow> Suc (length (after c)))")
    (auto split: option.split dest: RB_NEXT_decreases)

function RB_FOREACH_REVERSE_FROM :: "'a cursor option \<Rightarrow> 'a list" where
  "RB_FOREACH_REVERSE_FROM None = []"
| "RB_FOREACH_REVERSE_FROM (Some c) =
     (case cursor_elm c of None \<Rightarrow> [] | Some a \<Rightarrow> a # RB_FOREACH_REVERSE_FROM (RB_PREV c))"
  by pat_completeness auto
termination
  by (relation "measure (\<lambda>x. case x of None \<Rightarrow> 0 | Some c \<Rightarrow> Suc (length (before c)))")
    (auto split: option.split dest: RB_PREV_decreases)

definition RB_FOREACH :: "'a rbtree \<Rightarrow> 'a list" where
  "RB_FOREACH t = RB_FOREACH_FROM (RB_END DirL t)"

definition RB_FOREACH_REVERSE :: "'a rbtree \<Rightarrow> 'a list" where
  "RB_FOREACH_REVERSE t = RB_FOREACH_REVERSE_FROM (RB_END DirR t)"

lemma FOREACH_FROM_points: "points_at c xs a ys \<Longrightarrow> RB_FOREACH_FROM (Some c) = a # ys"
proof (induction ys arbitrary: c xs a)
  case Nil
  then show ?case using RB_NEXT_end [OF Nil] by (simp add: points_at_def)
next
  case (Cons b ys)
  obtain c' where c': "RB_NEXT c = Some c'" "points_at c' (xs @ [a]) b ys"
    using RB_NEXT_step [OF Cons.prems] by blast
  have "cursor_elm c = Some a" using Cons.prems by (simp add: points_at_def)
  then show ?case using c' Cons.IH [OF c'(2)] by simp
qed

lemma FOREACH_REVERSE_FROM_points: "points_at c xs a ys \<Longrightarrow> RB_FOREACH_REVERSE_FROM (Some c) = a # rev xs"
proof (induction xs arbitrary: c a ys rule: rev_induct)
  case Nil
  then show ?case using RB_PREV_end [OF Nil] by (simp add: points_at_def)
next
  case (snoc b xs)
  obtain c' where c': "RB_PREV c = Some c'" "points_at c' xs b (a # ys)"
    using RB_PREV_step [OF snoc.prems] by blast
  have "cursor_elm c = Some a" using snoc.prems by (simp add: points_at_def)
  then show ?case using c' snoc.IH [OF c'(2)] by simp
qed

lemma RB_FOREACH_inorder: "RB_FOREACH t = inorder t"
proof (cases "inorder t")
  case Nil
  then show ?thesis by (simp add: RB_FOREACH_def RB_END_def)
next
  case (Cons a ys)
  with RB_END_points(1) [OF Cons] FOREACH_FROM_points show ?thesis by (auto simp: RB_FOREACH_def)
qed

lemma RB_FOREACH_REVERSE_inorder: "RB_FOREACH_REVERSE t = rev (inorder t)"
proof (cases "inorder t" rule: rev_cases)
  case Nil
  then show ?thesis by (simp add: RB_FOREACH_REVERSE_def RB_END_def)
next
  case (snoc xs a)
  with RB_END_points(2) [OF snoc] FOREACH_REVERSE_FROM_points show ?thesis by (auto simp: RB_FOREACH_REVERSE_def)
qed

section \<open>Insertion at a position\<close>

lemma plug_balanced: "balanced (plug p t) \<Longrightarrow> balanced t \<and> accepts p (rank t)"
proof (induction p t rule: plug.induct)
  case (2 d be bs a sib p t)
  then have "balanced (mk d be bs t a sib)" "accepts p (rank (mk d be bs t a sib))" by auto
  then show ?case by (auto simp: rank_mk)
qed simp

lemma null_below_balanced:
  "balanced t \<Longrightarrow> accepts p (rank t) \<Longrightarrow> accepts (null_below d p t) 0"
proof (induction d p t rule: null_below.induct)
  case (2 p lb rb l a r)
  then show ?case by auto
next
  case (3 p lb rb l a r)
  then have "accepts (Frame DirR rb lb a l # p) (rank r)" by auto
  with 3 show ?case by simp
qed simp

lemma null_below_order:
  "lefts (null_below DirL p t) = lefts p" "rights (null_below DirL p t) = inorder t @ rights p"
  "lefts (null_below DirR p t) = lefts p @ inorder t" "rights (null_below DirR p t) = rights p"
proof -
  show "lefts (null_below DirL p t) = lefts p" "rights (null_below DirL p t) = inorder t @ rights p"
    by (induction "DirL" p t rule: null_below.induct) auto
  show "lefts (null_below DirR p t) = lefts p @ inorder t" "rights (null_below DirR p t) = rights p"
    by (induction "DirR" p t rule: null_below.induct) auto
qed

lemma INSERT_FINISH_inorder: "inorder (RB_INSERT_FINISH p e) = lefts p @ e # rights p"
  by (simp add: RB_INSERT_FINISH_def inorder_INSERT_COLOR)

lemma INSERT_FINISH_balanced: "accepts p 0 \<Longrightarrow> balanced (RB_INSERT_FINISH p e)"
  by (auto simp: RB_INSERT_FINISH_def intro!: balanced_INSERT_COLOR)

lemma INSERT_beside:
  assumes c: "points_at c xs a ys"
  shows "\<exists>t'. RB_INSERT_NEXT c e = Ok t' \<and> inorder t' = xs @ a # e # ys \<and>
      (balanced (cursor_tree c) \<longrightarrow> balanced t')" (is ?next)
    and "\<exists>t'. RB_INSERT_PREV c e = Ok t' \<and> inorder t' = xs @ e # a # ys \<and>
      (balanced (cursor_tree c) \<longrightarrow> balanced t')" (is ?prev)
proof -
  obtain p lb rb l r where [simp]: "c = (p, Elm lb rb l a r)"
    and xy: "xs = lefts p @ inorder l" "ys = inorder r @ rights p"
    using c by (cases c rule: cursor_elm.cases) (auto simp: points_at_def)
  have bal: "balanced l" "balanced r" "accepts (Frame DirR rb lb a l # p) (rank r)"
    "accepts (Frame DirL lb rb a r # p) (rank l)" if "balanced (cursor_tree c)"
    using plug_balanced [of p "Elm lb rb l a r"] that by auto
  show ?next
    using xy bal null_below_balanced [of r "Frame DirR rb lb a l # p" DirL]
    by (auto simp: INSERT_FINISH_inorder null_below_order INSERT_FINISH_balanced simp del: accepts.simps)
  show ?prev
    using xy bal null_below_balanced [of l "Frame DirL lb rb a r # p" DirR]
    by (auto simp: INSERT_FINISH_inorder null_below_order INSERT_FINISH_balanced simp del: accepts.simps)
qed

section \<open>Lower bounds and repositioning in ordered trees\<close>

lemma remove_at_cursor:
  assumes "points_at (p, t) xs a ys" and "balanced (plug p t)"
  shows "balanced (remove_node p t)" and "inorder (remove_node p t) = xs @ ys"
  using assms plug_balanced [of p t] balanced_remove_node [of t p]
  by (cases t; auto simp: points_at_def inorder_remove_node)+

lemma neighbours:
  assumes "points_at c xs a ys"
  shows "(case RB_PREV c of None \<Rightarrow> None | Some c' \<Rightarrow> cursor_elm c') = (if xs = [] then None else Some (last xs))"
    and "(case RB_NEXT c of None \<Rightarrow> None | Some c' \<Rightarrow> cursor_elm c') = (if ys = [] then None else Some (hd ys))"
proof -
  show "(case RB_PREV c of None \<Rightarrow> None | Some c' \<Rightarrow> cursor_elm c') = (if xs = [] then None else Some (last xs))"
  proof (cases xs rule: rev_cases)
    case Nil with assms show ?thesis by (simp add: RB_PREV_end)
  next
    case (snoc zs b)
    then have "points_at c (zs @ [b]) a ys" using assms by simp
    then obtain c' where "RB_PREV c = Some c'" "points_at c' zs b (a # ys)" by (rule RB_PREV_step)
    with snoc show ?thesis by (simp add: points_at_def)
  qed
  show "(case RB_NEXT c of None \<Rightarrow> None | Some c' \<Rightarrow> cursor_elm c') = (if ys = [] then None else Some (hd ys))"
  proof (cases ys)
    case Nil with assms show ?thesis by (simp add: RB_NEXT_end)
  next
    case (Cons b zs)
    then have "points_at c xs a (b # zs)" using assms by simp
    then obtain c' where "RB_NEXT c = Some c'" "points_at c' (xs @ [a]) b zs" by (rule RB_NEXT_step)
    with Cons show ?thesis by (simp add: points_at_def)
  qed
qed

lemma find_append: "List.find P (xs @ ys) = (case List.find P xs of None \<Rightarrow> List.find P ys | Some x \<Rightarrow> Some x)"
  by (induction xs) auto

context keyed_tree
begin

lemma nfind_loop_lower:
  assumes "tree_ok key valid t" and "valid k"
  shows "nfind_loop cmp k res t =
    (case find (\<lambda>x. key k \<le> key x) (inorder t) of None \<Rightarrow> res | Some x \<Rightarrow> Some x)"
  using assms(1)
proof (induction t arbitrary: res)
  case (Elm lb rb l a r)
  have ok: "tree_ok key valid l" "tree_ok key valid r" "valid a"
    "\<forall>x\<in>set (inorder l). key x < key a"
    using Elm.prems by (auto simp: tree_ok_def sorted_wrt_append)
  note IH = Elm.IH(1) [OF ok(1)] Elm.IH(2) [OF ok(2)]
  have skip: "find (\<lambda>x. key k \<le> key x) (inorder l) = None" if "key a \<le> key k"
    using ok(4) that by (force simp: List.find_None_iff)
  consider (lt) "key k < key a" | (gt) "key a < key k" | (eq) "key k = key a" by (rule linorder_cases)
  then show ?case
  proof cases
    case lt
    then have "key k \<le> key a" by simp
    then show ?thesis using lt IH(1) cmp_neg [OF assms(2) ok(3)] by (simp add: find_append split: option.split)
  next
    case gt
    then show ?thesis using IH(2) cmp_neg [OF assms(2) ok(3)] cmp_pos [OF assms(2) ok(3)] skip
      by (auto simp: find_append)
  next
    case eq
    then show ?thesis using cmp_zero [OF assms(2) ok(3)] skip by (auto simp: find_append)
  qed
qed simp

lemma nfind_lower_bound:
  assumes "tree_ok key valid t" and "valid k"
  shows "RB_NFIND cmp k t = List.find (\<lambda>x. key k \<le> key x) (inorder t)"
  using nfind_loop_lower [OF assms, of None] by (simp add: RB_NFIND_def split: option.split)

text \<open>The element at the cursor may have any valid key; the others are in order.\<close>

lemma reinsert_moves:
  assumes c: "points_at c xs a ys" and bal: "balanced (cursor_tree c)"
    and s: "sorted_wrt (\<lambda>x y. key x < key y) (xs @ ys)" and v: "\<forall>x\<in>set (xs @ ys). valid x" "valid a"
  shows "\<exists>t'. tree_ok key valid t' \<and>
    (if \<exists>b\<in>set (xs @ ys). key b = key a
     then set (inorder t') = set (xs @ ys) \<and> (\<exists>b\<in>set (xs @ ys). key b = key a \<and> RB_REINSERT cmp c = (Some b, t'))
     else set (inorder t') = insert a (set (xs @ ys)) \<and> RB_REINSERT cmp c = (None, t'))"
proof -
  obtain p lb rb l r where c': "c = (p, Elm lb rb l a r)"
    using c by (cases c rule: cursor_elm.cases) (auto simp: points_at_def)
  let ?t = "Elm lb rb l a r" and ?u = "remove_node p (Elm lb rb l a r)"
  have u: "balanced ?u" "inorder ?u = xs @ ys"
    using remove_at_cursor [of p ?t xs a ys] c bal c' by simp_all
  have uok: "tree_ok key valid ?u" using u s v by (simp add: tree_ok_def)
  define bad where "bad \<longleftrightarrow> (xs \<noteq> [] \<and> key a \<le> key (last xs)) \<or> (ys \<noteq> [] \<and> key (hd ys) \<le> key a)"
  have le: "cmp x y \<ge> 0 \<longleftrightarrow> key y \<le> key x" if "valid x" "valid y" for x y
    using cmp_neg [OF that] by (meson linorder_not_less)
  have "xs \<noteq> [] \<Longrightarrow> valid (last xs)" "ys \<noteq> [] \<Longrightarrow> valid (hd ys)" using v by auto
  then have re: "RB_REINSERT cmp c = (if bad then RB_INSERT cmp a ?u else (None, plug p ?t))"
    using neighbours [OF c] le v(2) unfolding c' bad_def by (simp add: Let_def)
  show ?thesis
  proof (cases bad)
    case True
    show ?thesis
    proof (cases "RB_FIND cmp a ?u")
      case None
      obtain t' where t': "RB_INSERT cmp a ?u = (None, t')" "tree_ok key valid t'"
        "set (inorder t') = insert a (set (inorder ?u))"
        using insert_fresh [OF uok v(2) None] by blast
      have "\<not> (\<exists>b\<in>set (xs @ ys). key b = key a)"
        using None find_None_iff [OF uok v(2)] u(2) by auto
      then show ?thesis using t' u(2) True re by auto
    next
      case (Some b)
      have "b \<in> set (xs @ ys)" "key b = key a" using Some find_Some_iff [OF uok v(2)] u(2) by auto
      moreover have "RB_REINSERT cmp c = (Some b, ?u)" using Some True re by (simp add: RB_INSERT_duplicate)
      ultimately show ?thesis using uok u(2) by auto
    qed
  next
    case False
    have below: "\<forall>x\<in>set xs. key x < key a"
    proof (cases xs rule: rev_cases)
      case (snoc zs b)
      then have "key b < key a" using False by (simp add: bad_def linorder_not_le)
      moreover have "\<forall>x\<in>set zs. key x < key b" using s snoc by (auto simp: sorted_wrt_append)
      ultimately show ?thesis using snoc by auto
    qed simp
    have above: "\<forall>x\<in>set ys. key a < key x"
    proof (cases ys)
      case (Cons b zs)
      then have "key a < key b" using False by (simp add: bad_def linorder_not_le)
      moreover have "\<forall>x\<in>set zs. key b < key x" using s Cons by (auto simp: sorted_wrt_append)
      ultimately show ?thesis using Cons by auto
    qed simp
    have "inorder (plug p ?t) = xs @ a # ys" using cursor_tree_inorder [OF c] c' by simp
    then have "tree_ok key valid (plug p ?t)"
      using s v bal c' below above by (auto simp: tree_ok_def sorted_wrt_append)
    moreover have "\<not> (\<exists>b\<in>set (xs @ ys). key b = key a)" using below above by auto
    ultimately show ?thesis using \<open>inorder (plug p ?t) = xs @ a # ys\<close> re False by auto
  qed
qed

end

section \<open>Properties of the walks\<close>

text \<open>C37. The loops over a tree end and visit each element exactly once, in the order of the tree
  forwards and in the opposite order backwards, from any tree whatever its balance; the first element
  of each loop is the one \<^verbatim>\<open>RB_MIN\<close> and \<^verbatim>\<open>RB_MAX\<close> return.\<close>

theorem foreach_visits_in_order:
  "RB_FOREACH t = inorder t \<and> RB_FOREACH_REVERSE t = rev (inorder t)
   \<and> (t \<noteq> Null \<longrightarrow> RB_MINMAX DirL t = Some (hd (inorder t)) \<and> RB_MINMAX DirR t = Some (last (inorder t)))"
proof (intro conjI impI RB_FOREACH_inorder RB_FOREACH_REVERSE_inorder)
  assume "t \<noteq> Null"
  then obtain a ys where e: "inorder t = a # ys" by (cases "inorder t") auto
  from RB_END_points(1) [OF e] e show "RB_MINMAX DirL t = Some (hd (inorder t))"
    by (auto simp: RB_END_MINMAX points_at_def)
next
  assume "t \<noteq> Null"
  then obtain a xs where e: "inorder t = xs @ [a]" by (cases "inorder t" rule: rev_cases) auto
  from RB_END_points(2) [OF e] e show "RB_MINMAX DirR t = Some (last (inorder t))"
    by (auto simp: RB_END_MINMAX points_at_def)
qed

theorem foreach_visits_in_order_witness:
  "RB_FOREACH sample_tree = [1, 2, 3, 4, 5] \<and> RB_MINMAX DirR sample_tree = Some 5"
proof -
  have "inorder sample_tree = [1, 2, 3, 4, 5]" by code_simp
  moreover from this have "sample_tree \<noteq> Null" by auto
  ultimately show ?thesis using foreach_visits_in_order [of sample_tree] by simp
qed

end
