(* ===== verification/Diagnostics.thy ===== *)
theory Diagnostics
  imports Wsl Tree_Walk
begin

text \<open>
  The reports the simulator prints: \<^verbatim>\<open>vm_dump_pages\<close> and \<^verbatim>\<open>vm_dump_page_summary\<close> (\<^verbatim>\<open>vm/resident.c\<close>) and
  \<^verbatim>\<open>vmp_wsl_dump\<close> (\<^verbatim>\<open>vm/ws.c\<close>). A report is the list of its lines; a line is the format with the values put
  into it, before they are turned into characters. The working set is walked with \<^verbatim>\<open>RB_FOREACH\<close>.
\<close>

section \<open>The reports\<close>

datatype line =
    PageStates
  | PageLine nat string uint16_t uint16_t uint16_t
  | StandbyQueue
  | DirtyQueue
  | QueueLine uint64_t string page_ptr
  | Summary size_t size_t size_t size_t
  | WslCounts size_t size_t
  | AllEntries
  | DynamicEntries
  | EntryLine vaddr

definition queue_line :: "vmm \<Rightarrow> page_ptr \<Rightarrow> line" where
  "queue_line s p = QueueLine (pfn (mypages s p)) (vm_page_use_str (use (mypages s p))) p"

fun page_lines :: "vmm \<Rightarrow> nat \<Rightarrow> nat \<Rightarrow> line list" where
  "page_lines s i 0 = []"
| "page_lines s i (Suc n) =
     (if use (mypages s i) = kPageUseFree then page_lines s (Suc i) n
      else PageLine i (vm_page_use_str (use (mypages s i))) (refcnt (mypages s i))
             (nonzero_ptes (mypages s i)) (nonswap_ptes (mypages s i)) # page_lines s (Suc i) n)"

definition vm_dump_pages :: "vmm \<Rightarrow> line list" where
  "vm_dump_pages s =
     PageStates # page_lines s 0 SOFT_NPAGES
     @ StandbyQueue # map (queue_line s) (standby_pgq s)
     @ DirtyQueue # map (queue_line s) (modified_pgq s)"

definition vm_dump_page_summary :: "vmm \<Rightarrow> line list" where
  "vm_dump_page_summary s =
     [Summary (nactive (vmstat s)) (nmodified (vmstat s)) (nstandby (vmstat s)) (nfree (vmstat s))]"

definition vmp_wsl_dump :: "nat \<Rightarrow> vmm \<Rightarrow> line list" where
  "vmp_wsl_dump ps s =
     (let w = wsl (procs s ps) in
      WslCounts (nentries w) (nlocked w)
      # AllEntries # map (\<lambda>e. EntryLine (wsle_vaddr e)) (RB_FOREACH (wsl_tree w))
      @ DynamicEntries # map (\<lambda>e. EntryLine (wsle_vaddr e)) (wsl_queue w))"

section \<open>What the reports say\<close>

text \<open>The pages with a line in the page report, and what the line of a page holds.\<close>

definition used_pages :: "vmm \<Rightarrow> nat list" where
  "used_pages s = filter (\<lambda>p. use (mypages s p) \<noteq> kPageUseFree) [0..<SOFT_NPAGES]"

definition page_line :: "vmm \<Rightarrow> nat \<Rightarrow> line" where
  "page_line s p = PageLine p (vm_page_use_str (use (mypages s p))) (refcnt (mypages s p))
     (nonzero_ptes (mypages s p)) (nonswap_ptes (mypages s p))"

lemma page_lines_map:
  "page_lines s i n = map (page_line s) (filter (\<lambda>p. use (mypages s p) \<noteq> kPageUseFree) [i..<i + n])"
proof (induction s i n rule: page_lines.induct)
  case (2 s i n)
  have "[i..<i + Suc n] = i # [Suc i..<Suc i + n]" using upt_conv_Cons [of i "i + Suc n"] by simp
  with 2 show ?case by (simp add: page_line_def del: upt_Suc)
qed simp

text \<open>The pages that are not free and the pages of the free queue are all the pages, and the
  counters of the summary add up accordingly.\<close>

lemma used_pages_counted:
  assumes db: "pfndb s"
  shows "length (used_pages s) + length (free_pgq s) = SOFT_NPAGES"
proof -
  define U where "U = [0..<SOFT_NPAGES]"
  have U: "x \<in> set U \<longleftrightarrow> x < SOFT_NPAGES" "distinct U" "length U = SOFT_NPAGES" for x
    unfolding U_def set_upt by (simp_all del: upt_rec_numeral)
  let ?free = "filter (\<lambda>p. use (mypages s p) = kPageUseFree) U"
  have "place pg = Some QFree \<longleftrightarrow> use pg = kPageUseFree" for pg by (simp add: place_def)
  then have "set (free_pgq s) = set ?free"
    using pfndb_queue_iff [OF db, of _ QFree] U(1) by (intro set_eqI) simp
  moreover have "distinct (queue_of QFree s)" using db by (simp add: pfndb_def del: queue_of.simps)
  then have "distinct (free_pgq s)" by simp
  moreover have "distinct ?free" using U(2) by simp
  ultimately have "length ?free = length (free_pgq s)"
    using distinct_card [of "free_pgq s"] distinct_card [of ?free] by simp
  then show ?thesis
    using sum_length_filter_compl [of "\<lambda>p. use (mypages s p) \<noteq> kPageUseFree" U] U(3) unfolding U_def used_pages_def
    by (simp del: upt_rec_numeral)
qed

lemma summary_counts_used:
  assumes db: "pfndb s"
  shows "nactive (vmstat s) + nmodified (vmstat s) + nstandby (vmstat s) =
      of_nat (length (used_pages s))"
    and "nmodified (vmstat s) = of_nat (length (modified_pgq s))"
    and "nstandby (vmstat s) = of_nat (length (standby_pgq s))"
proof -
  let ?used = "used_pages s"
  have q: "qcount (Some x) (vmstat s) = of_nat (length (queue_of x s))" for x
    using db by (simp add: pfndb_def) (metis distinct_card)
  from used_pages_counted [OF db]
  have "of_nat (length ?used + length (free_pgq s)) = (of_nat SOFT_NPAGES :: size_t)" by (simp only:)
  then have "of_nat (length ?used) + nfree (vmstat s) = (32 :: size_t)"
    using q [of QFree] by (simp del: upt_rec_numeral)
  moreover have "nactive (vmstat s) + nmodified (vmstat s) + nstandby (vmstat s) + nfree (vmstat s) = 32"
    using pfndb_total [OF db] by (simp add: ac_simps)
  ultimately show "nactive (vmstat s) + nmodified (vmstat s) + nstandby (vmstat s) = of_nat (length ?used)"
    by (metis add_right_cancel)
  show "nmodified (vmstat s) = of_nat (length (modified_pgq s))"
    "nstandby (vmstat s) = of_nat (length (standby_pgq s))"
    using q [of QModified] q [of QStandby] by simp_all
qed

text \<open>The dump of a working set lists its entries in the order of their addresses, then the ones
  that are not locked.\<close>

lemma wsl_dump_lists:
  assumes w: "wsl_ok (wsl (procs s ps))"
  defines "es \<equiv> entries (wsl (procs s ps))" and "ds \<equiv> wsl_queue (wsl (procs s ps))"
  shows "vmp_wsl_dump ps s =
      WslCounts (nentries (wsl (procs s ps))) (nlocked (wsl (procs s ps)))
      # AllEntries # map (\<lambda>e. EntryLine (wsle_vaddr e)) es @ DynamicEntries # map (\<lambda>e. EntryLine (wsle_vaddr e)) ds"
    and "sorted_wrt (<) (map wsle_vaddr es)" and "distinct ds" and "set ds \<subseteq> set es"
    and "nlocked (wsl (procs s ps)) = of_nat (length es - length ds)"
proof -
  let ?w = "wsl (procs s ps)"
  note D = wsl_okD [OF w]
  show "sorted_wrt (<) (map wsle_vaddr es)" using D(1) by (simp add: tree_ok_def sorted_wrt_map es_def)
  show "nlocked ?w = of_nat (length es - length ds)"
    using nlocked_counts [OF w] D(2-4)
    by (simp add: locked_entries_def card_Diff_subset distinct_card es_def ds_def)
  show "vmp_wsl_dump ps s = WslCounts (nentries ?w) (nlocked ?w)
      # AllEntries # map (\<lambda>e. EntryLine (wsle_vaddr e)) es @ DynamicEntries # map (\<lambda>e. EntryLine (wsle_vaddr e)) ds"
    by (simp add: vmp_wsl_dump_def Let_def RB_FOREACH_inorder es_def ds_def)
  show "distinct ds" "set ds \<subseteq> set es" using D(2,3) by (simp_all add: es_def ds_def)
qed

lemma queue_line_pfn:
  assumes "pfndb s" and "p \<in> set (queue_of q s)"
  shows "queue_line s p = QueueLine (of_nat p) (vm_page_use_str (use (mypages s p))) p"
proof -
  have "p < SOFT_NPAGES" using pfndb_queue_iff [OF assms(1), of p q] assms(2) by simp
  then show ?thesis using assms(1) by (simp add: queue_line_def pfndb_def page_wf_def)
qed

text \<open>C38. What the reports print. The page report has one line for each page that is not free, in page order,
  with its number, its use, its reference count and its two entry counts in this order, then the
  standby queue and the modified queue from oldest to youngest, each page with its frame number and
  use. In the summary the active, modified and standby pages add up to the pages with a line, and the
  modified and standby counts are the lengths of the two queue sections. The working set report lists
  the addresses of all the entries of the tree by strictly ascending address, then those of the eviction
  queue from oldest to youngest, and the difference between the two is the locked count of its first
  line.\<close>

theorem reports_agree_with_state:
  assumes "pfndb s" and "wsl_ok (wsl (procs s ps))"
  shows "vm_dump_pages s =
      PageStates # map (\<lambda>p. PageLine p (vm_page_use_str (use (mypages s p))) (refcnt (mypages s p))
          (nonzero_ptes (mypages s p)) (nonswap_ptes (mypages s p))) (used_pages s)
      @ StandbyQueue # map (\<lambda>p. QueueLine (of_nat p) (vm_page_use_str (use (mypages s p))) p) (standby_pgq s)
      @ DirtyQueue # map (\<lambda>p. QueueLine (of_nat p) (vm_page_use_str (use (mypages s p))) p) (modified_pgq s)
    \<and> (\<exists>a f. vm_dump_page_summary s =
          [Summary a (of_nat (length (modified_pgq s))) (of_nat (length (standby_pgq s))) f]
        \<and> a + of_nat (length (modified_pgq s)) + of_nat (length (standby_pgq s)) = of_nat (length (used_pages s)))
    \<and> (let w = wsl (procs s ps); es = entries w in
        vmp_wsl_dump ps s = WslCounts (nentries w) (nlocked w)
          # AllEntries # map (\<lambda>e. EntryLine (wsle_vaddr e)) es
          @ DynamicEntries # map (\<lambda>e. EntryLine (wsle_vaddr e)) (wsl_queue w)
        \<and> sorted_wrt (<) (map wsle_vaddr es) \<and> distinct (wsl_queue w) \<and> set (wsl_queue w) \<subseteq> set es
        \<and> nlocked w = of_nat (length es - length (wsl_queue w)))"
proof (intro conjI)
  have q: "map (queue_line s) (queue_of q s) =
      map (\<lambda>p. QueueLine (of_nat p) (vm_page_use_str (use (mypages s p))) p) (queue_of q s)" for q
    by (rule map_cong [OF refl]) (rule queue_line_pfn [OF assms(1)])
  have "page_lines s 0 SOFT_NPAGES = map (page_line s) (used_pages s)"
    using page_lines_map [of s 0 SOFT_NPAGES] by (simp add: used_pages_def del: upt_rec_numeral)
  then show "vm_dump_pages s =
      PageStates # map (\<lambda>p. PageLine p (vm_page_use_str (use (mypages s p))) (refcnt (mypages s p))
          (nonzero_ptes (mypages s p)) (nonswap_ptes (mypages s p))) (used_pages s)
      @ StandbyQueue # map (\<lambda>p. QueueLine (of_nat p) (vm_page_use_str (use (mypages s p))) p) (standby_pgq s)
      @ DirtyQueue # map (\<lambda>p. QueueLine (of_nat p) (vm_page_use_str (use (mypages s p))) p) (modified_pgq s)"
    using q [of QStandby] q [of QModified] by (simp add: vm_dump_pages_def page_line_def)
  show "\<exists>a f. vm_dump_page_summary s =
          [Summary a (of_nat (length (modified_pgq s))) (of_nat (length (standby_pgq s))) f]
        \<and> a + of_nat (length (modified_pgq s)) + of_nat (length (standby_pgq s)) = of_nat (length (used_pages s))"
    unfolding vm_dump_page_summary_def using summary_counts_used [OF assms(1)] by auto
  show "let w = wsl (procs s ps); es = entries w in
        vmp_wsl_dump ps s = WslCounts (nentries w) (nlocked w)
          # AllEntries # map (\<lambda>e. EntryLine (wsle_vaddr e)) es
          @ DynamicEntries # map (\<lambda>e. EntryLine (wsle_vaddr e)) (wsl_queue w)
        \<and> sorted_wrt (<) (map wsle_vaddr es) \<and> distinct (wsl_queue w) \<and> set (wsl_queue w) \<subseteq> set es
        \<and> nlocked w = of_nat (length es - length (wsl_queue w))"
    unfolding Let_def using wsl_dump_lists [OF assms(2)] by blast
qed

theorem reports_agree_with_state_witness:
  "\<exists>s. pfndb s \<and> nlocked (wsl (procs s 0)) = 1
     \<and> (1 :: size_t) = of_nat (length (entries (wsl (procs s 0))) - length (wsl_queue (wsl (procs s 0))))
     \<and> sorted_wrt (<) (map wsle_vaddr (entries (wsl (procs s 0))))"
proof -
  let ?s = "wsl_update_ps 0 (\<lambda>_. sample_wsl) sample_pages"
  have q: "queue_of q ?s = queue_of q sample_pages" for q by (cases q) simp_all
  have db: "pfndb ?s"
    using sample_pages_pfndb pfndb_cong [of ?s sample_pages, OF _ q] by simp
  have w: "wsl (procs ?s 0) = sample_wsl" "nlocked sample_wsl = 1" by (simp_all add: sample_wsl_def)
  then show ?thesis
    using reports_agree_with_state [OF db, of 0] sample_wsl_ok db unfolding Let_def by (intro exI [of _ ?s]) simp
qed

end
