(* ===== verification/Main_Run.thy ===== *)
theory Main_Run
  imports Low_Memory Diagnostics
begin

text \<open>
  The whole of \<^verbatim>\<open>main\<close> (\<^verbatim>\<open>main.c\<close>): start-up, the sequence of write accesses through the simulated MMU, and
  the reports at the end. The other threads act while a fault waits for memory. The accesses to the first
  row of pages, and the first one of the second row, complete without any waiting.
\<close>

section \<open>The program\<close>

definition main_accesses :: "vaddr list" where
  "main_accesses = concat (map (\<lambda>i. map (\<lambda>j. 4294967296 * of_nat i + of_nat (PGSIZE * j)) [0..<15]) [0..<10])"

inductive accesses ::
    "(backing \<times> vmm \<Rightarrow> backing \<times> vmm \<Rightarrow> bool) \<Rightarrow> fault_env \<Rightarrow> vaddr list \<Rightarrow> backing \<times> vmm \<Rightarrow> backing \<times> vmm \<Rightarrow> bool"
  for others env where
  accesses_end: "accesses others env [] fs fs"
| accesses_next: "access others env v True fs (pa, fs') \<Longrightarrow> accesses others env vs fs' r \<Longrightarrow>
     accesses others env (v # vs) fs r"

inductive_simps accesses_simps [simp]:
  "accesses others env [] fs r"
  "accesses others env (v # vs) fs r"

text \<open>\<open>fd\<close> is the result of opening the page file; the result is what the reports print.\<close>

inductive sim_main ::
    "(backing \<times> vmm \<Rightarrow> backing \<times> vmm \<Rightarrow> bool) \<Rightarrow> fault_env \<Rightarrow> int \<Rightarrow> backing \<times> vmm \<Rightarrow> line list \<Rightarrow> bool"
  for others env fd where
  sim_main: "main_init fd s = Ok s1 \<Longrightarrow> accesses others env main_accesses (file, s1) (file', t) \<Longrightarrow>
     sim_main others env fd (file, s) (vmp_wsl_dump 0 t @ vm_dump_pages t @ vm_dump_page_summary t)"

section \<open>An access to a page that is not paged out\<close>

text \<open>Nothing has been evicted: an entry is empty or valid.\<close>

definition none_evicted :: "vmm \<Rightarrow> bool" where
  "none_evicted s \<longleftrightarrow> (\<forall>v. leaf_entry 0 v s = 0 \<or> pte_valid (leaf_entry 0 v s))"

lemma none_evicted_validated: "none_evicted s \<Longrightarrow> validated s t \<Longrightarrow> none_evicted t"
  unfolding none_evicted_def validated_def by metis

lemma valid_not_swap: "pte_valid e \<Longrightarrow> vmp_pte_characterise e \<noteq> Ok kPTEKindSwap"
  by (auto simp: vmp_pte_characterise_def)

lemma write_access_need:
  assumes s: "space_ok (\<lambda>_. 0) 0 s" and k: "plenty (k + (tables_need v s + 1)) 0 s" and n: "none_evicted s"
    and vad: "vmp_ps_vad_find (fe_key env) 0 v s = Some main_vad" and v: "low_vaddr v" "v \<notin> direct_map s"
  obtains t a q where "\<forall>r. access others env v True (file, s) r \<longleftrightarrow> r = (q * PGSIZE + vmp_addr_unpack v ! 0, file, t)"
    and "space_ok (\<lambda>_. 0) 0 t" and "plenty k 0 t" and "maps_anon 0 v a q t" and "none_evicted t"
    and "\<forall>u off. off < PGSIZE \<longrightarrow> vm_word 0 u off t = vm_word 0 u off s"
    and "\<forall>u b p. maps_anon 0 u b p s \<longrightarrow> maps_anon 0 u b p t"
    and "vad_tree (procs t 0) = vad_tree (procs s 0)" and "direct_map t = direct_map s"
proof (cases "pte_valid (leaf_entry 0 v s) \<and> vmp_pte_hw_is_writeable (leaf_entry 0 v s)")
  case True
  then have valid: "pte_valid (leaf_entry 0 v s)" by simp
  obtain a q where m: "maps_anon 0 v a q s" "leaf_entry 0 v s = SOFT_pages s a" by (rule valid_entry_maps [OF s valid])
  with True have "True \<longrightarrow> vmp_pte_hw_is_writeable (SOFT_pages s a)" by simp
  then show thesis by (intro that [OF _ s plenty_mono [OF k] m(1) n]) (simp_all add: access_mapped [OF s m(1)])
next
  case False
  then have miss: "\<not> (pte_valid (leaf_entry 0 v s) \<and> (True \<longrightarrow> vmp_pte_hw_is_writeable (leaf_entry 0 v s)))" by simp
  have e: "leaf_entry 0 v s = 0 \<or> pte_valid (leaf_entry 0 v s)" using n by (simp add: none_evicted_def)
  then have ns: "vmp_pte_characterise (leaf_entry 0 v s) \<noteq> Ok kPTEKindSwap" using valid_not_swap by auto
  have mv: "vad_section main_vad = None" "\<not> vad_cow main_vad" by (simp_all add: main_vad_def)
  obtain t a q where f: "do_fault env v True (None, file, s) = Ok (0, None, file, t)" "space_ok (\<lambda>_. 0) 0 t"
    "plenty k 0 t" "maps_anon 0 v a q t" "SOFT_pages t a = resolved_entry True main_vad (leaf_entry 0 v s) q"
    "\<forall>u off. off < PGSIZE \<longrightarrow> vm_word 0 u off t = vm_word 0 u off s"
    "\<forall>u b p. maps_anon 0 u b p s \<longrightarrow> maps_anon 0 u b p t" "vad_tree (procs t 0) = vad_tree (procs s 0)"
    "direct_map t = direct_map s" "validated s t"
    by (rule do_fault_need [OF s k vad mv v ns, of True "file"])
  have w: "True \<longrightarrow> vmp_pte_hw_is_writeable (SOFT_pages t a)"
    using f(5) e by (auto simp: resolved_entry_def main_vad_def)
  have "\<forall>r. access others env v True (file, s) r \<longleftrightarrow> r = (q * PGSIZE + vmp_addr_unpack v ! 0, file, t)"
    using access_faults(1) [OF s miss f(1)] access_mapped [OF f(2,4) w] by blast
  from that [OF this f(2-4) none_evicted_validated [OF n f(10)] f(6-9)] show thesis .
qed

section \<open>A row of pages\<close>

text \<open>Addresses with the same tables.\<close>

definition same_tables :: "vaddr \<Rightarrow> vaddr \<Rightarrow> bool" where
  "same_tables w v \<longleftrightarrow> (\<forall>k. 2 \<le> k \<and> k \<le> Suc 3 \<longrightarrow> vmp_addr_unpack w ! k = vmp_addr_unpack v ! k)"

lemma same_tables_fetch:
  assumes "same_tables w v" and "maps_anon 0 v b p s"
  shows "vmp_fetch_pte 0 w s \<noteq> Ok None"
proof -
  have l4: "VMP_TABLE_LEVELS = Suc 3" by simp
  have "vmp_fetch_pte 0 v s = Ok (Some b)" using assms(2) by (simp add: maps_anon_def)
  from fetch_same_dirs [OF assms(1) [unfolded same_tables_def] this [unfolded vmp_fetch_pte_def l4]]
  show ?thesis unfolding vmp_fetch_pte_def l4 by auto
qed

text \<open>What holds after start-up and is kept by the accesses.\<close>

definition running :: "vaddr set \<Rightarrow> nat \<Rightarrow> vmm \<Rightarrow> bool" where
  "running D k s \<longleftrightarrow> space_ok (\<lambda>_. 0) 0 s \<and> plenty k 0 s \<and> none_evicted s \<and> direct_map s = D \<and>
     vad_tree (procs s 0) = Elm False False Null main_vad Null \<and>
     (\<forall>v off. off < PGSIZE \<longrightarrow> vm_word 0 v off s = Some 0)"

lemma main_access:
  assumes s: "running D (k + (tables_need v s + 1)) s" and v: "v < 0x2000000000" "v \<notin> D"
  obtains t a q where "\<forall>r. access others env v True (file, s) r \<longleftrightarrow> r = (q * PGSIZE + vmp_addr_unpack v ! 0, file, t)"
    and "running D k t" and "maps_anon 0 v a q t" and "\<forall>u b p. maps_anon 0 u b p s \<longrightarrow> maps_anon 0 u b p t"
proof -
  note R = s [unfolded running_def]
  have ok: "space_ok (\<lambda>_. 0) 0 s" and k: "plenty (k + (tables_need v s + 1)) 0 s" and n: "none_evicted s"
    and dm: "v \<notin> direct_map s" and tree: "vad_tree (procs s 0) = Elm False False Null main_vad Null"
    using R v(2) by auto
  have vad: "vmp_ps_vad_find (fe_key env) 0 v s = Some main_vad" using main_vad_find [OF tree] v(1) by simp
  have low: "low_vaddr v" using v(1) by (simp add: low_vaddr_def word_less_nat_alt)
  obtain t a q where t: "\<forall>r. access others env v True (file, s) r \<longleftrightarrow> r = (q * PGSIZE + vmp_addr_unpack v ! 0, file, t)"
    "space_ok (\<lambda>_. 0) 0 t" "plenty k 0 t" "maps_anon 0 v a q t" "none_evicted t"
    "\<forall>u off. off < PGSIZE \<longrightarrow> vm_word 0 u off t = vm_word 0 u off s"
    "\<forall>u b p. maps_anon 0 u b p s \<longrightarrow> maps_anon 0 u b p t"
    "vad_tree (procs t 0) = vad_tree (procs s 0)" "direct_map t = direct_map s"
    by (rule write_access_need [OF ok k n vad low dm])
  then have "running D k t" using R by (simp add: running_def)
  from that [OF t(1) this t(4,7)] show thesis .
qed

lemma main_row:
  assumes "running D (k + length vs) s" and "maps_anon 0 v0 b p s"
    and "\<forall>v \<in> set vs. same_tables v v0 \<and> v < 0x2000000000 \<and> v \<notin> D"
  obtains t where "\<forall>r. accesses others env vs (file, s) r \<longleftrightarrow> r = (file, t)" and "running D k t"
    and "\<forall>v \<in> set vs. \<exists>a q. maps_anon 0 v a q t" and "\<forall>u b p. maps_anon 0 u b p s \<longrightarrow> maps_anon 0 u b p t"
  using assms
proof (induction vs arbitrary: s thesis)
  case (Cons v vs)
  have n: "tables_need v s = 0" using same_tables_fetch [of v v0] Cons.prems(3,4) by (simp add: tables_need_def)
  have s: "running D ((k + length vs) + (tables_need v s + 1)) s" using Cons.prems(2) by (simp add: n)
  have v: "v < 0x2000000000" "v \<notin> D" using Cons.prems(4) by auto
  obtain t1 a q where t1: "\<forall>r. access others env v True (file, s) r \<longleftrightarrow> r = (q * PGSIZE + vmp_addr_unpack v ! 0, file, t1)"
    "running D (k + length vs) t1" "maps_anon 0 v a q t1" "\<forall>u b p. maps_anon 0 u b p s \<longrightarrow> maps_anon 0 u b p t1"
    by (rule main_access [OF s v])
  have m: "maps_anon 0 v0 b p t1" using t1(4) Cons.prems(3) by blast
  obtain t where t: "\<forall>r. accesses others env vs (file, t1) r \<longleftrightarrow> r = (file, t)" "running D k t"
    "\<forall>v \<in> set vs. \<exists>a q. maps_anon 0 v a q t" "\<forall>u b p. maps_anon 0 u b p t1 \<longrightarrow> maps_anon 0 u b p t"
    by (rule Cons.IH [OF _ t1(2) m]) (use Cons.prems(4) in auto)
  show ?case
  proof (rule Cons.prems(1) [OF _ t(2)])
    show "\<forall>r. accesses others env (v # vs) (file, s) r \<longleftrightarrow> r = (file, t)" using t1(1) t(1) by auto
    have "maps_anon 0 v a q t" using t(4) t1(3) by blast
    then show "\<forall>w \<in> set (v # vs). \<exists>a q. maps_anon 0 w a q t" using t(3) by auto
    show "\<forall>u b p. maps_anon 0 u b p s \<longrightarrow> maps_anon 0 u b p t" using t(4) t1(4) by blast
  qed
qed auto

section \<open>The first accesses of the program\<close>

lemma accesses_append:
  "accesses others env (vs @ ws) fs r \<longleftrightarrow> (\<exists>m. accesses others env vs fs m \<and> accesses others env ws m r)"
  by (induction vs arbitrary: fs) (simp, simp del: split_paired_Ex, blast)

lemma running_mono: "running D k s \<Longrightarrow> j \<le> k \<Longrightarrow> running D j s"
  using plenty_mono by (auto simp: running_def)

lemma first_accesses:
  "take 16 main_accesses = 0 # map (\<lambda>i. of_nat (i * PGSIZE)) [1..<15] @ [0x100000000]"
proof -
  have u: "[0..<10] = 0 # 1 # [2..<10 :: nat]" "[0..<15] = 0 # [1..<15 :: nat]"
    by (simp_all add: upt_conv_Cons)
  show ?thesis by (simp add: main_accesses_def u mult.commute del: upt_rec_numeral)
qed

lemma main_accesses_range:
  assumes "v \<in> set main_accesses"
  shows "v < 0x2000000000"
  using assms
proof -
  obtain i j :: nat where v: "v = 4294967296 * of_nat i + of_nat (PGSIZE * j)" "i < 10" "j < 15"
    using assms by (auto simp: main_accesses_def)
  have e: "v = of_nat (4294967296 * i + PGSIZE * j)" by (simp add: v(1))
  have "unat v = 4294967296 * i + PGSIZE * j" unfolding e by (subst unat_of_nat) (use v(2,3) in simp)
  then show ?thesis using v(2,3) by (simp add: word_less_nat_alt)
qed

lemma length_main_accesses: "length main_accesses = 150"
  by (simp add: main_accesses_def length_concat comp_def sum_list_triv)

text \<open>C12. With the simulated memory based anywhere from \<open>0x2000000000\<close> (above the addresses of the process)
  to below \<open>2^62\<close>, the program starts up and its first 16 accesses, which touch two ranges of tables,
  complete without waiting for any other thread and have one possible outcome: the address space is
  consistent, each of the pages is mapped, and every word of every page of memory reads as zero.\<close>

theorem main_first_accesses:
  assumes "fd \<noteq> - 1" and "0x2000000000 \<le> base" and "base < 2 ^ 62"
  shows "\<exists>s t. main_init fd (boot_state base) = Ok s
    \<and> (\<forall>r. accesses others env (take 16 main_accesses) (file, s) r \<longleftrightarrow> r = (file, t))
    \<and> space_ok (\<lambda>_. 0) 0 t \<and> (\<forall>v \<in> set (take 16 main_accesses). \<exists>a q. maps_anon 0 v a q t)
    \<and> (\<forall>v off. off < PGSIZE \<longrightarrow> vm_word 0 v off t = Some 0)"
proof -
  obtain s where s: "main_init fd (boot_state base) = Ok s" "space_ok (\<lambda>_. 0) 0 s" "plenty 22 0 s"
    "vad_tree (procs s 0) = Elm False False Null main_vad Null" "SOFT_pages_base s = base" "\<forall>v. leaf_entry 0 v s = 0"
    by (rule main_init_ok [OF assms(3,1)])
  let ?D = "direct_map s" and ?row = "map (\<lambda>i. of_nat (i * PGSIZE)) [1..<15] :: vaddr list"
  have run: "running ?D 22 s" using s vm_word_zero by (simp add: running_def none_evicted_def)
  have dm: "v \<notin> ?D" if "v < 0x2000000000" for v
    using below_direct_map [OF s(2), of v] that assms(2) by (simp add: s(5))
  have r0: "running ?D (18 + (tables_need 0 s + 1)) s" by (rule running_mono [OF run]) (simp add: tables_need_def)
  obtain t0 a0 q0 where t0: "\<forall>r. access others env 0 True (file, s) r \<longleftrightarrow> r = (q0 * PGSIZE + vmp_addr_unpack 0 ! 0, file, t0)"
    "running ?D 18 t0" "maps_anon 0 0 a0 q0 t0"
    by (rule main_access [OF r0 _ dm]) simp_all
  have r1: "running ?D (4 + length ?row) t0" using t0(2) by simp
  have row: "\<forall>v \<in> set ?row. same_tables v 0 \<and> v < 0x2000000000 \<and> v \<notin> ?D"
  proof
    fix v assume "v \<in> set ?row"
    then obtain i where i: "i < 15" "v = of_nat (i * PGSIZE)" by auto
    have "v \<in> set main_accesses" using \<open>v \<in> set ?row\<close> first_accesses set_take_subset [of 16 main_accesses] by auto
    then have "v < 0x2000000000" by (rule main_accesses_range)
    moreover have "same_tables v 0" unfolding same_tables_def
      using unpack_page [of i] unpack_page [of 0] i by (auto simp: nth_Cons split: nat.splits)
    ultimately show "same_tables v 0 \<and> v < 0x2000000000 \<and> v \<notin> ?D" using dm by blast
  qed
  obtain t1 where t1: "\<forall>r. accesses others env ?row (file, t0) r \<longleftrightarrow> r = (file, t1)" "running ?D 4 t1"
    "\<forall>v \<in> set ?row. \<exists>a q. maps_anon 0 v a q t1" "\<forall>u b p. maps_anon 0 u b p t0 \<longrightarrow> maps_anon 0 u b p t1"
    by (rule main_row [OF r1 t0(3) row])
  have r2: "running ?D (0 + (tables_need 0x100000000 t1 + 1)) t1" by (rule running_mono [OF t1(2)]) (simp add: tables_need_def)
  obtain t a q where t: "\<forall>r. access others env 0x100000000 True (file, t1) r \<longleftrightarrow>
      r = (q * PGSIZE + vmp_addr_unpack 0x100000000 ! 0, file, t)"
    "running ?D 0 t" "maps_anon 0 0x100000000 a q t" "\<forall>u b p. maps_anon 0 u b p t1 \<longrightarrow> maps_anon 0 u b p t"
    by (rule main_access [OF r2 _ dm]) simp_all
  have "accesses others env (take 16 main_accesses) (file, s) r \<longleftrightarrow> r = (file, t)" for r
    unfolding first_accesses using t0(1) t1(1) t(1) by (auto simp: accesses_append simp del: upt_rec_numeral)
  moreover have "\<exists>a q. maps_anon 0 v a q t" if "v \<in> set (take 16 main_accesses)" for v
    using that t0(3) t1(3,4) t(3,4) unfolding first_accesses set_append set_simps by blast
  ultimately show ?thesis using s(1) t(2) unfolding running_def by blast
qed

theorem main_first_accesses_witness:
  "\<exists>s t. main_init 3 (boot_state 0x10000000000) = Ok s
     \<and> accesses (\<lambda>_ _. False) \<lparr>fe_key = main_vad, fe_iop = sample_iop, fe_pager = 0\<rparr> (take 16 main_accesses)
         (empty_file, s) (empty_file, t)
     \<and> vm_word 0 0x7000 8 t = Some 0"
proof -
  obtain s t where "main_init 3 (boot_state 0x10000000000) = Ok s"
    "\<forall>r. accesses (\<lambda>_ _. False) \<lparr>fe_key = main_vad, fe_iop = sample_iop, fe_pager = 0\<rparr> (take 16 main_accesses)
         (empty_file, s) r \<longleftrightarrow> r = (empty_file, t)" "\<forall>v off. off < PGSIZE \<longrightarrow> vm_word 0 v off t = Some 0"
    using main_first_accesses [of 3 "0x10000000000" "\<lambda>_ _. False"
        "\<lparr>fe_key = main_vad, fe_iop = sample_iop, fe_pager = 0\<rparr>" empty_file] by auto
  moreover from this(3) have "vm_word 0 0x7000 8 t = Some 0" by simp
  ultimately show ?thesis by blast
qed

end
