(* ===== verification/Memory_Returns.thy ===== *)
theory Memory_Returns
  imports Memory_Refinement Main_Run
begin

text \<open>
  Memory comes back: a fault that found no memory is resolved after the page writer has cleaned the modified
  pages. The thread sleeps in \<^verbatim>\<open>vm_fault\<close> until the sufficient-pages event is set; the page writer sets it
  when it releases its pages (\<^verbatim>\<open>vmp_page_release_locked\<close>), and the handler runs again.
\<close>

section \<open>A pass of the page writer as what the other threads do\<close>

definition page_writer_pass :: "backing \<times> vmm \<Rightarrow> backing \<times> vmm \<Rightarrow> bool" where
  "page_writer_pass fs ft \<longleftrightarrow>
     (\<exists>pw pw'. packets_ok pw \<and> vmp_pgwriter (pw, fst fs, snd fs) = Ok (pw', fst ft, snd ft))"

text \<open>When cleaning helps: a page is free, and the free, standby and modified pages together are at least twice
  the minimum for an allocation and more than either limit, by one page; and the limit of the working
  set is far from its largest value.\<close>

definition cleaning_helps :: "vmm \<Rightarrow> bool" where
  "cleaning_helps s \<longleftrightarrow> (let n = length (free_pgq s) + length (standby_pgq s) + length (modified_pgq s);
       w = wsl (procs s 0); c = ws_page_expansion_count (vmparam s) in
     free_pgq s \<noteq> [] \<and> 2 * unat (min_avail_for_alloc (vmparam s)) \<le> n \<and>
     1 + max (unat (min_avail_for_alloc (vmparam s))) (unat (min_avail_for_expansion (vmparam s))) < n \<and>
     nentries w \<le> wsl_max w \<and> 0 < c \<and> unat (wsl_max w) + 2 * unat c < 2 ^ 64)"

lemma queue_length_same:
  assumes "pfndb s" and "pfndb t" and "mypages t = mypages s"
  shows "length (queue_of q t) = length (queue_of q s)"
proof -
  have "length (queue_of q u) = card (members (mypages u) (Some q))" if "pfndb u" for u
    using that unfolding pfndb_def by (metis distinct_card)
  then show ?thesis using assms by simp
qed

lemma queue_lengths_bound:
  assumes "pfndb s"
  shows "length (free_pgq s) + length (standby_pgq s) + length (modified_pgq s) \<le> SOFT_NPAGES"
proof -
  have q: "set (queue_of q s) = {p. p < SOFT_NPAGES \<and> place (mypages s p) = Some q}" "distinct (queue_of q s)" for q
    using pfndb_queue_iff [OF assms] assms by (auto simp: pfndb_def)
  have "distinct (queue_of QFree s @ queue_of QStandby s @ queue_of QModified s)"
    using q(2) unfolding distinct_append q(1) set_append by (auto simp del: queue_of.simps)
  then have "length (queue_of QFree s @ queue_of QStandby s @ queue_of QModified s)
      = card (set (queue_of QFree s @ queue_of QStandby s @ queue_of QModified s))" by (rule distinct_card [symmetric])
  also have "\<dots> \<le> card {..<SOFT_NPAGES}" by (rule card_mono) (auto simp: q(1) simp del: queue_of.simps)
  finally show ?thesis by simp
qed

text \<open>The state the failed attempt leaves.\<close>

lemma failed_attempt:
  assumes s: "space_ok (\<lambda>_. 0) 0 s" "paging_inv s file" and h: "cleaning_helps s" and short: "vmp_page_shortage s"
    and u: "space_ok (\<lambda>_. 0) 0 u" "mypages u = mypages s" "SOFT_pages u = SOFT_pages s" "tables_frame 0 s u" "alarmed s u"
  shows "paging_inv u file" and "cleaning_helps u" and "waiters_told u"
proof -
  note F = tables_frameD [OF u(4)] and db = space_okD(1) [OF s(1)] space_okD(1) [OF u(1)]
  show "paging_inv u file" by (rule data_kept_paging [OF data_kept_same s(2)]) (use u(2,3) F(10) in simp_all)
  have len: "length (free_pgq u) = length (free_pgq s)" "length (standby_pgq u) = length (standby_pgq s)"
    "length (modified_pgq u) = length (modified_pgq s)"
    using queue_length_same [OF db u(2), of QFree] queue_length_same [OF db u(2), of QStandby]
      queue_length_same [OF db u(2), of QModified] by simp_all
  moreover have "free_pgq u \<noteq> [] \<longleftrightarrow> free_pgq s \<noteq> []" using len(1) by (metis length_0_conv)
  ultimately show hu: "cleaning_helps u" using h F(3,5,6) by (simp add: cleaning_helps_def Let_def)
  let ?A = "min_avail_for_alloc (vmparam s)"
  have n: "2 * unat ?A \<le> SOFT_NPAGES"
    using h queue_lengths_bound [OF db(1)] by (simp add: cleaning_helps_def Let_def)
  have "unat (?A * 2) = unat ?A * 2" using n by (simp add: unat_word_ariths(2))
  moreover have "unat (nfree (vmstat s) + nstandby (vmstat s)) \<le> unat ?A"
    using short by (simp add: vmp_page_shortage_def word_le_nat_alt)
  moreover have "unat (nfree (vmstat u) + nstandby (vmstat u)) = unat (nfree (vmstat s) + nstandby (vmstat s))"
    using avail_count [OF db(1)] avail_count [OF db(2)] len by simp
  moreover have "0 < unat (nfree (vmstat s) + nstandby (vmstat s))"
    using h avail_count [OF db(1)] by (simp add: cleaning_helps_def Let_def)
  ultimately have "\<not> vmp_page_sufficience u" using F(3) by (simp add: vmp_page_sufficience_def word_le_nat_alt)
  then show "waiters_told u" using u(5) by (simp add: waiters_told_def alarmed_def)
qed

text \<open>What a pass leaves when it starts there.\<close>

lemma pass_makes_memory:
  assumes u: "space_ok (\<lambda>_. 0) 0 u" "paging_inv u file" "cleaning_helps u" "waiters_told u"
    and p: "page_writer_pass (file, u) (file', t)"
  shows "space_ok (\<lambda>_. 0) 0 t" and "same_memory u t" and "plenty 1 0 t" and "vmp_sufficient_pages_event t"
    and "leaf_entry 0 v t = leaf_entry 0 v u"
proof -
  obtain pw pw' where pw: "packets_ok pw" "vmp_pgwriter (pw, file, u) = Ok (pw', file', t)"
    using p by (auto simp: page_writer_pass_def)
  note P = pass_paging [OF u(1,2) pw]
  show "space_ok (\<lambda>_. 0) 0 t" "leaf_entry 0 v t = leaf_entry 0 v u" by (rule P(1), rule P(2))
  obtain x where x: "same_memory u t" "standby_pgq t = standby_pgq u @ modified_pgq u" "free_pgq t = free_pgq u"
    "waiters_told u \<longrightarrow> waiters_told t"
    by (rule pgwriter_pass_ok [OF paging_ready [OF u(1,2)] pw(1), of "file"]) (use pw(2) in simp)
  show m: "same_memory u t" by (rule x(1))
  then show "plenty 1 0 t"
    using u(3) x(2,3) by (cases "free_pgq u") (simp_all add: same_memory_def cleaning_helps_def plenty_def Let_def)
  let ?A = "min_avail_for_alloc (vmparam t)" and ?n = "length (free_pgq t) + length (standby_pgq t)"
  have n: "2 * unat ?A \<le> ?n" using u(3) m x(2,3) by (simp add: same_memory_def cleaning_helps_def Let_def)
  moreover have "?n \<le> SOFT_NPAGES" using queue_lengths_bound [OF space_okD(1) [OF P(1)]] by simp
  ultimately have "unat (?A * 2) = unat ?A * 2" by (simp add: unat_word_ariths(2))
  then have "vmp_page_sufficience t"
    using n avail_count [OF space_okD(1) [OF P(1)]] by (simp add: vmp_page_sufficience_def word_le_nat_alt)
  then show "vmp_sufficient_pages_event t" using x(4) u(4) by (simp add: waiters_told_def)
qed

section \<open>The fault is resolved\<close>

lemma page_writer_passes:
  assumes u: "space_ok (\<lambda>_. 0) 0 u" "paging_inv u file"
  shows "\<exists>ft. page_writer_pass (file, u) ft"
proof -
  have pw: "packets_ok (pgwriter_start (replicate MAX_IOPS sample_iop))" by (rule pgwriter_start_packets) simp
  obtain pw' file' t where "vmp_pgwriter (pgwriter_start (replicate MAX_IOPS sample_iop), file, u) = Ok (pw', file', t)"
    by (rule pgwriter_pass_ok [OF paging_ready [OF u] pw])
  then have "page_writer_pass (file, u) (file', t)" using pw by (auto simp: page_writer_pass_def)
  then show ?thesis ..
qed

text \<open>The attempt after the pass.\<close>

lemma second_attempt:
  assumes s: "space_ok (\<lambda>_. 0) 0 u" "paging_inv u file" "cleaning_helps u" "waiters_told u"
    and p: "page_writer_pass (file, u) (file', t)"
    and vad: "vmp_ps_vad_find (fe_key env) 0 v u = Some vad" "vad_section vad = None" "\<not> vad_cow vad"
    and f: "vmp_fetch_pte 0 v u = Ok (Some a)" "SOFT_pages u a = 0" and v: "low_vaddr v" "v \<notin> direct_map u"
  obtains r b q where "do_fault env v wr (None, file', t) = Ok (0, None, file', r)" and "space_ok (\<lambda>_. 0) 0 r"
    and "maps_anon 0 v b q r" and "\<forall>x off. off < PGSIZE \<longrightarrow> vm_word 0 x off r = vm_word 0 x off u"
proof -
  note T = pass_makes_memory [OF s p]
  have m: "SOFT_pages t = SOFT_pages u" "procs t = procs u" "SOFT_pages_base t = SOFT_pages_base u"
    using T(2) by (simp_all add: same_memory_def)
  have fetch: "vmp_fetch_pte 0 v t = vmp_fetch_pte 0 v u"
    using fetch_level_cong [OF m(1)] m(2) by (simp add: vmp_fetch_pte_def)
  have k: "plenty (0 + (tables_need v t + 1)) 0 t" using T(3) f(1) fetch by (simp add: tables_need_def)
  have vad': "vmp_ps_vad_find (fe_key env) 0 v t = Some vad" using vad(1) m(2) by (simp add: vmp_ps_vad_find_def)
  have dm: "v \<notin> direct_map t" using v(2) direct_map_cong [OF space_okD(1) [OF s(1)] space_okD(1) [OF T(1)] m(3)] by simp
  have e: "leaf_entry 0 v t = 0" using T(5) [of v] f by (simp add: leaf_entry_def)
  obtain r b q where r: "do_fault env v wr (None, file', t) = Ok (0, None, file', r)" "space_ok (\<lambda>_. 0) 0 r"
    "maps_anon 0 v b q r" "\<forall>x off. off < PGSIZE \<longrightarrow> vm_word 0 x off r = vm_word 0 x off t"
    by (rule do_fault_need [OF T(1) k vad' vad(2,3) v(1) dm, of wr file']) (simp_all add: e)
  have "vm_word 0 x off t = vm_word 0 x off u" for x off by (rule vm_word_same [OF T(5) m(1)])
  with r that show thesis by simp
qed

section \<open>A full house\<close>

text \<open>The pages of the first row: \<open>I\<close> are the numbers of those that are mapped, dirty and evictable.\<close>

definition row_vaddr :: "nat \<Rightarrow> vaddr" where
  "row_vaddr i = of_nat (i * PGSIZE)"

definition crowded :: "backing \<Rightarrow> nat set \<Rightarrow> vmm \<Rightarrow> bool" where
  "crowded file I s \<longleftrightarrow> manager_inv (file, s) \<and> (\<exists>a q. maps_anon 0 0x5008 a q s) \<and>
     vad_tree (procs s 0) = Elm False False Null main_vad Null \<and> (\<forall>v < 0x10000000000. v \<notin> direct_map s) \<and>
     I \<subseteq> {..<512} \<and> (\<forall>i \<in> I. \<exists>a q. maps_anon 0 (row_vaddr i) a q s \<and> \<not> quiet s q \<and>
       \<lparr>wsle_vaddr = row_vaddr i, is_pagetable = False\<rparr> \<in> set (wsl_queue (wsl (procs s 0))))"

lemma row_vaddr_bounds:
  assumes "i < 512"
  shows "row_vaddr i < 0x2000000000" and "row_vaddr i < 0x10000000000" and "low_vaddr (row_vaddr i)"
proof -
  have "unat (row_vaddr i) = i * PGSIZE" unfolding row_vaddr_def by (subst unat_of_nat) (use assms in simp)
  then show "row_vaddr i < 0x2000000000" "row_vaddr i < 0x10000000000" "low_vaddr (row_vaddr i)"
    using assms by (simp_all add: word_less_nat_alt low_vaddr_def)
qed

lemma in_data_queue: "e \<in> set (data_queue w) \<longleftrightarrow> e \<in> set (wsl_queue w) \<and> \<not> is_pagetable e"
  by (simp add: data_queue_def)

text \<open>An untouched page of the row, and what is known about it.\<close>

lemma crowded_untouched:
  assumes c: "crowded file I s"
  obtains d i where "i < 512" and "i \<notin> I" and "leaf_entry 0 (row_vaddr i) s = 0"
    and "vmp_fetch_pte 0 (row_vaddr i) s = Ok (Some (pte_at d i))" and "SOFT_pages s (pte_at d i) = 0"
    and "\<forall>j < 512. vmp_fetch_pte 0 (row_vaddr j) s = Ok (Some (pte_at d j))"
    and "0 < live_ptes (\<lambda>v. v \<noteq> 0) d s"
proof -
  have S: "space_ok (\<lambda>_. 0) 0 s" "\<forall>v. vm_word 0 v 0 s \<noteq> None" using c by (simp_all add: crowded_def manager_inv_def)
  obtain a q where m: "maps_anon 0 0x5008 a q s" using c by (auto simp: crowded_def)
  obtain d where d: "table_at 0 s (Suc 0) d" "a = pte_at d 5"
    "\<forall>i < 512. vmp_fetch_pte 0 (of_nat (i * PGSIZE)) s = Ok (Some (pte_at d i))" by (rule row_entries [OF S(1) m])
  obtain i where i: "i < 512" "SOFT_pages s (pte_at d i) = 0" by (rule untouched_entry [OF S(1) d(1,3) S(2)])
  have row: "\<forall>j < 512. vmp_fetch_pte 0 (row_vaddr j) s = Ok (Some (pte_at d j))" using d(3) by (simp add: row_vaddr_def)
  have "i \<notin> I"
  proof
    assume "i \<in> I"
    then obtain b p where "maps_anon 0 (row_vaddr i) b p s" using c by (auto simp: crowded_def)
    then show False using row i by (auto simp: maps_anon_def)
  qed
  moreover have "SOFT_pages s a \<noteq> 0" using m by (auto simp: maps_anon_def)
  then have "0 < live_ptes (\<lambda>v. v \<noteq> 0) d s" using live_ptes_pos [of 5 "\<lambda>v. v \<noteq> 0" s d] d(2) by simp
  ultimately show thesis using that i row by (simp add: leaf_entry_def)
qed

lemma one_more:
  assumes c: "crowded file I s" and k: "plenty (Suc k) 0 s"
  shows "\<exists>t i. i \<notin> I \<and> crowded file (insert i I) t \<and> plenty k 0 t"
proof -
  note C = c [unfolded crowded_def]
  obtain d i where i: "i < 512" "i \<notin> I" "leaf_entry 0 (row_vaddr i) s = 0"
    "vmp_fetch_pte 0 (row_vaddr i) s = Ok (Some (pte_at d i))"
    by (rule crowded_untouched [OF c])
  let ?v = "row_vaddr i" and ?env = "\<lparr>fe_key = main_vad, fe_iop = undefined, fe_pager = 0\<rparr>"
  let ?e = "\<lparr>wsle_vaddr = ?v, is_pagetable = False\<rparr>"
  have S: "space_ok (\<lambda>_. 0) 0 s" using C by (simp add: manager_inv_def)
  have k': "plenty (k + (tables_need ?v s + 1)) 0 s" using k i(4) by (simp add: tables_need_def)
  have vad: "vmp_ps_vad_find (fe_key ?env) 0 ?v s = Some main_vad" "vad_section main_vad = None" "\<not> vad_cow main_vad"
    using C main_vad_find [of s] row_vaddr_bounds(1) [OF i(1)] by (simp_all add: main_vad_def)
  have dm: "?v \<notin> direct_map s" using C row_vaddr_bounds(2) [OF i(1)] by blast
  obtain t a q where t: "do_fault ?env ?v True (None, file, s) = Ok (0, None, file, t)" "space_ok (\<lambda>_. 0) 0 t"
    "plenty k 0 t" "maps_anon 0 ?v a q t" "SOFT_pages t a = resolved_entry True main_vad (leaf_entry 0 ?v s) q"
    "\<forall>u b p. maps_anon 0 u b p s \<longrightarrow> maps_anon 0 u b p t" "vad_tree (procs t 0) = vad_tree (procs s 0)"
    "direct_map t = direct_map s" "data_kept 0 s t"
    "leaf_entry 0 ?v s = 0 \<longrightarrow> vmp_fetch_pte 0 ?v s \<noteq> Ok None \<longrightarrow>
      data_queue (wsl (procs t 0)) = data_queue (wsl (procs s 0)) @ [?e]"
    by (rule do_fault_need [OF S k' vad row_vaddr_bounds(3) [OF i(1)] dm, of True "file"]) (simp_all add: i(3))
  have "manager_step (file, s) (file, t)"
    by (rule step_fault [OF plenty_mono [OF k'] vad row_vaddr_bounds(3) [OF i(1)] dm t(1)]) simp
  then have inv: "manager_inv (file, t)" using C kept_inv manager_step_kept by blast
  have q: "data_queue (wsl (procs t 0)) = data_queue (wsl (procs s 0)) @ [?e]" using t(10) i(3,4) by simp
  have old: "\<exists>a q. maps_anon 0 (row_vaddr j) a q t \<and> \<not> quiet t q \<and>
       \<lparr>wsle_vaddr = row_vaddr j, is_pagetable = False\<rparr> \<in> set (wsl_queue (wsl (procs t 0)))" if j: "j \<in> I" for j
  proof -
    obtain b p where b: "maps_anon 0 (row_vaddr j) b p s" "\<not> quiet s p"
      "\<lparr>wsle_vaddr = row_vaddr j, is_pagetable = False\<rparr> \<in> set (wsl_queue (wsl (procs s 0)))"
      using C j by meson
    have "private_page 0 s p" using maps_anon_leaf(1) [OF S b(1)] by (simp add: anon_at_def private_page_def)
    then have "\<not> quiet t p" using data_keptD(6) [OF t(9)] b(2) by blast
    moreover have "\<lparr>wsle_vaddr = row_vaddr j, is_pagetable = False\<rparr> \<in> set (data_queue (wsl (procs t 0)))"
      using b(3) q by (simp add: in_data_queue)
    ultimately show ?thesis using b(1) t(6) unfolding in_data_queue by blast
  qed
  have "referent_pte (mypages t q) = a" using maps_anon_leaf(1) [OF t(2,4)] by (simp add: anon_at_def)
  then have "\<not> quiet t q" using t(5) i(3) by (simp add: quiet_def resolved_entry_def main_vad_def)
  moreover have "?e \<in> set (data_queue (wsl (procs t 0)))" using q by simp
  then have "?e \<in> set (wsl_queue (wsl (procs t 0)))" unfolding in_data_queue by blast
  moreover have "\<exists>a q. maps_anon 0 0x5008 a q t" using C t(6) by meson
  moreover have "\<forall>v < 0x10000000000. v \<notin> direct_map t" using C t(8) by simp
  ultimately have "crowded file (insert i I) t"
    using C inv t(4,7) i(1) old unfolding crowded_def by simp blast
  with i(2) t(3) show ?thesis by blast
qed

lemma crowd:
  assumes "crowded file I s" and "finite I" and "plenty (n + k) 0 s"
  shows "\<exists>t J. crowded file J t \<and> finite J \<and> card J = card I + n \<and> plenty k 0 t"
  using assms
proof (induction n arbitrary: s I)
  case (Suc n)
  then obtain t i where t: "i \<notin> I" "crowded file (insert i I) t" "plenty (n + k) 0 t" using one_more [of "file" I s "n + k"] by auto
  then show ?case using Suc.IH [OF t(2) _ t(3)] Suc.prems(2) by auto
qed auto

text \<open>When the working set is emptied, all these pages are on the modified queue.\<close>

lemma emptied:
  assumes c: "crowded file I s" and k: "plenty 1 0 s" and ne: "I \<noteq> {}"
  obtains u d where "space_ok (\<lambda>_. 0) 0 u" and "paging_inv u file" and "\<forall>v. vm_word 0 v 0 u \<noteq> None"
    and "vad_tree (procs u 0) = Elm False False Null main_vad Null" and "\<forall>v < 0x10000000000. v \<notin> direct_map u"
    and "\<forall>j < 512. vmp_fetch_pte 0 (row_vaddr j) u = Ok (Some (pte_at d j))" and "\<exists>j < 512. SOFT_pages u (pte_at d j) \<noteq> 0"
    and "card I \<le> length (modified_pgq u)" and "free_pgq u \<noteq> []"
    and "nentries (wsl (procs u 0)) \<le> wsl_max (wsl (procs u 0))" and "unat (wsl_max (wsl (procs u 0))) + 2 < 2 ^ 64"
proof -
  note C = c [unfolded crowded_def]
  have S: "space_ok (\<lambda>_. 0) 0 s" "tables_busy 0 s" "paging_inv s file" "\<forall>v. vm_word 0 v 0 s \<noteq> None"
    using C by (simp_all add: manager_inv_def)
  obtain d where row: "\<forall>j < 512. vmp_fetch_pte 0 (row_vaddr j) s = Ok (Some (pte_at d j))"
    by (rule crowded_untouched [OF c])
  let ?q = "wsl_queue (wsl (procs s 0))"
  obtain u where u: "space_ok (\<lambda>_. 0) 0 u" "\<forall>p. use (mypages u p) = use (mypages s p)"
    "\<forall>v off. off < PGSIZE \<longrightarrow> vm_word 0 v off u = vm_word 0 v off s"
    "\<forall>e \<in> set (take (length ?q) ?q). vmp_pte_characterise (leaf_entry 0 (wsle_vaddr e) u) = Ok kPTEKindTrans"
    "data_kept 0 s u" "trim_frame 0 s u"
    by (rule trim_loop_ok [OF S(1) busy_prefix_is_data [OF S(1,2)], of 0 "length ?q"])
  note F = u(6) [unfolded trim_frame_def]
  have row': "\<forall>j < 512. vmp_fetch_pte 0 (row_vaddr j) u = Ok (Some (pte_at d j))" using row F by simp
  have mod: "\<exists>p. p \<in> set (modified_pgq u) \<and> referent_pte (mypages u p) = pte_at d j \<and> SOFT_pages u (pte_at d j) \<noteq> 0"
    if j: "j \<in> I" for j
  proof -
    have lt: "j < 512" using C j by auto
    obtain a p where p: "maps_anon 0 (row_vaddr j) a p s" "\<not> quiet s p"
      "\<lparr>wsle_vaddr = row_vaddr j, is_pagetable = False\<rparr> \<in> set ?q"
      using C j by meson
    have a: "a = pte_at d j" using p(1) row lt by (simp add: maps_anon_def)
    have tr: "vmp_pte_characterise (SOFT_pages u a) = Ok kPTEKindTrans"
      using u(4) p(3) row' lt by (fastforce simp: leaf_entry_def a)
    have "private_page 0 s p" "referent_pte (mypages s p) = a"
      using maps_anon_leaf(1) [OF S(1) p(1)] by (simp_all add: anon_at_def private_page_def)
    then have pu: "private_page 0 u p" "referent_pte (mypages u p) = a" "\<not> quiet u p"
      using data_keptD(3,6) [OF u(5)] p(2) F by auto
    obtain e i where e: "anon_at 0 u (pte_at e i) p" "(\<exists>w. SOFT_pages u (pte_at e i) = vmp_pte_hw_create (of_nat p) w) \<or>
       refcnt (mypages u p) = 0"
      using space_okD(13) [OF u(1)] pu(1) unfolding backlinks_ok_def backlink_ok_def private_page_def by blast
    have "pte_at e i = a" using e(1) pu(2) by (simp add: anon_at_def)
    then have "refcnt (mypages u p) = 0" using e(2) tr by auto
    moreover have "\<not> pte_valid (SOFT_pages u a)" using tr by (auto simp: vmp_pte_characterise_def)
    then have "dirty (mypages u p)" using pu(2,3) by (simp add: quiet_def)
    ultimately have "p \<in> set (queue_of QModified u)"
      using pfndb_queue_iff [OF space_okD(1) [OF u(1)], of p QModified] pu(1) by (simp add: place_def private_page_def)
    moreover have "SOFT_pages u a \<noteq> 0" using tr by auto
    ultimately show ?thesis using pu(2) a by auto
  qed
  then obtain f where f: "\<And>j. j \<in> I \<Longrightarrow> f j \<in> set (modified_pgq u) \<and> referent_pte (mypages u (f j)) = pte_at d j" by metis
  have "inj_on f I"
  proof (rule inj_onI)
    fix i j assume ij: "i \<in> I" "j \<in> I" "f i = f j"
    then have "pte_at d i = pte_at d j" using f by metis
    moreover have "i < 512" "j < 512" using C ij by auto
    ultimately show "i = j" by (simp add: pte_at_eq_iff)
  qed
  moreover have "f ` I \<subseteq> set (modified_pgq u)" using f by blast
  ultimately have "card I \<le> card (set (modified_pgq u))" by (intro card_inj_on_le) simp_all
  then have len: "card I \<le> length (modified_pgq u)" using card_length le_trans by blast
  have "set (free_pgq u) = set (free_pgq s)"
    using free_queue_iff [OF space_okD(1) [OF S(1)]] free_queue_iff [OF space_okD(1) [OF u(1)]] u(2) by auto
  moreover have "free_pgq s \<noteq> []" using k by (auto simp: plenty_def Let_def)
  ultimately have free: "free_pgq u \<noteq> []" by auto
  obtain j where "j \<in> I" using ne by blast
  then have ent: "\<exists>j < 512. SOFT_pages u (pte_at d j) \<noteq> 0" using mod C by blast
  have "direct_map u = direct_map s" by (rule direct_map_cong [OF space_okD(1) [OF S(1)] space_okD(1) [OF u(1)]]) (use F in simp)
  moreover have "nentries (wsl (procs u 0)) \<le> wsl_max (wsl (procs u 0))" "unat (wsl_max (wsl (procs u 0))) + 2 < 2 ^ 64"
    using k F by (auto simp: plenty_def Let_def word_less_nat_alt)
  ultimately show thesis
    using that [OF u(1) data_kept_paging [OF u(5) S(3)] _ _ _ row' ent len free] C F S(4) u(3) by simp
qed

text \<open>Seventeen of the pages dirty and evicted, and the minimum for an allocation set to what is left: cleaning
  helps.\<close>

lemma few_left:
  assumes u: "space_ok (\<lambda>_. 0) 0 u" "17 \<le> length (modified_pgq u)" "free_pgq u \<noteq> []"
    and w: "nentries (wsl (procs u 0)) \<le> wsl_max (wsl (procs u 0))" "unat (wsl_max (wsl (procs u 0))) + 2 < 2 ^ 64"
  defines "s \<equiv> u\<lparr>vmparam := \<lparr>ws_page_expansion_count = 1, min_avail_for_expansion = 8,
    min_avail_for_alloc = of_nat (length (free_pgq u) + length (standby_pgq u))\<rparr>\<rparr>"
  shows "cleaning_helps s" and "vmp_page_shortage s" and "space_ok (\<lambda>_. 0) 0 s"
proof -
  let ?n = "length (free_pgq u) + length (standby_pgq u)"
  have n: "?n + length (modified_pgq u) \<le> SOFT_NPAGES" using queue_lengths_bound [OF space_okD(1) [OF u(1)]] by simp
  then have a: "unat (of_nat ?n :: size_t) = ?n" by (subst unat_of_nat) simp
  have "queue_of q s = queue_of q u" for q by (cases q) (simp_all add: s_def)
  then show "space_ok (\<lambda>_. 0) 0 s" using u(1) by (subst space_ok_cong [of s u]) (simp_all add: s_def)
  show "cleaning_helps s" using u(2,3) w n a by (auto simp: cleaning_helps_def s_def Let_def)
  have "unat (nfree (vmstat u) + nstandby (vmstat u)) = ?n" by (rule avail_count [OF space_okD(1) [OF u(1)]])
  then show "vmp_page_shortage s" using a by (simp add: vmp_page_shortage_def s_def word_le_nat_alt)
qed

lemma first_crowd:
  obtains s "file" where "crowded file {} s" and "plenty (17 + 1) 0 s"
proof -
  obtain s where s: "main_init 3 (boot_state 0x10000000000) = Ok s" "manager_inv (empty_file, s)"
    by (rule main_init_inv [of "0x10000000000" 3 empty_file]) simp_all
  obtain s' where s': "main_init 3 (boot_state 0x10000000000) = Ok s'" "plenty 22 0 s'"
    "vad_tree (procs s' 0) = Elm False False Null main_vad Null" "SOFT_pages_base s' = 0x10000000000"
    "\<forall>v. leaf_entry 0 v s' = 0"
    by (rule main_init_ok [of "0x10000000000" 3]) simp_all
  have e: "s' = s" using s(1) s'(1) by simp
  have S: "space_ok (\<lambda>_. 0) 0 s" using s(2) by (simp add: manager_inv_def)
  let ?env = "\<lparr>fe_key = main_vad, fe_iop = undefined, fe_pager = 0\<rparr>"
  have k: "plenty (18 + (tables_need 0x5008 s + 1)) 0 s"
    using plenty_mono [OF s'(2)] tables_need_le [of "0x5008" s] by (simp add: e)
  have vad: "vmp_ps_vad_find (fe_key ?env) 0 0x5008 s = Some main_vad" "vad_section main_vad = None" "\<not> vad_cow main_vad"
    using main_vad_find [OF s'(3)] by (simp_all add: main_vad_def e)
  have low: "low_vaddr 0x5008" by (simp add: low_vaddr_def)
  have dm: "v \<notin> direct_map s" if "v < 0x10000000000" for v using below_direct_map [OF S, of v] that s'(4) by (simp add: e)
  have dm5: "0x5008 \<notin> direct_map s" by (rule dm) simp
  obtain t a q where t: "do_fault ?env 0x5008 True (None, empty_file, s) = Ok (0, None, empty_file, t)"
    "plenty 18 0 t" "maps_anon 0 0x5008 a q t" "vad_tree (procs t 0) = vad_tree (procs s 0)" "direct_map t = direct_map s"
    by (rule do_fault_need [OF S k vad low dm5, of True empty_file]) (use s'(5) in \<open>simp_all add: e\<close>)
  have "manager_step (empty_file, s) (empty_file, t)"
    by (rule step_fault [OF plenty_mono [OF k] vad low dm5 t(1)]) simp
  then have "manager_inv (empty_file, t)" using s(2) kept_inv manager_step_kept by blast
  then have "crowded empty_file {} t" using t(3-5) s'(3) dm by (auto simp: crowded_def e)
  with that t(2) show thesis by simp
qed

text \<open>C17. A fault that finds no memory is resolved after the page writer has made a pass. Take a fault on an
  untouched address (below \<open>2^63\<close>, outside the direct map) of an anonymous range without copy on write, in a
  shortage, when the tables of the address are there with a live entry in the last, a page is still free, and the free, standby and modified
  pages together are enough (\<open>cleaning_helps\<close>). The first attempt gives up, signalling the page writer
  if more than four pages are modified; a pass of the page writer is then possible; and whenever the
  other threads make such a pass while the fault waits, it sets the event and the fault ends with
  the address mapped, every address with its contents, and the address space consistent.\<close>

theorem fault_resolved_after_cleaning:
  assumes s: "space_ok (\<lambda>_. 0) 0 s" "paging_inv s file" and short: "vmp_page_shortage s" and h: "cleaning_helps s"
    and vad: "vmp_ps_vad_find (fe_key env) 0 v s = Some vad" "vad_section vad = None" "\<not> vad_cow vad"
    and f: "vmp_fetch_pte 0 v s = Ok (Some a)" "SOFT_pages s a = 0" "0 < live_ptes (\<lambda>v. v \<noteq> 0) (a div PGSIZE) s"
    and v: "low_vaddr v" "v \<notin> direct_map s"
  shows "(\<exists>u. do_fault env v wr (None, file, s) = Ok (- 1, None, file, u)
        \<and> (4 < nmodified (vmstat s) \<longrightarrow> vmp_pgwriter_event u) \<and> \<not> vmp_sufficient_pages_event u
        \<and> (\<exists>ft. page_writer_pass (file, u) ft))
    \<and> (\<exists>r. vm_fault page_writer_pass env v wr (None, file, s) r)
    \<and> (\<forall>out file' r. vm_fault page_writer_pass env v wr (None, file, s) (out, file', r) \<longrightarrow>
        out = None \<and> space_ok (\<lambda>_. 0) 0 r \<and> (\<exists>b q. maps_anon 0 v b q r)
        \<and> (\<forall>x off. off < PGSIZE \<longrightarrow> vm_word 0 x off r = vm_word 0 x off s))"
proof -
  obtain u where u: "do_fault env v wr (None, file, s) = Ok (- 1, None, file, u)" "space_ok (\<lambda>_. 0) 0 u"
    "mypages u = mypages s" "SOFT_pages u = SOFT_pages s" "tables_frame 0 s u" "alarmed s u"
    by (rule fault_without_page [OF s(1) vad(1,2) f short])
  note U = failed_attempt [OF s h short u(2-6)] and F = tables_frameD [OF u(5)]
  have fetch: "vmp_fetch_pte 0 x u = vmp_fetch_pte 0 x s" for x
    using fetch_level_cong [OF u(4)] F(7) by (simp add: vmp_fetch_pte_def)
  have vad': "vmp_ps_vad_find (fe_key env) 0 v u = Some vad" using vad(1) F(9) by (simp add: vmp_ps_vad_find_def)
  have dm: "v \<notin> direct_map u" using v(2) direct_map_cong [OF space_okD(1) [OF s(1)] space_okD(1) [OF u(2)] F(2)] by simp
  have f': "vmp_fetch_pte 0 v u = Ok (Some a)" "SOFT_pages u a = 0" using f(1,2) fetch u(4) by simp_all
  have leaf: "leaf_entry 0 x u = leaf_entry 0 x s" for x
    using fetch u(4) by (simp add: leaf_entry_def cong: outcome.case_cong option.case_cong)
  have word: "vm_word 0 x off u = vm_word 0 x off s" for x off by (rule vm_word_same [OF leaf u(4)])
  note again = second_attempt [OF u(2) U _ vad' vad(2,3) f' v(1) dm, of _ _ wr]
  obtain file' t where p: "page_writer_pass (file, u) (file', t)" using page_writer_passes [OF u(2) U(1)] by auto
  obtain r where r: "do_fault env v wr (None, file', t) = Ok (0, None, file', r)" by (rule again [OF p])
  have ev: "vmp_sufficient_pages_event t" by (rule pass_makes_memory(4) [OF u(2) U p])
  have "vm_fault page_writer_pass env v wr (None, file', t) (None, file', r)" by (rule vm_fault.fault_done [OF r])
  then have run: "vm_fault page_writer_pass env v wr (None, file, s) (None, file', r)"
    using vm_fault.fault_retry [OF u(1), of page_writer_pass "(file', t)"] p ev by simp
  have all: "out = None \<and> space_ok (\<lambda>_. 0) 0 r \<and> (\<exists>b q. maps_anon 0 v b q r)
        \<and> (\<forall>x off. off < PGSIZE \<longrightarrow> vm_word 0 x off r = vm_word 0 x off s)"
    if run: "vm_fault page_writer_pass env v wr (None, file, s) (out, file', r)" for out file' r
  proof -
    obtain fs' where fs: "page_writer_pass (file, u) fs'" "vm_fault page_writer_pass env v wr (None, fs') (out, file', r)"
      using run by cases (use u(1) in auto)
    obtain file2 t where t: "fs' = (file2, t)" by (cases fs')
    obtain r2 b q where r2: "do_fault env v wr (None, file2, t) = Ok (0, None, file2, r2)" "space_ok (\<lambda>_. 0) 0 r2"
      "maps_anon 0 v b q r2" "\<forall>x off. off < PGSIZE \<longrightarrow> vm_word 0 x off r2 = vm_word 0 x off u"
      by (rule again [OF fs(1) [unfolded t]])
    have "out = None \<and> r = r2" using fs(2) unfolding t by cases (use r2(1) in auto)
    with r2 word show ?thesis by auto
  qed
  show ?thesis
    using u(1,6) page_writer_passes [OF u(2) U(1)] run all unfolding alarmed_def by blast
qed

theorem fault_resolved_after_cleaning_witness:
  "\<exists>s v file env file' r. vmp_page_shortage s \<and> leaf_entry 0 v s = 0
     \<and> vm_fault page_writer_pass env v True (None, file, s) (None, file', r) \<and> (\<exists>b q. maps_anon 0 v b q r)"
proof -
  obtain s0 "file" where s0: "crowded file {} s0" "plenty (17 + 1) 0 s0" by (rule first_crowd)
  obtain t I where t: "crowded file I t" "card I = 17" "plenty 1 0 t" using crowd [OF s0(1) _ s0(2)] by auto
  have ne: "I \<noteq> {}" using t(2) by auto
  obtain u d where u: "space_ok (\<lambda>_. 0) 0 u" "paging_inv u file" "\<forall>v. vm_word 0 v 0 u \<noteq> None"
    "vad_tree (procs u 0) = Elm False False Null main_vad Null" "\<forall>v < 0x10000000000. v \<notin> direct_map u"
    "\<forall>j < 512. vmp_fetch_pte 0 (row_vaddr j) u = Ok (Some (pte_at d j))" "\<exists>j < 512. SOFT_pages u (pte_at d j) \<noteq> 0"
    "card I \<le> length (modified_pgq u)" "free_pgq u \<noteq> []" "nentries (wsl (procs u 0)) \<le> wsl_max (wsl (procs u 0))"
    "unat (wsl_max (wsl (procs u 0))) + 2 < 2 ^ 64"
    by (rule emptied [OF t(1,3) ne])
  have f0: "vmp_fetch_pte 0 (row_vaddr 0) u = Ok (Some (pte_at d 0))" using u(6) by simp
  obtain d' where d': "table_at 0 u (Suc 0) d'" "pte_at d 0 = pte_at d' (vmp_addr_unpack (row_vaddr 0) ! 1)"
    by (rule fetch_leaf [OF u(1) f0])
  then have d: "table_at 0 u (Suc 0) d" using unpack_page [of 0] by (simp add: row_vaddr_def)
  obtain i where i: "i < 512" "SOFT_pages u (pte_at d i) = 0"
    by (rule untouched_entry [OF u(1) d _ u(3)]) (use u(6) in \<open>simp_all add: row_vaddr_def\<close>)
  define s where "s = u\<lparr>vmparam := \<lparr>ws_page_expansion_count = 1, min_avail_for_expansion = 8,
    min_avail_for_alloc = of_nat (length (free_pgq u) + length (standby_pgq u))\<rparr>\<rparr>"
  have m17: "17 \<le> length (modified_pgq u)" using t(2) u(8) by simp
  note H = few_left [OF u(1) m17 u(9-11), folded s_def]
  let ?v = "row_vaddr i" and ?env = "\<lparr>fe_key = main_vad, fe_iop = undefined, fe_pager = 0\<rparr>"
  have p: "paging_inv s file" by (rule data_kept_paging [OF data_kept_same u(2)]) (simp_all add: s_def)
  have vad: "vmp_ps_vad_find (fe_key ?env) 0 ?v s = Some main_vad" "vad_section main_vad = None" "\<not> vad_cow main_vad"
    using main_vad_find [of s] u(4) row_vaddr_bounds(1) [OF i(1)] by (simp_all add: main_vad_def s_def)
  have f: "vmp_fetch_pte 0 ?v s = Ok (Some (pte_at d i))" "SOFT_pages s (pte_at d i) = 0"
    using u(6) i fetch_level_cong [of s u] by (simp_all add: vmp_fetch_pte_def s_def)
  have live: "0 < live_ptes (\<lambda>v. v \<noteq> 0) (pte_at d i div PGSIZE) s"
    using u(7) i(1) live_ptes_pos [of _ "\<lambda>v. v \<noteq> 0" s d] by (auto simp: pte_at_div s_def)
  have dm: "?v \<notin> direct_map s"
    using u(5) row_vaddr_bounds(2) [OF i(1)] direct_map_cong [OF space_okD(1) [OF u(1)] space_okD(1) [OF H(3)]] by (simp add: s_def)
  have leaf: "leaf_entry 0 ?v s = 0" using f by (simp add: leaf_entry_def)
  have "\<exists>r. vm_fault page_writer_pass ?env ?v True (None, file, s) r"
    and all: "\<forall>out file' r. vm_fault page_writer_pass ?env ?v True (None, file, s) (out, file', r) \<longrightarrow>
        out = None \<and> space_ok (\<lambda>_. 0) 0 r \<and> (\<exists>b q. maps_anon 0 ?v b q r)
        \<and> (\<forall>x off. off < PGSIZE \<longrightarrow> vm_word 0 x off r = vm_word 0 x off s)"
    using fault_resolved_after_cleaning [OF H(3) p H(2,1) vad f live row_vaddr_bounds(3) [OF i(1)] dm, of True] by blast+
  then obtain out file' r where "vm_fault page_writer_pass ?env ?v True (None, file, s) (out, file', r)" by auto
  moreover from this all have "out = None" "\<exists>b q. maps_anon 0 ?v b q r" by blast+
  ultimately show ?thesis using H(2) leaf by blast
qed

end
