(* ===== verification/Nanokern.thy ===== *)
theory Nanokern
  imports Vmm_State "HOL-Library.Signed_Division"
begin

text \<open>
  Waiting, as \<^verbatim>\<open>kdk/nanokern.h\<close> builds it on POSIX threads. An event is a flag; setting and clearing it
  are single assignments made under the event's mutex. A wait is described by what the waiting thread
  sees: each time round the loop, the flag, and whether the timed wait that follows reports a time-out.
  Time is in whole nanoseconds; the fields of \<^verbatim>\<open>struct timespec\<close> do not overflow for the times the program
  uses and are integers.
\<close>

section \<open>The operations\<close>

definition ke_event_init :: "bool \<Rightarrow> bool" where
  "ke_event_init signalled = False"

definition ke_event_signal :: "bool \<Rightarrow> bool" where
  "ke_event_signal event = True"

definition ke_event_clear :: "bool \<Rightarrow> bool" where
  "ke_event_clear event = False"

datatype kwaitstatus = kKernWaitStatusOK | kKernWaitStatusTimedOut

text \<open>\<open>None\<close>: the thread is still waiting when its observations end.\<close>

fun ke_event_wait :: "int \<Rightarrow> (bool \<times> bool) list \<Rightarrow> kwaitstatus option" where
  "ke_event_wait nanosecs [] = None"
| "ke_event_wait nanosecs ((state, etimedout) # rest) =
     (if state then Some kKernWaitStatusOK
      else if nanosecs = - 1 then ke_event_wait nanosecs rest
      else if etimedout then Some kKernWaitStatusTimedOut
      else ke_event_wait nanosecs rest)"

text \<open>\<open>r\<close> is the result of \<^verbatim>\<open>pthread_mutex_trylock\<close> or \<^verbatim>\<open>pthread_mutex_timedlock\<close>; \<^verbatim>\<open>pthread_mutex_lock\<close> returns
  with the mutex held.\<close>

definition ke_wait :: "int \<Rightarrow> int \<Rightarrow> kwaitstatus" where
  "ke_wait timeout r =
     (if timeout = - 1 then kKernWaitStatusOK
      else if r = 0 then kKernWaitStatusOK else kKernWaitStatusTimedOut)"

record timespec =
  tv_sec :: int
  tv_nsec :: int

text \<open>\<open>now\<close> is the time \<^verbatim>\<open>clock_gettime\<close> reports.\<close>

definition nanosecs_to_timespec :: "timespec \<Rightarrow> int \<Rightarrow> timespec" where
  "nanosecs_to_timespec now nanosecs =
     (let ts = now\<lparr>tv_sec := tv_sec now + nanosecs sdiv 1000000000\<rparr>;
          ts = ts\<lparr>tv_nsec := tv_nsec ts + nanosecs smod 1000000000\<rparr>
      in if tv_nsec ts \<ge> 1000000000
         then ts\<lparr>tv_sec := tv_sec ts + 1, tv_nsec := tv_nsec ts - 1000000000\<rparr>
         else ts)"

section \<open>Properties of waiting\<close>

text \<open>A wait for an event looks past every wake-up at which the event is not set and, for a wait with
  a time-out, the time-out has not struck; the first other observation decides: success if the event is
  set, a time-out otherwise. Without such an observation the thread keeps waiting, and a wait without
  time-out never reports one.\<close>

theorem event_wait_outcome:
  "ke_event_wait ns obs =
     (case dropWhile (\<lambda>(st, to). \<not> st \<and> (ns \<noteq> - 1 \<longrightarrow> \<not> to)) obs of
        [] \<Rightarrow> None
      | (st, to) # _ \<Rightarrow> Some (if st then kKernWaitStatusOK else kKernWaitStatusTimedOut))
   \<and> ke_event_wait (- 1) obs \<noteq> Some kKernWaitStatusTimedOut"
proof -
  have "ke_event_wait (- 1) obs \<noteq> Some kKernWaitStatusTimedOut"
    by (induction "- 1 :: int" obs rule: ke_event_wait.induct) auto
  moreover have "ke_event_wait ns obs =
     (case dropWhile (\<lambda>(st, to). \<not> st \<and> (ns \<noteq> - 1 \<longrightarrow> \<not> to)) obs of
        [] \<Rightarrow> None
      | (st, to) # _ \<Rightarrow> Some (if st then kKernWaitStatusOK else kKernWaitStatusTimedOut))"
    by (induction ns obs rule: ke_event_wait.induct) auto
  ultimately show ?thesis by blast
qed

theorem event_wait_outcome_witness:
  "ke_event_wait (- 1) [(False, False), (False, True), (True, False)] = Some kKernWaitStatusOK"
  using event_wait_outcome [of "- 1" "[(False, False), (False, True), (True, False)]"] by simp

text \<open>The deadline computed for a timed wait is the current time plus the time-out, and its
  nanosecond field is within a second, as \<^verbatim>\<open>pthread_cond_timedwait\<close> requires.\<close>

theorem deadline_normalised:
  assumes "0 \<le> tv_nsec now" and "tv_nsec now < 1000000000" and "0 \<le> ns"
  defines "ts \<equiv> nanosecs_to_timespec now ns"
  shows "0 \<le> tv_nsec ts \<and> tv_nsec ts < 1000000000
    \<and> tv_sec ts * 1000000000 + tv_nsec ts = tv_sec now * 1000000000 + tv_nsec now + ns"
proof -
  have "ns sdiv 1000000000 = ns div 1000000000" "ns smod 1000000000 = ns mod 1000000000"
    using assms(3) by (simp_all add: signed_divide_int_def signed_modulo_int_def sgn_if minus_div_mult_eq_mod)
  then show ?thesis
    using assms(1,2) unfolding ts_def nanosecs_to_timespec_def by (auto simp: Let_def)
qed

theorem deadline_normalised_witness:
  "tv_nsec (nanosecs_to_timespec \<lparr>tv_sec = 5, tv_nsec = 900000000\<rparr> 1500000000) < 1000000000"
  using deadline_normalised [of "\<lparr>tv_sec = 5, tv_nsec = 900000000\<rparr>" 1500000000] by simp

end
