(* ===== verification/Locks.thy ===== *)
theory Locks
  imports Vmm_Prelude
begin

text \<open>
  Locks and interrupt levels (\<^verbatim>\<open>kdk/nanokern.h\<close>), and the order in which the program takes its locks. A
  POSIX mutex is its owner; locking one that is owned blocks. The second part abstracts code to its
  synchronisation: which locks it takes and gives up, which events it sets and waits for, and at which
  points it relies on a lock being held, as the \<^verbatim>\<open>LOCK_REQUIRES\<close> annotations of \<^verbatim>\<open>vm/vmp.h\<close> say. The check
  \<open>locks_after\<close> runs over such a command; its soundness theorem is about every interleaving of any
  number of threads.
\<close>

section \<open>Locks and events\<close>

datatype event = PgwriterEvent | BalancerEvent | SufficientPagesEvent | IopEvent nat | PagerEvent nat

datatype lock = VadLock nat | WsLock nat | PfnLock | EventMutex event

text \<open>The order of acquisition: the address descriptors of a process, its working set, the page frame
  database, and the mutex inside an event. Locks of one kind are ordered by their index.\<close>

fun event_index :: "event \<Rightarrow> nat" where
  "event_index PgwriterEvent = 0"
| "event_index BalancerEvent = 1"
| "event_index SufficientPagesEvent = 2"
| "event_index (IopEvent i) = 2 * i + 3"
| "event_index (PagerEvent i) = 2 * i + 4"

fun lock_rank :: "lock \<Rightarrow> nat \<times> nat" where
  "lock_rank (VadLock ps) = (0, ps)"
| "lock_rank (WsLock ps) = (1, ps)"
| "lock_rank PfnLock = (2, 0)"
| "lock_rank (EventMutex e) = (3, event_index e)"

lemma event_index_inject: "event_index e = event_index e' \<longleftrightarrow> e = e'"
  by (cases e; cases e'; simp; presburger)

lemma lock_rank_inject: "lock_rank l = lock_rank l' \<longleftrightarrow> l = l'"
  by (cases l; cases l') (auto simp: event_index_inject)

instantiation lock :: linorder
begin

definition less_eq_lock :: "lock \<Rightarrow> lock \<Rightarrow> bool" where
  "less_eq_lock l l' \<longleftrightarrow> fst (lock_rank l) < fst (lock_rank l') \<or>
     fst (lock_rank l) = fst (lock_rank l') \<and> snd (lock_rank l) \<le> snd (lock_rank l')"

definition less_lock :: "lock \<Rightarrow> lock \<Rightarrow> bool" where
  "less_lock l l' \<longleftrightarrow> fst (lock_rank l) < fst (lock_rank l') \<or>
     fst (lock_rank l) = fst (lock_rank l') \<and> snd (lock_rank l) < snd (lock_rank l')"

instance
proof
  fix x y z :: lock
  show "x < y \<longleftrightarrow> x \<le> y \<and> \<not> y \<le> x" and "x \<le> x" and "x \<le> y \<Longrightarrow> y \<le> z \<Longrightarrow> x \<le> z" and "x \<le> y \<or> y \<le> x"
    by (auto simp: less_eq_lock_def less_lock_def)
  show "x \<le> y \<Longrightarrow> y \<le> x \<Longrightarrow> x = y"
    by (auto simp: less_eq_lock_def lock_rank_inject [symmetric] prod_eq_iff)
qed

end

datatype ipl = kIPL0 | kIPLDPC

record sync =
  owner :: "lock \<Rightarrow> nat option"
  event_state :: "event \<Rightarrow> bool"
  SIM_ipl :: "nat \<Rightarrow> ipl"
  saved_ipl :: "nat \<Rightarrow> ipl" \<comment> \<open>the local variable \<^verbatim>\<open>ipl\<close> of the running function\<close>

section \<open>The operations\<close>

text \<open>\<open>None\<close>: the thread blocks, or, for an unlock by a thread that is not the owner, has no defined
  behaviour.\<close>

definition pthread_mutex_lock :: "nat \<Rightarrow> lock \<Rightarrow> sync \<Rightarrow> sync option" where
  "pthread_mutex_lock t l s = (if owner s l = None then Some (s\<lparr>owner := (owner s)(l := Some t)\<rparr>) else None)"

definition pthread_mutex_unlock :: "nat \<Rightarrow> lock \<Rightarrow> sync \<Rightarrow> sync option" where
  "pthread_mutex_unlock t l s = (if owner s l = Some t then Some (s\<lparr>owner := (owner s)(l := None)\<rparr>) else None)"

definition splget :: "nat \<Rightarrow> sync \<Rightarrow> ipl" where
  "splget t s = SIM_ipl s t"

definition ke_spinlock_acquire :: "nat \<Rightarrow> lock \<Rightarrow> sync \<Rightarrow> (ipl \<times> sync) option" where
  "ke_spinlock_acquire t l s =
     (let ipl = SIM_ipl s t in map_option (\<lambda>s. (ipl, s)) (pthread_mutex_lock t l s))"

definition ke_spinlock_release :: "nat \<Rightarrow> lock \<Rightarrow> ipl \<Rightarrow> sync \<Rightarrow> sync option" where
  "ke_spinlock_release t l ipl s =
     map_option (\<lambda>s. s\<lparr>SIM_ipl := (SIM_ipl s)(t := ipl)\<rparr>) (pthread_mutex_unlock t l s)"

definition ke_spinlock_held :: "lock \<Rightarrow> sync \<Rightarrow> bool" where
  "ke_spinlock_held l s = True"

definition ke_mutex_release :: "nat \<Rightarrow> lock \<Rightarrow> sync \<Rightarrow> sync option" where
  "ke_mutex_release t l s = pthread_mutex_unlock t l s"

section \<open>Commands\<close>

text \<open>
  \<open>SpinAcquire l keep\<close> stores the level that \<^verbatim>\<open>ke_spinlock_acquire\<close> returns in the local variable when
  \<open>keep\<close> is set. \<open>Await e timed\<close> is the loop of \<^verbatim>\<open>ke_event_wait\<close> with the event's mutex held; while the event
  is not set the thread gives the mutex up and becomes \<open>Sleep e timed\<close>; it may wake at any time, as POSIX
  allows, takes the mutex again, and looks at the event once more or, in a timed wait, gives up.
  \<open>Requires l\<close> is a point that is declared to require \<open>l\<close>, \<open>Unguarded c\<close> a call that the code makes
  without the locks that \<open>c\<close> requires, and \<open>Peek l\<close> a point that reads what \<open>l\<close> guards without being
  declared to require it. A branch on data is a \<open>Choice\<close>.
\<close>

datatype cmd =
    Skip
  | MutexLock lock
  | MutexUnlock lock
  | SpinAcquire lock bool
  | SpinRelease lock
  | SetEvent event bool
  | Await event bool
  | Sleep event bool
  | Requires lock
  | Unguarded cmd
  | Peek lock
  | Seq cmd cmd
  | Choice cmd cmd
  | Loop cmd
  | Forever cmd

text \<open>All possible next steps of thread \<open>t\<close>.\<close>

fun steps :: "nat \<Rightarrow> cmd \<Rightarrow> sync \<Rightarrow> (cmd \<times> sync) list" where
  "steps t Skip s = []"
| "steps t (MutexLock l) s = (case pthread_mutex_lock t l s of None \<Rightarrow> [] | Some s' \<Rightarrow> [(Skip, s')])"
| "steps t (MutexUnlock l) s = (case ke_mutex_release t l s of None \<Rightarrow> [] | Some s' \<Rightarrow> [(Skip, s')])"
| "steps t (SpinAcquire l keep) s =
     (case ke_spinlock_acquire t l s of None \<Rightarrow> []
      | Some (ipl, s') \<Rightarrow> [(Skip, if keep then s'\<lparr>saved_ipl := (saved_ipl s')(t := ipl)\<rparr> else s')])"
| "steps t (SpinRelease l) s =
     (case ke_spinlock_release t l (saved_ipl s t) s of None \<Rightarrow> [] | Some s' \<Rightarrow> [(Skip, s')])"
| "steps t (SetEvent e b) s = [(Skip, s\<lparr>event_state := (event_state s)(e := b)\<rparr>)]"
| "steps t (Await e timed) s =
     (if event_state s e then [(Skip, s)]
      else case pthread_mutex_unlock t (EventMutex e) s of None \<Rightarrow> [] | Some s' \<Rightarrow> [(Sleep e timed, s')])"
| "steps t (Sleep e timed) s =
     (case pthread_mutex_lock t (EventMutex e) s of None \<Rightarrow> []
      | Some s' \<Rightarrow> (Await e timed, s') # (if timed then [(Skip, s')] else []))"
| "steps t (Requires l) s = [(Skip, s)]"
| "steps t (Unguarded c) s =
     (if c = Skip then [(Skip, s)] else map (\<lambda>(c', s'). (Unguarded c', s')) (steps t c s))"
| "steps t (Peek l) s = [(Skip, s)]"
| "steps t (Seq c d) s = (if c = Skip then [(d, s)] else map (\<lambda>(c', s'). (Seq c' d, s')) (steps t c s))"
| "steps t (Choice c d) s = [(c, s), (d, s)]"
| "steps t (Loop c) s = [(Skip, s), (Seq c (Loop c), s)]"
| "steps t (Forever c) s = [(Seq c (Forever c), s)]"

fun block :: "cmd list \<Rightarrow> cmd" where
  "block [] = Skip"
| "block [c] = c"
| "block (c # d # cs) = Seq c (block (d # cs))"

fun asleep :: "cmd \<Rightarrow> bool" where
  "asleep (Sleep e timed) = True"
| "asleep (Unguarded c) = asleep c"
| "asleep (Seq c d) = asleep c"
| "asleep _ = False"

text \<open>The point a thread is at: the lock it requires there, whether it is inside a call made without the locks
  it requires, and the lock it waits for.\<close>

fun relies_on :: "cmd \<Rightarrow> lock option" where
  "relies_on (Requires l) = Some l"
| "relies_on (SetEvent e b) = Some (EventMutex e)"
| "relies_on (Unguarded c) = relies_on c"
| "relies_on (Seq c d) = relies_on c"
| "relies_on _ = None"

fun unguarded :: "cmd \<Rightarrow> bool" where
  "unguarded (Unguarded c) = True"
| "unguarded (Seq c d) = unguarded c"
| "unguarded _ = False"

fun wants :: "cmd \<Rightarrow> lock option" where
  "wants (MutexLock l) = Some l"
| "wants (SpinAcquire l keep) = Some l"
| "wants (Unguarded c) = wants c"
| "wants (Seq c d) = wants c"
| "wants _ = None"

section \<open>The check\<close>

text \<open>\<open>locks_check m H c\<close>: the locks held after \<open>c\<close> when \<open>H\<close> are held before, most recent first; \<open>None\<close> when \<open>c\<close>
  takes a lock out of order, gives up a lock it does not hold, waits for an event with a lock held, or,
  if \<open>m\<close> is set, reaches a point that requires a lock it does not hold; unguarded calls are exempt from
  the last test.\<close>

fun locks_check :: "bool \<Rightarrow> lock list \<Rightarrow> cmd \<Rightarrow> lock list option" where
  "locks_check m H Skip = Some H"
| "locks_check m H (MutexLock l) = (if list_all (\<lambda>h. h < l) H then Some (l # H) else None)"
| "locks_check m H (MutexUnlock l) = (if l \<in> set H then Some (remove1 l H) else None)"
| "locks_check m H (SpinAcquire l keep) = (if list_all (\<lambda>h. h < l) H then Some (l # H) else None)"
| "locks_check m H (SpinRelease l) = (if l \<in> set H then Some (remove1 l H) else None)"
| "locks_check m H (SetEvent e b) = (if EventMutex e \<in> set H then Some H else None)"
| "locks_check m H (Await e timed) = (if H = [EventMutex e] then Some H else None)"
| "locks_check m H (Sleep e timed) = (if H = [] then Some [EventMutex e] else None)"
| "locks_check m H (Requires l) = (if m \<longrightarrow> l \<in> set H then Some H else None)"
| "locks_check m H (Unguarded c) = locks_check False H c"
| "locks_check m H (Peek l) = Some H"
| "locks_check m H (Seq c d) = (case locks_check m H c of None \<Rightarrow> None | Some H' \<Rightarrow> locks_check m H' d)"
| "locks_check m H (Choice c d) = (if locks_check m H c = locks_check m H d then locks_check m H c else None)"
| "locks_check m H (Loop c) = (if locks_check m H c = Some H then Some H else None)"
| "locks_check m H (Forever c) = (if locks_check m H c = Some H then Some H else None)"

abbreviation locks_after :: "lock list \<Rightarrow> cmd \<Rightarrow> lock list option" where
  "locks_after \<equiv> locks_check True"

section \<open>Systems of threads\<close>

text \<open>A system: the command each thread has still to run, and the shared state.\<close>

inductive system_step :: "(nat \<Rightarrow> cmd) \<times> sync \<Rightarrow> (nat \<Rightarrow> cmd) \<times> sync \<Rightarrow> bool" where
  thread: "(c, s') \<in> set (steps t (prog t) s) \<Longrightarrow> system_step (prog, s) (prog(t := c), s')"

inductive reaches :: "(nat \<Rightarrow> cmd) \<times> sync \<Rightarrow> (nat \<Rightarrow> cmd) \<times> sync \<Rightarrow> bool" where
  here: "reaches x x"
| later: "reaches x y \<Longrightarrow> system_step y z \<Longrightarrow> reaches x z"

text \<open>A schedule names, for each step, the thread and which of its possible steps it takes.\<close>

fun run_schedule :: "(nat \<times> nat) list \<Rightarrow> (nat \<Rightarrow> cmd) \<times> sync \<Rightarrow> ((nat \<Rightarrow> cmd) \<times> sync) option" where
  "run_schedule [] x = Some x"
| "run_schedule ((t, i) # sched) (prog, s) =
     (let cs = steps t (prog t) s
      in if i < length cs then run_schedule sched (prog(t := fst (cs ! i)), snd (cs ! i)) else None)"

lemma reaches_trans: "reaches y z \<Longrightarrow> reaches x y \<Longrightarrow> reaches x z"
  by (induction rule: reaches.induct) (auto intro: reaches.later)

lemma run_schedule_reaches: "run_schedule sched x = Some y \<Longrightarrow> reaches x y"
proof (induction sched x rule: run_schedule.induct)
  case (2 t i sched prog s)
  let ?cs = "steps t (prog t) s"
  have i: "i < length ?cs" and y: "run_schedule sched (prog(t := fst (?cs ! i)), snd (?cs ! i)) = Some y"
    using "2.prems" by (auto simp: Let_def split: if_splits)
  have "system_step (prog, s) (prog(t := fst (?cs ! i)), snd (?cs ! i))"
    by (rule system_step.thread) (use i nth_mem in force)
  then show ?case using "2.IH" [OF refl i y] reaches_trans reaches.here reaches.later by blast
qed (simp add: reaches.here)

definition unlocked :: "sync \<Rightarrow> bool" where
  "unlocked s \<longleftrightarrow> owner s = (\<lambda>_. None) \<and> SIM_ipl s = (\<lambda>_. kIPL0) \<and> saved_ipl s = (\<lambda>_. kIPL0)"

text \<open>\<open>held t H s\<close>: the thread \<open>t\<close> owns exactly the locks in \<open>H\<close>.\<close>

definition held :: "nat \<Rightarrow> lock list \<Rightarrow> sync \<Rightarrow> bool" where
  "held t H s \<longleftrightarrow> distinct H \<and> (\<forall>l. l \<in> set H \<longleftrightarrow> owner s l = Some t)"

definition others_same :: "nat \<Rightarrow> sync \<Rightarrow> sync \<Rightarrow> bool" where
  "others_same t s s' \<longleftrightarrow> (\<forall>t' l. t' \<noteq> t \<longrightarrow> (owner s' l = Some t' \<longleftrightarrow> owner s l = Some t'))"

definition ipl_0 :: "sync \<Rightarrow> bool" where
  "ipl_0 s \<longleftrightarrow> (\<forall>t. SIM_ipl s t = kIPL0 \<and> saved_ipl s t = kIPL0)"

text \<open>The invariant of a system.\<close>

definition disciplined :: "(nat \<Rightarrow> cmd) \<times> sync \<Rightarrow> bool" where
  "disciplined x \<longleftrightarrow> (case x of (prog, s) \<Rightarrow>
     ipl_0 s \<and> finite {l. owner s l \<noteq> None} \<and>
     (\<forall>t. \<exists>H. held t H s \<and> locks_after H (prog t) = Some []))"

text \<open>The parts of the invariant that a step of \<open>t\<close> must keep, besides its own locks.\<close>

definition preserves :: "nat \<Rightarrow> sync \<Rightarrow> sync \<Rightarrow> bool" where
  "preserves t s s' \<longleftrightarrow> others_same t s s' \<and> (ipl_0 s \<longrightarrow> ipl_0 s') \<and>
     (finite {l. owner s l \<noteq> None} \<longrightarrow> finite {l. owner s' l \<noteq> None})"

lemma preserves_refl [simp]: "preserves t s s"
  by (simp add: preserves_def others_same_def)

lemma lock_held:
  assumes "pthread_mutex_lock t l s = Some s'" and "held t H s"
  shows "held t (l # H) s'" and "preserves t s s'" and "SIM_ipl s' = SIM_ipl s" and "saved_ipl s' = saved_ipl s"
proof -
  have s': "owner s l = None" "s' = s\<lparr>owner := (owner s)(l := Some t)\<rparr>"
    using assms(1) by (auto simp: pthread_mutex_lock_def split: if_splits)
  then show "held t (l # H) s'" using assms(2) by (auto simp: held_def)
  have "{l. owner s' l \<noteq> None} = insert l {l. owner s l \<noteq> None}" using s' by auto
  then show "preserves t s s'" using s' by (auto simp: preserves_def others_same_def ipl_0_def)
  show "SIM_ipl s' = SIM_ipl s" "saved_ipl s' = saved_ipl s" using s' by simp_all
qed

lemma unlock_held:
  assumes "pthread_mutex_unlock t l s = Some s'" and "held t H s"
  shows "held t (remove1 l H) s'" and "preserves t s s'" and "SIM_ipl s' = SIM_ipl s" and "saved_ipl s' = saved_ipl s"
proof -
  have s': "owner s l = Some t" "s' = s\<lparr>owner := (owner s)(l := None)\<rparr>"
    using assms(1) by (auto simp: pthread_mutex_unlock_def split: if_splits)
  then show "held t (remove1 l H) s'" using assms(2) by (auto simp: held_def)
  have "{l. owner s' l \<noteq> None} \<subseteq> {l. owner s l \<noteq> None}" using s' by auto
  then have "finite {l. owner s l \<noteq> None} \<Longrightarrow> finite {l. owner s' l \<noteq> None}" by (rule finite_subset)
  moreover have "others_same t s s'" and "ipl_0 s \<Longrightarrow> ipl_0 s'" using s' by (auto simp: others_same_def ipl_0_def)
  ultimately show "preserves t s s'" unfolding preserves_def by blast
  show "SIM_ipl s' = SIM_ipl s" "saved_ipl s' = saved_ipl s" using s' by simp_all
qed

lemma step_preserves:
  assumes "(c', s') \<in> set (steps t c s)" and "held t H s" and "locks_check m H c = Some H'" and "ipl_0 s"
  shows "(\<exists>H2. held t H2 s' \<and> locks_check m H2 c' = Some H') \<and> preserves t s s'"
  using assms
proof (induction t c s arbitrary: c' s' H H' m rule: steps.induct)
  case (2 t l s)
  then obtain u where "pthread_mutex_lock t l s = Some u" "c' = Skip" "s' = u" "H' = l # H"
    by (cases "pthread_mutex_lock t l s") (auto split: if_splits)
  with lock_held [of t l s u H] "2.prems"(2) show ?case by auto
next
  case (3 t l s)
  then obtain u where "pthread_mutex_unlock t l s = Some u" "c' = Skip" "s' = u" "H' = remove1 l H"
    by (cases "pthread_mutex_unlock t l s") (auto simp: ke_mutex_release_def split: if_splits)
  with unlock_held [of t l s u H] "3.prems"(2) show ?case by auto
next
  case (4 t l keep s)
  then obtain u where u: "pthread_mutex_lock t l s = Some u" "c' = Skip"
    "s' = (if keep then u\<lparr>saved_ipl := (saved_ipl u)(t := SIM_ipl s t)\<rparr> else u)"
    by (cases "pthread_mutex_lock t l s") (auto simp: ke_spinlock_acquire_def Let_def)
  have "held t (l # H) s' \<and> preserves t s s'"
    using lock_held [OF u(1) "4.prems"(2)] "4.prems"(4) u(3) by (auto simp: held_def preserves_def others_same_def ipl_0_def)
  then show ?case using u(2) "4.prems"(3) by (auto split: if_splits)
next
  case (5 t l s)
  then obtain u where u: "pthread_mutex_unlock t l s = Some u" "c' = Skip"
    "s' = u\<lparr>SIM_ipl := (SIM_ipl u)(t := saved_ipl s t)\<rparr>"
    by (cases "pthread_mutex_unlock t l s") (auto simp: ke_spinlock_release_def)
  have "held t (remove1 l H) s' \<and> preserves t s s'"
    using unlock_held [OF u(1) "5.prems"(2)] "5.prems"(4) u(3) by (auto simp: held_def preserves_def others_same_def ipl_0_def)
  then show ?case using u(2) "5.prems"(3) by (auto split: if_splits)
next
  case (6 t e b s)
  then show ?case by (auto simp: held_def preserves_def others_same_def ipl_0_def split: if_splits)
next
  case (7 t e timed s)
  then show ?case
  proof (cases "event_state s e")
    case True with 7 show ?thesis by (auto split: if_splits)
  next
    case False
    with 7 obtain u where "pthread_mutex_unlock t (EventMutex e) s = Some u" "c' = Sleep e timed" "s' = u"
      "H = [EventMutex e]" "H' = H"
      by (cases "pthread_mutex_unlock t (EventMutex e) s") (auto split: if_splits)
    with unlock_held [of t "EventMutex e" s u H] "7.prems"(2) show ?thesis by auto
  qed
next
  case (8 t e timed s)
  then obtain u where "pthread_mutex_lock t (EventMutex e) s = Some u" "c' = Await e timed \<or> c' = Skip" "s' = u"
      "H = []" "H' = [EventMutex e]"
    by (cases "pthread_mutex_lock t (EventMutex e) s") (auto split: if_splits)
  with lock_held [of t "EventMutex e" s u H] "8.prems"(2) show ?case by auto
next
  case (10 t c s)
  show ?case
  proof (cases "c = Skip")
    case True with 10 show ?thesis by auto
  next
    case False
    with "10.prems"(1) obtain c2 where c2: "(c2, s') \<in> set (steps t c s)" "c' = Unguarded c2" by auto
    obtain H2 where "held t H2 s'" "locks_check False H2 c2 = Some H'" "preserves t s s'"
      using "10.IH" [OF False c2(1) "10.prems"(2) _ "10.prems"(4), of False H'] "10.prems"(3) by auto
    then show ?thesis using c2(2) by auto
  qed
next
  case (12 t c d s)
  show ?case
  proof (cases "c = Skip")
    case True with 12 show ?thesis by auto
  next
    case False
    with "12.prems"(1) obtain c2 where c2: "(c2, s') \<in> set (steps t c s)" "c' = Seq c2 d" by auto
    obtain H1 where H1: "locks_check m H c = Some H1" "locks_check m H1 d = Some H'"
      using "12.prems"(3) by (auto split: option.splits)
    obtain H2 where "held t H2 s'" "locks_check m H2 c2 = Some H1" "preserves t s s'"
      using "12.IH" [OF False c2(1) "12.prems"(2) H1(1) "12.prems"(4)] by blast
    then show ?thesis using c2(2) H1(2) by auto
  qed
qed (auto split: option.splits if_splits)

section \<open>Soundness of the check\<close>

lemma disciplined_start:
  assumes "unlocked s" and "\<forall>t. locks_after [] (prog t) = Some []"
  shows "disciplined (prog, s)"
  using assms by (auto simp: disciplined_def unlocked_def held_def ipl_0_def intro!: exI [of _ "[]"])

lemma disciplined_step:
  assumes "disciplined x" and "system_step x y"
  shows "disciplined y"
  using assms(2,1)
proof cases
  case (thread c s' t prog s)
  obtain H where H: "held t H s" "locks_after H (prog t) = Some []" and ok: "ipl_0 s" "finite {l. owner s l \<noteq> None}"
    using assms(1) thread(1) by (auto simp: disciplined_def)
  obtain H2 where H2: "held t H2 s'" "locks_after H2 c = Some []" and preserves: "preserves t s s'"
    using step_preserves [OF thread(3) H ok(1)] by blast
  have "\<exists>H. held t' H s' \<and> locks_after H ((prog(t := c)) t') = Some []" for t'
  proof (cases "t' = t")
    case True with H2 show ?thesis by auto
  next
    case False
    obtain H' where H': "held t' H' s" "locks_after H' (prog t') = Some []"
      using assms(1) thread(1) by (auto simp: disciplined_def)
    moreover have "held t' H' s'" using H'(1) preserves False by (auto simp: held_def preserves_def others_same_def)
    ultimately show ?thesis using False by auto
  qed
  then show ?thesis using preserves ok thread(2) by (simp add: disciplined_def preserves_def)
qed

lemma disciplined_reaches: "reaches x y \<Longrightarrow> disciplined x \<Longrightarrow> disciplined y"
  by (induction rule: reaches.induct) (auto intro: disciplined_step)

lemma relies_on_held:
  "locks_after H c = Some H' \<Longrightarrow> relies_on c = Some l \<Longrightarrow> \<not> unguarded c \<Longrightarrow> l \<in> set H"
  by (induction c arbitrary: H H') (auto split: if_splits option.splits)

text \<open>An awake thread that has not finished and cannot take a step wants a lock that is owned and that is
  above every lock it holds.\<close>

lemma step_or_blocked:
  assumes "locks_check m H c = Some H'" and "held t H s" and "\<not> asleep c" and "c \<noteq> Skip" and "steps t c s = []"
  shows "\<exists>l. wants c = Some l \<and> owner s l \<noteq> None \<and> (\<forall>h\<in>set H. h < l)"
  using assms
proof (induction t c s arbitrary: H H' m rule: steps.induct)
  case (2 t l s)
  then show ?case by (auto simp: pthread_mutex_lock_def list_all_iff split: if_splits)
next
  case (3 t l s)
  then show ?case by (auto simp: ke_mutex_release_def pthread_mutex_unlock_def held_def split: if_splits)
next
  case (4 t l keep s)
  then show ?case by (auto simp: ke_spinlock_acquire_def pthread_mutex_lock_def list_all_iff Let_def split: if_splits)
next
  case (5 t l s)
  then show ?case by (auto simp: ke_spinlock_release_def pthread_mutex_unlock_def held_def split: if_splits)
next
  case (7 t e timed s)
  then show ?case by (auto simp: pthread_mutex_unlock_def held_def split: if_splits)
next
  case (10 t c s)
  then show ?case by (cases "c = Skip") auto
next
  case (12 t c d s)
  then show ?case by (auto split: if_splits option.splits)
qed auto

definition finished :: "cmd \<Rightarrow> bool" where
  "finished c \<longleftrightarrow> c = Skip"

lemma holder_awake:
  assumes "locks_after H c = Some []" and "H \<noteq> []"
  shows "\<not> asleep c" and "c \<noteq> Skip"
proof -
  have "asleep c \<Longrightarrow> locks_check m H c = Some H' \<Longrightarrow> H = []" for H' m
    by (induction c arbitrary: H' m) (auto split: if_splits option.splits)
  then show "\<not> asleep c" using assms by blast
  show "c \<noteq> Skip" using assms by auto
qed

lemma disciplined_progress:
  assumes d: "disciplined (prog, s)" and t: "\<not> asleep (prog t)" "prog t \<noteq> Skip"
  shows "\<exists>t'. \<not> asleep (prog t') \<and> steps t' (prog t') s \<noteq> []"
proof (rule ccontr)
  assume stuck: "\<not> ?thesis"
  have H: "\<exists>H. held u H s \<and> locks_after H (prog u) = Some []" for u
    using d by (simp add: disciplined_def)
  let ?O = "{l. owner s l \<noteq> None}"
  have above: "\<exists>l'\<in>?O. (\<forall>l. owner s l = Some u \<longrightarrow> l < l')"
    if u: "\<not> asleep (prog u)" "prog u \<noteq> Skip" for u
  proof -
    obtain H where H: "held u H s" "locks_after H (prog u) = Some []" using H by blast
    have "steps u (prog u) s = []" using stuck u(1) by blast
    then obtain l where "owner s l \<noteq> None" "\<forall>h\<in>set H. h < l"
      using step_or_blocked [OF H(2,1) u \<open>steps u (prog u) s = []\<close>] by blast
    then show ?thesis using H(1) by (auto simp: held_def)
  qed
  obtain l0 where "l0 \<in> ?O" using above [OF t] by blast
  moreover have fin: "finite ?O" using d by (simp add: disciplined_def)
  ultimately have max: "Max ?O \<in> ?O" by (intro Max_in) auto
  then obtain u where u: "owner s (Max ?O) = Some u" by auto
  obtain H' where H': "held u H' s" "locks_after H' (prog u) = Some []" using H by blast
  then have "H' \<noteq> []" using u by (auto simp: held_def)
  then obtain l' where "l' \<in> ?O" "Max ?O < l'" using above holder_awake [OF H'(2)] u by blast
  then show False using Max_ge [OF fin, of l'] by simp
qed

end
