(* ===== verification/Lock_Discipline.thy ===== *)
theory Lock_Discipline
  imports Locks
begin

text \<open>
  The synchronisation of every routine of the program: which locks it takes and gives up, in which order,
  which events it sets and waits for, and where it relies on a lock. The points that rely on a lock come
  from \<^verbatim>\<open>LOCK_REQUIRES\<close>, from the assertions on \<^verbatim>\<open>ke_spinlock_held\<close>, and from the preconditions in the
  comments; where the code makes a call without the locks that the callee requires, the call is marked
  as \<open>Unguarded\<close>. Branches on data are choices; a branch that ends in \<^verbatim>\<open>kfatal\<close> is left out, since no thread
  gets past it, and so is the initialisation of an event. There is one process, \<^verbatim>\<open>kernel_ps\<close>, which is
  number 0; the routines that take a process take its number.
\<close>

section \<open>Events\<close>

definition ke_event_signal_locks :: "event \<Rightarrow> cmd" where
  "ke_event_signal_locks e = block [MutexLock (EventMutex e), SetEvent e True, MutexUnlock (EventMutex e)]"

definition ke_event_clear_locks :: "event \<Rightarrow> cmd" where
  "ke_event_clear_locks e = block [MutexLock (EventMutex e), SetEvent e False, MutexUnlock (EventMutex e)]"

definition ke_event_wait_locks :: "event \<Rightarrow> bool \<Rightarrow> cmd" where
  "ke_event_wait_locks e timed = block [MutexLock (EventMutex e), Await e timed, MutexUnlock (EventMutex e)]"

definition vmp_acquire_pfn_lock :: cmd where
  "vmp_acquire_pfn_lock = SpinAcquire PfnLock True"

definition vmp_release_pfn_lock :: cmd where
  "vmp_release_pfn_lock = SpinRelease PfnLock"

section \<open>The page frame database\<close>

definition check_shortage_locks :: cmd where
  "check_shortage_locks = block
     [Requires PfnLock,
      Choice Skip (block
        [ke_event_clear_locks SufficientPagesEvent,
         Choice Skip (ke_event_signal_locks PgwriterEvent),
         Choice Skip (ke_event_signal_locks BalancerEvent)])]"

definition vmp_page_retain_locks :: cmd where
  "vmp_page_retain_locks = Requires PfnLock"

definition vmp_page_release_locks :: cmd where
  "vmp_page_release_locks = block
     [Requires PfnLock,
      Choice Skip (block [check_shortage_locks, Choice Skip (ke_event_signal_locks SufficientPagesEvent)])]"

definition vmp_wsl_lock_entry_locks :: "nat \<Rightarrow> cmd" where
  "vmp_wsl_lock_entry_locks ps = Requires (WsLock ps)"

definition vmp_wsl_unlock_entry_locks :: "nat \<Rightarrow> cmd" where
  "vmp_wsl_unlock_entry_locks ps = Requires (WsLock ps)"

definition vmp_pagetable_page_pte_became_swap_locks :: "nat \<Rightarrow> cmd" where
  "vmp_pagetable_page_pte_became_swap_locks ps = block
     [Requires (WsLock ps), Requires PfnLock,
      Choice Skip (vmp_wsl_unlock_entry_locks ps), vmp_page_release_locks]"

definition steal_page_locks :: cmd where
  "steal_page_locks = block
     [Requires PfnLock, Choice Skip (vmp_pagetable_page_pte_became_swap_locks 0)]"

definition vmp_page_alloc_locks :: cmd where
  "vmp_page_alloc_locks = block
     [Requires PfnLock, check_shortage_locks, Choice Skip (Choice Skip steal_page_locks)]"

definition vm_mdl_release_pages_locks :: cmd where
  "vm_mdl_release_pages_locks =
     Loop (block [vmp_acquire_pfn_lock, vmp_page_release_locks, vmp_release_pfn_lock])"

section \<open>Working sets\<close>

definition wsl_evict_locks :: "nat \<Rightarrow> cmd" where
  "wsl_evict_locks ps = vmp_page_release_locks"

definition wsl_trim_1_locks :: "nat \<Rightarrow> cmd" where
  "wsl_trim_1_locks ps = Choice Skip (wsl_evict_locks ps)"

definition wsl_try_expand_locks :: "nat \<Rightarrow> cmd" where
  "wsl_try_expand_locks ps = block [Requires (WsLock ps), Requires PfnLock]"

definition vmp_wsl_insert_locks :: "nat \<Rightarrow> cmd" where
  "vmp_wsl_insert_locks ps = block
     [Requires (WsLock ps), Requires PfnLock,
      Choice Skip (block [wsl_try_expand_locks ps, Choice Skip (wsl_trim_1_locks ps)])]"

definition vmp_wsl_remove_locks :: "nat \<Rightarrow> cmd" where
  "vmp_wsl_remove_locks ps = block [Requires (WsLock ps), Requires PfnLock]"

definition vmp_wsl_trim_n_locks :: "nat \<Rightarrow> cmd" where
  "vmp_wsl_trim_n_locks ps = block
     [Requires (WsLock ps),
      Loop (block [vmp_acquire_pfn_lock, wsl_trim_1_locks ps, vmp_release_pfn_lock])]"

section \<open>Page tables\<close>

definition vmp_pagetable_page_nonswap_pte_created_locks :: "nat \<Rightarrow> cmd" where
  "vmp_pagetable_page_nonswap_pte_created_locks ps = block
     [Requires (WsLock ps), Requires PfnLock,
      vmp_page_retain_locks, Choice Skip (vmp_wsl_lock_entry_locks ps)]"

text \<open>\<open>uplevels\<close> is the number of table levels above the page; the root has none.\<close>

fun vmp_pagetable_page_pte_deleted_locks :: "nat \<Rightarrow> nat \<Rightarrow> cmd" where
  "vmp_pagetable_page_pte_deleted_locks ps 0 = block [Requires (WsLock ps), vmp_page_release_locks]"
| "vmp_pagetable_page_pte_deleted_locks ps (Suc uplevels) = block
     [Requires (WsLock ps),
      Choice
        (block
          [Choice (block [vmp_wsl_unlock_entry_locks ps, vmp_wsl_remove_locks ps]) (vmp_wsl_remove_locks ps),
           vmp_pagetable_page_pte_deleted_locks ps uplevels,
           vmp_page_release_locks, vmp_page_release_locks])
        (block [Choice Skip (vmp_wsl_unlock_entry_locks ps), vmp_page_release_locks])]"

text \<open>For each level from the leaf up, if its page is wired.\<close>

definition vmp_pte_wire_state_release_locks :: "nat \<Rightarrow> cmd" where
  "vmp_pte_wire_state_release_locks ps =
     block (map (\<lambda>uplevels. Choice Skip (vmp_pagetable_page_pte_deleted_locks ps uplevels)) [3, 2, 1, 0])"

definition vmp_md_setup_table_pointers_locks :: "nat \<Rightarrow> cmd" where
  "vmp_md_setup_table_pointers_locks ps = vmp_pagetable_page_nonswap_pte_created_locks ps"

text \<open>The busy case of \<^verbatim>\<open>vmp_wire_pte\<close> waits for the pager and examines the entry again.\<close>

definition wire_busy_locks :: "nat \<Rightarrow> nat \<Rightarrow> cmd" where
  "wire_busy_locks ps pager = block
     [vmp_release_pfn_lock, MutexUnlock (WsLock ps), ke_event_wait_locks (PagerEvent pager) False,
      MutexLock (WsLock ps), vmp_acquire_pfn_lock]"

definition wire_level_locks :: "nat \<Rightarrow> nat option \<Rightarrow> cmd" where
  "wire_level_locks ps busy = block
     [case busy of None \<Rightarrow> Skip | Some pager \<Rightarrow> Loop (wire_busy_locks ps pager),
      Choice (vmp_pagetable_page_nonswap_pte_created_locks ps)
      (Choice
        (block [vmp_page_retain_locks, vmp_page_retain_locks, vmp_wsl_insert_locks ps,
           vmp_md_setup_table_pointers_locks ps])
        (block [vmp_page_alloc_locks, vmp_page_retain_locks, vmp_wsl_insert_locks ps,
           vmp_md_setup_table_pointers_locks ps]))]"

text \<open>\<open>busy\<close> names the pager state that directory entries on the path may be waiting for, \<open>None\<close> when there are
  none. The program runs with \<open>None\<close>: the only code that creates a busy entry is the page-in of \<^verbatim>\<open>do_fault\<close>,
  in the leaf entry that \<^verbatim>\<open>vmp_wire_pte\<close> has returned, and the loop of \<^verbatim>\<open>vmp_wire_pte\<close> examines the entries
  of the levels above only. In the model of the state this is the invariant \<open>dirs_ok\<close>, by which an entry of
  a directory is zero or leads to a table, and which faults, trimming and the page writer keep. What the
  case would do is stated below.\<close>

definition vmp_wire_pte_locks :: "nat \<Rightarrow> nat option \<Rightarrow> cmd" where
  "vmp_wire_pte_locks ps busy = block
     [vmp_acquire_pfn_lock, vmp_pagetable_page_nonswap_pte_created_locks ps,
      wire_level_locks ps busy, wire_level_locks ps busy, wire_level_locks ps busy,
      vmp_release_pfn_lock]"

definition vmp_fork_locks :: "nat \<Rightarrow> nat \<Rightarrow> cmd" where
  "vmp_fork_locks ps1 ps2 = block
     [MutexLock (VadLock ps1), MutexLock (VadLock ps2), MutexUnlock (VadLock ps2), MutexUnlock (VadLock ps1)]"

section \<open>Input, output, faults and mappings\<close>

definition iop_init_locks :: "nat \<Rightarrow> cmd" where
  "iop_init_locks iop = ke_event_clear_locks (IopEvent iop)"

definition iop_send_locks :: "nat \<Rightarrow> cmd" where
  "iop_send_locks iop = ke_event_signal_locks (IopEvent iop)"

text \<open>The swap case of \<^verbatim>\<open>do_fault\<close> gives up everything while it reads the page; \<open>iop\<close> is the packet on
  the stack of the faulting thread.\<close>

definition fault_swap_locks :: "nat \<Rightarrow> nat \<Rightarrow> cmd" where
  "fault_swap_locks ps iop = block
     [vmp_page_alloc_locks,
      Choice (vmp_pte_wire_state_release_locks ps)
       (block
         [vmp_pagetable_page_nonswap_pte_created_locks ps, vmp_wsl_insert_locks ps,
          vmp_pte_wire_state_release_locks ps,
          vmp_release_pfn_lock, MutexUnlock (WsLock ps), MutexUnlock (VadLock ps),
          iop_init_locks iop, iop_send_locks iop, ke_event_wait_locks (IopEvent iop) False,
          MutexLock (VadLock ps), MutexLock (WsLock ps), SpinAcquire PfnLock False,
          Choice Skip vmp_page_retain_locks, vmp_wsl_unlock_entry_locks ps])]"

definition fault_zero_locks :: "nat \<Rightarrow> cmd" where
  "fault_zero_locks ps = block
     [vmp_page_alloc_locks,
      Choice Skip
       (block [vmp_pagetable_page_nonswap_pte_created_locks ps, vmp_wsl_insert_locks ps,
          Choice Skip vmp_page_retain_locks])]"

definition fault_trans_locks :: "nat \<Rightarrow> cmd" where
  "fault_trans_locks ps = block
     [vmp_page_retain_locks, vmp_wsl_insert_locks ps, Choice Skip vmp_page_retain_locks]"

definition do_fault_locks :: "nat \<Rightarrow> nat option \<Rightarrow> nat \<Rightarrow> cmd" where
  "do_fault_locks ps busy iop = block
     [MutexLock (VadLock ps), MutexLock (WsLock ps), vmp_wire_pte_locks ps busy, vmp_acquire_pfn_lock,
      Choice (fault_swap_locks ps iop)
       (block
         [Choice (Choice Skip vmp_page_retain_locks) (Choice (fault_zero_locks ps) (fault_trans_locks ps)),
          vmp_pte_wire_state_release_locks ps]),
      vmp_release_pfn_lock, MutexUnlock (WsLock ps), MutexUnlock (VadLock ps)]"

definition vm_fault_locks :: "nat \<Rightarrow> cmd" where
  "vm_fault_locks iop = block
     [Loop (block [do_fault_locks 0 None iop, ke_event_wait_locks SufficientPagesEvent False]),
      do_fault_locks 0 None iop]"

definition vm_ps_map_section_view_locks :: "nat \<Rightarrow> cmd" where
  "vm_ps_map_section_view_locks ps = block [MutexLock (VadLock ps), Requires (VadLock ps), MutexUnlock (VadLock ps)]"

section \<open>The threads\<close>

definition vmp_page_shortage_locks :: cmd where
  "vmp_page_shortage_locks = Requires PfnLock"

text \<open>The page writer evaluates \<^verbatim>\<open>vmp_page_shortage\<close> without the lock. In round \<open>i\<close> it uses packet \<open>i\<close>; the loop ends when the queue is empty or the target is
  reached.\<close>

definition cluster_anon_locks :: "nat \<Rightarrow> cmd" where
  "cluster_anon_locks i = block [Requires PfnLock, iop_init_locks i]"

fun pgwriter_rounds :: "nat list \<Rightarrow> cmd" where
  "pgwriter_rounds [] = Skip"
| "pgwriter_rounds (i # is) =
     Choice Skip
       (block
         [vmp_acquire_pfn_lock,
          Choice
            (block [ke_event_clear_locks PgwriterEvent, vmp_release_pfn_lock])
            (block [vmp_page_retain_locks, cluster_anon_locks i, vmp_release_pfn_lock,
               iop_send_locks i, pgwriter_rounds is])])"

definition vmp_pgwriter_locks :: cmd where
  "vmp_pgwriter_locks = Forever (block
     [ke_event_wait_locks PgwriterEvent True,
      Unguarded vmp_page_shortage_locks, Peek PfnLock,
      pgwriter_rounds [0..<32],
      block (map (\<lambda>i. Choice Skip (ke_event_wait_locks (IopEvent i) False)) [0..<32]),
      Loop vm_mdl_release_pages_locks])"

definition vmp_balancer_locks :: cmd where
  "vmp_balancer_locks = Forever (block
     [ke_event_wait_locks BalancerEvent True,
      Choice Skip
       (block
         [MutexLock (WsLock 0), vmp_wsl_trim_n_locks 0, MutexUnlock (WsLock 0),
          vmp_acquire_pfn_lock, Requires PfnLock, Choice Skip (ke_event_clear_locks BalancerEvent),
          vmp_release_pfn_lock])])"

text \<open>The main thread, from the allocation of the root table on, for which it does not take the lock; \<^verbatim>\<open>access\<close>
  faults as often as it must. The other two threads are started after that allocation; here they may
  run from the beginning, which gives more interleavings.\<close>

definition access_locks :: "nat \<Rightarrow> cmd" where
  "access_locks iop = Loop (vm_fault_locks iop)"

definition main_locks :: "nat \<Rightarrow> cmd" where
  "main_locks iop = block
     [Unguarded vmp_page_alloc_locks, vm_ps_map_section_view_locks 0, Loop (access_locks iop), Peek (WsLock 0), Peek PfnLock]"

section \<open>Contracts\<close>

named_theorems lock_contracts

text \<open>The locks under which a routine is called lie below the mutexes of events.\<close>

definition no_event_mutex :: "lock list \<Rightarrow> bool" where
  "no_event_mutex H \<longleftrightarrow> (\<forall>e. EventMutex e \<notin> set H)"

lemma below_event: "h < EventMutex e \<longleftrightarrow> (\<exists>e'. h = EventMutex e' \<and> event_index e' < event_index e) \<or> (\<forall>e'. h \<noteq> EventMutex e')"
  by (cases h) (auto simp: less_lock_def)

lemma locks_after_block [simp]:
  "locks_check m H (block []) = Some H"
  "locks_check m H (block (c # cs)) = (case locks_check m H c of None \<Rightarrow> None | Some H' \<Rightarrow> locks_check m H' (block cs))"
  by (simp_all, cases cs) (auto split: option.splits)

declare block.simps [simp del]

lemma locks_after_block_same:
  "\<forall>c\<in>set cs. locks_after H c = Some H \<Longrightarrow> locks_after H (block cs) = Some H"
  by (induction cs) auto

lemma no_event_mutex_below: "no_event_mutex H \<Longrightarrow> list_all (\<lambda>h. h < EventMutex e) H"
  unfolding no_event_mutex_def list_all_iff by (metis below_event)

lemma no_event_mutex_Cons [simp]: "no_event_mutex [] \<and> (no_event_mutex (l # H) \<longleftrightarrow> (\<forall>e. l \<noteq> EventMutex e) \<and> no_event_mutex H)"
  by (auto simp: no_event_mutex_def)

lemma event_contracts [lock_contracts]:
  assumes "no_event_mutex H"
  shows "locks_check m H (ke_event_signal_locks e) = Some H" and "locks_check m H (ke_event_clear_locks e) = Some H"
  using no_event_mutex_below [OF assms, of e]
  by (simp_all add: ke_event_signal_locks_def ke_event_clear_locks_def)

lemma wait_contract [lock_contracts]: "locks_after [] (ke_event_wait_locks e timed) = Some []"
  by (simp add: ke_event_wait_locks_def)

lemma frame_contracts [lock_contracts]:
  assumes "no_event_mutex H" and "m \<longrightarrow> PfnLock \<in> set H"
  shows "locks_check m H check_shortage_locks = Some H" and "locks_check m H vmp_page_retain_locks = Some H"
    and "locks_check m H vmp_page_release_locks = Some H"
  using assms by (simp_all add: check_shortage_locks_def vmp_page_retain_locks_def vmp_page_release_locks_def lock_contracts)

lemma working_set_contracts [lock_contracts]:
  assumes "no_event_mutex H" and "m \<longrightarrow> PfnLock \<in> set H" and "m \<longrightarrow> WsLock ps \<in> set H"
  shows "locks_check m H (vmp_wsl_lock_entry_locks ps) = Some H"
    and "locks_check m H (vmp_wsl_unlock_entry_locks ps) = Some H"
    and "locks_check m H (wsl_trim_1_locks ps) = Some H"
    and "locks_check m H (vmp_wsl_insert_locks ps) = Some H"
    and "locks_check m H (vmp_wsl_remove_locks ps) = Some H"
    and "locks_check m H (vmp_pagetable_page_pte_became_swap_locks ps) = Some H"
    and "locks_check m H (vmp_pagetable_page_nonswap_pte_created_locks ps) = Some H"
    and "locks_check m H (vmp_md_setup_table_pointers_locks ps) = Some H"
  using assms
  by (simp_all add: vmp_wsl_lock_entry_locks_def vmp_wsl_unlock_entry_locks_def wsl_trim_1_locks_def
      wsl_evict_locks_def vmp_wsl_insert_locks_def wsl_try_expand_locks_def vmp_wsl_remove_locks_def
      vmp_pagetable_page_pte_became_swap_locks_def vmp_pagetable_page_nonswap_pte_created_locks_def
      vmp_md_setup_table_pointers_locks_def lock_contracts)

lemma unlock_entry_contract [lock_contracts]:
  "m \<longrightarrow> WsLock ps \<in> set H \<Longrightarrow> locks_check m H (vmp_wsl_unlock_entry_locks ps) = Some H"
  by (simp add: vmp_wsl_unlock_entry_locks_def)

lemma page_alloc_contract [lock_contracts]:
  assumes "no_event_mutex H" and "m \<longrightarrow> PfnLock \<in> set H" and "m \<longrightarrow> WsLock 0 \<in> set H"
  shows "locks_check m H vmp_page_alloc_locks = Some H"
  using assms by (simp add: vmp_page_alloc_locks_def steal_page_locks_def lock_contracts)

lemma pte_deleted_contract [lock_contracts]:
  assumes "no_event_mutex H" and "PfnLock \<in> set H" and "WsLock ps \<in> set H"
  shows "locks_after H (vmp_pagetable_page_pte_deleted_locks ps uplevels) = Some H"
  using assms by (induction uplevels) (simp_all add: lock_contracts)

lemma wire_state_release_contract [lock_contracts]:
  assumes "no_event_mutex H" and "PfnLock \<in> set H" and "WsLock ps \<in> set H"
  shows "locks_after H (vmp_pte_wire_state_release_locks ps) = Some H"
  using assms unfolding vmp_pte_wire_state_release_locks_def
  by (intro locks_after_block_same) (auto simp: lock_contracts)

lemma pfn_lock_contracts [lock_contracts]:
  "list_all (\<lambda>h. h < PfnLock) H \<Longrightarrow> locks_after H vmp_acquire_pfn_lock = Some (PfnLock # H)"
  "locks_after (PfnLock # H) vmp_release_pfn_lock = Some H"
  by (simp_all add: vmp_acquire_pfn_lock_def vmp_release_pfn_lock_def)

lemma mdl_release_contract [lock_contracts]:
  "locks_after [] vm_mdl_release_pages_locks = Some []"
  by (simp add: vm_mdl_release_pages_locks_def lock_contracts)

lemma lock_order [simp]:
  "VadLock a < WsLock b" "VadLock a < PfnLock" "WsLock b < PfnLock"
  by (simp_all add: less_lock_def)

text \<open>The locks a faulting thread holds while it works on an entry.\<close>

lemma wire_contract [lock_contracts]:
  "locks_after [WsLock 0, VadLock 0] (vmp_wire_pte_locks 0 None) = Some [WsLock 0, VadLock 0]"
  by (simp add: vmp_wire_pte_locks_def wire_level_locks_def lock_contracts)

lemma fault_contracts [lock_contracts]:
  "locks_after [PfnLock, WsLock 0, VadLock 0] (fault_zero_locks 0) = Some [PfnLock, WsLock 0, VadLock 0]"
  "locks_after [PfnLock, WsLock 0, VadLock 0] (fault_trans_locks 0) = Some [PfnLock, WsLock 0, VadLock 0]"
  "locks_after [PfnLock, WsLock 0, VadLock 0] (fault_swap_locks 0 iop) = Some [PfnLock, WsLock 0, VadLock 0]"
  by (simp_all add: fault_zero_locks_def fault_trans_locks_def fault_swap_locks_def iop_init_locks_def
      iop_send_locks_def lock_contracts)

lemma do_fault_contract [lock_contracts]: "locks_after [] (do_fault_locks 0 None iop) = Some []"
  by (simp add: do_fault_locks_def lock_contracts)

lemma rounds_contract [lock_contracts]: "locks_after [] (pgwriter_rounds is) = Some []"
  by (induction "is") (simp_all add: cluster_anon_locks_def iop_init_locks_def iop_send_locks_def lock_contracts)

lemma pgwriter_contract: "locks_after [] vmp_pgwriter_locks = Some []"
proof -
  have "locks_after [] (block (map (\<lambda>i. Choice Skip (ke_event_wait_locks (IopEvent i) False)) is)) = Some []" for "is"
    by (rule locks_after_block_same) (auto simp: lock_contracts)
  then show ?thesis by (simp add: vmp_pgwriter_locks_def vmp_page_shortage_locks_def lock_contracts del: upt_rec_numeral)
qed

lemma balancer_contract: "locks_after [] vmp_balancer_locks = Some []"
  by (simp add: vmp_balancer_locks_def vmp_wsl_trim_n_locks_def lock_contracts)

lemma main_contract: "locks_after [] (main_locks iop) = Some []"
  by (simp add: main_locks_def access_locks_def vm_fault_locks_def vm_ps_map_section_view_locks_def lock_contracts)

section \<open>The program\<close>

text \<open>Any number of threads, each of which runs the page writer, the balancer, the main program, or
  accesses memory, or has nothing to do.\<close>

definition program_thread :: "cmd \<Rightarrow> bool" where
  "program_thread c \<longleftrightarrow> c = Skip \<or> c = vmp_pgwriter_locks \<or> c = vmp_balancer_locks \<or>
     (\<exists>iop. c = main_locks iop \<or> c = access_locks iop)"

lemma program_thread_checked: "program_thread c \<Longrightarrow> locks_after [] c = Some []"
  using pgwriter_contract balancer_contract main_contract
  by (auto simp: program_thread_def access_locks_def vm_fault_locks_def lock_contracts)

lemma program_disciplined:
  "unlocked s \<Longrightarrow> \<forall>t. program_thread (prog t) \<Longrightarrow> reaches (prog, s) y \<Longrightarrow> disciplined y"
  by (blast intro: disciplined_reaches disciplined_start program_thread_checked)

definition nothing_locked :: sync where
  "nothing_locked = \<lparr>owner = \<lambda>_. None, event_state = \<lambda>_. False, SIM_ipl = \<lambda>_. kIPL0, saved_ipl = \<lambda>_. kIPL0\<rparr>"

lemma nothing_locked_unlocked: "unlocked nothing_locked"
  by (simp add: unlocked_def nothing_locked_def)

text \<open>The threads of the simulator.\<close>

definition vmmsim :: "nat \<Rightarrow> cmd" where
  "vmmsim = (\<lambda>_. Skip)(0 := main_locks 32, 1 := vmp_pgwriter_locks, 2 := vmp_balancer_locks)"

lemma vmmsim_program: "\<forall>t. program_thread (vmmsim t)"
  by (auto simp: vmmsim_def program_thread_def)

text \<open>A run of the simulator: the page writer wakes from its timed wait; the main thread faults and works on
  the page frame database.\<close>

definition sample_schedule :: "(nat \<times> nat) list" where
  "sample_schedule =
     replicate 4 (1, 0) @ (1, 1) # replicate 3 (1, 0) @
     replicate 15 (0, 0) @ [(0, 1), (0, 1)] @ replicate 10 (0, 0)"

lemma sample_run:
  "\<exists>prog s. reaches (vmmsim, nothing_locked) (prog, s) \<and> relies_on (prog 0) = Some PfnLock \<and>
     owner s PfnLock = Some 0 \<and> relies_on (prog 1) = Some PfnLock \<and> unguarded (prog 1) \<and> \<not> unguarded (prog 0)"
proof -
  have "case run_schedule sample_schedule (vmmsim, nothing_locked) of None \<Rightarrow> False
    | Some (prog, s) \<Rightarrow> relies_on (prog 0) = Some PfnLock \<and> owner s PfnLock = Some 0
        \<and> relies_on (prog 1) = Some PfnLock \<and> unguarded (prog 1) \<and> \<not> unguarded (prog 0)"
    by code_simp
  then show ?thesis by (auto split: option.splits intro: run_schedule_reaches)
qed

text \<open>C8. However the threads of the program are interleaved, they do not deadlock over its locks: as long
  as some thread is neither finished nor asleep in a wait for an event, some such thread can take a
  step. A thread that has finished or is asleep owns no lock.\<close>

theorem no_deadlock:
  assumes "unlocked s" and "\<forall>t. program_thread (prog t)" and "reaches (prog, s) (prog', s')"
  shows "((\<exists>t. \<not> asleep (prog' t) \<and> prog' t \<noteq> Skip) \<longrightarrow> (\<exists>t. \<not> asleep (prog' t) \<and> steps t (prog' t) s' \<noteq> []))
    \<and> (\<forall>t l. owner s' l = Some t \<longrightarrow> \<not> asleep (prog' t) \<and> prog' t \<noteq> Skip)"
proof -
  have d: "disciplined (prog', s')" using program_disciplined [OF assms] .
  have "\<not> asleep (prog' t) \<and> prog' t \<noteq> Skip" if "owner s' l = Some t" for t l
  proof -
    obtain H where "held t H s'" "locks_after H (prog' t) = Some []" using d by (auto simp: disciplined_def)
    moreover from this that have "H \<noteq> []" by (auto simp: held_def)
    ultimately show ?thesis using holder_awake by blast
  qed
  then show ?thesis using disciplined_progress [OF d] by blast
qed

theorem no_deadlock_witness:
  "\<exists>prog s. reaches (vmmsim, nothing_locked) (prog, s) \<and> \<not> asleep (prog 0) \<and> prog 0 \<noteq> Skip \<and>
     (\<exists>t. \<not> asleep (prog t) \<and> steps t (prog t) s \<noteq> [])"
proof -
  obtain prog s where run: "reaches (vmmsim, nothing_locked) (prog, s)" "owner s PfnLock = Some 0"
    using sample_run by blast
  then show ?thesis using no_deadlock [OF nothing_locked_unlocked vmmsim_program run(1)] run(1) by blast
qed

text \<open>Only the page writer and the main thread make unguarded calls.\<close>

fun never_unguarded :: "cmd \<Rightarrow> bool" where
  "never_unguarded (Unguarded c) = False"
| "never_unguarded (Seq c d) \<longleftrightarrow> never_unguarded c \<and> never_unguarded d"
| "never_unguarded (Choice c d) \<longleftrightarrow> never_unguarded c \<and> never_unguarded d"
| "never_unguarded (Loop c) = never_unguarded c"
| "never_unguarded (Forever c) = never_unguarded c"
| "never_unguarded _ = True"

lemma never_unguarded_here: "never_unguarded c \<Longrightarrow> \<not> unguarded c"
  by (induction c) simp_all

lemma never_unguarded_block [simp]:
  "never_unguarded (block []) = True"
  "never_unguarded (block (c # cs)) \<longleftrightarrow> never_unguarded c \<and> never_unguarded (block cs)"
  by (simp add: block.simps) (cases cs; simp add: block.simps)

lemma never_unguarded_step:
  "(c', s') \<in> set (steps t c s) \<Longrightarrow> never_unguarded c \<Longrightarrow> never_unguarded c'"
  by (induction t c s arbitrary: c' s' rule: steps.induct) (auto split: option.splits if_splits)

lemma never_unguarded_reaches:
  "reaches (prog, s) y \<Longrightarrow> never_unguarded (prog t) \<Longrightarrow> never_unguarded (fst y t)"
proof (induction "(prog, s)" y rule: reaches.induct)
  case (later y z)
  then show ?case using never_unguarded_step by (auto elim!: system_step.cases)
qed simp

lemma release_never_unguarded: "never_unguarded vmp_page_release_locks"
  by (simp add: vmp_page_release_locks_def check_shortage_locks_def ke_event_signal_locks_def ke_event_clear_locks_def)

lemma pte_deleted_never_unguarded: "never_unguarded (vmp_pagetable_page_pte_deleted_locks ps n)"
  by (induction n) (simp_all add: release_never_unguarded vmp_wsl_unlock_entry_locks_def vmp_wsl_remove_locks_def)

lemma fault_never_unguarded: "never_unguarded (do_fault_locks 0 None iop)"
  by (simp add: do_fault_locks_def vmp_wire_pte_locks_def wire_level_locks_def fault_swap_locks_def fault_zero_locks_def
      fault_trans_locks_def vmp_pte_wire_state_release_locks_def vmp_page_alloc_locks_def steal_page_locks_def
      check_shortage_locks_def ke_event_signal_locks_def ke_event_clear_locks_def ke_event_wait_locks_def
      iop_init_locks_def iop_send_locks_def vmp_page_retain_locks_def vmp_page_release_locks_def
      vmp_wsl_insert_locks_def wsl_try_expand_locks_def wsl_trim_1_locks_def wsl_evict_locks_def
      vmp_wsl_lock_entry_locks_def vmp_wsl_unlock_entry_locks_def vmp_wsl_remove_locks_def
      vmp_md_setup_table_pointers_locks_def vmp_pagetable_page_nonswap_pte_created_locks_def
      vmp_pagetable_page_pte_became_swap_locks_def vmp_acquire_pfn_lock_def vmp_release_pfn_lock_def
      pte_deleted_never_unguarded del: vmp_pagetable_page_pte_deleted_locks.simps)

lemma others_never_unguarded:
  assumes "program_thread c" and "c \<noteq> vmp_pgwriter_locks" and "\<nexists>iop. c = main_locks iop"
  shows "never_unguarded c"
proof -
  have "never_unguarded vmp_balancer_locks"
    by (simp add: vmp_balancer_locks_def vmp_wsl_trim_n_locks_def wsl_trim_1_locks_def wsl_evict_locks_def
        release_never_unguarded ke_event_clear_locks_def ke_event_wait_locks_def vmp_acquire_pfn_lock_def vmp_release_pfn_lock_def)
  moreover have "never_unguarded (access_locks iop)" for iop
    by (simp add: access_locks_def vm_fault_locks_def fault_never_unguarded ke_event_wait_locks_def)
  ultimately show ?thesis using assms by (auto simp: program_thread_def)
qed

text \<open>C9. The declared requirements on locks, and their exceptions. In every interleaving a thread at a point
  that is declared to require a lock owns that lock, and no two threads are at points that require the
  same lock, unless the point lies in a call that the code makes unguarded; only the page writer (its
  test for a shortage) and the main thread (its allocation of the root table) make such calls. The
  interrupt level of every thread is \<^verbatim>\<open>kIPL0\<close> throughout.\<close>

theorem lock_requirements_met:
  assumes "unlocked s" and "\<forall>t. program_thread (prog t)" and "reaches (prog, s) (prog', s')"
  shows "(relies_on (prog' t) = Some l \<and> \<not> unguarded (prog' t) \<longrightarrow> owner s' l = Some t)
    \<and> (relies_on (prog' t) = Some l \<and> relies_on (prog' u) = Some l
        \<and> \<not> unguarded (prog' t) \<and> \<not> unguarded (prog' u) \<longrightarrow> t = u)
    \<and> (unguarded (prog' t) \<longrightarrow> prog t = vmp_pgwriter_locks \<or> (\<exists>iop. prog t = main_locks iop))
    \<and> splget t s' = kIPL0"
proof -
  have d: "disciplined (prog', s')" using program_disciplined [OF assms] .
  have owns: "owner s' l = Some v" if rel: "relies_on (prog' v) = Some l" "\<not> unguarded (prog' v)" for v
  proof -
    obtain H where "held v H s'" "locks_after H (prog' v) = Some []" using d by (auto simp: disciplined_def)
    then show ?thesis using relies_on_held [OF _ rel] by (auto simp: held_def)
  qed
  have "splget t s' = kIPL0" using d by (simp add: disciplined_def ipl_0_def splget_def)
  moreover have "t = u" if "relies_on (prog' t) = Some l" "relies_on (prog' u) = Some l"
    "\<not> unguarded (prog' t)" "\<not> unguarded (prog' u)"
    using owns [OF that(1,3)] owns [OF that(2,4)] by simp
  moreover have "prog t = vmp_pgwriter_locks \<or> (\<exists>iop. prog t = main_locks iop)" if "unguarded (prog' t)"
    using that others_never_unguarded [of "prog t"] assms(2) never_unguarded_reaches [OF assms(3), of t]
      never_unguarded_here [of "prog' t"] by auto
  ultimately show ?thesis using owns by blast
qed

theorem lock_requirements_met_witness:
  "\<exists>prog s. reaches (vmmsim, nothing_locked) (prog, s) \<and> relies_on (prog 0) = Some PfnLock \<and>
     owner s PfnLock = Some 0 \<and> \<not> unguarded (prog 0) \<and> unguarded (prog 1) \<and> splget 1 s = kIPL0"
  using sample_run lock_requirements_met [OF nothing_locked_unlocked vmmsim_program] by meson

section \<open>Where the discipline fails\<close>

text \<open>Two forks, of process 0 into process 1 and the other way round.\<close>

definition crossed_forks :: "nat \<Rightarrow> cmd" where
  "crossed_forks = (\<lambda>_. Skip)(0 := vmp_fork_locks 0 1, 1 := vmp_fork_locks 1 0)"

text \<open>\<^verbatim>\<open>vmp_fork\<close> takes the locks of its two processes in the order of its arguments: a fork of one process
  into another and a fork the other way round reach a point at which neither has finished, no thread is
  asleep, and no thread can ever take a step.\<close>

lemma vmp_fork_can_deadlock:
  "\<exists>prog s. reaches (crossed_forks, nothing_locked) (prog, s) \<and> prog 0 \<noteq> Skip \<and> prog 1 \<noteq> Skip \<and>
     (\<forall>t. \<not> asleep (prog t) \<and> steps t (prog t) s = [])"
proof -
  let ?rest = "\<lambda>a b. block [MutexLock (VadLock b), MutexUnlock (VadLock b), MutexUnlock (VadLock a)]"
  let ?prog = "crossed_forks(0 := ?rest 0 1, 1 := ?rest 1 0)"
  let ?s = "nothing_locked\<lparr>owner := (\<lambda>_. None)(VadLock 0 := Some 0, VadLock 1 := Some 1)\<rparr>"
  have "run_schedule [(0, 0), (0, 0), (1, 0), (1, 0)] (crossed_forks, nothing_locked) = Some (?prog, ?s)"
    by (simp add: crossed_forks_def vmp_fork_locks_def block.simps pthread_mutex_lock_def nothing_locked_def fun_upd_twist)
  then have "reaches (crossed_forks, nothing_locked) (?prog, ?s)" by (rule run_schedule_reaches)
  moreover have "\<not> asleep (?prog t) \<and> steps t (?prog t) ?s = []" for t
    by (auto simp: crossed_forks_def block.simps pthread_mutex_lock_def)
  moreover have "?prog 0 \<noteq> Skip \<and> ?prog 1 \<noteq> Skip" by (simp add: block.simps)
  ultimately show ?thesis by blast
qed

text \<open>The busy case of \<^verbatim>\<open>vmp_wire_pte\<close> gives up the working set but not the address descriptors, which the
  thread that pages in has to take again: with a busy directory entry on the path, the check refuses
  the fault because it would wait with a lock held.\<close>

lemma busy_wire_waits_with_lock_held: "locks_after [] (do_fault_locks ps (Some pager) iop) = None"
proof -
  have "locks_after [PfnLock, WsLock ps, VadLock ps] (wire_level_locks ps (Some pager)) = None"
    by (simp add: wire_level_locks_def wire_busy_locks_def ke_event_wait_locks_def lock_contracts less_lock_def)
  then show ?thesis
    by (simp add: do_fault_locks_def vmp_wire_pte_locks_def lock_contracts)
qed

text \<open>The page writer evaluates \<^verbatim>\<open>vmp_page_shortage\<close>, which is declared to require the lock on the page frame
  database, while another thread owns that lock and changes the database; and the main thread starts
  with an allocation that asserts the lock, which nobody owns.\<close>

lemma pgwriter_reads_unlocked:
  "\<exists>prog s. reaches (vmmsim, nothing_locked) (prog, s) \<and> relies_on (prog 0) = Some PfnLock \<and>
     owner s PfnLock = Some 0 \<and> relies_on (prog 1) = Some PfnLock"
  using sample_run by blast

lemma main_allocates_unlocked: "relies_on (main_locks iop) = Some PfnLock \<and> owner nothing_locked PfnLock = None"
  by (simp add: main_locks_def vmp_page_alloc_locks_def block.simps nothing_locked_def)

end
