(* ===== verification/Page_In.thy ===== *)
theory Page_In
  imports Fault Address_Space
begin

text \<open>
  The read of a page-in (\<^verbatim>\<open>do_fault\<close>, case \<^verbatim>\<open>kPTEKindSwap\<close>). The page file position is computed from the
  page that was just allocated, whose slot is still \<open>-1\<close>, because no step between the allocation and
  the read assigns a slot; so the read is at a negative offset and moves nothing.
\<close>

section \<open>What leaves the slots of the pages alone\<close>

definition slots :: "vmm \<Rightarrow> page_ptr \<Rightarrow> uint64_t" where
  "slots s p = drumslot (mypages s p)"

lemma slots_simps [simp]:
  "(\<And>pg. drumslot (f pg) = drumslot pg) \<Longrightarrow> slots (page_update p f s) = slots s"
  "slots (vmstat_update g s) = slots s"
  "slots (vmp_was_shortage_update b s) = slots s"
  "slots (vmp_sufficient_pages_event_update b s) = slots s"
  "slots (set_queue q l s) = slots s"
  "slots (wsl_update_ps ps h s) = slots s"
  "slots (write_pte a v s) = slots s"
  "slots (snd (check_shortage s)) = slots s"
  by (simp_all add: slots_def fun_eq_iff page_update_def wsl_update_ps_def write_pte_def)

named_theorems keeps_slots \<open>operations that assign no slot\<close>

lemma store_slots [keeps_slots]: "store_pte a v s = Ok t \<Longrightarrow> slots t = slots s"
  by (auto simp: store_pte_def)

lemma pgq_slots [keeps_slots]:
  "pgq_remove q p s = Ok t \<Longrightarrow> slots t = slots s"
  "pgq_insert_tail q p s = Ok t \<Longrightarrow> slots t = slots s"
  "pgq_insert_head q p s = Ok t \<Longrightarrow> slots t = slots s"
  by (auto simp: pgq_remove_def pgq_insert_tail_def pgq_insert_head_def)

lemma retain_slots [keeps_slots]: "vmp_page_retain_locked p s = Ok t \<Longrightarrow> slots t = slots s"
  by (auto simp: vmp_page_retain_locked_def Let_def dest!: keeps_slots split: if_splits)

lemma requeue_slots [keeps_slots]: "requeue_pageable p s = Ok t \<Longrightarrow> slots t = slots s"
  by (auto simp: requeue_pageable_def Let_def dest!: keeps_slots split: if_splits)

lemma release_slots [keeps_slots]: "vmp_page_release_locked p s = Ok t \<Longrightarrow> slots t = slots s"
  by (auto simp: vmp_page_release_locked_def Let_def dest!: keeps_slots split: if_splits vm_page_use.splits)

lemma on_wsl_slots [keeps_slots]: "on_wsl f ps s = Ok t \<Longrightarrow> slots t = slots s"
  by (auto simp: on_wsl_def)

lemmas wsl_ops = vmp_wsl_lock_entry_def vmp_wsl_unlock_entry_def vmp_wsl_remove_def

lemma nonswap_created_slots [keeps_slots]:
  "vmp_pagetable_page_nonswap_pte_created ps p n s = Ok t \<Longrightarrow> slots t = slots s"
  by (auto simp: vmp_pagetable_page_nonswap_pte_created_def Let_def wsl_ops dest!: keeps_slots split: if_splits)

lemma leaves_wsl_slots [keeps_slots]: "deleted_table_leaves_wsl ps p s = Ok t \<Longrightarrow> slots t = slots s"
  by (auto simp: deleted_table_leaves_wsl_def wsl_ops dest!: keeps_slots split: if_splits)

lemma pte_deleted_slots [keeps_slots]:
  "vmp_pagetable_page_pte_deleted ps p was_swap s = Ok t \<Longrightarrow> slots t = slots s"
  "vmp_md_delete_table_pointers ps d a s = Ok t \<Longrightarrow> slots t = slots s"
proof (induction ps p was_swap s and ps d a s arbitrary: t and t
    rule: vmp_pagetable_page_pte_deleted_vmp_md_delete_table_pointers.induct)
  case (1 ps p was_swap s)
  let ?s1 = "page_update p (\<lambda>pg. pg\<lparr>nonzero_ptes := nonzero_ptes pg - 1\<rparr>) s"
  show ?case
  proof (cases "nonzero_ptes (mypages s p) = 1 \<and> \<not> page_is_root_table p ?s1")
    case True
    from 1(2) [unfolded vmp_pagetable_page_pte_deleted.simps [of ps p] Let_def if_P [OF True]]
    obtain d s2 s3 s4 where s: "deleted_table_leaves_wsl ps p (page_update p (\<lambda>pg. pg\<lparr>use := kPageUseDeleted\<rparr>) ?s1) = Ok s2"
      "vmp_paddr_to_page (referent_pte (mypages s2 p)) = Ok d" "p < SOFT_NPAGES"
      "vmp_md_delete_table_pointers ps d (referent_pte (mypages s2 p)) s2 = Ok s3"
      "vmp_page_release_locked p (page_update p (\<lambda>pg. pg\<lparr>nonswap_ptes := 0, referent_pte := 0\<rparr>) s3) = Ok s4"
      "vmp_page_release_locked p s4 = Ok t"
      by auto
    have "slots s3 = slots s2" by (rule 1(1) [OF s(3) refl refl True s(1) s(2) s(4)])
    then show ?thesis using release_slots [OF s(6)] release_slots [OF s(5)] leaves_wsl_slots [OF s(1)] by simp
  next
    case False
    from 1(2) [unfolded vmp_pagetable_page_pte_deleted.simps [of ps p] Let_def if_not_P [OF False]]
    show ?thesis by (auto simp: wsl_ops dest!: release_slots on_wsl_slots split: if_splits)
  qed
next
  case (2 ps d a s)
  from 2(2) [unfolded vmp_md_delete_table_pointers.simps [of ps d]] 2(1)
  show ?case by auto
qed

lemma wire_release_slots [keeps_slots]: "wire_release_pages ps pages s = Ok t \<Longrightarrow> slots t = slots s"
  by (induction ps pages s rule: wire_release_pages.induct) (auto dest: pte_deleted_slots(1))

lemma wire_state_release_slots [keeps_slots]: "vmp_pte_wire_state_release st s = Ok t \<Longrightarrow> slots t = slots s"
  by (auto simp: vmp_pte_wire_state_release_def dest!: keeps_slots)

lemma evict_slots [keeps_slots]: "wsl_evict ps p a s = Ok t \<Longrightarrow> slots t = slots s"
  by (auto simp: wsl_evict_def Let_def vmp_md_transition_table_pointers_def dest!: keeps_slots split: if_splits)

lemma trim_1_slots [keeps_slots]:
  assumes "wsl_trim_1 ps s = Ok (e, t)"
  shows "slots t = slots s"
proof (cases "TAILQ_FIRST (wsl_queue (wsl (procs s ps)))")
  case (Some w)
  obtain s1 s2 page pte where "on_wsl (wsl_queue_remove w) ps s = Ok s1" "on_wsl (wsl_tree_remove w) ps s1 = Ok s2"
    and r: "(case (page, pte) of (page, pte) \<Rightarrow>
      bnd (wsl_evict ps page pte (wsl_update_ps ps (\<lambda>w. w\<lparr>nentries := nentries w - 1\<rparr>) s2)) (\<lambda>s. Ok (Some w, s))) = Ok (e, t)"
    using assms unfolding wsl_trim_1_def Some option.case Let_def bnd_Ok_iff split_paired_Ex by blast
  then have "slots s2 = slots s" using on_wsl_slots by metis
  moreover have "wsl_evict ps page pte (wsl_update_ps ps (\<lambda>w. w\<lparr>nentries := nentries w - 1\<rparr>) s2) = Ok t" using r by simp
  ultimately show ?thesis using evict_slots by fastforce
qed (use assms in \<open>simp add: wsl_trim_1_def\<close>)

lemma insert_slots [keeps_slots]:
  assumes "vmp_wsl_insert ps v is_pt locked s = Ok t"
  shows "slots t = slots s"
proof -
  obtain s1 where s1: "s1 = s \<or> s1 = snd (wsl_try_expand ps s) \<or> (\<exists>e u. wsl_trim_1 ps (snd (wsl_try_expand ps s)) = Ok (e, s1))"
    "on_wsl (wsl_link v is_pt locked) ps s1 = Ok t"
    using assms unfolding vmp_wsl_insert_def kassert_Ok_iff bnd_Ok_iff
    by (auto simp: case_prod_beta split: if_splits)
  have "slots (snd (wsl_try_expand ps s)) = slots s" by (simp add: wsl_try_expand_def)
  then show ?thesis using s1 on_wsl_slots trim_1_slots by metis
qed

lemma alloc_slot:
  assumes "vmp_page_alloc_locked u must s = Ok (Some p, t)"
  shows "slots t p = - 1"
proof -
  have "slots t p = - 1" if "steal_page u r = Ok (Some p, t)" for r
    using that by (auto simp: steal_page_def slots_def fresh_def memset_page_def page_update_def split: option.splits)
  then show ?thesis using assms
    by (auto simp: vmp_page_alloc_locked_def case_prod_beta slots_def memset_page_def page_update_def
      split: prod.splits if_splits option.splits)
qed

lemma swap_in_begin_slot:
  assumes "swap_in_begin pager v st s = Ok (Some p, t)"
  shows "slots t p = - 1"
proof -
  obtain s1 s2 s3 s4 where "vmp_page_alloc_locked kPageUseAnonPrivate False s = Ok (Some p, s1)"
    "store_pte (ws_pte st) (vmp_pte_busy_create 0 pager)
       (page_update p (\<lambda>pg. pg\<lparr>process := 0, referent_pte := ws_pte st\<rparr>) s1) = Ok s2"
    "vmp_pagetable_page_nonswap_pte_created 0 (the (ws_pages st ! 0)) False s2 = Ok s3"
    "vmp_wsl_insert 0 v False True s3 = Ok s4" "vmp_pte_wire_state_release st s4 = Ok t"
    using assms unfolding swap_in_begin_def bnd_Ok_iff by (auto simp: Let_def split: option.splits)
  then show ?thesis
    using alloc_slot store_slots nonswap_created_slots insert_slots wire_state_release_slots by fastforce
qed

section \<open>The page-in reads nothing\<close>

text \<open>C40. A page-in, begun in any state whatever, computes its position in the page file from the new page,
  whose slot is \<open>-1\<close>: the read completes, but neither memory nor the file changes, so that the
  page keeps the zeroes it was allocated with in place of what the page file holds for it.\<close>

theorem page_in_reads_nothing:
  assumes "swap_in_begin pager v st s = Ok (Some p, t)"
    and "pf_vnode (vmp_pagefile_state t) = Some fd" and "fd \<noteq> - 1"
  shows "drumslot (mypages t p) = - 1 \<and> swap_in_read iop p (file, t) = Ok (file, t)"
proof -
  have d: "drumslot (mypages t p) = - 1" using swap_in_begin_slot [OF assms(1)] by (simp add: slots_def)
  then have "sint (drumslot (mypages t p) * of_nat PGSIZE) < 0" by simp
  then show ?thesis
    using d assms(2,3) iop_send_one [of "iop_init_vnode_read (Some fd) (one_page_mdl p) (of_nat PGSIZE)
        (drumslot (mypages t p) * of_nat PGSIZE) iop" fd p "file" t]
    by (simp add: swap_in_read_def iop_init_vnode_read_def pread_def)
qed

definition sample_swapped :: vmm where
  "sample_swapped = sample_root\<lparr>vmp_pagefile_state := (vmp_pagefile_state sample_root)\<lparr>pf_vnode := Some 3\<rparr>\<rparr>"

text \<open>Entry 7 of the root table is wired, of a process that has no other tables.\<close>

definition sample_wiring :: vmp_pte_wire_state where
  "sample_wiring = \<lparr>ws_ps = 0, ws_pte = 7 * PTE_SIZE, ws_pages = [Some 0, None, None, None]\<rparr>"

definition after_alloc :: vmm where
  "after_alloc = memset_page 1 (vmstat_update (\<lambda>st. st\<lparr>nfree := nfree st - 1, nactive := nactive st + 1\<rparr>)
     (page_update 1 (\<lambda>pg. pg\<lparr>refcnt := 1, use := kPageUseAnonPrivate, dirty := False, drumslot := - 1\<rparr>)
       (sample_swapped\<lparr>free_pgq := [2..<SOFT_NPAGES]\<rparr>)))"

lemma sample_alloc: "vmp_page_alloc_locked kPageUseAnonPrivate False sample_swapped = Ok (Some 1, after_alloc)"
proof -
  have "[1..<SOFT_NPAGES] = 1 # [2..<SOFT_NPAGES]" by (simp add: upt_conv_Cons)
  then have "free_pgq sample_swapped = 1 # [2..<SOFT_NPAGES]"
    by (simp add: sample_swapped_def sample_root_def del: upt_rec_numeral)
  moreover have "check_shortage sample_swapped = (False, sample_swapped)"
    by (simp add: check_shortage_def vmp_page_shortage_def sample_swapped_def sample_root_def)
  moreover have "mypages sample_swapped 1 = zero_page\<lparr>pfn := 1, use := kPageUseFree\<rparr>"
    by (simp add: sample_swapped_def sample_root_def)
  ultimately show ?thesis
    by (simp add: vmp_page_alloc_locked_def pgq_remove_def TAILQ_REMOVE_def after_alloc_def zero_page_def
      del: upt_rec_numeral)
qed

lemma sample_begin:
  "\<exists>t. swap_in_begin 0x1000 0x7000 sample_wiring sample_swapped = Ok (Some 1, t)
     \<and> pf_vnode (vmp_pagefile_state t) = Some 3"
  unfolding swap_in_begin_def sample_alloc
  by (simp add: sample_wiring_def after_alloc_def sample_swapped_def sample_root_def Let_def boot_state_def
      zero_page_def memset_page_def store_pte_def write_pte_def in_soft_pages_def page_update_def
      vmp_pagetable_page_nonswap_pte_created_def vmp_page_retain_locked_def page_is_root_table_def
      vmp_wsl_insert_def vmp_wsl_find_def wsl_find_def zero_process_def on_wsl_def wsl_link_def wsl_update_ps_def
      vmp_pte_wire_state_release_def vmp_pagetable_page_pte_deleted.simps vmp_page_release_locked_def
      del: upt_rec_numeral)

theorem page_in_reads_nothing_witness:
  "\<exists>t. swap_in_begin 0x1000 0x7000 sample_wiring sample_swapped = Ok (Some 1, t)
     \<and> swap_in_read sample_iop 1 (empty_file, t) = Ok (empty_file, t)"
proof -
  obtain t where t: "swap_in_begin 0x1000 0x7000 sample_wiring sample_swapped = Ok (Some 1, t)"
    "pf_vnode (vmp_pagefile_state t) = Some 3"
    using sample_begin by blast
  show ?thesis using page_in_reads_nothing [OF t, of sample_iop empty_file] t(1) by auto
qed

end
