(* ===== verification/Tailq_Ops.thy ===== *)
theory Tailq_Ops
  imports Tailq
begin

text \<open>
  The other operations of the tail queues of \<^verbatim>\<open>kdk/queue.h\<close>: insertion beside an element,
  concatenation, exchange, the last element and the predecessor, the backward walk and the walks that
  allow the body to take the current element away. Each is its list operation on the queues it is given
  and leaves the others alone; the consistency checks that the header offers never fire.
\<close>

section \<open>The macros on pointers\<close>

definition ptr_TAILQ_EMPTY :: "'h \<Rightarrow> ('h, 'a) tailqs \<Rightarrow> bool" where
  "ptr_TAILQ_EMPTY h s \<longleftrightarrow> tqh_first s h = None"

definition ptr_TAILQ_NEXT :: "'a \<Rightarrow> ('h, 'a) tailqs \<Rightarrow> 'a option" where
  "ptr_TAILQ_NEXT x s = tqe_next s x"

definition ptr_TAILQ_INSERT_AFTER :: "'h \<Rightarrow> 'a \<Rightarrow> 'a \<Rightarrow> ('h, 'a) tailqs \<Rightarrow> ('h, 'a) tailqs" where
  "ptr_TAILQ_INSERT_AFTER h listelm x s =
     (let s = store (Next x) (tqe_next s listelm) s;
          s = (case tqe_next s x of
                 Some y \<Rightarrow> set_prev y (Next x) s
               | None \<Rightarrow> set_last h (Next x) s);
          s = store (Next listelm) (Some x) s
      in set_prev x (Next listelm) s)"

definition ptr_TAILQ_INSERT_BEFORE :: "'a \<Rightarrow> 'a \<Rightarrow> ('h, 'a) tailqs \<Rightarrow> ('h, 'a) tailqs" where
  "ptr_TAILQ_INSERT_BEFORE listelm x s =
     (let s = set_prev x (tqe_prev s listelm) s;
          s = store (Next x) (Some listelm) s;
          s = store (tqe_prev s listelm) (Some x) s
      in set_prev listelm (Next x) s)"

definition ptr_TAILQ_CONCAT :: "'h \<Rightarrow> 'h \<Rightarrow> ('h, 'a) tailqs \<Rightarrow> ('h, 'a) tailqs" where
  "ptr_TAILQ_CONCAT head1 head2 s =
     (case tqh_first s head2 of
        None \<Rightarrow> s
      | Some y \<Rightarrow>
          let s = store (tqh_last s head1) (Some y) s;
              s = set_prev y (tqh_last s head1) s;
              s = set_last head1 (tqh_last s head2) s
          in ptr_TAILQ_INIT head2 s)"

text \<open>The second half of \<^verbatim>\<open>TAILQ_SWAP\<close>: the first element of a queue, or its head, is told where it is.\<close>

definition swap_relink :: "'h \<Rightarrow> ('h, 'a) tailqs \<Rightarrow> ('h, 'a) tailqs" where
  "swap_relink h s =
     (case tqh_first s h of
        Some x \<Rightarrow> set_prev x (First h) s
      | None \<Rightarrow> set_last h (First h) s)"

definition ptr_TAILQ_SWAP :: "'h \<Rightarrow> 'h \<Rightarrow> ('h, 'a) tailqs \<Rightarrow> ('h, 'a) tailqs" where
  "ptr_TAILQ_SWAP head1 head2 s =
     (let swap_first = tqh_first s head1;
          swap_last = tqh_last s head1;
          s = store (First head1) (tqh_first s head2) s;
          s = set_last head1 (tqh_last s head2) s;
          s = store (First head2) swap_first s;
          s = set_last head2 swap_last s
      in swap_relink head2 (swap_relink head1 s))"

text \<open>\<^verbatim>\<open>TAILQ_LAST\<close> and \<^verbatim>\<open>TAILQ_PREV\<close> read the link field of an element as if it were a head: both begin
  with a forward pointer and go on with a pointer to a forward pointer. \<open>second s r\<close> is that second field
  of the structure whose first field is the cell \<open>r\<close>.\<close>

fun second :: "('h, 'a) tailqs \<Rightarrow> ('h, 'a) nextref \<Rightarrow> ('h, 'a) nextref" where
  "second s (First h) = tqh_last s h"
| "second s (Next x) = tqe_prev s x"

definition ptr_TAILQ_LAST :: "'h \<Rightarrow> ('h, 'a) tailqs \<Rightarrow> 'a option" where
  "ptr_TAILQ_LAST h s = deref s (second s (tqh_last s h))"

definition ptr_TAILQ_PREV :: "'a \<Rightarrow> ('h, 'a) tailqs \<Rightarrow> 'a option" where
  "ptr_TAILQ_PREV x s = deref s (second s (tqe_prev s x))"

text \<open>The fast variants compute the element from the address of its \<^verbatim>\<open>tqe_next\<close> cell. That the cell of a
  head is not in an element is the caller's business.\<close>

definition ptr_TAILQ_LAST_FAST :: "'h \<Rightarrow> ('h, 'a) tailqs \<Rightarrow> 'a option outcome" where
  "ptr_TAILQ_LAST_FAST h s =
     (if ptr_TAILQ_EMPTY h s then Ok None
      else case tqh_last s h of Next x \<Rightarrow> Ok (Some x) | First _ \<Rightarrow> Err (Undefined ''TAILQ_LAST_FAST''))"

definition ptr_TAILQ_PREV_FAST :: "'a \<Rightarrow> 'h \<Rightarrow> ('h, 'a) tailqs \<Rightarrow> 'a option outcome" where
  "ptr_TAILQ_PREV_FAST x h s =
     (if tqe_prev s x = First h then Ok None
      else case tqe_prev s x of Next y \<Rightarrow> Ok (Some y) | First _ \<Rightarrow> Err (Undefined ''TAILQ_PREV_FAST''))"

text \<open>The walks, with a bound on the number of steps. The body of a \<open>SAFE\<close> walk may change the queue; the
  next element is read before the body runs.\<close>

fun ptr_TAILQ_WALK_REVERSE :: "nat \<Rightarrow> 'a option \<Rightarrow> ('h, 'a) tailqs \<Rightarrow> 'a list" where
  "ptr_TAILQ_WALK_REVERSE (Suc n) (Some x) s = x # ptr_TAILQ_WALK_REVERSE n (ptr_TAILQ_PREV x s) s"
| "ptr_TAILQ_WALK_REVERSE _ _ s = []"

fun walk_safe ::
    "('a \<Rightarrow> 's \<Rightarrow> 'a option) \<Rightarrow> ('a \<Rightarrow> 's \<Rightarrow> 's) \<Rightarrow> nat \<Rightarrow> 'a option \<Rightarrow> 's \<Rightarrow> 'a list \<times> 's" where
  "walk_safe adv body (Suc n) (Some x) s =
     (let tvar = adv x s; (xs, s) = walk_safe adv body n tvar (body x s) in (x # xs, s))"
| "walk_safe adv body _ _ s = ([], s)"

text \<open>The \<open>FROM\<close> variants start at the element the variable holds, if it holds one.\<close>

definition from_or :: "'a option \<Rightarrow> 'a option \<Rightarrow> 'a option" where
  "from_or var start = (if var \<noteq> None then var else start)"

definition ptr_TAILQ_FOREACH_FROM :: "nat \<Rightarrow> 'a option \<Rightarrow> 'h \<Rightarrow> ('h, 'a) tailqs \<Rightarrow> 'a list" where
  "ptr_TAILQ_FOREACH_FROM n var h s = ptr_TAILQ_WALK n (from_or var (ptr_TAILQ_FIRST h s)) s"

definition ptr_TAILQ_FOREACH_FROM_SAFE ::
    "nat \<Rightarrow> 'a option \<Rightarrow> 'h \<Rightarrow> ('a \<Rightarrow> ('h, 'a) tailqs \<Rightarrow> ('h, 'a) tailqs) \<Rightarrow> ('h, 'a) tailqs \<Rightarrow>
     'a list \<times> ('h, 'a) tailqs" where
  "ptr_TAILQ_FOREACH_FROM_SAFE n var h body s = walk_safe ptr_TAILQ_NEXT body n (from_or var (ptr_TAILQ_FIRST h s)) s"

definition ptr_TAILQ_FOREACH_SAFE ::
    "nat \<Rightarrow> 'h \<Rightarrow> ('a \<Rightarrow> ('h, 'a) tailqs \<Rightarrow> ('h, 'a) tailqs) \<Rightarrow> ('h, 'a) tailqs \<Rightarrow> 'a list \<times> ('h, 'a) tailqs" where
  "ptr_TAILQ_FOREACH_SAFE n h body s = walk_safe ptr_TAILQ_NEXT body n (ptr_TAILQ_FIRST h s) s"

definition ptr_TAILQ_FOREACH_REVERSE_FROM_SAFE ::
    "nat \<Rightarrow> 'a option \<Rightarrow> 'h \<Rightarrow> ('a \<Rightarrow> ('h, 'a) tailqs \<Rightarrow> ('h, 'a) tailqs) \<Rightarrow> ('h, 'a) tailqs \<Rightarrow>
     'a list \<times> ('h, 'a) tailqs" where
  "ptr_TAILQ_FOREACH_REVERSE_FROM_SAFE n var h body s =
     walk_safe ptr_TAILQ_PREV body n (from_or var (ptr_TAILQ_LAST h s)) s"

definition ptr_TAILQ_FOREACH_REVERSE_SAFE ::
    "nat \<Rightarrow> 'h \<Rightarrow> ('a \<Rightarrow> ('h, 'a) tailqs \<Rightarrow> ('h, 'a) tailqs) \<Rightarrow> ('h, 'a) tailqs \<Rightarrow> 'a list \<times> ('h, 'a) tailqs" where
  "ptr_TAILQ_FOREACH_REVERSE_SAFE n h body s = walk_safe ptr_TAILQ_PREV body n (ptr_TAILQ_LAST h s) s"

lemma FOREACH_SAFE_from:
  "ptr_TAILQ_FOREACH_SAFE n h body s = ptr_TAILQ_FOREACH_FROM_SAFE n None h body s"
  "ptr_TAILQ_FOREACH_REVERSE_SAFE n h body s = ptr_TAILQ_FOREACH_REVERSE_FROM_SAFE n None h body s"
  by (simp_all add: ptr_TAILQ_FOREACH_SAFE_def ptr_TAILQ_FOREACH_FROM_SAFE_def ptr_TAILQ_FOREACH_REVERSE_SAFE_def
    ptr_TAILQ_FOREACH_REVERSE_FROM_SAFE_def from_or_def)

definition ptr_TAILQ_FOREACH_REVERSE :: "nat \<Rightarrow> 'h \<Rightarrow> ('h, 'a) tailqs \<Rightarrow> 'a list" where
  "ptr_TAILQ_FOREACH_REVERSE n h s = ptr_TAILQ_WALK_REVERSE n (ptr_TAILQ_LAST h s) s"

definition ptr_TAILQ_FOREACH_REVERSE_FROM :: "nat \<Rightarrow> 'a option \<Rightarrow> 'h \<Rightarrow> ('h, 'a) tailqs \<Rightarrow> 'a list" where
  "ptr_TAILQ_FOREACH_REVERSE_FROM n var h s = ptr_TAILQ_WALK_REVERSE n (from_or var (ptr_TAILQ_LAST h s)) s"

text \<open>The consistency checks of a kernel built with invariants: \<open>True\<close> means that the check does not
  panic.\<close>

definition QMD_TAILQ_CHECK_HEAD :: "'h \<Rightarrow> ('h, 'a) tailqs \<Rightarrow> bool" where
  "QMD_TAILQ_CHECK_HEAD h s \<longleftrightarrow> (case tqh_first s h of None \<Rightarrow> True | Some x \<Rightarrow> tqe_prev s x = First h)"

definition QMD_TAILQ_CHECK_TAIL :: "'h \<Rightarrow> ('h, 'a) tailqs \<Rightarrow> bool" where
  "QMD_TAILQ_CHECK_TAIL h s \<longleftrightarrow> deref s (tqh_last s h) = None"

definition QMD_TAILQ_CHECK_NEXT :: "'a \<Rightarrow> ('h, 'a) tailqs \<Rightarrow> bool" where
  "QMD_TAILQ_CHECK_NEXT x s \<longleftrightarrow> (case tqe_next s x of None \<Rightarrow> True | Some y \<Rightarrow> tqe_prev s y = Next x)"

definition QMD_TAILQ_CHECK_PREV :: "'a \<Rightarrow> ('h, 'a) tailqs \<Rightarrow> bool" where
  "QMD_TAILQ_CHECK_PREV x s \<longleftrightarrow> deref s (tqe_prev s x) = Some x"

section \<open>The macros on lists\<close>

fun insert_after :: "'a \<Rightarrow> 'a \<Rightarrow> 'a list \<Rightarrow> 'a list" where
  "insert_after a x [] = []"
| "insert_after a x (y # ys) = (if y = a then y # x # ys else y # insert_after a x ys)"

fun insert_before :: "'a \<Rightarrow> 'a \<Rightarrow> 'a list \<Rightarrow> 'a list" where
  "insert_before a x [] = []"
| "insert_before a x (y # ys) = (if y = a then x # y # ys else y # insert_before a x ys)"

lemma insert_beside_split:
  "a \<notin> set xs \<Longrightarrow> insert_after a x (xs @ a # ys) = xs @ a # x # ys"
  "a \<notin> set xs \<Longrightarrow> insert_before a x (xs @ a # ys) = xs @ x # a # ys"
  by (induction xs) auto

section \<open>Each macro is its list operation\<close>

lemma distinct_split:
  assumes "represents s h (xs @ a # ys)"
  shows "distinct xs" and "distinct ys" and "a \<notin> set xs" and "a \<notin> set ys" and "set xs \<inter> set ys = {}"
  using assms by (auto simp: represents_def)

lemma deref_INSERT_AFTER:
  assumes "a \<noteq> x"
  shows "deref (ptr_TAILQ_INSERT_AFTER h a x s) r =
    (if r = Next a then Some x else if r = Next x then tqe_next s a else deref s r)"
  using assms by (auto simp: ptr_TAILQ_INSERT_AFTER_def Let_def split: option.splits)

lemma fields_INSERT_AFTER:
  "tqe_prev (ptr_TAILQ_INSERT_AFTER h a x s) =
    (case tqe_next s a of None \<Rightarrow> (tqe_prev s)(x := Next a) | Some y \<Rightarrow> (tqe_prev s)(y := Next x, x := Next a))"
  "tqh_last (ptr_TAILQ_INSERT_AFTER h a x s) =
    (case tqe_next s a of None \<Rightarrow> (tqh_last s)(h := Next x) | Some y \<Rightarrow> tqh_last s)"
  by (auto simp: ptr_TAILQ_INSERT_AFTER_def Let_def split: option.splits)

lemma represents_INSERT_AFTER:
  assumes rep: "represents s h (xs @ a # ys)" and x: "x \<notin> set (xs @ a # ys)"
  shows "represents (ptr_TAILQ_INSERT_AFTER h a x s) h (xs @ a # x # ys)"
proof -
  let ?s' = "ptr_TAILQ_INSERT_AFTER h a x s"
  from rep obtain m where m: "links s (First h) xs m" "deref s m = Some a" "tqe_prev s a = m"
    and l: "links s (Next a) ys (tqh_last s h)" and n: "deref s (tqh_last s h) = None"
    and nx: "tqe_next s a = (case ys of [] \<Rightarrow> None | y # _ \<Rightarrow> Some y)"
    by (rule represents_split)
  note d = distinct_split [OF rep]
  have ax: "a \<noteq> x" using x by auto
  note D = deref_INSERT_AFTER [OF ax, of h s]
  have mm: "m = First h \<or> (\<exists>y\<in>set xs. m = Next y)" using links_end_mem [OF m(1)] .
  have "links ?s' (First h) xs m"
    using m(1) x d(3,5) nx
    by (subst links_frame [where s = s]) (auto simp: D fields_INSERT_AFTER split: list.splits dest!: in_set_butlastD)
  moreover have "deref ?s' m = Some a" "tqe_prev ?s' a = m"
    using mm m(2,3) x d(3,4) nx by (auto simp: D fields_INSERT_AFTER split: list.splits)
  moreover have "links ?s' (Next x) ys (tqh_last ?s' h)" "deref ?s' (tqh_last ?s' h) = None"
  proof -
    show "links ?s' (Next x) ys (tqh_last ?s' h)"
    proof (cases ys)
      case (Cons y zs)
      have "links ?s' (Next y) zs (tqh_last s h)"
        using l x d Cons nx
        by (subst links_frame [where s = s])
          (auto simp: D fields_INSERT_AFTER dest!: in_set_butlastD split: if_splits)
      then show ?thesis using Cons nx x D [of "Next x"] by (auto simp: fields_INSERT_AFTER)
    qed (use nx in \<open>simp add: fields_INSERT_AFTER\<close>)
    show "deref ?s' (tqh_last ?s' h) = None"
    proof (cases ys)
      case (Cons y zs)
      have "tqh_last s h \<in> Next ` set (y # zs)" using links_end [OF l] Cons by (auto simp: last_map split: if_splits)
      then show ?thesis using Cons nx n x d(4) ax by (auto simp: D fields_INSERT_AFTER)
    qed (use nx ax D [of "Next x"] in \<open>simp add: fields_INSERT_AFTER\<close>)
  qed
  moreover have "deref ?s' (Next a) = Some x" "tqe_prev ?s' x = Next a"
    using D [of "Next a"] by (simp_all add: fields_INSERT_AFTER split: option.splits)
  ultimately show ?thesis using rep x ax by (auto simp: represents_def links_append simp del: deref.simps)
qed

lemma deref_INSERT_BEFORE:
  assumes "a \<noteq> x"
  shows "deref (ptr_TAILQ_INSERT_BEFORE a x s) r =
    (if r = tqe_prev s a then Some x else if r = Next x then Some a else deref s r)"
  using assms by (auto simp: ptr_TAILQ_INSERT_BEFORE_def Let_def)

lemma fields_INSERT_BEFORE:
  assumes "a \<noteq> x"
  shows "tqe_prev (ptr_TAILQ_INSERT_BEFORE a x s) = (tqe_prev s)(x := tqe_prev s a, a := Next x)"
    and "tqh_last (ptr_TAILQ_INSERT_BEFORE a x s) = tqh_last s"
  by (simp_all add: ptr_TAILQ_INSERT_BEFORE_def Let_def)

lemma represents_INSERT_BEFORE:
  assumes rep: "represents s h (xs @ a # ys)" and x: "x \<notin> set (xs @ a # ys)"
  shows "represents (ptr_TAILQ_INSERT_BEFORE a x s) h (xs @ x # a # ys)"
proof -
  let ?s' = "ptr_TAILQ_INSERT_BEFORE a x s"
  from rep obtain m where m: "links s (First h) xs m" "deref s m = Some a" "tqe_prev s a = m"
    and l: "links s (Next a) ys (tqh_last s h)" and n: "deref s (tqh_last s h) = None"
    and nx: "tqe_next s a = (case ys of [] \<Rightarrow> None | y # _ \<Rightarrow> Some y)"
    by (rule represents_split)
  note d = distinct_split [OF rep]
  have ax: "a \<noteq> x" using x by auto
  note D = deref_INSERT_BEFORE [OF ax, of s] and F = fields_INSERT_BEFORE [OF ax, of s]
  have mm: "m = First h \<or> (\<exists>y\<in>set xs. m = Next y)" using links_end_mem [OF m(1)] .
  have "r \<noteq> m \<and> r \<noteq> Next x" if "r \<in> set (butlast (First h # map Next xs))" for r
    using that last_ref_fresh [OF d(1) m(1)] in_set_butlastD [OF that] x by auto
  then have "links ?s' (First h) xs m"
    using m(1,3) x d(3) by (subst links_frame [where s = s]) (auto simp: D F)
  moreover have "links ?s' (Next a) ys (tqh_last s h)"
    using l m(3) mm x d
    by (subst links_frame [where s = s]) (auto simp: D F dest!: in_set_butlastD)
  moreover have "deref ?s' (tqh_last s h) = None"
  proof -
    have "tqh_last s h \<in> Next ` set (a # ys)" using links_end [OF l] by (auto simp: last_map split: if_splits)
    then show ?thesis using n x m(2,3) by (auto simp: D)
  qed
  moreover have "m \<noteq> Next x" using mm x by auto
  ultimately show ?thesis using rep x ax m D [of "Next x"] by (auto simp: represents_def links_append D F)
qed

lemma links_last_mem: "links s r xs e \<Longrightarrow> xs \<noteq> [] \<Longrightarrow> e \<in> Next ` set xs"
  by (auto simp: last_map dest: links_end)

lemma represents_LAST:
  assumes "represents s h xs"
  shows "ptr_TAILQ_LAST h s = (if xs = [] then None else Some (last xs))"
    and "ptr_TAILQ_LAST_FAST h s = Ok (ptr_TAILQ_LAST h s)"
    and "ptr_TAILQ_EMPTY h s \<longleftrightarrow> xs = []"
proof -
  show e: "ptr_TAILQ_EMPTY h s \<longleftrightarrow> xs = []"
    using assms by (cases xs) (auto simp: represents_def ptr_TAILQ_EMPTY_def)
  show "ptr_TAILQ_LAST h s = (if xs = [] then None else Some (last xs))"
    using assms by (cases xs rule: rev_cases) (auto simp: represents_def ptr_TAILQ_LAST_def links_append)
  then show "ptr_TAILQ_LAST_FAST h s = Ok (ptr_TAILQ_LAST h s)"
    using assms e by (cases xs rule: rev_cases) (auto simp: represents_def ptr_TAILQ_LAST_FAST_def links_append)
qed

lemma represents_PREV:
  assumes "represents s h (xs @ a # ys)"
  shows "ptr_TAILQ_PREV a s = (if xs = [] then None else Some (last xs))"
    and "ptr_TAILQ_PREV_FAST a h s = Ok (ptr_TAILQ_PREV a s)"
proof -
  show "ptr_TAILQ_PREV a s = (if xs = [] then None else Some (last xs))"
    using assms by (cases xs rule: rev_cases) (auto simp: represents_def ptr_TAILQ_PREV_def links_append)
  then show "ptr_TAILQ_PREV_FAST a h s = Ok (ptr_TAILQ_PREV a s)"
    using assms by (cases xs rule: rev_cases) (auto simp: represents_def ptr_TAILQ_PREV_FAST_def links_append)
qed

lemma represents_NEXT:
  "represents s h (xs @ a # ys) \<Longrightarrow> ptr_TAILQ_NEXT a s = (case ys of [] \<Rightarrow> None | y # _ \<Rightarrow> Some y)"
  by (cases ys) (auto simp: represents_def ptr_TAILQ_NEXT_def links_append)

lemma WALK_REVERSE_visits:
  assumes "represents s h (xs @ ys)" and "length xs \<le> n"
  shows "ptr_TAILQ_WALK_REVERSE n (if xs = [] then None else Some (last xs)) s = rev xs"
  using assms
proof (induction xs arbitrary: ys n rule: rev_induct)
  case (snoc x xs)
  then obtain k where k: "n = Suc k" "length xs \<le> k" by (cases n) auto
  then show ?case using snoc.IH [of "x # ys" k] snoc.prems(1) represents_PREV(1) [of s h xs x ys] by simp
qed (cases n; simp)

lemma represents_CHECKS:
  assumes "represents s h xs"
  shows "QMD_TAILQ_CHECK_HEAD h s" and "QMD_TAILQ_CHECK_TAIL h s"
    and "x \<in> set xs \<Longrightarrow> QMD_TAILQ_CHECK_NEXT x s" and "x \<in> set xs \<Longrightarrow> QMD_TAILQ_CHECK_PREV x s"
proof -
  show "QMD_TAILQ_CHECK_HEAD h s" "QMD_TAILQ_CHECK_TAIL h s"
    using assms by (cases xs; auto simp: represents_def QMD_TAILQ_CHECK_HEAD_def QMD_TAILQ_CHECK_TAIL_def)+
  assume "x \<in> set xs"
  then obtain us vs where "xs = us @ x # vs" by (auto dest: split_list)
  with assms show "QMD_TAILQ_CHECK_NEXT x s" "QMD_TAILQ_CHECK_PREV x s"
    by (cases vs; auto simp: represents_def links_append QMD_TAILQ_CHECK_NEXT_def QMD_TAILQ_CHECK_PREV_def)+
qed

section \<open>All queues of a store\<close>

lemma all_represent_split:
  assumes "all_represent s q" and "a \<in> set (q h)"
  obtains xs ys where "q h = xs @ a # ys" and "represents s h (xs @ a # ys)" and "a \<notin> set xs"
    and "\<And>h' y. h' \<noteq> h \<Longrightarrow> y \<in> set (q h') \<Longrightarrow> y \<notin> set (xs @ a # ys)"
proof -
  obtain xs ys where q: "q h = xs @ a # ys" using assms(2) by (auto dest: split_list)
  moreover have r: "represents s h (xs @ a # ys)" using all_representD(1) [OF assms(1), of h] q by simp
  moreover have "a \<notin> set xs" by (rule distinct_split(3) [OF r])
  moreover have "y \<notin> set (xs @ a # ys)" if "h' \<noteq> h" "y \<in> set (q h')" for h' y
    using all_representD(3) [OF assms(1) that(2,1)] q by simp
  ultimately show thesis using that by blast
qed

lemma all_represent_INSERT_AFTER:
  assumes all: "all_represent s q" and a: "a \<in> set (q h)" and x: "\<forall>h'. x \<notin> set (q h')"
  shows "all_represent (ptr_TAILQ_INSERT_AFTER h a x s) (q(h := insert_after a x (q h)))"
proof -
  obtain xs ys where q: "q h = xs @ a # ys" "represents s h (xs @ a # ys)" "a \<notin> set xs"
    "\<And>h' y. h' \<noteq> h \<Longrightarrow> y \<in> set (q h') \<Longrightarrow> y \<notin> set (xs @ a # ys)"
    using all_represent_split [OF all a] by metis
  have x': "x \<notin> set (xs @ a # ys)" using x q(1) by metis
  then have ax: "a \<noteq> x" by auto
  note D = deref_INSERT_AFTER [OF ax, of h s]
  have nx: "tqe_next s a = (case ys of [] \<Rightarrow> None | y # _ \<Rightarrow> Some y)"
    using represents_NEXT [OF q(2)] by (simp add: ptr_TAILQ_NEXT_def)
  have "all_represent (ptr_TAILQ_INSERT_AFTER h a x s) (q(h := xs @ a # x # ys))"
  proof (rule all_representI [OF all represents_INSERT_AFTER [OF q(2) x']])
    fix h' y assume h': "h' \<noteq> h" "y \<in> set (q h')"
    show "y \<notin> set (xs @ a # x # ys)" using q(4) [OF h'] h'(2) x by auto
    show "tqe_prev (ptr_TAILQ_INSERT_AFTER h a x s) y = tqe_prev s y \<and>
        deref (ptr_TAILQ_INSERT_AFTER h a x s) (Next y) = deref s (Next y)"
      using q(4) [OF h'] h'(2) x nx D [of "Next y"] by (auto simp: fields_INSERT_AFTER split: list.splits)
  qed (use D in \<open>auto simp: fields_INSERT_AFTER simp del: deref.simps split: option.splits\<close>)
  then show ?thesis using insert_beside_split(1) [OF q(3)] by (simp add: q(1))
qed

lemma all_represent_INSERT_BEFORE:
  assumes all: "all_represent s q" and a: "a \<in> set (q h)" and x: "\<forall>h'. x \<notin> set (q h')"
  shows "all_represent (ptr_TAILQ_INSERT_BEFORE a x s) (q(h := insert_before a x (q h)))"
proof -
  obtain xs ys where q: "q h = xs @ a # ys" "represents s h (xs @ a # ys)" "a \<notin> set xs"
    "\<And>h' y. h' \<noteq> h \<Longrightarrow> y \<in> set (q h') \<Longrightarrow> y \<notin> set (xs @ a # ys)"
    using all_represent_split [OF all a] by metis
  have x': "x \<notin> set (xs @ a # ys)" using x q(1) by metis
  then have ax: "a \<noteq> x" by auto
  note D = deref_INSERT_BEFORE [OF ax, of s] and F = fields_INSERT_BEFORE [OF ax, of s]
  obtain m where m: "links s (First h) xs m" "tqe_prev s a = m" using q(2) by (rule represents_split)
  have mm: "m = First h \<or> (\<exists>y\<in>set xs. m = Next y)" using links_end_mem [OF m(1)] .
  have "all_represent (ptr_TAILQ_INSERT_BEFORE a x s) (q(h := xs @ x # a # ys))"
  proof (rule all_representI [OF all represents_INSERT_BEFORE [OF q(2) x']])
    fix h' y assume h': "h' \<noteq> h" "y \<in> set (q h')"
    show "y \<notin> set (xs @ x # a # ys)" using q(4) [OF h'] h'(2) x by auto
    show "tqe_prev (ptr_TAILQ_INSERT_BEFORE a x s) y = tqe_prev s y \<and>
        deref (ptr_TAILQ_INSERT_BEFORE a x s) (Next y) = deref s (Next y)"
      using q(4) [OF h'] h'(2) x mm m(2) D [of "Next y"] by (auto simp: F)
  next
    fix h' assume "h' \<noteq> h"
    then show "deref (ptr_TAILQ_INSERT_BEFORE a x s) (First h') = deref s (First h')"
      using mm m(2) D [of "First h'"] by auto
  qed (simp add: F)
  then show ?thesis using insert_beside_split(2) [OF q(3)] by (simp add: q(1))
qed

text \<open>An operation that changes two queues.\<close>

lemma all_representI2:
  assumes "all_represent s q"
    and "represents s' h1 xs" and "represents s' h2 ys"
    and "h1 = h2 \<Longrightarrow> xs = ys"
    and "set xs \<union> set ys \<subseteq> set (q h1) \<union> set (q h2)" and "h1 \<noteq> h2 \<Longrightarrow> set xs \<inter> set ys = {}"
    and "\<And>h'. h' \<noteq> h1 \<Longrightarrow> h' \<noteq> h2 \<Longrightarrow> tqh_last s' h' = tqh_last s h' \<and> deref s' (First h') = deref s (First h')"
    and "\<And>h' y. h' \<noteq> h1 \<Longrightarrow> h' \<noteq> h2 \<Longrightarrow> y \<in> set (q h') \<Longrightarrow>
      tqe_prev s' y = tqe_prev s y \<and> deref s' (Next y) = deref s (Next y)"
  shows "all_represent s' (q(h1 := xs, h2 := ys))"
proof -
  let ?q = "q(h1 := xs, h2 := ys)"
  have q: "?q h = (if h = h2 then ys else if h = h1 then xs else q h)" for h by simp
  have "represents s' h (?q h)" for h
  proof (cases "h = h1 \<or> h = h2")
    case False
    then have "represents s' h (q h)"
      by (intro represents_frame [OF all_representD(1) [OF assms(1)]]) (use assms(7,8) in auto)
    with False show ?thesis by simp
  qed (use assms(2-4) in auto)
  moreover have "set (?q h) \<inter> set (?q h') = {}" if "h \<noteq> h'" for h h'
    using that assms(1,5,6) unfolding q all_represent_def by (auto split: if_splits) blast+
  ultimately show ?thesis by (simp add: all_represent_def)
qed

lemma fields_INIT:
  "deref (ptr_TAILQ_INIT h s) r = (if r = First h then None else deref s r)"
  "tqe_prev (ptr_TAILQ_INIT h s) = tqe_prev s"
  "tqh_last (ptr_TAILQ_INIT h s) = (tqh_last s)(h := First h)"
  by (simp_all add: ptr_TAILQ_INIT_def)

lemma all_represent_INIT:
  assumes "all_represent s q"
  shows "all_represent (ptr_TAILQ_INIT h s) (q(h := []))"
  using assms fields_INIT(1) [of h s]
  by (intro all_representI [OF assms represents_INIT]) (auto simp: fields_INIT simp del: deref.simps)

lemma all_represent_CONCAT:
  assumes all: "all_represent s q" and h: "h1 \<noteq> h2"
  shows "all_represent (ptr_TAILQ_CONCAT h1 h2 s) (q(h1 := q h1 @ q h2, h2 := []))"
proof (cases "q h2")
  case Nil
  then have "tqh_first s h2 = None" using first_ref_owner [OF all, of h2] by simp
  moreover have "q(h1 := q h1 @ q h2, h2 := []) = q" using Nil by (auto simp: fun_eq_iff)
  ultimately show ?thesis using all by (simp add: ptr_TAILQ_CONCAT_def)
next
  case (Cons y ys)
  let ?s' = "ptr_TAILQ_CONCAT h1 h2 s" and ?e = "tqh_last s h1" and ?f = "tqh_last s h2"
  have first: "tqh_first s h2 = Some y" using first_ref_owner [OF all, of h2] Cons by simp
  note r1 = all_representD(1) [OF all, of h1] and r2 = all_representD(1) [OF all, of h2]
  have o1: "?e \<noteq> First h2" "z \<in> set (q h2) \<Longrightarrow> ?e \<noteq> Next z" for z
    using last_ref_owner [OF all, of h2 h1] h by auto
  have e: "?e = First h1 \<or> ?e \<in> Next ` set (q h1)"
    using links_end_mem [of s h1 "q h1" ?e] r1 by (auto simp: represents_def)
  have D: "deref ?s' r = (if r = First h2 then None else if r = ?e then Some y else deref s r)" for r
    using first by (simp add: ptr_TAILQ_CONCAT_def Let_def fields_INIT)
  have F: "tqe_prev ?s' = (tqe_prev s)(y := ?e)" "tqh_last ?s' = (tqh_last s)(h1 := ?f, h2 := First h2)"
    using first h by (auto simp: ptr_TAILQ_CONCAT_def Let_def fields_INIT fun_eq_iff)
  have dis: "z \<notin> set (q h1)" if "z \<in> set (q h2)" for z by (rule all_representD(3) [OF all that]) (use h in simp)
  have y: "y \<in> set (q h2)" "y \<notin> set ys" "distinct ys" using Cons all_representD(2) [OF all, of h2] by simp_all
  have f: "?f \<in> Next ` set (q h2)" by (rule links_last_mem [of s "First h2"]) (use r2 Cons in \<open>auto simp: represents_def\<close>)
  have "represents ?s' h1 (q h1 @ y # ys)"
  proof -
    have l1: "links s (First h1) (q h1) ?e" "distinct (q h1)" using r1 by (simp_all add: represents_def)
    have "r \<noteq> ?e \<and> r \<noteq> First h2" if "r \<in> set (butlast (First h1 # map Next (q h1)))" for r
      using that last_ref_fresh [OF l1(2,1)] in_set_butlastD [OF that] h by auto
    then have "links ?s' (First h1) (q h1) ?e"
      using l1(1) dis y(1) by (subst links_frame [where s = s]) (auto simp: D F)
    moreover have "links ?s' (Next y) ys ?f"
    proof -
      have "links s (Next y) ys ?f" using r2 Cons by (simp add: represents_def)
      moreover have "r \<noteq> ?e \<and> r \<noteq> First h2" if "r \<in> set (butlast (Next y # map Next ys))" for r
        using in_set_butlastD [OF that] o1(2) [symmetric] Cons by auto
      ultimately show ?thesis using y(2) by (subst links_frame [where s = s]) (auto simp: D F)
    qed
    moreover have "deref ?s' ?f = None" using f o1 r2 by (auto simp: D represents_def)
    moreover have "deref ?s' ?e = Some y" "tqe_prev ?s' y = ?e" using o1(1) by (simp_all add: D F)
    moreover have "distinct (q h1 @ y # ys)" using l1(2) y dis Cons by auto
    ultimately show ?thesis using h by (auto simp: represents_def links_append F)
  qed
  moreover have "represents ?s' h2 []" by (simp add: represents_def F) (use D [of "First h2"] in simp)
  ultimately have "all_represent ?s' (q(h1 := q h1 @ y # ys, h2 := []))"
  proof (rule all_representI2 [OF all])
    fix h' assume h': "h' \<noteq> h1" "h' \<noteq> h2"
    then show "tqh_last ?s' h' = tqh_last s h' \<and> deref ?s' (First h') = deref s (First h')"
      using D [of "First h'"] e by (auto simp: F)
    fix z assume z: "z \<in> set (q h')"
    have "z \<notin> set (q h1)" "z \<notin> set (q h2)" by (rule all_representD(3) [OF all z h'(1)], rule all_representD(3) [OF all z h'(2)])
    then show "tqe_prev ?s' z = tqe_prev s z \<and> deref ?s' (Next z) = deref s (Next z)"
      using D [of "Next z"] e y(1) by (auto simp: F)
  qed (use h Cons in auto)
  then show ?thesis using Cons by simp
qed

lemma represents_moved:
  assumes "represents s h xs" and "xs \<noteq> []" and "tqh_last s' h' = tqh_last s h" and "tqh_first s' h' = tqh_first s h"
    and "\<forall>y \<in> set xs. deref s' (Next y) = deref s (Next y)"
    and "\<forall>y \<in> set xs. tqe_prev s' y = (if Some y = tqh_first s h then First h' else tqe_prev s y)"
  shows "represents s' h' xs"
proof -
  obtain x ys where xs: "xs = x # ys" using assms(2) by (cases xs) auto
  have l: "links s (Next x) ys (tqh_last s h)" and first: "tqh_first s h = Some x" and d: "distinct xs"
    and n: "deref s (tqh_last s h) = None"
    using assms(1) xs by (auto simp: represents_def)
  have "links s' (Next x) ys (tqh_last s h)"
    using l d first assms(5,6) xs by (subst links_frame [where s = s]) (auto dest!: in_set_butlastD)
  moreover have "deref s' (tqh_last s h) = None"
  proof -
    have "tqh_last s h \<in> Next ` set xs" using links_end [OF l] xs by (auto simp: last_map split: if_splits)
    then show ?thesis using assms(5) n by auto
  qed
  ultimately show ?thesis using assms(3,4,6) d first xs by (simp add: represents_def)
qed

text \<open>The effect of \<^verbatim>\<open>TAILQ_SWAP\<close> on the fields.\<close>

lemma fields_SWAP:
  assumes "h1 \<noteq> h2" and "tqh_first s h2 \<noteq> tqh_first s h1 \<or> tqh_first s h1 = None"
  defines "s' \<equiv> ptr_TAILQ_SWAP h1 h2 s"
  shows "tqh_first s' = (tqh_first s)(h1 := tqh_first s h2, h2 := tqh_first s h1)"
    and "tqh_last s' = (tqh_last s)(h1 := if tqh_first s h2 = None then First h1 else tqh_last s h2,
      h2 := if tqh_first s h1 = None then First h2 else tqh_last s h1)"
    and "tqe_next s' = tqe_next s"
    and "tqe_prev s' y = (if Some y = tqh_first s h2 then First h1 else if Some y = tqh_first s h1 then First h2
      else tqe_prev s y)"
  using assms(1,2)
  by (auto simp: s'_def ptr_TAILQ_SWAP_def swap_relink_def Let_def fun_eq_iff split: option.splits)

lemma SWAP_same: "all_represent s q \<Longrightarrow> ptr_TAILQ_SWAP h h s = s"
  using all_representD(1) [of s q h]
  by (cases "q h"; cases s)
    (auto simp: represents_def ptr_TAILQ_SWAP_def swap_relink_def Let_def set_prev_def set_last_def store.simps
      fun_upd_idem)

lemma all_represent_SWAP:
  assumes all: "all_represent s q"
  shows "all_represent (ptr_TAILQ_SWAP h1 h2 s) (q(h1 := q h2, h2 := q h1))"
proof (cases "h1 = h2")
  case True
  then show ?thesis using all SWAP_same [OF all] by simp
next
  case False
  let ?s' = "ptr_TAILQ_SWAP h1 h2 s"
  note first = first_ref_owner [OF all]
  have dis: "z \<notin> set (q h')" if "z \<in> set (q h)" "h \<noteq> h'" for z h h' by (rule all_representD(3) [OF all that])
  have ne: "tqh_first s h2 \<noteq> tqh_first s h1 \<or> tqh_first s h1 = None"
    using dis [of _ h1 h2] False TAILQ_FIRST_Some_in [of "q h1"] TAILQ_FIRST_Some_in [of "q h2"]
    by (cases "tqh_first s h1") (auto simp: first)
  note F = fields_SWAP [OF False ne]
  have none: "tqh_first s h = None \<longleftrightarrow> q h = []" for h by (simp add: first)
  have "represents ?s' h1 (q h2)"
  proof (cases "q h2 = []")
    case True
    then show ?thesis using F none [of h2] False by (simp add: represents_def)
  next
    case ne: False
    have "\<forall>y \<in> set (q h2). Some y \<noteq> tqh_first s h1"
      using dis [of _ h2 h1] False TAILQ_FIRST_Some_in [of "q h1"] by (metis first)
    then show ?thesis
      by (intro represents_moved [OF all_representD(1) [OF all, of h2] ne]) (use F none [of h2] ne False in auto)
  qed
  moreover have "represents ?s' h2 (q h1)"
  proof (cases "q h1 = []")
    case True
    then show ?thesis using F none [of h1] False by (simp add: represents_def)
  next
    case ne: False
    have "\<forall>y \<in> set (q h1). Some y \<noteq> tqh_first s h2"
      using dis [of _ h1 h2] False TAILQ_FIRST_Some_in [of "q h2"] by (metis first)
    then show ?thesis
      by (intro represents_moved [OF all_representD(1) [OF all, of h1] ne]) (use F none [of h1] ne False in auto)
  qed
  ultimately show ?thesis
  proof (rule all_representI2 [OF all])
    fix h' y assume "h' \<noteq> h1" "h' \<noteq> h2" and y: "y \<in> set (q h')"
    then have "Some y \<noteq> tqh_first s h1" "Some y \<noteq> tqh_first s h2"
      using dis [OF y] TAILQ_FIRST_Some_in [of "q h1"] TAILQ_FIRST_Some_in [of "q h2"] by (metis first)+
    then show "tqe_prev ?s' y = tqe_prev s y \<and> deref ?s' (Next y) = deref s (Next y)" by (simp add: F)
  qed (use False F dis in auto)
qed

section \<open>Walks that change the queue\<close>

text \<open>\<open>R ys s\<close>: in the state \<open>s\<close> the elements \<open>ys\<close> are still to be visited.\<close>

lemma walk_safe_visits:
  assumes "\<And>x ys s. R (x # ys) s \<Longrightarrow> adv x s = TAILQ_FIRST ys \<and> R ys (body x s)"
    and "R xs s" and "length xs \<le> n"
  shows "fst (walk_safe adv body n (TAILQ_FIRST xs) s) = xs \<and> R [] (snd (walk_safe adv body n (TAILQ_FIRST xs) s))"
  using assms(2,3)
proof (induction xs arbitrary: s n)
  case (Cons x xs)
  then obtain k where "n = Suc k" "length xs \<le> k" by (cases n) auto
  then show ?case using Cons.IH [of "body x s" k] assms(1) [OF Cons.prems(1)] by (auto simp: Let_def split: prod.splits)
qed (cases n; simp)

text \<open>A walk that moves the elements with a property to the end of another queue.\<close>

definition move_if :: "('a \<Rightarrow> bool) \<Rightarrow> 'h \<Rightarrow> 'h \<Rightarrow> 'a \<Rightarrow> ('h, 'a) tailqs \<Rightarrow> ('h, 'a) tailqs" where
  "move_if P h h' x s = (if P x then ptr_TAILQ_INSERT_TAIL h' x (ptr_TAILQ_REMOVE h x s) else s)"

lemma move_if_step:
  assumes all: "all_represent s (q(h := us @ x # ys, h' := vs))" and h: "h \<noteq> h'"
  shows "all_represent (move_if P h h' x s)
    (q(h := us @ filter (\<lambda>x. \<not> P x) [x] @ ys, h' := vs @ filter P [x]))"
proof (cases "P x")
  case True
  let ?q = "q(h := us @ x # ys, h' := vs)"
  have u: "x \<notin> set us" using all_representD(2) [OF all, of h] h by simp
  have "x \<in> set (?q h)" using h by simp
  have "?q(h := us @ ys, h' := vs @ [x]) = q(h := us @ ys, h' := vs @ [x])" by (simp add: fun_eq_iff)
  with ptrq.requeue_tail [of s ?q x h h', OF all \<open>x \<in> set (?q h)\<close> h] show ?thesis
    using True u h by (simp add: move_if_def remove1_append)
qed (use all in \<open>simp add: move_if_def\<close>)

text \<open>Both walks may start in the middle: \<open>us\<close> are the elements they visit.\<close>

lemma walk_safe_move:
  assumes all: "all_represent s q" and h: "h \<noteq> h'" and q: "q h = pre @ us" and n: "length us \<le> n"
  shows "fst (walk_safe ptr_TAILQ_NEXT (move_if P h h') n (TAILQ_FIRST us) s) = us
    \<and> all_represent (snd (walk_safe ptr_TAILQ_NEXT (move_if P h h') n (TAILQ_FIRST us) s))
        (q(h := pre @ filter (\<lambda>x. \<not> P x) us, h' := q h' @ filter P us))"
proof -
  let ?R = "\<lambda>ys s. \<exists>xs. xs @ ys = us \<and>
    all_represent s (q(h := pre @ filter (\<lambda>x. \<not> P x) xs @ ys, h' := q h' @ filter P xs))"
  have step: "ptr_TAILQ_NEXT x s = TAILQ_FIRST ys \<and> ?R ys (move_if P h h' x s)" if R: "?R (x # ys) s" for x ys s
  proof -
    obtain xs where xs: "xs @ x # ys = us"
      "all_represent s (q(h := (pre @ filter (\<lambda>x. \<not> P x) xs) @ x # ys, h' := q h' @ filter P xs))"
      using R by auto
    from represents_NEXT [of s h "pre @ filter (\<lambda>x. \<not> P x) xs" x ys] all_representD(1) [OF xs(2), of h] h
    have "ptr_TAILQ_NEXT x s = TAILQ_FIRST ys" by (simp add: TAILQ_FIRST_def)
    moreover have "?R ys (move_if P h h' x s)"
      by (rule exI [of _ "xs @ [x]"]) (use move_if_step [OF xs(2) h, of P] xs(1) in simp)
    ultimately show ?thesis ..
  qed
  have "?R us s" by (rule exI [of _ "[]"]) (use all h q in \<open>simp add: fun_upd_idem\<close>)
  from walk_safe_visits [where R = ?R, OF step this n] show ?thesis by auto
qed

lemma walk_reverse_safe_move:
  assumes all: "all_represent s q" and h: "h \<noteq> h'" and q: "q h = rev us @ post" and n: "length us \<le> n"
  shows "fst (walk_safe ptr_TAILQ_PREV (move_if P h h') n (TAILQ_FIRST us) s) = us
    \<and> all_represent (snd (walk_safe ptr_TAILQ_PREV (move_if P h h') n (TAILQ_FIRST us) s))
        (q(h := filter (\<lambda>x. \<not> P x) (rev us) @ post, h' := q h' @ filter P us))"
proof -
  let ?R = "\<lambda>ys s. \<exists>xs. xs @ ys = us \<and>
    all_represent s (q(h := rev ys @ filter (\<lambda>x. \<not> P x) (rev xs) @ post, h' := q h' @ filter P xs))"
  have step: "ptr_TAILQ_PREV x s = TAILQ_FIRST ys \<and> ?R ys (move_if P h h' x s)" if R: "?R (x # ys) s" for x ys s
  proof -
    obtain xs where xs: "xs @ x # ys = us"
      "all_represent s (q(h := rev ys @ x # filter (\<lambda>x. \<not> P x) (rev xs) @ post, h' := q h' @ filter P xs))"
      using R by auto
    from represents_PREV(1) [of s h "rev ys" x "filter (\<lambda>x. \<not> P x) (rev xs) @ post"] all_representD(1) [OF xs(2), of h] h
    have "ptr_TAILQ_PREV x s = TAILQ_FIRST ys" by (cases ys) simp_all
    moreover have "?R ys (move_if P h h' x s)"
      by (rule exI [of _ "xs @ [x]"], cases "P x") (use move_if_step [OF xs(2) h, of P] xs(1) in simp_all)
    ultimately show ?thesis ..
  qed
  have "?R us s" by (rule exI [of _ "[]"]) (use all h q in \<open>simp add: fun_upd_idem\<close>)
  from walk_safe_visits [where R = ?R, OF step this n] show ?thesis by auto
qed

text \<open>The elements from the one the variable holds on, and those before it.\<close>

fun from_here :: "'a option \<Rightarrow> 'a list \<Rightarrow> 'a list" where
  "from_here None xs = xs"
| "from_here (Some x) xs = dropWhile (\<lambda>y. y \<noteq> x) xs"

fun before_here :: "'a option \<Rightarrow> 'a list \<Rightarrow> 'a list" where
  "before_here None xs = []"
| "before_here (Some x) xs = takeWhile (\<lambda>y. y \<noteq> x) xs"

lemma from_here_split: "before_here var xs @ from_here var xs = xs"
  by (cases var) simp_all

lemma from_or_start:
  assumes "\<forall>x. var = Some x \<longrightarrow> x \<in> set xs"
  shows "from_or var (TAILQ_FIRST xs) = TAILQ_FIRST (from_here var xs)"
proof (cases var)
  case (Some x)
  have "TAILQ_FIRST (dropWhile (\<lambda>y. y \<noteq> x) xs) = Some x" if "x \<in> set xs" for xs using that by (induction xs) auto
  then show ?thesis using assms Some by (simp add: from_or_def)
qed (simp add: from_or_def)

lemma first_of_walks:
  assumes "all_represent s q"
  shows "ptr_TAILQ_FIRST h s = TAILQ_FIRST (q h)" and "ptr_TAILQ_LAST h s = TAILQ_FIRST (rev (q h))"
proof -
  show "ptr_TAILQ_FIRST h s = TAILQ_FIRST (q h)" by (rule all_represent_FIRST [OF assms])
  show "ptr_TAILQ_LAST h s = TAILQ_FIRST (rev (q h))"
    using represents_LAST(1) [OF all_representD(1) [OF assms, of h]] by (cases "q h" rule: rev_cases) simp_all
qed

text \<open>The elements with a property leave the list, when the walk gets to them.\<close>

definition leave_from :: "'a option \<Rightarrow> ('a \<Rightarrow> bool) \<Rightarrow> 'a list \<Rightarrow> 'a list" where
  "leave_from var P xs = before_here var xs @ filter (\<lambda>x. \<not> P x) (from_here var xs)"

lemma FOREACH_SAFE_move:
  assumes all: "all_represent s q" and h: "h \<noteq> h'" and n: "length (q h) \<le> n"
    and var: "\<forall>x. var = Some x \<longrightarrow> x \<in> set (q h)"
  shows "all_represent (snd (ptr_TAILQ_FOREACH_FROM_SAFE n var h (move_if P h h') s))
    (q(h := leave_from var P (q h), h' := q h' @ filter P (from_here var (q h))))"
proof -
  note pre = from_here_split [of var "q h", symmetric]
  have "length (from_here var (q h)) \<le> n" using n arg_cong [OF pre, of length] by simp
  from conjunct2 [OF walk_safe_move [OF all h pre this, of P]] show ?thesis
    by (simp add: ptr_TAILQ_FOREACH_FROM_SAFE_def first_of_walks [OF all] from_or_start [OF var]
      leave_from_def)
qed

lemma FOREACH_REVERSE_SAFE_move:
  assumes all: "all_represent s q" and h: "h \<noteq> h'" and n: "length (q h) \<le> n"
    and var: "\<forall>x. var = Some x \<longrightarrow> x \<in> set (q h)"
  shows "all_represent (snd (ptr_TAILQ_FOREACH_REVERSE_FROM_SAFE n var h (move_if P h h') s))
    (q(h := rev (leave_from var P (rev (q h))), h' := q h' @ filter P (from_here var (rev (q h)))))"
proof -
  have q: "q h = rev (from_here var (rev (q h))) @ rev (before_here var (rev (q h)))"
    using from_here_split [of var "rev (q h)"] by (metis rev_append rev_rev_ident)
  have "length (from_here var (rev (q h))) \<le> n" using n arg_cong [OF q, of length] by simp
  from conjunct2 [OF walk_reverse_safe_move [OF all h q this, of P]] show ?thesis
    using from_or_start [of var "rev (q h)"] var
    by (simp add: ptr_TAILQ_FOREACH_REVERSE_FROM_SAFE_def first_of_walks [OF all]
      leave_from_def rev_filter)
qed

section \<open>Sequences of all operations\<close>

datatype ('h, 'a) queue_op =
    Basic "('h, 'a) tailq_op"
  | Init 'h
  | InsertAfter 'h 'a 'a
  | InsertBefore 'h 'a 'a
  | Concat 'h 'h
  | Swap 'h 'h
  | MoveIf nat "'a option" "'a \<Rightarrow> bool" 'h 'h
  | MoveIfReverse nat "'a option" "'a \<Rightarrow> bool" 'h 'h

fun ptr_queue_op :: "('h, 'a) queue_op \<Rightarrow> ('h, 'a) tailqs \<Rightarrow> ('h, 'a) tailqs" where
  "ptr_queue_op (Basic op) s = ptr_step op s"
| "ptr_queue_op (Init h) s = ptr_TAILQ_INIT h s"
| "ptr_queue_op (InsertAfter h a x) s = ptr_TAILQ_INSERT_AFTER h a x s"
| "ptr_queue_op (InsertBefore h a x) s = ptr_TAILQ_INSERT_BEFORE a x s"
| "ptr_queue_op (Concat h h') s = ptr_TAILQ_CONCAT h h' s"
| "ptr_queue_op (Swap h h') s = ptr_TAILQ_SWAP h h' s"
| "ptr_queue_op (MoveIf n var P h h') s = snd (ptr_TAILQ_FOREACH_FROM_SAFE n var h (move_if P h h') s)"
| "ptr_queue_op (MoveIfReverse n var P h h') s = snd (ptr_TAILQ_FOREACH_REVERSE_FROM_SAFE n var h (move_if P h h') s)"

inductive list_queue_op :: "('h, 'a) queue_op \<Rightarrow> ('h \<Rightarrow> 'a list) \<Rightarrow> ('h \<Rightarrow> 'a list) \<Rightarrow> bool" where
  basic: "list_step op q q' \<Longrightarrow> list_queue_op (Basic op) q q'"
| init: "list_queue_op (Init h) q (q(h := []))"
| insert_after: "a \<in> set (q h) \<Longrightarrow> \<forall>h'. x \<notin> set (q h') \<Longrightarrow>
     list_queue_op (InsertAfter h a x) q (q(h := insert_after a x (q h)))"
| insert_before: "a \<in> set (q h) \<Longrightarrow> \<forall>h'. x \<notin> set (q h') \<Longrightarrow>
     list_queue_op (InsertBefore h a x) q (q(h := insert_before a x (q h)))"
| concat: "h \<noteq> h' \<Longrightarrow> list_queue_op (Concat h h') q (q(h := q h @ q h', h' := []))"
| swap: "list_queue_op (Swap h h') q (q(h := q h', h' := q h))"
| move_if: "h \<noteq> h' \<Longrightarrow> length (q h) \<le> n \<Longrightarrow> \<forall>x. var = Some x \<longrightarrow> x \<in> set (q h) \<Longrightarrow>
     list_queue_op (MoveIf n var P h h') q
       (q(h := leave_from var P (q h), h' := q h' @ filter P (from_here var (q h))))"
| move_if_reverse: "h \<noteq> h' \<Longrightarrow> length (q h) \<le> n \<Longrightarrow> \<forall>x. var = Some x \<longrightarrow> x \<in> set (q h) \<Longrightarrow>
     list_queue_op (MoveIfReverse n var P h h') q
       (q(h := rev (leave_from var P (rev (q h))), h' := q h' @ filter P (from_here var (rev (q h)))))"

inductive list_queue_ops :: "('h, 'a) queue_op list \<Rightarrow> ('h \<Rightarrow> 'a list) \<Rightarrow> ('h \<Rightarrow> 'a list) \<Rightarrow> bool" where
  none: "list_queue_ops [] q q"
| more: "list_queue_op op q q' \<Longrightarrow> list_queue_ops ops q' q'' \<Longrightarrow> list_queue_ops (op # ops) q q''"

inductive_simps list_queue_op_simps [simp]:
  "list_queue_op (Basic op) q q'"
  "list_queue_op (Init h) q q'"
  "list_queue_op (InsertAfter h a x) q q'"
  "list_queue_op (InsertBefore h a x) q q'"
  "list_queue_op (Concat h h') q q'"
  "list_queue_op (Swap h h') q q'"
  "list_queue_op (MoveIf n var P h h') q q'"
  "list_queue_op (MoveIfReverse n var P h h') q q'"

inductive_simps list_queue_ops_simps [simp]:
  "list_queue_ops [] q q'"
  "list_queue_ops (op # ops) q q'"

lemma queue_op_simulation:
  "list_queue_op op q q' \<Longrightarrow> all_represent s q \<Longrightarrow> all_represent (ptr_queue_op op s) q'"
  by (induction rule: list_queue_op.induct)
    (simp_all add: list_step_simulation all_represent_INIT all_represent_INSERT_AFTER all_represent_INSERT_BEFORE
      all_represent_CONCAT all_represent_SWAP FOREACH_SAFE_move FOREACH_REVERSE_SAFE_move)

lemma from_somewhere_visits:
  assumes "represents s h (xs @ x # ys)" and "length (xs @ x # ys) \<le> n"
  shows "ptr_TAILQ_FOREACH_FROM n (Some x) h s = x # ys"
    and "ptr_TAILQ_FOREACH_REVERSE_FROM n (Some x) h s = x # rev xs"
proof -
  obtain m where m: "deref s m = Some x" "tqe_prev s x = m" "links s (Next x) ys (tqh_last s h)"
    "deref s (tqh_last s h) = None"
    using assms(1) by (rule represents_split)
  then have "links s m (x # ys) (tqh_last s h)" by simp
  from links_WALK [OF this m(4), of n] m(1) assms(2) show "ptr_TAILQ_FOREACH_FROM n (Some x) h s = x # ys"
    by (simp add: ptr_TAILQ_FOREACH_FROM_def from_or_def)
  have "represents s h ((xs @ [x]) @ ys)" "length (xs @ [x]) \<le> n" using assms by simp_all
  from WALK_REVERSE_visits [OF this] show "ptr_TAILQ_FOREACH_REVERSE_FROM n (Some x) h s = x # rev xs"
    by (simp add: ptr_TAILQ_FOREACH_REVERSE_FROM_def from_or_def)
qed

lemma represents_reports:
  assumes "represents s h xs"
  shows "ptr_TAILQ_EMPTY h s \<longleftrightarrow> xs = []"
    and "ptr_TAILQ_LAST h s = (if xs = [] then None else Some (last xs))"
    and "length xs \<le> n \<Longrightarrow> ptr_TAILQ_WALK n (ptr_TAILQ_FIRST h s) s = xs"
    and "length xs \<le> n \<Longrightarrow> ptr_TAILQ_FOREACH_REVERSE n h s = rev xs"
proof -
  note L = represents_LAST [OF assms]
  show "ptr_TAILQ_EMPTY h s \<longleftrightarrow> xs = []" "ptr_TAILQ_LAST h s = (if xs = [] then None else Some (last xs))" by (rule L)+
  show "ptr_TAILQ_WALK n (ptr_TAILQ_FIRST h s) s = xs" if "length xs \<le> n"
    using links_WALK [of s "First h" xs] assms that by (auto simp: represents_def ptr_TAILQ_FIRST_def)
  show "ptr_TAILQ_FOREACH_REVERSE n h s = rev xs" if "length xs \<le> n"
    using WALK_REVERSE_visits [of s h xs "[]" n] assms that by (simp add: ptr_TAILQ_FOREACH_REVERSE_def L(1))
qed

section \<open>The refinement\<close>

text \<open>C18. Whatever sequence of tail queue operations is performed within the macros' contract, the pointer code
  computes the list operations on every queue. Afterwards the queries agree with the lists, the walks
  visit them forwards, backwards and from an element on, the fast variants of last and previous agree
  with the slow ones, and no consistency check fires.\<close>

theorem queue_macros_refine_lists:
  assumes "list_queue_ops ops q q'" and "all_represent s q" and "t = fold ptr_queue_op ops s"
  shows "all_represent t q'
    \<and> (ptr_TAILQ_EMPTY h t \<longleftrightarrow> q' h = [])
    \<and> ptr_TAILQ_LAST h t = (if q' h = [] then None else Some (last (q' h)))
    \<and> ptr_TAILQ_LAST_FAST h t = Ok (ptr_TAILQ_LAST h t)
    \<and> QMD_TAILQ_CHECK_HEAD h t \<and> QMD_TAILQ_CHECK_TAIL h t
    \<and> (\<forall>n. length (q' h) \<le> n \<longrightarrow>
          ptr_TAILQ_WALK n (ptr_TAILQ_FIRST h t) t = q' h \<and> ptr_TAILQ_FOREACH_REVERSE n h t = rev (q' h))
    \<and> (\<forall>xs x ys n. q' h = xs @ x # ys \<longrightarrow> length (q' h) \<le> n \<longrightarrow>
          ptr_TAILQ_FOREACH_FROM n (Some x) h t = x # ys \<and> ptr_TAILQ_FOREACH_REVERSE_FROM n (Some x) h t = x # rev xs
          \<and> ptr_TAILQ_PREV_FAST x h t = Ok (ptr_TAILQ_PREV x t)
          \<and> QMD_TAILQ_CHECK_NEXT x t \<and> QMD_TAILQ_CHECK_PREV x t)"
proof -
  have all: "all_represent t q'"
    using assms by (induction arbitrary: s t rule: list_queue_ops.induct) (auto dest: queue_op_simulation)
  then have r: "represents t h (q' h)" by (rule all_representD)
  have "ptr_TAILQ_FOREACH_FROM n (Some x) h t = x # ys \<and> ptr_TAILQ_FOREACH_REVERSE_FROM n (Some x) h t = x # rev xs
      \<and> ptr_TAILQ_PREV_FAST x h t = Ok (ptr_TAILQ_PREV x t) \<and> QMD_TAILQ_CHECK_NEXT x t \<and> QMD_TAILQ_CHECK_PREV x t"
    if "q' h = xs @ x # ys" "length (q' h) \<le> n" for xs x ys n
  proof -
    have x: "represents t h (xs @ x # ys)" using r that(1) by simp
    show ?thesis
      using from_somewhere_visits [OF x] represents_PREV(2) [OF x] represents_CHECKS(3,4) [OF x, of x] that by simp
  qed
  with all represents_reports [OF r] represents_LAST(2) [OF r] represents_CHECKS(1,2) [OF r] show ?thesis by blast
qed

theorem queue_macros_refine_lists_witness:
  "ptr_TAILQ_WALK 5 (ptr_TAILQ_FIRST False (fold ptr_queue_op
      [Basic (InsertTail False (2::nat)), InsertBefore False 2 1, InsertAfter False 2 3, Basic (InsertTail True 4),
       Concat False True, MoveIfReverse 4 None even False True, Swap False True] empty_store)) (fold ptr_queue_op
      [Basic (InsertTail False (2::nat)), InsertBefore False 2 1, InsertAfter False 2 3, Basic (InsertTail True 4),
       Concat False True, MoveIfReverse 4 None even False True, Swap False True] empty_store) = [4, 2]"
proof -
  let ?ops = "[Basic (InsertTail False (2::nat)), InsertBefore False 2 1, InsertAfter False 2 3,
    Basic (InsertTail True 4), Concat False True, MoveIfReverse 4 None even False True, Swap False True]"
  let ?l = "\<lambda>xs ys :: nat list. case_bool ys xs"
  have u: "(?l xs ys)(False := zs) = ?l zs ys" "(?l xs ys)(True := zs) = ?l xs zs" for xs ys zs
    by (auto simp: fun_eq_iff split: bool.splits)
  have "(\<forall>h. x \<notin> set (?l xs ys h)) \<longleftrightarrow> x \<notin> set xs \<and> x \<notin> set ys" for x xs ys
    by (auto simp: all_bool_eq)
  then have "list_queue_ops ?ops (?l [] []) (?l [4, 2] [1, 3])" by (simp add: TAILQ_list_defs u leave_from_def)
  moreover have "all_represent empty_store (?l [] [])"
    by (auto simp: all_represent_def represents_def empty_store_def split: bool.splits)
  ultimately have "(\<forall>n. length (?l [4, 2] [1, 3] False) \<le> n \<longrightarrow>
      ptr_TAILQ_WALK n (ptr_TAILQ_FIRST False (fold ptr_queue_op ?ops empty_store)) (fold ptr_queue_op ?ops empty_store)
        = ?l [4, 2] [1, 3] False)"
    using queue_macros_refine_lists [OF _ _ refl, of ?ops "?l [] []" "?l [4, 2] [1, 3]" empty_store False] by blast
  then show ?thesis by (simp del: ptr_TAILQ_WALK.simps fold.simps)
qed

end
