(* ===== verification/List_Families.thy ===== *)
theory List_Families
  imports Tailq_Ops
begin

text \<open>
  The other three families of \<^verbatim>\<open>kdk/queue.h\<close>: singly linked lists (\<^verbatim>\<open>SLIST\<close>), singly linked tail queues
  (\<^verbatim>\<open>STAILQ\<close>) and lists (\<^verbatim>\<open>LIST\<close>). All have a pointer to the first element in the head and a pointer to the
  next one in the element; a tail queue also keeps the address of its last cell, an element of a list
  the address of the cell that points at it. The model has the two pointers in one record, which the
  records of the tail queues and the lists extend, and \<open>First h\<close> and \<open>Next x\<close> for the addresses. Each
  macro is its list operation on the lists it is given and leaves the others alone.
\<close>

section \<open>Singly linked lists\<close>

record ('h, 'a) chains =
  ch_first :: "'h \<Rightarrow> 'a option" \<comment> \<open>\<^verbatim>\<open>slh_first\<close>, \<^verbatim>\<open>stqh_first\<close>, \<^verbatim>\<open>lh_first\<close>\<close>
  ch_next :: "'a \<Rightarrow> 'a option" \<comment> \<open>\<^verbatim>\<open>sle_next\<close>, \<^verbatim>\<open>stqe_next\<close>, \<^verbatim>\<open>le_next\<close>\<close>

fun cell :: "('h, 'a, 'z) chains_scheme \<Rightarrow> ('h, 'a) nextref \<Rightarrow> 'a option" where
  "cell s (First h) = ch_first s h"
| "cell s (Next x) = ch_next s x"

fun put :: "('h, 'a) nextref \<Rightarrow> 'a option \<Rightarrow> ('h, 'a, 'z) chains_scheme \<Rightarrow> ('h, 'a, 'z) chains_scheme" where
  "put (First h) v s = s\<lparr>ch_first := (ch_first s)(h := v)\<rparr>"
| "put (Next x) v s = s\<lparr>ch_next := (ch_next s)(x := v)\<rparr>"

definition SLIST_FIRST :: "'h \<Rightarrow> ('h, 'a, 'z) chains_scheme \<Rightarrow> 'a option" where
  "SLIST_FIRST h s = ch_first s h"

definition SLIST_NEXT :: "'a \<Rightarrow> ('h, 'a, 'z) chains_scheme \<Rightarrow> 'a option" where
  "SLIST_NEXT x s = ch_next s x"

definition SLIST_EMPTY :: "'h \<Rightarrow> ('h, 'a, 'z) chains_scheme \<Rightarrow> bool" where
  "SLIST_EMPTY h s \<longleftrightarrow> ch_first s h = None"

definition SLIST_INIT :: "'h \<Rightarrow> ('h, 'a, 'z) chains_scheme \<Rightarrow> ('h, 'a, 'z) chains_scheme" where
  "SLIST_INIT h s = put (First h) None s"

definition SLIST_INSERT_AFTER ::
    "'a \<Rightarrow> 'a \<Rightarrow> ('h, 'a, 'z) chains_scheme \<Rightarrow> ('h, 'a, 'z) chains_scheme" where
  "SLIST_INSERT_AFTER slistelm elm s =
     (let s = put (Next elm) (SLIST_NEXT slistelm s) s in put (Next slistelm) (Some elm) s)"

definition SLIST_INSERT_HEAD ::
    "'h \<Rightarrow> 'a \<Rightarrow> ('h, 'a, 'z) chains_scheme \<Rightarrow> ('h, 'a, 'z) chains_scheme" where
  "SLIST_INSERT_HEAD h elm s =
     (let s = put (Next elm) (SLIST_FIRST h s) s in put (First h) (Some elm) s)"

definition SLIST_REMOVE_AFTER ::
    "'a \<Rightarrow> ('h, 'a, 'z) chains_scheme \<Rightarrow> ('h, 'a, 'z) chains_scheme outcome" where
  "SLIST_REMOVE_AFTER elm s =
     (case SLIST_NEXT elm s of
        None \<Rightarrow> Err (Undefined ''SLIST_REMOVE_AFTER'')
      | Some y \<Rightarrow> Ok (put (Next elm) (SLIST_NEXT y s) s))"

definition SLIST_REMOVE_HEAD ::
    "'h \<Rightarrow> ('h, 'a, 'z) chains_scheme \<Rightarrow> ('h, 'a, 'z) chains_scheme outcome" where
  "SLIST_REMOVE_HEAD h s =
     (case SLIST_FIRST h s of
        None \<Rightarrow> Err (Undefined ''SLIST_REMOVE_HEAD'')
      | Some y \<Rightarrow> Ok (put (First h) (SLIST_NEXT y s) s))"

text \<open>The loops of \<^verbatim>\<open>REMOVE\<close> and \<^verbatim>\<open>CONCAT\<close>, which run along the list to the element before \<open>elm\<close> and to the
  last one. \<open>None\<close>: the loop follows a null pointer or does not end.\<close>

partial_function (option) elm_before :: "('a \<Rightarrow> 'a option) \<Rightarrow> 'a \<Rightarrow> 'a \<Rightarrow> 'a option" where
  "elm_before nxt elm curelm =
     (case nxt curelm of
        None \<Rightarrow> None
      | Some y \<Rightarrow> if y = elm then Some curelm else elm_before nxt elm y)"

partial_function (option) last_elm :: "('a \<Rightarrow> 'a option) \<Rightarrow> 'a \<Rightarrow> 'a option" where
  "last_elm nxt curelm = (case nxt curelm of None \<Rightarrow> Some curelm | Some y \<Rightarrow> last_elm nxt y)"

definition SLIST_REMOVE ::
    "'h \<Rightarrow> 'a \<Rightarrow> ('h, 'a, 'z) chains_scheme \<Rightarrow> ('h, 'a, 'z) chains_scheme outcome" where
  "SLIST_REMOVE h elm s =
     (if SLIST_FIRST h s = Some elm then SLIST_REMOVE_HEAD h s
      else
        case Option.bind (SLIST_FIRST h s) (elm_before (ch_next s) elm) of
          None \<Rightarrow> Err (Undefined ''SLIST_REMOVE'')
        | Some curelm \<Rightarrow> SLIST_REMOVE_AFTER curelm s)"

definition SLIST_REMOVE_PREVPTR ::
    "('h, 'a) nextref \<Rightarrow> 'a \<Rightarrow> ('h, 'a, 'z) chains_scheme \<Rightarrow> ('h, 'a, 'z) chains_scheme" where
  "SLIST_REMOVE_PREVPTR prevp elm s = put prevp (SLIST_NEXT elm s) s"

definition SLIST_CONCAT ::
    "'h \<Rightarrow> 'h \<Rightarrow> ('h, 'a, 'z) chains_scheme \<Rightarrow> ('h, 'a, 'z) chains_scheme outcome" where
  "SLIST_CONCAT head1 head2 s =
     (case SLIST_FIRST head1 s of
        None \<Rightarrow>
          let s = put (First head1) (SLIST_FIRST head2 s) s in
          Ok (if SLIST_FIRST head1 s \<noteq> None then SLIST_INIT head2 s else s)
      | Some curelm \<Rightarrow>
          if SLIST_FIRST head2 s \<noteq> None then
            case last_elm (ch_next s) curelm of
              None \<Rightarrow> Err (Undefined ''SLIST_CONCAT'')
            | Some curelm \<Rightarrow> Ok (SLIST_INIT head2 (put (Next curelm) (SLIST_FIRST head2 s) s))
          else Ok s)"

definition SLIST_SWAP :: "'h \<Rightarrow> 'h \<Rightarrow> ('h, 'a, 'z) chains_scheme \<Rightarrow> ('h, 'a, 'z) chains_scheme" where
  "SLIST_SWAP head1 head2 s =
     (let swap_first = SLIST_FIRST head1 s;
          s = put (First head1) (SLIST_FIRST head2 s) s
      in put (First head2) swap_first s)"

text \<open>The walks, with a bound on the number of steps.\<close>

fun chain_walk :: "nat \<Rightarrow> 'a option \<Rightarrow> ('h, 'a, 'z) chains_scheme \<Rightarrow> 'a list" where
  "chain_walk (Suc n) (Some x) s = x # chain_walk n (ch_next s x) s"
| "chain_walk _ _ s = []"

definition SLIST_FOREACH :: "nat \<Rightarrow> 'h \<Rightarrow> ('h, 'a, 'z) chains_scheme \<Rightarrow> 'a list" where
  "SLIST_FOREACH n h s = chain_walk n (SLIST_FIRST h s) s"

definition SLIST_FOREACH_FROM :: "nat \<Rightarrow> 'a option \<Rightarrow> 'h \<Rightarrow> ('h, 'a, 'z) chains_scheme \<Rightarrow> 'a list" where
  "SLIST_FOREACH_FROM n var h s = chain_walk n (from_or var (SLIST_FIRST h s)) s"

definition SLIST_FOREACH_SAFE ::
    "nat \<Rightarrow> 'h \<Rightarrow> ('a \<Rightarrow> ('h, 'a, 'z) chains_scheme \<Rightarrow> ('h, 'a, 'z) chains_scheme) \<Rightarrow> ('h, 'a, 'z) chains_scheme \<Rightarrow>
     'a list \<times> ('h, 'a, 'z) chains_scheme" where
  "SLIST_FOREACH_SAFE n h body s = walk_safe SLIST_NEXT body n (SLIST_FIRST h s) s"

definition SLIST_FOREACH_FROM_SAFE ::
    "nat \<Rightarrow> 'a option \<Rightarrow> 'h \<Rightarrow> ('a \<Rightarrow> ('h, 'a, 'z) chains_scheme \<Rightarrow> ('h, 'a, 'z) chains_scheme) \<Rightarrow>
     ('h, 'a, 'z) chains_scheme \<Rightarrow> 'a list \<times> ('h, 'a, 'z) chains_scheme" where
  "SLIST_FOREACH_FROM_SAFE n var h body s = walk_safe SLIST_NEXT body n (from_or var (SLIST_FIRST h s)) s"

fun prevptr_walk ::
    "nat \<Rightarrow> ('h, 'a) nextref \<Rightarrow> ('h, 'a, 'z) chains_scheme \<Rightarrow> (('h, 'a) nextref \<times> 'a) list" where
  "prevptr_walk (Suc n) varp s =
     (case cell s varp of None \<Rightarrow> [] | Some var \<Rightarrow> (varp, var) # prevptr_walk n (Next var) s)"
| "prevptr_walk 0 varp s = []"

definition SLIST_FOREACH_PREVPTR :: "nat \<Rightarrow> 'h \<Rightarrow> ('h, 'a, 'z) chains_scheme \<Rightarrow> (('h, 'a) nextref \<times> 'a) list" where
  "SLIST_FOREACH_PREVPTR n h s = prevptr_walk n (First h) s"

definition QMD_SLIST_CHECK_PREVPTR :: "('h, 'a) nextref \<Rightarrow> 'a \<Rightarrow> ('h, 'a, 'z) chains_scheme \<Rightarrow> bool" where
  "QMD_SLIST_CHECK_PREVPTR prevp elm s \<longleftrightarrow> cell s prevp = Some elm"

section \<open>Singly linked tail queues\<close>

record ('h, 'a) stailqs = "('h, 'a) chains" +
  stqh_last :: "'h \<Rightarrow> ('h, 'a) nextref"

definition set_stqh_last :: "'h \<Rightarrow> ('h, 'a) nextref \<Rightarrow> ('h, 'a) stailqs \<Rightarrow> ('h, 'a) stailqs" where
  "set_stqh_last h r s = s\<lparr>stqh_last := (stqh_last s)(h := r)\<rparr>"

definition STAILQ_FIRST :: "'h \<Rightarrow> ('h, 'a) stailqs \<Rightarrow> 'a option" where
  "STAILQ_FIRST h s = ch_first s h"

definition STAILQ_NEXT :: "'a \<Rightarrow> ('h, 'a) stailqs \<Rightarrow> 'a option" where
  "STAILQ_NEXT x s = ch_next s x"

definition STAILQ_EMPTY :: "'h \<Rightarrow> ('h, 'a) stailqs \<Rightarrow> bool" where
  "STAILQ_EMPTY h s \<longleftrightarrow> ch_first s h = None"

definition STAILQ_INIT :: "'h \<Rightarrow> ('h, 'a) stailqs \<Rightarrow> ('h, 'a) stailqs" where
  "STAILQ_INIT h s = set_stqh_last h (First h) (put (First h) None s)"

definition STAILQ_CONCAT :: "'h \<Rightarrow> 'h \<Rightarrow> ('h, 'a) stailqs \<Rightarrow> ('h, 'a) stailqs" where
  "STAILQ_CONCAT head1 head2 s =
     (if \<not> STAILQ_EMPTY head2 s then
        let s = put (stqh_last s head1) (STAILQ_FIRST head2 s) s;
            s = set_stqh_last head1 (stqh_last s head2) s
        in STAILQ_INIT head2 s
      else s)"

definition STAILQ_INSERT_AFTER :: "'h \<Rightarrow> 'a \<Rightarrow> 'a \<Rightarrow> ('h, 'a) stailqs \<Rightarrow> ('h, 'a) stailqs" where
  "STAILQ_INSERT_AFTER h tqelm elm s =
     (let s = put (Next elm) (STAILQ_NEXT tqelm s) s;
          s = (if STAILQ_NEXT elm s = None then set_stqh_last h (Next elm) s else s)
      in put (Next tqelm) (Some elm) s)"

definition STAILQ_INSERT_HEAD :: "'h \<Rightarrow> 'a \<Rightarrow> ('h, 'a) stailqs \<Rightarrow> ('h, 'a) stailqs" where
  "STAILQ_INSERT_HEAD h elm s =
     (let s = put (Next elm) (STAILQ_FIRST h s) s;
          s = (if STAILQ_NEXT elm s = None then set_stqh_last h (Next elm) s else s)
      in put (First h) (Some elm) s)"

definition STAILQ_INSERT_TAIL :: "'h \<Rightarrow> 'a \<Rightarrow> ('h, 'a) stailqs \<Rightarrow> ('h, 'a) stailqs" where
  "STAILQ_INSERT_TAIL h elm s =
     (let s = put (Next elm) None s;
          s = put (stqh_last s h) (Some elm) s
      in set_stqh_last h (Next elm) s)"

text \<open>\<^verbatim>\<open>STAILQ_LAST\<close> computes the element from the address of its cell.\<close>

definition STAILQ_LAST :: "'h \<Rightarrow> ('h, 'a) stailqs \<Rightarrow> 'a option outcome" where
  "STAILQ_LAST h s =
     (if STAILQ_EMPTY h s then Ok None
      else case stqh_last s h of Next x \<Rightarrow> Ok (Some x) | First _ \<Rightarrow> Err (Undefined ''STAILQ_LAST''))"

definition STAILQ_REMOVE_AFTER :: "'h \<Rightarrow> 'a \<Rightarrow> ('h, 'a) stailqs \<Rightarrow> ('h, 'a) stailqs outcome" where
  "STAILQ_REMOVE_AFTER h elm s =
     (case STAILQ_NEXT elm s of
        None \<Rightarrow> Err (Undefined ''STAILQ_REMOVE_AFTER'')
      | Some y \<Rightarrow>
          let s = put (Next elm) (STAILQ_NEXT y s) s in
          Ok (if STAILQ_NEXT elm s = None then set_stqh_last h (Next elm) s else s))"

definition STAILQ_REMOVE_HEAD :: "'h \<Rightarrow> ('h, 'a) stailqs \<Rightarrow> ('h, 'a) stailqs outcome" where
  "STAILQ_REMOVE_HEAD h s =
     (case STAILQ_FIRST h s of
        None \<Rightarrow> Err (Undefined ''STAILQ_REMOVE_HEAD'')
      | Some y \<Rightarrow>
          let s = put (First h) (STAILQ_NEXT y s) s in
          Ok (if STAILQ_FIRST h s = None then set_stqh_last h (First h) s else s))"

definition STAILQ_REMOVE :: "'h \<Rightarrow> 'a \<Rightarrow> ('h, 'a) stailqs \<Rightarrow> ('h, 'a) stailqs outcome" where
  "STAILQ_REMOVE h elm s =
     (if STAILQ_FIRST h s = Some elm then STAILQ_REMOVE_HEAD h s
      else
        case Option.bind (STAILQ_FIRST h s) (elm_before (ch_next s) elm) of
          None \<Rightarrow> Err (Undefined ''STAILQ_REMOVE'')
        | Some curelm \<Rightarrow> STAILQ_REMOVE_AFTER h curelm s)"

definition STAILQ_SWAP :: "'h \<Rightarrow> 'h \<Rightarrow> ('h, 'a) stailqs \<Rightarrow> ('h, 'a) stailqs" where
  "STAILQ_SWAP head1 head2 s =
     (let swap_first = STAILQ_FIRST head1 s;
          swap_last = stqh_last s head1;
          s = put (First head1) (STAILQ_FIRST head2 s) s;
          s = set_stqh_last head1 (stqh_last s head2) s;
          s = put (First head2) swap_first s;
          s = set_stqh_last head2 swap_last s;
          s = (if STAILQ_EMPTY head1 s then set_stqh_last head1 (First head1) s else s)
      in if STAILQ_EMPTY head2 s then set_stqh_last head2 (First head2) s else s)"

definition STAILQ_FOREACH :: "nat \<Rightarrow> 'h \<Rightarrow> ('h, 'a) stailqs \<Rightarrow> 'a list" where
  "STAILQ_FOREACH n h s = chain_walk n (STAILQ_FIRST h s) s"

definition STAILQ_FOREACH_FROM :: "nat \<Rightarrow> 'a option \<Rightarrow> 'h \<Rightarrow> ('h, 'a) stailqs \<Rightarrow> 'a list" where
  "STAILQ_FOREACH_FROM n var h s = chain_walk n (from_or var (STAILQ_FIRST h s)) s"

definition STAILQ_FOREACH_SAFE ::
    "nat \<Rightarrow> 'h \<Rightarrow> ('a \<Rightarrow> ('h, 'a) stailqs \<Rightarrow> ('h, 'a) stailqs) \<Rightarrow> ('h, 'a) stailqs \<Rightarrow> 'a list \<times> ('h, 'a) stailqs" where
  "STAILQ_FOREACH_SAFE n h body s = walk_safe STAILQ_NEXT body n (STAILQ_FIRST h s) s"

definition STAILQ_FOREACH_FROM_SAFE ::
    "nat \<Rightarrow> 'a option \<Rightarrow> 'h \<Rightarrow> ('a \<Rightarrow> ('h, 'a) stailqs \<Rightarrow> ('h, 'a) stailqs) \<Rightarrow> ('h, 'a) stailqs \<Rightarrow>
     'a list \<times> ('h, 'a) stailqs" where
  "STAILQ_FOREACH_FROM_SAFE n var h body s = walk_safe STAILQ_NEXT body n (from_or var (STAILQ_FIRST h s)) s"

section \<open>Lists\<close>

record ('h, 'a) lists = "('h, 'a) chains" +
  le_prev :: "'a \<Rightarrow> ('h, 'a) nextref"

definition set_le_prev :: "'a \<Rightarrow> ('h, 'a) nextref \<Rightarrow> ('h, 'a) lists \<Rightarrow> ('h, 'a) lists" where
  "set_le_prev x r s = s\<lparr>le_prev := (le_prev s)(x := r)\<rparr>"

definition LIST_FIRST :: "'h \<Rightarrow> ('h, 'a) lists \<Rightarrow> 'a option" where
  "LIST_FIRST h s = ch_first s h"

definition LIST_NEXT :: "'a \<Rightarrow> ('h, 'a) lists \<Rightarrow> 'a option" where
  "LIST_NEXT x s = ch_next s x"

definition LIST_EMPTY :: "'h \<Rightarrow> ('h, 'a) lists \<Rightarrow> bool" where
  "LIST_EMPTY h s \<longleftrightarrow> ch_first s h = None"

definition LIST_INIT :: "'h \<Rightarrow> ('h, 'a) lists \<Rightarrow> ('h, 'a) lists" where
  "LIST_INIT h s = put (First h) None s"

definition LIST_CONCAT :: "'h \<Rightarrow> 'h \<Rightarrow> ('h, 'a) lists \<Rightarrow> ('h, 'a) lists outcome" where
  "LIST_CONCAT head1 head2 s =
     (case LIST_FIRST head1 s of
        None \<Rightarrow>
          let s = put (First head1) (LIST_FIRST head2 s) s in
          if LIST_FIRST head1 s \<noteq> None then
            case LIST_FIRST head2 s of
              None \<Rightarrow> Err (Undefined ''LIST_CONCAT'')
            | Some y \<Rightarrow> Ok (LIST_INIT head2 (set_le_prev y (First head1) s))
          else Ok s
      | Some curelm \<Rightarrow>
          case LIST_FIRST head2 s of
            None \<Rightarrow> Ok s
          | Some y \<Rightarrow>
              case last_elm (ch_next s) curelm of
                None \<Rightarrow> Err (Undefined ''LIST_CONCAT'')
              | Some curelm \<Rightarrow>
                  let s = put (Next curelm) (Some y) s;
                      s = set_le_prev y (Next curelm) s
                  in Ok (LIST_INIT head2 s))"

definition LIST_INSERT_AFTER :: "'a \<Rightarrow> 'a \<Rightarrow> ('h, 'a) lists \<Rightarrow> ('h, 'a) lists" where
  "LIST_INSERT_AFTER listelm elm s =
     (let s = put (Next elm) (LIST_NEXT listelm s) s;
          s = (case LIST_NEXT elm s of
                 None \<Rightarrow> s
               | Some _ \<Rightarrow> (case LIST_NEXT listelm s of None \<Rightarrow> s | Some y \<Rightarrow> set_le_prev y (Next elm) s));
          s = put (Next listelm) (Some elm) s
      in set_le_prev elm (Next listelm) s)"

definition LIST_INSERT_BEFORE :: "'a \<Rightarrow> 'a \<Rightarrow> ('h, 'a) lists \<Rightarrow> ('h, 'a) lists" where
  "LIST_INSERT_BEFORE listelm elm s =
     (let s = set_le_prev elm (le_prev s listelm) s;
          s = put (Next elm) (Some listelm) s;
          s = put (le_prev s listelm) (Some elm) s
      in set_le_prev listelm (Next elm) s)"

definition LIST_INSERT_HEAD :: "'h \<Rightarrow> 'a \<Rightarrow> ('h, 'a) lists \<Rightarrow> ('h, 'a) lists" where
  "LIST_INSERT_HEAD h elm s =
     (let s = put (Next elm) (LIST_FIRST h s) s;
          s = (case LIST_NEXT elm s of
                 None \<Rightarrow> s
               | Some _ \<Rightarrow> (case LIST_FIRST h s of None \<Rightarrow> s | Some y \<Rightarrow> set_le_prev y (Next elm) s));
          s = put (First h) (Some elm) s
      in set_le_prev elm (First h) s)"

definition LIST_PREV :: "'a \<Rightarrow> 'h \<Rightarrow> ('h, 'a) lists \<Rightarrow> 'a option outcome" where
  "LIST_PREV elm h s =
     (if le_prev s elm = First h then Ok None
      else case le_prev s elm of Next y \<Rightarrow> Ok (Some y) | First _ \<Rightarrow> Err (Undefined ''LIST_PREV''))"

definition LIST_REMOVE :: "'a \<Rightarrow> ('h, 'a) lists \<Rightarrow> ('h, 'a) lists" where
  "LIST_REMOVE elm s =
     (let s = (case LIST_NEXT elm s of None \<Rightarrow> s | Some y \<Rightarrow> set_le_prev y (le_prev s elm) s)
      in put (le_prev s elm) (LIST_NEXT elm s) s)"

text \<open>The second half of \<^verbatim>\<open>LIST_SWAP\<close>: the first element of a list is told where it is.\<close>

definition tell_first :: "'h \<Rightarrow> ('h, 'a) lists \<Rightarrow> ('h, 'a) lists" where
  "tell_first h s = (case LIST_FIRST h s of None \<Rightarrow> s | Some swap_tmp \<Rightarrow> set_le_prev swap_tmp (First h) s)"

definition LIST_SWAP :: "'h \<Rightarrow> 'h \<Rightarrow> ('h, 'a) lists \<Rightarrow> ('h, 'a) lists" where
  "LIST_SWAP head1 head2 s =
     (let swap_tmp = LIST_FIRST head1 s;
          s = put (First head1) (LIST_FIRST head2 s) s;
          s = put (First head2) swap_tmp s
      in tell_first head2 (tell_first head1 s))"

definition LIST_FOREACH :: "nat \<Rightarrow> 'h \<Rightarrow> ('h, 'a) lists \<Rightarrow> 'a list" where
  "LIST_FOREACH n h s = chain_walk n (LIST_FIRST h s) s"

definition LIST_FOREACH_FROM :: "nat \<Rightarrow> 'a option \<Rightarrow> 'h \<Rightarrow> ('h, 'a) lists \<Rightarrow> 'a list" where
  "LIST_FOREACH_FROM n var h s = chain_walk n (from_or var (LIST_FIRST h s)) s"

definition LIST_FOREACH_SAFE ::
    "nat \<Rightarrow> 'h \<Rightarrow> ('a \<Rightarrow> ('h, 'a) lists \<Rightarrow> ('h, 'a) lists) \<Rightarrow> ('h, 'a) lists \<Rightarrow> 'a list \<times> ('h, 'a) lists" where
  "LIST_FOREACH_SAFE n h body s = walk_safe LIST_NEXT body n (LIST_FIRST h s) s"

definition LIST_FOREACH_FROM_SAFE ::
    "nat \<Rightarrow> 'a option \<Rightarrow> 'h \<Rightarrow> ('a \<Rightarrow> ('h, 'a) lists \<Rightarrow> ('h, 'a) lists) \<Rightarrow> ('h, 'a) lists \<Rightarrow>
     'a list \<times> ('h, 'a) lists" where
  "LIST_FOREACH_FROM_SAFE n var h body s = walk_safe LIST_NEXT body n (from_or var (LIST_FIRST h s)) s"

text \<open>The consistency checks of a kernel built with invariants: \<open>True\<close> means that the check does not panic.\<close>

definition QMD_LIST_CHECK_HEAD :: "'h \<Rightarrow> ('h, 'a) lists \<Rightarrow> bool" where
  "QMD_LIST_CHECK_HEAD h s \<longleftrightarrow> (case LIST_FIRST h s of None \<Rightarrow> True | Some x \<Rightarrow> le_prev s x = First h)"

definition QMD_LIST_CHECK_NEXT :: "'a \<Rightarrow> ('h, 'a) lists \<Rightarrow> bool" where
  "QMD_LIST_CHECK_NEXT x s \<longleftrightarrow> (case LIST_NEXT x s of None \<Rightarrow> True | Some y \<Rightarrow> le_prev s y = Next x)"

definition QMD_LIST_CHECK_PREV :: "'a \<Rightarrow> ('h, 'a) lists \<Rightarrow> bool" where
  "QMD_LIST_CHECK_PREV x s \<longleftrightarrow> cell s (le_prev s x) = Some x"

end
