(* ===== verification/Cell_Chains.thy ===== *)
theory Cell_Chains
  imports List_Families
begin

text \<open>
  Chains of cells, for the three families of \<open>List_Families\<close>. What an operation does to the forward
  pointers is one of four changes to the cells (an element enters after a cell, the element in a cell
  leaves, a list is appended to another, two lists change places), and each is proved once. The
  operations as operations on lists, and the contract of a family that offers some of them.
\<close>

section \<open>Chains of cells\<close>

fun chain :: "(('h, 'a) nextref \<Rightarrow> 'a option) \<Rightarrow> ('h, 'a) nextref \<Rightarrow> 'a list \<Rightarrow> bool" where
  "chain c r [] \<longleftrightarrow> c r = None"
| "chain c r (x # xs) \<longleftrightarrow> c r = Some x \<and> chain c (Next x) xs"

fun steps :: "(('h, 'a) nextref \<Rightarrow> 'a option) \<Rightarrow> ('h, 'a) nextref \<Rightarrow> 'a list \<Rightarrow> bool" where
  "steps c r [] \<longleftrightarrow> True"
| "steps c r (x # xs) \<longleftrightarrow> c r = Some x \<and> steps c (Next x) xs"

definition end_ref :: "('h, 'a) nextref \<Rightarrow> 'a list \<Rightarrow> ('h, 'a) nextref" where
  "end_ref r xs = (if xs = [] then r else Next (last xs))"

lemma end_ref_simps [simp]:
  "end_ref r [] = r" "end_ref r (xs @ [x]) = Next x" "end_ref (Next x) xs = Next (last (x # xs))"
  "end_ref r (x # xs) = end_ref (Next x) xs"
  by (simp_all add: end_ref_def)

lemma chain_append: "chain c r (xs @ ys) \<longleftrightarrow> steps c r xs \<and> chain c (end_ref r xs) ys"
  by (induction xs arbitrary: r) auto

lemma chain_frame: "\<forall>r'\<in>insert r (Next ` set xs). c' r' = c r' \<Longrightarrow> chain c' r xs \<longleftrightarrow> chain c r xs"
  by (induction xs arbitrary: r) auto

lemma steps_frame: "\<forall>r'\<in>set (butlast (r # map Next xs)). c' r' = c r' \<Longrightarrow> steps c' r xs \<longleftrightarrow> steps c r xs"
  by (induction xs arbitrary: r) auto

lemma refs_before:
  assumes "distinct xs" and "r \<in> set (butlast (First h # map Next xs))"
  shows "r \<noteq> end_ref (First h) xs" and "r = First h \<or> (\<exists>y\<in>set xs. r = Next y)"
proof -
  have "distinct (First h # map Next xs)" using assms(1) by (auto simp: distinct_map inj_on_def)
  then have "distinct (butlast (First h # map Next xs) @ [last (First h # map Next xs)])"
    by (metis append_butlast_last_id list.discI)
  moreover have "last (First h # map Next xs) = end_ref (First h) xs" by (simp add: end_ref_def last_map)
  ultimately show "r \<noteq> end_ref (First h) xs" using assms(2) by auto
  show "r = First h \<or> (\<exists>y\<in>set xs. r = Next y)" using in_set_butlastD [OF assms(2)] by auto
qed

lemma end_ref_cases: "end_ref (First h) xs = First h \<and> xs = [] \<or> (\<exists>y\<in>set xs. end_ref (First h) xs = Next y)"
  by (auto simp: end_ref_def)

text \<open>\<open>hold c q\<close>: the cells hold the list \<open>q h\<close> for every head \<open>h\<close>, and no element is on two lists.\<close>

definition hold :: "(('h, 'a) nextref \<Rightarrow> 'a option) \<Rightarrow> ('h \<Rightarrow> 'a list) \<Rightarrow> bool" where
  "hold c q \<longleftrightarrow> (\<forall>h. distinct (q h) \<and> chain c (First h) (q h)) \<and>
     (\<forall>h h'. h \<noteq> h' \<longrightarrow> set (q h) \<inter> set (q h') = {})"

lemma holdD:
  assumes "hold c q"
  shows "distinct (q h)" and "chain c (First h) (q h)" and "x \<in> set (q h) \<Longrightarrow> x \<in> set (q h') \<Longrightarrow> h = h'"
  using assms by (auto simp: hold_def)

text \<open>A change that concerns the lists \<open>h1\<close> and \<open>h2\<close>: the cells of the others are as before.\<close>

lemma holdI:
  assumes "hold c q"
    and "\<And>h. h \<noteq> h1 \<Longrightarrow> h \<noteq> h2 \<Longrightarrow> c' (First h) = c (First h) \<and> (\<forall>y\<in>set (q h). c' (Next y) = c (Next y))"
    and "distinct xs" and "distinct ys" and "chain c' (First h1) xs" and "chain c' (First h2) ys"
    and "h1 = h2 \<Longrightarrow> xs = ys" and "h1 \<noteq> h2 \<Longrightarrow> set xs \<inter> set ys = {}"
    and "\<And>h x. h \<noteq> h1 \<Longrightarrow> h \<noteq> h2 \<Longrightarrow> x \<in> set (q h) \<Longrightarrow> x \<notin> set xs \<union> set ys"
  shows "hold c' (q(h1 := xs, h2 := ys))"
  unfolding hold_def
proof (intro conjI allI impI)
  fix h
  show "distinct ((q(h1 := xs, h2 := ys)) h)" using assms(3,4) holdD(1) [OF assms(1)] by simp
  show "chain c' (First h) ((q(h1 := xs, h2 := ys)) h)"
  proof (cases "h = h1 \<or> h = h2")
    case False
    then have "chain c' (First h) (q h) \<longleftrightarrow> chain c (First h) (q h)" by (intro chain_frame) (use assms(2) in auto)
    with False show ?thesis using holdD(2) [OF assms(1)] by simp
  qed (use assms(5,6,7) in auto)
next
  fix h h' :: 'a assume "h \<noteq> h'"
  then have "set (q h) \<inter> set (q h') = {}" using holdD(3) [OF assms(1)] by blast
  then show "set ((q(h1 := xs, h2 := ys)) h) \<inter> set ((q(h1 := xs, h2 := ys)) h') = {}"
    using \<open>h \<noteq> h'\<close> assms(8) assms(9) [of h] assms(9) [of h'] by auto
qed

lemma hold_one:
  assumes "hold c q"
    and "\<And>h'. h' \<noteq> h \<Longrightarrow> c' (First h') = c (First h') \<and> (\<forall>y\<in>set (q h'). c' (Next y) = c (Next y))"
    and "distinct xs" and "chain c' (First h) xs"
    and "\<And>h' x. h' \<noteq> h \<Longrightarrow> x \<in> set (q h') \<Longrightarrow> x \<notin> set xs"
  shows "hold c' (q(h := xs))"
  using holdI [OF assms(1), of h h c' xs xs] assms by simp

section \<open>The changes to the cells\<close>

definition entered :: "('h, 'a) nextref \<Rightarrow> 'a \<Rightarrow> (('h, 'a) nextref \<Rightarrow> 'a option) \<Rightarrow> ('h, 'a) nextref \<Rightarrow> 'a option" where
  "entered r x c = c(Next x := c r, r := Some x)"

definition left_cell :: "('h, 'a) nextref \<Rightarrow> 'a \<Rightarrow> (('h, 'a) nextref \<Rightarrow> 'a option) \<Rightarrow> ('h, 'a) nextref \<Rightarrow> 'a option" where
  "left_cell r x c = c(r := c (Next x))"

lemma hold_entered:
  assumes c: "hold c q" and q: "q h = xs @ ys" and x: "\<forall>h. x \<notin> set (q h)" and r: "r = end_ref (First h) xs"
  shows "hold (entered r x c) (q(h := xs @ x # ys))"
proof (rule hold_one [OF c])
  have d: "distinct (xs @ ys)" and ch: "chain c (First h) (xs @ ys)" using holdD [OF c] q by metis+
  have x': "x \<notin> set (xs @ ys)" using x q by metis
  note r_cases = end_ref_cases [of h xs, folded r]
  have rx: "r \<noteq> Next x" using r_cases x' by auto
  show "distinct (xs @ x # ys)" using d x' by auto
  have "steps (entered r x c) (First h) xs"
    using ch refs_before [of xs _ h] d x'
    by (subst steps_frame [where c = c]) (auto simp: entered_def chain_append r dest: in_set_butlastD)
  moreover have "chain c r ys" using ch by (simp add: chain_append r)
  then have "chain (entered r x c) (Next x) ys"
  proof (cases ys)
    case (Cons y zs)
    have "chain (entered r x c) (Next y) zs \<longleftrightarrow> chain c (Next y) zs"
      using Cons d x' r_cases by (intro chain_frame) (auto simp: entered_def)
    with \<open>chain c r ys\<close> Cons rx show ?thesis by (simp add: entered_def)
  qed (use rx in \<open>simp add: entered_def\<close>)
  ultimately show "chain (entered r x c) (First h) (xs @ x # ys)"
    by (simp add: chain_append r [symmetric]) (simp add: entered_def)
next
  fix h' assume h': "h' \<noteq> h"
  have "\<forall>y\<in>set (q h'). r \<noteq> Next y" using end_ref_cases [of h xs, folded r] holdD(3) [OF c, of _ h' h] q h' by auto
  then show "entered r x c (First h') = c (First h') \<and> (\<forall>y\<in>set (q h'). entered r x c (Next y) = c (Next y))"
    using end_ref_cases [of h xs, folded r] h' x by (auto simp: entered_def)
  show "y \<notin> set (xs @ x # ys)" if "y \<in> set (q h')" for y
    using that x holdD(3) [OF c that, of h] h' q by auto
qed

lemma hold_left:
  assumes c: "hold c q" and q: "q h = xs @ x # ys" and r: "r = end_ref (First h) xs"
  shows "hold (left_cell r x c) (q(h := xs @ ys))"
proof (rule hold_one [OF c])
  have d: "distinct (xs @ x # ys)" and ch: "chain c (First h) (xs @ x # ys)" using holdD [OF c] q by metis+
  note r_cases = end_ref_cases [of h xs, folded r]
  show "distinct (xs @ ys)" using d by auto
  have "steps (left_cell r x c) (First h) xs"
    using ch refs_before [of xs _ h] d
    by (subst steps_frame [where c = c]) (auto simp: left_cell_def chain_append r)
  moreover have "chain (left_cell r x c) r ys"
  proof (cases ys)
    case (Cons y zs)
    have "chain (left_cell r x c) (Next y) zs \<longleftrightarrow> chain c (Next y) zs"
      using Cons d r_cases by (intro chain_frame) (auto simp: left_cell_def)
    with ch Cons show ?thesis by (simp add: left_cell_def chain_append)
  qed (use ch in \<open>simp add: left_cell_def chain_append\<close>)
  ultimately show "chain (left_cell r x c) (First h) (xs @ ys)" by (simp add: chain_append r)
next
  fix h' assume h': "h' \<noteq> h"
  have "\<forall>y\<in>set (q h'). r \<noteq> Next y" using end_ref_cases [of h xs, folded r] holdD(3) [OF c, of _ h' h] q h' by auto
  then show "left_cell r x c (First h') = c (First h') \<and> (\<forall>y\<in>set (q h'). left_cell r x c (Next y) = c (Next y))"
    using end_ref_cases [of h xs, folded r] h' by (auto simp: left_cell_def)
  show "y \<notin> set (xs @ ys)" if "y \<in> set (q h')" for y
    using that holdD(3) [OF c that, of h] h' q by auto
qed

lemma hold_concat:
  assumes c: "hold c q" and h: "h1 \<noteq> h2" and r: "r = end_ref (First h1) (q h1)"
  shows "hold (c(r := c (First h2), First h2 := None)) (q(h1 := q h1 @ q h2, h2 := []))"
proof (rule holdI [OF c])
  let ?c = "c(r := c (First h2), First h2 := None)"
  note d = holdD(1) [OF c] and ch = holdD(2) [OF c] and own = holdD(3) [OF c]
  note r_cases = end_ref_cases [of h1 "q h1", folded r]
  have dis: "set (q h1) \<inter> set (q h2) = {}" using own h by blast
  show "distinct (q h1 @ q h2)" using d dis by simp
  have "steps ?c (First h1) (q h1)"
  proof (subst steps_frame [where c = c])
    show "\<forall>r'\<in>set (butlast (First h1 # map Next (q h1))). ?c r' = c r'"
      using refs_before [OF d, of _ h1 h1] h by (auto simp: r dest: in_set_butlastD)
    show "steps c (First h1) (q h1)" using ch [of h1] chain_append [of c "First h1" "q h1" "[]"] by simp
  qed
  moreover have "chain ?c r (q h2)"
  proof (cases "q h2")
    case Nil
    then show ?thesis using ch [of h2] r_cases h by auto
  next
    case (Cons y zs)
    have "chain ?c (Next y) zs \<longleftrightarrow> chain c (Next y) zs"
      using Cons d [of h2] dis r_cases by (intro chain_frame) auto
    with ch [of h2] Cons r_cases h show ?thesis by auto
  qed
  ultimately show "chain ?c (First h1) (q h1 @ q h2)" by (simp add: chain_append r)
  show "?c (First h) = c (First h) \<and> (\<forall>y\<in>set (q h). ?c (Next y) = c (Next y))" if "h \<noteq> h1" "h \<noteq> h2" for h
    using that r_cases own [of _ h h1] by auto
  show "x \<notin> set (q h1 @ q h2) \<union> set []" if "h \<noteq> h1" "h \<noteq> h2" "x \<in> set (q h)" for h x
    using that own [OF that(3), of h1] own [OF that(3), of h2] by auto
qed (use h in auto)

lemma hold_swap:
  assumes c: "hold c q"
  shows "hold (c(First h1 := c (First h2), First h2 := c (First h1))) (q(h1 := q h2, h2 := q h1))"
proof (rule holdI [OF c])
  let ?c = "c(First h1 := c (First h2), First h2 := c (First h1))"
  note d = holdD(1) [OF c] and ch = holdD(2) [OF c] and own = holdD(3) [OF c]
  have moved: "chain ?c (First h') (q h)" if "?c (First h') = c (First h)" for h h'
  proof (cases "q h")
    case (Cons y ys)
    have "chain ?c (Next y) ys \<longleftrightarrow> chain c (Next y) ys" by (rule chain_frame) auto
    with that ch [of h] Cons show ?thesis by simp
  qed (use that ch [of h] in simp)
  show "chain ?c (First h1) (q h2)" "chain ?c (First h2) (q h1)" by (rule moved; simp)+
  show "x \<notin> set (q h2) \<union> set (q h1)" if "h \<noteq> h1" "h \<noteq> h2" "x \<in> set (q h)" for h x
    using that own [OF that(3), of h1] own [OF that(3), of h2] by auto
  show "set (q h2) \<inter> set (q h1) = {}" if "h1 \<noteq> h2" using that own by blast
qed (use holdD(1) [OF c] in auto)

lemma hold_init:
  assumes "hold c q"
  shows "hold (c(First h := None)) (q(h := []))"
  by (rule hold_one [OF assms]) auto

lemma hold_first: "hold c q \<Longrightarrow> c (First h) = TAILQ_FIRST (q h)"
  using holdD(2) [of c q h] by (cases "q h") auto

lemma hold_next:
  assumes "hold c q" and "q h = xs @ x # ys"
  shows "c (Next x) = TAILQ_FIRST ys" and "c (end_ref (First h) xs) = Some x"
  using holdD(2) [OF assms(1), of h] assms(2) by (cases ys; simp add: chain_append)+

lemma hold_end: "hold c q \<Longrightarrow> c (end_ref (First h) (q h)) = None"
  using holdD(2) [of c q h] chain_append [of c "First h" "q h" "[]"] by simp

section \<open>Operations of the families and what they do to lists\<close>

datatype ('h, 'a) list_macro =
    Init 'h
  | InsertHead 'h 'a
  | InsertTail 'h 'a
  | InsertAfter 'h 'a 'a
  | InsertBefore 'a 'a
  | RemoveHead 'h
  | RemoveAfter 'h 'a
  | Remove 'h 'a
  | RemovePrevptr "('h, 'a) nextref" 'a
  | Concat 'h 'h
  | Swap 'h 'h

inductive list_macro_step :: "('h, 'a) list_macro \<Rightarrow> ('h \<Rightarrow> 'a list) \<Rightarrow> ('h \<Rightarrow> 'a list) \<Rightarrow> bool" where
  init: "list_macro_step (Init h) q (q(h := []))"
| insert_head: "\<forall>h'. x \<notin> set (q h') \<Longrightarrow> list_macro_step (InsertHead h x) q (q(h := x # q h))"
| insert_tail: "\<forall>h'. x \<notin> set (q h') \<Longrightarrow> list_macro_step (InsertTail h x) q (q(h := q h @ [x]))"
| insert_after: "\<forall>h'. x \<notin> set (q h') \<Longrightarrow> q h = xs @ a # ys \<Longrightarrow>
     list_macro_step (InsertAfter h a x) q (q(h := xs @ a # x # ys))"
| insert_before: "\<forall>h'. x \<notin> set (q h') \<Longrightarrow> q h = xs @ a # ys \<Longrightarrow>
     list_macro_step (InsertBefore a x) q (q(h := xs @ x # a # ys))"
| remove_head: "q h = x # ys \<Longrightarrow> list_macro_step (RemoveHead h) q (q(h := ys))"
| remove_after: "q h = xs @ a # x # ys \<Longrightarrow> list_macro_step (RemoveAfter h a) q (q(h := xs @ a # ys))"
| remove: "q h = xs @ x # ys \<Longrightarrow> list_macro_step (Remove h x) q (q(h := xs @ ys))"
| remove_prevptr: "q h = xs @ x # ys \<Longrightarrow>
     list_macro_step (RemovePrevptr (end_ref (First h) xs) x) q (q(h := xs @ ys))"
| concat: "h \<noteq> h' \<Longrightarrow> list_macro_step (Concat h h') q (q(h := q h @ q h', h' := []))"
| swap: "list_macro_step (Swap h h') q (q(h := q h', h' := q h))"

inductive_cases list_macro_cases:
  "list_macro_step (Init h) q q'" "list_macro_step (InsertHead h x) q q'"
  "list_macro_step (InsertTail h x) q q'" "list_macro_step (InsertAfter h a x) q q'"
  "list_macro_step (InsertBefore a x) q q'" "list_macro_step (RemoveHead h) q q'"
  "list_macro_step (RemoveAfter h a) q q'" "list_macro_step (Remove h x) q q'"
  "list_macro_step (RemovePrevptr r x) q q'" "list_macro_step (Concat h h') q q'"
  "list_macro_step (Swap h h') q q'"

inductive list_macro_run :: "('h, 'a) list_macro list \<Rightarrow> ('h \<Rightarrow> 'a list) \<Rightarrow> ('h \<Rightarrow> 'a list) \<Rightarrow> bool" where
  nothing: "list_macro_run [] q q"
| more: "list_macro_step op q q' \<Longrightarrow> list_macro_run ops q' q'' \<Longrightarrow> list_macro_run (op # ops) q q''"

text \<open>A family offers some of the operations; \<open>None\<close> for the others.\<close>

fun run_macros :: "('op \<Rightarrow> ('s \<Rightarrow> 's outcome) option) \<Rightarrow> 'op list \<Rightarrow> 's \<Rightarrow> 's outcome" where
  "run_macros macro [] s = Ok s"
| "run_macros macro (op # ops) s =
     (case macro op of
        None \<Rightarrow> Err (Undefined ''no such macro'')
      | Some f \<Rightarrow> bnd (f s) (run_macros macro ops))"

locale list_family =
  fixes macro :: "('h, 'a) list_macro \<Rightarrow> ('s \<Rightarrow> 's outcome) option"
    and reps :: "'s \<Rightarrow> ('h \<Rightarrow> 'a list) \<Rightarrow> bool"
  assumes macro_step: "reps s q \<Longrightarrow> list_macro_step op q q' \<Longrightarrow> macro op = Some f \<Longrightarrow> \<exists>s'. f s = Ok s' \<and> reps s' q'"
begin

lemma run_macros_refines:
  assumes "list_macro_run ops q q'" and "reps s q" and "\<forall>op\<in>set ops. macro op \<noteq> None"
  shows "\<exists>s'. run_macros macro ops s = Ok s' \<and> reps s' q'"
  using assms
proof (induction arbitrary: s rule: list_macro_run.induct)
  case (more op q q' ops q'')
  then obtain f s' where "macro op = Some f" "f s = Ok s'" "reps s' q'"
    using macro_step [OF more.prems(1) more.hyps(1)] by auto
  with more show ?case by auto
qed simp

end

end
