(* ===== verification/List_Refinement.thy ===== *)
theory List_Refinement
  imports Cell_Chains
begin

text \<open>
  The macros of \<open>List_Families\<close> make the changes of \<open>Cell_Chains\<close>, and each family meets the contract:
  sequences of its operations compute what they compute on lists.
\<close>

section \<open>Singly linked lists\<close>

lemma put_fields [simp]:
  "cell (put r v s) = (cell s)(r := v)"
  "ch_next (put r v s) x = (if r = Next x then v else ch_next s x)"
  "ch_first (put r v s) h = (if r = First h then v else ch_first s h)"
  "chains.more (put r v s) = chains.more s"
proof -
  show "cell (put r v s) = (cell s)(r := v)"
  proof
    fix r' show "cell (put r v s) r' = ((cell s)(r := v)) r'" by (cases r; cases r') auto
  qed
qed (cases r; simp)+

declare put.simps [simp del]

lemma cell_heads: "ch_first s h = cell s (First h)" "ch_next s x = cell s (Next x)"
  by simp_all

lemmas SLIST_simps = SLIST_FIRST_def SLIST_NEXT_def SLIST_EMPTY_def

lemma elm_before_chain:
  assumes "chain (cell s) (First h) (xs @ a # x # ys)" and "x \<notin> set (xs @ [a])"
  shows "Option.bind (ch_first s h) (elm_before (ch_next s) x) = Some a"
proof -
  have "elm_before (ch_next s) x (hd (zs @ [a])) = Some a"
    if "chain (cell s) r (zs @ a # x # ys)" "x \<notin> set (zs @ [a])" for r zs
    using that
  proof (induction zs arbitrary: r)
    case Nil
    then show ?case by (simp add: elm_before.simps)
  next
    case (Cons z zs)
    then have n: "ch_next s z = Some (hd (zs @ [a]))" by (cases zs) auto
    have "hd (zs @ [a]) \<noteq> x" using Cons.prems(2) by (cases zs) auto
    with n Cons.IH [of "Next z"] Cons.prems show ?case by (subst elm_before.simps) simp
  qed
  from this [OF assms] assms(1) show ?thesis by (cases xs) auto
qed

lemma last_elm_chain:
  assumes "chain (cell s) r xs" and "xs \<noteq> []"
  shows "last_elm (ch_next s) (hd xs) = Some (last xs)"
  using assms
proof (induction xs arbitrary: r)
  case (Cons x xs)
  with Cons.IH [of "Next x"] show ?case by (cases xs) (auto simp: last_elm.simps [of _ x])
qed simp

lemma chain_walk_chain:
  assumes "chain (cell s) r xs" and "length xs \<le> n"
  shows "chain_walk n (cell s r) s = xs"
  using assms
proof (induction xs arbitrary: r n)
  case Nil
  then show ?case by (cases n) auto
next
  case (Cons x xs)
  then obtain k where "n = Suc k" "length xs \<le> k" by (cases n) auto
  with Cons.IH [of "Next x" k] Cons.prems show ?case by auto
qed

lemma prevptr_walk_chain:
  assumes "chain (cell s) r xs" and "length xs \<le> n"
  shows "prevptr_walk n r s = zip (r # map Next xs) xs"
  using assms
proof (induction xs arbitrary: r n)
  case Nil
  then show ?case by (cases n) auto
next
  case (Cons x xs)
  then obtain k where "n = Suc k" "length xs \<le> k" by (cases n) auto
  with Cons.IH [of "Next x" k] Cons.prems show ?case by auto
qed

text \<open>What the operations do to the cells.\<close>

lemma SLIST_cells:
  "cell (SLIST_INIT h s) = (cell s)(First h := None)"
  "cell (SLIST_INSERT_HEAD h x s) = entered (First h) x (cell s)"
  "cell (SLIST_INSERT_AFTER a x s) = entered (Next a) x (cell s)"
  "cell (SLIST_REMOVE_PREVPTR r x s) = left_cell r x (cell s)"
  "cell (SLIST_SWAP h1 h2 s) = (cell s)(First h1 := cell s (First h2), First h2 := cell s (First h1))"
  by (simp_all add: SLIST_INIT_def SLIST_INSERT_HEAD_def SLIST_INSERT_AFTER_def SLIST_REMOVE_PREVPTR_def
    SLIST_SWAP_def SLIST_simps entered_def left_cell_def Let_def)

lemma SLIST_removes:
  "ch_first s h = Some x \<Longrightarrow> \<exists>s'. SLIST_REMOVE_HEAD h s = Ok s' \<and> cell s' = left_cell (First h) x (cell s)"
  "ch_next s a = Some x \<Longrightarrow> \<exists>s'. SLIST_REMOVE_AFTER a s = Ok s' \<and> cell s' = left_cell (Next a) x (cell s)"
  by (simp_all add: SLIST_REMOVE_HEAD_def SLIST_REMOVE_AFTER_def SLIST_simps left_cell_def)

lemma SLIST_REMOVE_cells:
  assumes "hold (cell s) q" and "q h = xs @ x # ys"
  shows "\<exists>s'. SLIST_REMOVE h x s = Ok s' \<and> cell s' = left_cell (end_ref (First h) xs) x (cell s)"
proof (cases xs rule: rev_cases)
  case Nil
  then have "ch_first s h = Some x" using hold_first [OF assms(1), of h] assms(2) by simp
  with Nil SLIST_removes(1) [OF this] show ?thesis by (simp add: SLIST_REMOVE_def SLIST_simps)
next
  case (snoc us a)
  have ch: "chain (cell s) (First h) (us @ a # x # ys)" and d: "distinct (us @ a # x # ys)"
    using holdD(1,2) [OF assms(1), of h] assms(2) snoc by simp_all
  have "ch_next s a = Some x" using ch by (simp add: chain_append)
  moreover have "ch_first s h \<noteq> Some x" using ch d by (cases us) auto
  moreover have "Option.bind (ch_first s h) (elm_before (ch_next s) x) = Some a"
    using d by (intro elm_before_chain [OF ch]) auto
  ultimately show ?thesis
    using SLIST_removes(2) [of s a x] snoc by (simp add: SLIST_REMOVE_def SLIST_simps)
qed

lemma SLIST_CONCAT_cells:
  assumes "hold (cell s) q" and "h1 \<noteq> h2"
  shows "\<exists>s'. SLIST_CONCAT h1 h2 s = Ok s' \<and>
    cell s' = (cell s)(end_ref (First h1) (q h1) := cell s (First h2), First h2 := None)"
proof (cases "q h1")
  case Nil
  then have "ch_first s h1 = None" using hold_first [OF assms(1), of h1] by simp
  with Nil assms(2) show ?thesis
    by (cases "ch_first s h2") (auto simp: SLIST_CONCAT_def SLIST_simps SLIST_INIT_def Let_def fun_eq_iff)
next
  case (Cons y ys)
  have "ch_first s h1 = Some y" using hold_first [OF assms(1), of h1] Cons by simp
  moreover have "last_elm (ch_next s) y = Some (last (q h1))"
    using last_elm_chain [OF holdD(2) [OF assms(1), of h1]] Cons by simp
  moreover have "cell s (end_ref (First h1) (q h1)) = None" by (rule hold_end [OF assms(1)])
  ultimately show ?thesis
    using Cons assms(2)
    by (cases "ch_first s h2") (auto simp: SLIST_CONCAT_def SLIST_simps SLIST_INIT_def Let_def fun_eq_iff end_ref_def)
qed

fun slist_macro :: "('h, 'a) list_macro \<Rightarrow> (('h, 'a) chains \<Rightarrow> ('h, 'a) chains outcome) option" where
  "slist_macro (Init h) = Some (\<lambda>s. Ok (SLIST_INIT h s))"
| "slist_macro (InsertHead h x) = Some (\<lambda>s. Ok (SLIST_INSERT_HEAD h x s))"
| "slist_macro (InsertAfter h a x) = Some (\<lambda>s. Ok (SLIST_INSERT_AFTER a x s))"
| "slist_macro (RemoveHead h) = Some (SLIST_REMOVE_HEAD h)"
| "slist_macro (RemoveAfter h a) = Some (SLIST_REMOVE_AFTER a)"
| "slist_macro (Remove h x) = Some (SLIST_REMOVE h x)"
| "slist_macro (RemovePrevptr r x) = Some (\<lambda>s. Ok (SLIST_REMOVE_PREVPTR r x s))"
| "slist_macro (Concat h h') = Some (SLIST_CONCAT h h')"
| "slist_macro (Swap h h') = Some (\<lambda>s. Ok (SLIST_SWAP h h' s))"
| "slist_macro _ = None"

text \<open>A list operation changes the cells as one of the lemmas says.\<close>

lemma hold_steps:
  assumes "hold c q"
  shows "\<forall>h'. x \<notin> set (q h') \<Longrightarrow> hold (entered (First h) x c) (q(h := x # q h))"
    and "\<forall>h'. x \<notin> set (q h') \<Longrightarrow> q h = xs @ a # ys \<Longrightarrow> hold (entered (Next a) x c) (q(h := xs @ a # x # ys))"
    and "q h = x # ys \<Longrightarrow> hold (left_cell (First h) x c) (q(h := ys))"
    and "q h = xs @ a # x # ys \<Longrightarrow> hold (left_cell (Next a) x c) (q(h := xs @ a # ys))"
    and "q h = xs @ x # ys \<Longrightarrow> hold (left_cell (end_ref (First h) xs) x c) (q(h := xs @ ys))"
  using hold_entered [OF assms, of h "[]" "q h" x] hold_entered [OF assms, of h "xs @ [a]" ys x]
    hold_left [OF assms, of h "[]" x ys] hold_left [OF assms, of h "xs @ [a]" x ys]
    hold_left [OF assms, of h xs x ys]
  by auto

definition slists_ok :: "('h, 'a) chains \<Rightarrow> ('h \<Rightarrow> 'a list) \<Rightarrow> bool" where
  "slists_ok s q \<longleftrightarrow> hold (cell s) q"

interpretation slist: list_family "slist_macro :: ('h, 'a) list_macro \<Rightarrow> _" slists_ok
proof
  fix s :: "('h, 'a) chains" and q op q' f
  assume "slists_ok s q" and st: "list_macro_step op q q'" and m: "slist_macro op = Some f"
  then have h: "hold (cell s) q" by (simp add: slists_ok_def)
  show "\<exists>s'. f s = Ok s' \<and> slists_ok s' q'"
    using st m
  proof cases
    case (remove h x xs ys)
    with m SLIST_REMOVE_cells [OF h remove(3)] hold_steps(5) [OF h remove(3)] show ?thesis
      by (auto simp: slists_ok_def)
  next
    case (concat h1 h2)
    with m SLIST_CONCAT_cells [OF h concat(3)] hold_concat [OF h concat(3) refl] show ?thesis
      by (auto simp: slists_ok_def)
  next
    case (remove_head h x ys)
    with m SLIST_removes(1) [of s h x] hold_first [OF h, of h] hold_steps(3) [OF h remove_head(3)]
    show ?thesis by (auto simp: slists_ok_def)
  next
    case (remove_after h xs a x ys)
    with m SLIST_removes(2) [of s a x] hold_next(1) [OF h, of h xs a "x # ys"] hold_steps(4) [OF h remove_after(3)]
    show ?thesis by (auto simp: slists_ok_def)
  next
    case (swap h1 h2)
    with m hold_swap [OF h, of h1 h2] show ?thesis by (auto simp: slists_ok_def SLIST_cells)
  qed (use h in \<open>auto simp: slists_ok_def SLIST_cells hold_init hold_steps\<close>)
qed

section \<open>Singly linked tail queues\<close>

lemma set_stqh_last_fields [simp]:
  "cell (set_stqh_last h r s) = cell s"
  "ch_first (set_stqh_last h r s) = ch_first s" "ch_next (set_stqh_last h r s) = ch_next s"
  "stqh_last (set_stqh_last h r s) = (stqh_last s)(h := r)"
  "stqh_last (put r' v s) = stqh_last s"
proof -
  show "cell (set_stqh_last h r s) = cell s"
  proof
    fix r' show "cell (set_stqh_last h r s) r' = cell s r'" by (cases r') (auto simp: set_stqh_last_def)
  qed
qed (cases r'; simp add: set_stqh_last_def put.simps)+

definition stailqs_ok :: "('h, 'a) stailqs \<Rightarrow> ('h \<Rightarrow> 'a list) \<Rightarrow> bool" where
  "stailqs_ok s q \<longleftrightarrow> hold (cell s) q \<and> (\<forall>h. stqh_last s h = end_ref (First h) (q h))"

lemmas STAILQ_simps = STAILQ_FIRST_def STAILQ_NEXT_def STAILQ_EMPTY_def

lemma STAILQ_cells:
  "cell (STAILQ_INIT h s) = (cell s)(First h := None)"
  "cell (STAILQ_INSERT_HEAD h x s) = entered (First h) x (cell s)"
  "cell (STAILQ_INSERT_AFTER h a x s) = entered (Next a) x (cell s)"
  "cell (STAILQ_SWAP h1 h2 s) = (cell s)(First h1 := cell s (First h2), First h2 := cell s (First h1))"
  by (simp_all add: STAILQ_INIT_def STAILQ_INSERT_HEAD_def STAILQ_INSERT_AFTER_def STAILQ_SWAP_def STAILQ_simps
    entered_def Let_def)

lemma STAILQ_lasts:
  "stqh_last (STAILQ_INIT h s) = (stqh_last s)(h := First h)"
  "stqh_last (STAILQ_INSERT_HEAD h x s) =
    (if ch_first s h = None then (stqh_last s)(h := Next x) else stqh_last s)"
  "stqh_last (STAILQ_INSERT_AFTER h a x s) =
    (if ch_next s a = None then (stqh_last s)(h := Next x) else stqh_last s)"
  "stqh_last (STAILQ_INSERT_TAIL h x s) = (stqh_last s)(h := Next x)"
  "h1 \<noteq> h2 \<Longrightarrow> stqh_last (STAILQ_SWAP h1 h2 s) = (stqh_last s)
    (h1 := if ch_first s h2 = None then First h1 else stqh_last s h2,
     h2 := if ch_first s h1 = None then First h2 else stqh_last s h1)"
  by (auto simp: STAILQ_INIT_def STAILQ_INSERT_HEAD_def STAILQ_INSERT_AFTER_def STAILQ_INSERT_TAIL_def
    STAILQ_SWAP_def STAILQ_simps Let_def fun_eq_iff)

lemma STAILQ_removes:
  "ch_first s h = Some x \<Longrightarrow> \<exists>s'. STAILQ_REMOVE_HEAD h s = Ok s' \<and> cell s' = left_cell (First h) x (cell s) \<and>
    stqh_last s' = (if ch_next s x = None then (stqh_last s)(h := First h) else stqh_last s)"
  "ch_next s a = Some x \<Longrightarrow> \<exists>s'. STAILQ_REMOVE_AFTER h a s = Ok s' \<and> cell s' = left_cell (Next a) x (cell s) \<and>
    stqh_last s' = (if ch_next s x = None then (stqh_last s)(h := Next a) else stqh_last s)"
  by (auto simp: STAILQ_REMOVE_HEAD_def STAILQ_REMOVE_AFTER_def STAILQ_simps left_cell_def Let_def)

lemma STAILQ_REMOVE_cells:
  assumes "hold (cell s) q" and "q h = xs @ x # ys"
  shows "\<exists>s'. STAILQ_REMOVE h x s = Ok s' \<and> cell s' = left_cell (end_ref (First h) xs) x (cell s) \<and>
    stqh_last s' = (if ys = [] then (stqh_last s)(h := end_ref (First h) xs) else stqh_last s)"
proof -
  have nx: "ch_next s x = None \<longleftrightarrow> ys = []" using hold_next(1) [OF assms] by simp
  show ?thesis
  proof (cases xs rule: rev_cases)
    case Nil
    then have "ch_first s h = Some x" using hold_first [OF assms(1), of h] assms(2) by simp
    with Nil STAILQ_removes(1) [OF this] nx show ?thesis by (auto simp: STAILQ_REMOVE_def STAILQ_simps)
  next
    case (snoc us a)
    have ch: "chain (cell s) (First h) (us @ a # x # ys)" and d: "distinct (us @ a # x # ys)"
      using holdD(1,2) [OF assms(1), of h] assms(2) snoc by simp_all
    have "ch_next s a = Some x" using ch by (simp add: chain_append)
    moreover have "ch_first s h \<noteq> Some x" using ch d by (cases us) auto
    moreover have "Option.bind (ch_first s h) (elm_before (ch_next s) x) = Some a"
      using d by (intro elm_before_chain [OF ch]) auto
    ultimately show ?thesis
      using STAILQ_removes(2) [of s a x h] snoc nx by (auto simp: STAILQ_REMOVE_def STAILQ_simps)
  qed
qed

lemma stailqs_okI:
  assumes "stailqs_ok s q" and "hold (cell s') q'" and "\<And>h. stqh_last s' h = end_ref (First h) (q' h)"
  shows "stailqs_ok s' q'"
  using assms by (simp add: stailqs_ok_def)

fun stailq_macro :: "('h, 'a) list_macro \<Rightarrow> (('h, 'a) stailqs \<Rightarrow> ('h, 'a) stailqs outcome) option" where
  "stailq_macro (Init h) = Some (\<lambda>s. Ok (STAILQ_INIT h s))"
| "stailq_macro (InsertHead h x) = Some (\<lambda>s. Ok (STAILQ_INSERT_HEAD h x s))"
| "stailq_macro (InsertTail h x) = Some (\<lambda>s. Ok (STAILQ_INSERT_TAIL h x s))"
| "stailq_macro (InsertAfter h a x) = Some (\<lambda>s. Ok (STAILQ_INSERT_AFTER h a x s))"
| "stailq_macro (RemoveHead h) = Some (STAILQ_REMOVE_HEAD h)"
| "stailq_macro (RemoveAfter h a) = Some (STAILQ_REMOVE_AFTER h a)"
| "stailq_macro (Remove h x) = Some (STAILQ_REMOVE h x)"
| "stailq_macro (Concat h h') = Some (\<lambda>s. Ok (STAILQ_CONCAT h h' s))"
| "stailq_macro (Swap h h') = Some (\<lambda>s. Ok (STAILQ_SWAP h h' s))"
| "stailq_macro _ = None"

interpretation stailq: list_family "stailq_macro :: ('h, 'a) list_macro \<Rightarrow> _" stailqs_ok
proof
  fix s :: "('h, 'a) stailqs" and q op q' f
  assume ok: "stailqs_ok s q" and st: "list_macro_step op q q'" and m: "stailq_macro op = Some f"
  have h: "hold (cell s) q" and l: "stqh_last s h = end_ref (First h) (q h)" for h
    using ok by (auto simp: stailqs_ok_def)
  note first = hold_first [OF h, simplified]
  show "\<exists>s'. f s = Ok s' \<and> stailqs_ok s' q'"
    using st m
  proof cases
    case (init h)
    with m h l show ?thesis by (auto simp: stailqs_ok_def STAILQ_cells STAILQ_lasts hold_init)
  next
    case (insert_head x h)
    with m h l hold_steps(1) [OF h, of x h] first [of h] show ?thesis
      by (auto simp: stailqs_ok_def STAILQ_cells STAILQ_lasts end_ref_def)
  next
    case (insert_tail x h)
    have "stqh_last s h \<noteq> Next x" using end_ref_cases [of h "q h"] l [of h] insert_tail(3) by auto
    then have "cell (STAILQ_INSERT_TAIL h x s) = entered (end_ref (First h) (q h)) x (cell s)"
      using hold_end [OF h, of h] by (auto simp: STAILQ_INSERT_TAIL_def entered_def Let_def l fun_eq_iff)
    with m insert_tail h l hold_entered [OF h, of h "q h" "[]" x] show ?thesis
      by (auto simp: stailqs_ok_def STAILQ_lasts)
  next
    case (insert_after x h xs a ys)
    have "ch_next s a = None \<longleftrightarrow> ys = []" using hold_next(1) [OF h insert_after(4)] by simp
    with m insert_after h l hold_steps(2) [OF h insert_after(3,4)] show ?thesis
      by (auto simp: stailqs_ok_def STAILQ_cells STAILQ_lasts end_ref_def)
  next
    case (remove_head h x ys)
    have "ch_next s x = None \<longleftrightarrow> ys = []" using hold_next(1) [OF h, of h "[]" x ys] remove_head(3) by simp
    with m remove_head first [of h] STAILQ_removes(1) [of s h x] l hold_steps(3) [OF h remove_head(3)]
    show ?thesis by (auto simp: stailqs_ok_def end_ref_def)
  next
    case (remove_after h xs a x ys)
    have "ch_next s a = Some x" using hold_next(1) [OF h remove_after(3)] by simp
    moreover have "ch_next s x = None \<longleftrightarrow> ys = []"
      using hold_next(1) [OF h, of h "xs @ [a]" x ys] remove_after(3) by simp
    ultimately show ?thesis
      using m remove_after STAILQ_removes(2) [of s a x h] l hold_steps(4) [OF h remove_after(3)]
      by (auto simp: stailqs_ok_def end_ref_def)
  next
    case (remove h xs x ys)
    then show ?thesis
      using m STAILQ_REMOVE_cells [OF h remove(3)] l hold_steps(5) [OF h remove(3)]
      by (auto simp: stailqs_ok_def end_ref_def)
  next
    case (concat h1 h2)
    show ?thesis
    proof (cases "q h2 = []")
      case True
      with concat m ok first [of h2] show ?thesis
        by (auto simp: STAILQ_CONCAT_def STAILQ_simps fun_upd_idem)
    next
      case False
      then have "ch_first s h2 \<noteq> None" using first [of h2] by simp
      moreover have "end_ref (First h1) (q h1) \<noteq> First h2"
        using end_ref_cases [of h1 "q h1"] concat(3) by auto
      ultimately show ?thesis
        using concat m l hold_concat [OF h concat(3) refl] False
        by (auto simp: STAILQ_CONCAT_def STAILQ_simps STAILQ_INIT_def stailqs_ok_def Let_def end_ref_def split: if_splits)
    qed
  next
    case (swap h1 h2)
    have "stqh_last (STAILQ_SWAP h1 h2 s) k = end_ref (First k) ((q(h1 := q h2, h2 := q h1)) k)" for k
    proof (cases "h1 = h2")
      case True
      then show ?thesis using l first by (auto simp: STAILQ_SWAP_def STAILQ_simps Let_def end_ref_def)
    next
      case False
      then show ?thesis using l first by (auto simp: STAILQ_lasts end_ref_def)
    qed
    with m swap h hold_swap [OF h, of h1 h2] show ?thesis by (auto simp: stailqs_ok_def STAILQ_cells)
  qed (use m in auto)
qed

section \<open>Lists\<close>

text \<open>The cells of the lists, and the back pointers: each element knows the cell that points at it.\<close>

definition live :: "('h \<Rightarrow> 'a list) \<Rightarrow> ('h, 'a) nextref \<Rightarrow> bool" where
  "live q r \<longleftrightarrow> (case r of First h \<Rightarrow> True | Next y \<Rightarrow> \<exists>h. y \<in> set (q h))"

definition backs :: "(('h, 'a) nextref \<Rightarrow> 'a option) \<Rightarrow> ('h \<Rightarrow> 'a list) \<Rightarrow> ('a \<Rightarrow> ('h, 'a) nextref) \<Rightarrow> bool" where
  "backs c q p \<longleftrightarrow> (\<forall>r x. live q r \<longrightarrow> c r = Some x \<longrightarrow> p x = r)"

lemma live_simps [simp]: "live q (First h)" "live q (Next y) \<longleftrightarrow> (\<exists>h. y \<in> set (q h))"
  by (simp_all add: live_def)

lemma live_end: "q h = xs @ ys \<Longrightarrow> live q (end_ref (First h) xs)"
  using end_ref_cases [of h xs] by (fastforce intro: exI [of _ h])

lemma live_upd: "live (q(h := zs)) r \<Longrightarrow> live q r \<or> (\<exists>y\<in>set zs - set (q h). r = Next y)"
  by (cases r) (auto split: if_splits)

lemma live_target:
  assumes "hold c q" and "live q r" and "c r = Some x"
  shows "\<exists>h. x \<in> set (q h)"
proof (cases r)
  case (First h)
  then show ?thesis using hold_first [OF assms(1), of h] assms(3) TAILQ_FIRST_Some_in [of "q h" x] by auto
next
  case (Next y)
  then obtain h us vs where "q h = us @ y # vs" using assms(2) by (auto dest: split_list)
  then have "c r = TAILQ_FIRST vs" "set vs \<subseteq> set (q h)" using hold_next(1) [OF assms(1)] Next by auto
  then show ?thesis using assms(3) TAILQ_FIRST_Some_in [of vs x] by auto
qed

lemma backs_entered:
  assumes c: "hold c q" and p: "backs c q p" and q: "q h = xs @ ys" and x: "\<forall>h. x \<notin> set (q h)"
    and r: "r = end_ref (First h) xs"
    and p': "\<And>z. p' z = (if z = x then r else if c r = Some z then Next x else p z)"
  shows "backs (entered r x c) (q(h := xs @ x # ys)) p'"
  unfolding backs_def
proof (intro allI impI)
  fix r' z assume l: "live (q(h := xs @ x # ys)) r'" and z: "entered r x c r' = Some z"
  have lr: "live q r" using live_end [of q h xs ys] q r by simp
  have l': "live q r' \<or> r' = Next x" using live_upd [OF l] q by auto
  have nx: "z \<noteq> x" if "live q k" "c k = Some z" for k using live_target [OF c that] x by auto
  consider "r' = r" "z = x" | "r' \<noteq> r" "r' = Next x" "c r = Some z" | "r' \<noteq> r" "live q r'" "c r' = Some z" "r' \<noteq> Next x"
    using z l' by (auto simp: entered_def split: if_splits)
  then show "p' z = r'"
  proof cases
    case 2
    then show ?thesis using p' [of z] nx [OF lr] by simp
  next
    case 3
    then have "p z = r'" "c r = Some z \<Longrightarrow> p z = r" using p lr unfolding backs_def by blast+
    then show ?thesis using p' [of z] nx [OF 3(2,3)] 3(1) by auto
  qed (simp add: p')
qed

lemma backs_left:
  assumes c: "hold c q" and p: "backs c q p" and q: "q h = xs @ x # ys" and r: "r = end_ref (First h) xs"
    and p': "\<And>z. p' z = (if c (Next x) = Some z then r else p z)"
  shows "backs (left_cell r x c) (q(h := xs @ ys)) p'"
  unfolding backs_def
proof (intro allI impI)
  fix r' z assume l: "live (q(h := xs @ ys)) r'" and z: "left_cell r x c r' = Some z"
  have out: "x \<notin> set ((q(h := xs @ ys)) k)" for k
    using holdD(1) [OF c, of h] holdD(3) [OF c, of x h k] q by auto
  have "live q r'" using live_upd [OF l] q by auto
  moreover have "r' \<noteq> Next x" using l out by (auto simp: live_def)
  ultimately have l': "live q r'" "r' \<noteq> Next x" by blast+
  have lx: "live q (Next x)" using q by (metis in_set_conv_decomp live_simps(2))
  show "p' z = r'"
  proof (cases "r' = r")
    case True
    then show ?thesis using z p' [of z] by (simp add: left_cell_def)
  next
    case False
    then have "c r' = Some z" using z by (simp add: left_cell_def)
    then have "p z = r'" "c (Next x) = Some z \<Longrightarrow> p z = Next x" using p l' lx unfolding backs_def by blast+
    then show ?thesis using p' [of z] l'(2) by auto
  qed
qed

lemma backs_concat:
  assumes p: "backs c q p" and h: "h1 \<noteq> h2" and r: "r = end_ref (First h1) (q h1)"
    and p': "\<And>z. p' z = (if c (First h2) = Some z then r else p z)"
  shows "backs (c(r := c (First h2), First h2 := None)) (q(h1 := q h1 @ q h2, h2 := [])) p'"
  unfolding backs_def
proof (intro allI impI)
  fix r' z assume l: "live (q(h1 := q h1 @ q h2, h2 := [])) r'"
    and z: "(c(r := c (First h2), First h2 := None)) r' = Some z"
  have l': "live q r'" using l by (cases r') (auto split: if_splits)
  show "p' z = r'"
  proof (cases "r' = r")
    case False
    then have "c r' = Some z" "r' \<noteq> First h2" using z by (auto split: if_splits)
    then have "p z = r'" "c (First h2) = Some z \<Longrightarrow> p z = First h2"
      using p l' live_simps(1) [of q h2] unfolding backs_def by blast+
    then show ?thesis using p' [of z] \<open>r' \<noteq> First h2\<close> by auto
  qed (use z p' [of z] in \<open>auto split: if_splits\<close>)
qed

lemma backs_swap:
  assumes p: "backs c q p"
    and p': "\<And>z. p' z = (if c (First h1) = Some z then First h2 else if c (First h2) = Some z then First h1 else p z)"
  shows "backs (c(First h1 := c (First h2), First h2 := c (First h1))) (q(h1 := q h2, h2 := q h1)) p'"
  unfolding backs_def
proof (intro allI impI)
  let ?c = "c(First h1 := c (First h2), First h2 := c (First h1))"
  fix r' z assume l: "live (q(h1 := q h2, h2 := q h1)) r'" and z: "?c r' = Some z"
  have l': "live q r'" using l by (cases r') (auto split: if_splits)
  have known: "p z = k" if "live q k" "c k = Some z" for k using p that unfolding backs_def by blast
  show "p' z = r'"
    using z p' [of z] known [OF l'] known [OF live_simps(1), of h1] known [OF live_simps(1), of h2]
    by (auto split: if_splits)
qed

lemma backs_init:
  assumes "hold c q" and "backs c q p"
  shows "backs (c(First h := None)) (q(h := [])) p"
  using assms unfolding backs_def live_def by (auto split: nextref.splits if_splits)

lemma set_le_prev_fields [simp]:
  "cell (set_le_prev x r s) = cell s"
  "ch_first (set_le_prev x r s) = ch_first s" "ch_next (set_le_prev x r s) = ch_next s"
  "le_prev (set_le_prev x r s) = (le_prev s)(x := r)"
  "le_prev (put r' v s) = le_prev s"
proof -
  show "cell (set_le_prev x r s) = cell s"
  proof
    fix r' show "cell (set_le_prev x r s) r' = cell s r'" by (cases r') (auto simp: set_le_prev_def)
  qed
qed (cases r'; simp add: set_le_prev_def put.simps)+

definition lists_ok :: "('h, 'a) lists \<Rightarrow> ('h \<Rightarrow> 'a list) \<Rightarrow> bool" where
  "lists_ok s q \<longleftrightarrow> hold (cell s) q \<and> backs (cell s) q (le_prev s)"

lemmas LIST_simps = LIST_FIRST_def LIST_NEXT_def LIST_EMPTY_def

lemma LIST_cells:
  "cell (LIST_INIT h s) = (cell s)(First h := None)"
  "cell (LIST_INSERT_HEAD h x s) = entered (First h) x (cell s)"
  "cell (LIST_INSERT_AFTER a x s) = entered (Next a) x (cell s)"
  "cell (LIST_SWAP h1 h2 s) = (cell s)(First h1 := cell s (First h2), First h2 := cell s (First h1))"
  "cell (LIST_REMOVE x s) = left_cell (le_prev s x) x (cell s)"
  by (simp_all add: LIST_INIT_def LIST_INSERT_HEAD_def LIST_INSERT_AFTER_def LIST_SWAP_def LIST_REMOVE_def
    tell_first_def LIST_simps entered_def left_cell_def Let_def split: option.splits)

lemma LIST_prevs:
  "le_prev (LIST_INIT h s) = le_prev s"
  "le_prev (LIST_INSERT_HEAD h x s) z =
    (if z = x then First h else if cell s (First h) = Some z then Next x else le_prev s z)"
  "a \<noteq> x \<Longrightarrow> le_prev (LIST_INSERT_AFTER a x s) z =
    (if z = x then Next a else if cell s (Next a) = Some z then Next x else le_prev s z)"
  "le_prev (LIST_SWAP h1 h2 s) z =
    (if ch_first s h1 = Some z then First h2
     else if ch_first s h2 = Some z then First h1 else le_prev s z)"
  "le_prev (LIST_REMOVE x s) z = (if cell s (Next x) = Some z then le_prev s x else le_prev s z)"
  by (auto simp: LIST_INIT_def LIST_INSERT_HEAD_def LIST_INSERT_AFTER_def LIST_SWAP_def LIST_REMOVE_def
    tell_first_def LIST_simps Let_def split: option.splits)

lemma LIST_INSERT_BEFORE_fields:
  assumes "a \<noteq> x" and "cell s (le_prev s a) = Some a" and "le_prev s a \<noteq> Next x"
  shows "cell (LIST_INSERT_BEFORE a x s) = entered (le_prev s a) x (cell s)"
    and "le_prev (LIST_INSERT_BEFORE a x s) z =
      (if z = x then le_prev s a else if cell s (le_prev s a) = Some z then Next x else le_prev s z)"
  using assms by (auto simp: LIST_INSERT_BEFORE_def entered_def Let_def fun_eq_iff)

lemma LIST_CONCAT_fields:
  assumes "hold (cell s) q" and "h1 \<noteq> h2"
  shows "\<exists>s'. LIST_CONCAT h1 h2 s = Ok s' \<and>
    cell s' = (cell s)(end_ref (First h1) (q h1) := cell s (First h2), First h2 := None) \<and>
    (\<forall>z. le_prev s' z = (if cell s (First h2) = Some z then end_ref (First h1) (q h1) else le_prev s z))"
proof (cases "q h1")
  case Nil
  then have "ch_first s h1 = None" using hold_first [OF assms(1), of h1] by simp
  with Nil assms(2) show ?thesis
    by (cases "ch_first s h2") (auto simp: LIST_CONCAT_def LIST_simps LIST_INIT_def Let_def fun_eq_iff)
next
  case (Cons y ys)
  have "ch_first s h1 = Some y" using hold_first [OF assms(1), of h1] Cons by simp
  moreover have "last_elm (ch_next s) y = Some (last (q h1))"
    using last_elm_chain [OF holdD(2) [OF assms(1), of h1]] Cons by simp
  moreover have "cell s (end_ref (First h1) (q h1)) = None" by (rule hold_end [OF assms(1)])
  ultimately show ?thesis
    using Cons assms(2)
    by (cases "ch_first s h2") (auto simp: LIST_CONCAT_def LIST_simps LIST_INIT_def Let_def fun_eq_iff end_ref_def)
qed

fun lists_macro :: "('h, 'a) list_macro \<Rightarrow> (('h, 'a) lists \<Rightarrow> ('h, 'a) lists outcome) option" where
  "lists_macro (Init h) = Some (\<lambda>s. Ok (LIST_INIT h s))"
| "lists_macro (InsertHead h x) = Some (\<lambda>s. Ok (LIST_INSERT_HEAD h x s))"
| "lists_macro (InsertAfter h a x) = Some (\<lambda>s. Ok (LIST_INSERT_AFTER a x s))"
| "lists_macro (InsertBefore a x) = Some (\<lambda>s. Ok (LIST_INSERT_BEFORE a x s))"
| "lists_macro (Remove h x) = Some (\<lambda>s. Ok (LIST_REMOVE x s))"
| "lists_macro (Concat h h') = Some (LIST_CONCAT h h')"
| "lists_macro (Swap h h') = Some (\<lambda>s. Ok (LIST_SWAP h h' s))"
| "lists_macro _ = None"

lemma lists_prev:
  assumes "lists_ok s q" and "q h = xs @ x # ys"
  shows "le_prev s x = end_ref (First h) xs"
  using assms hold_next(2) [of "cell s" q h xs x ys] live_end [of q h xs] unfolding lists_ok_def backs_def by blast

interpretation lists: list_family "lists_macro :: ('h, 'a) list_macro \<Rightarrow> _" lists_ok
proof
  fix s :: "('h, 'a) lists" and q op q' f
  assume ok: "lists_ok s q" and st: "list_macro_step op q q'" and m: "lists_macro op = Some f"
  have h: "hold (cell s) q" and b: "backs (cell s) q (le_prev s)"
    using ok by (auto simp: lists_ok_def)
  show "\<exists>s'. f s = Ok s' \<and> lists_ok s' q'"
    using st m
  proof cases
    case (init h1)
    with m hold_init [OF h, of h1] backs_init [OF h b, of h1] show ?thesis
      by (auto simp: lists_ok_def LIST_cells LIST_prevs)
  next
    case (insert_head x h1)
    have "backs (entered (First h1) x (cell s)) (q(h1 := [] @ x # q h1)) (le_prev (LIST_INSERT_HEAD h1 x s))"
      by (rule backs_entered [OF h b]) (use insert_head in \<open>auto simp: LIST_prevs\<close>)
    with m insert_head hold_steps(1) [OF h, of x h1] show ?thesis by (auto simp: lists_ok_def LIST_cells)
  next
    case (insert_after x h1 xs a ys)
    have "a \<noteq> x" using insert_after(3,4) by (metis in_set_conv_decomp)
    have "backs (entered (Next a) x (cell s)) (q(h1 := (xs @ [a]) @ x # ys)) (le_prev (LIST_INSERT_AFTER a x s))"
      by (rule backs_entered [OF h b]) (use insert_after in \<open>auto simp: LIST_prevs(3) [OF \<open>a \<noteq> x\<close>]\<close>)
    with m insert_after hold_steps(2) [OF h insert_after(3,4)] show ?thesis by (auto simp: lists_ok_def LIST_cells)
  next
    case (insert_before x h1 xs a ys)
    note r = lists_prev [OF ok insert_before(4)]
    have ax: "a \<noteq> x" using insert_before(3,4) by (metis in_set_conv_decomp)
    have "x \<notin> set xs" using insert_before(3,4) by (metis UnCI set_append)
    then have "le_prev s a \<noteq> Next x" using end_ref_cases [of h1 xs] r by auto
    note F = LIST_INSERT_BEFORE_fields [OF ax hold_next(2) [OF h insert_before(4), folded r] this]
    have q: "q h1 = xs @ (a # ys)" using insert_before(4) by simp
    have "hold (entered (le_prev s a) x (cell s)) (q(h1 := xs @ x # a # ys))"
      by (rule hold_entered [OF h q insert_before(3) r])
    moreover have "backs (entered (le_prev s a) x (cell s)) (q(h1 := xs @ x # a # ys)) (le_prev (LIST_INSERT_BEFORE a x s))"
      by (rule backs_entered [OF h b q insert_before(3) r F(2)])
    ultimately show ?thesis using m insert_before by (auto simp: lists_ok_def F(1))
  next
    case (remove h1 xs x ys)
    note r = lists_prev [OF ok remove(3)]
    have "backs (left_cell (le_prev s x) x (cell s)) (q(h1 := xs @ ys)) (le_prev (LIST_REMOVE x s))"
      by (rule backs_left [OF h b remove(3) r LIST_prevs(5)])
    with m remove hold_steps(5) [OF h remove(3)] r show ?thesis by (auto simp: lists_ok_def LIST_cells)
  next
    case (concat h1 h2)
    obtain s' where s': "LIST_CONCAT h1 h2 s = Ok s'"
      "cell s' = (cell s)(end_ref (First h1) (q h1) := cell s (First h2), First h2 := None)"
      "\<And>z. le_prev s' z = (if cell s (First h2) = Some z then end_ref (First h1) (q h1) else le_prev s z)"
      using LIST_CONCAT_fields [OF h concat(3)] by blast
    with m concat hold_concat [OF h concat(3) refl] backs_concat [where p' = "le_prev s'", OF b concat(3) refl s'(3)] show ?thesis
      by (auto simp: lists_ok_def)
  next
    case (swap h1 h2)
    have "backs ((cell s)(First h1 := cell s (First h2), First h2 := cell s (First h1))) (q(h1 := q h2, h2 := q h1))
        (le_prev (LIST_SWAP h1 h2 s))"
      by (rule backs_swap [OF b]) (simp add: LIST_prevs)
    with m swap hold_swap [OF h, of h1 h2] show ?thesis by (auto simp: lists_ok_def LIST_cells)
  qed (use m in auto)
qed

section \<open>The families refine lists\<close>

text \<open>What the families report: all walks visit the elements in order, a walk that allows its body to
  do away with the current element visits the same ones, and the consistency checks never fire.\<close>

lemma walk_safe_frees:
  assumes "hold (cell s) q" and "q h = pre @ xs" and "length xs \<le> n"
    and nxt: "\<And>x s. nxt x s = cell s (Next x)"
    and body: "\<And>x s r. r \<noteq> Next x \<Longrightarrow> cell (body x s) r = cell s r"
  shows "fst (walk_safe nxt body n (TAILQ_FIRST xs) s) = xs"
proof -
  let ?R = "\<lambda>ys t. \<exists>us. us @ ys = xs \<and> (\<forall>y\<in>set ys. cell t (Next y) = cell s (Next y))"
  have d: "distinct xs" using holdD(1) [OF assms(1), of h] assms(2) by simp
  have "nxt x t = TAILQ_FIRST ys \<and> ?R ys (body x t)" if "?R (x # ys) t" for x ys t
  proof -
    from that obtain us where us: "us @ x # ys = xs" "\<forall>y\<in>set (x # ys). cell t (Next y) = cell s (Next y)" by blast
    have "q h = (pre @ us) @ x # ys" using assms(2) us(1) by simp
    from hold_next(1) [OF assms(1) this] have "nxt x t = TAILQ_FIRST ys" using us(2) nxt by simp
    moreover have "cell (body x t) (Next y) = cell s (Next y)" if "y \<in> set ys" for y
    proof -
      have "Next y \<noteq> Next x" using us(1) d that by auto
      then show ?thesis using body [of "Next y" x t] us(2) that by simp
    qed
    moreover have "(us @ [x]) @ ys = xs" using us(1) by simp
    ultimately show ?thesis by blast
  qed
  moreover have "?R xs s" by (rule exI [of _ "[]"]) simp
  ultimately show ?thesis using walk_safe_visits [where R = ?R, of nxt body xs s n] assms(3) by blast
qed

lemma hold_walk_from:
  assumes "hold (cell s) q" and "length (q h) \<le> n" and "\<forall>x. var = Some x \<longrightarrow> x \<in> set (q h)"
  shows "chain_walk n (from_or var (ch_first s h)) s = from_here var (q h)"
proof -
  note split = from_here_split [of var "q h"]
  have "chain (cell s) (First h) (before_here var (q h) @ from_here var (q h))"
    using holdD(2) [OF assms(1), of h] split by simp
  then have "chain (cell s) (end_ref (First h) (before_here var (q h))) (from_here var (q h))"
    by (simp add: chain_append)
  moreover have "length (from_here var (q h)) \<le> n" using assms(2) arg_cong [OF split, of length] by simp
  moreover have "from_or var (ch_first s h) = cell s (end_ref (First h) (before_here var (q h)))"
    using from_or_start [OF assms(3)] hold_first [OF assms(1), of h] calculation(1)
    by (cases "from_here var (q h)") auto
  ultimately show ?thesis by (simp add: chain_walk_chain)
qed

definition slist_reports :: "('h, 'a) chains \<Rightarrow> ('h \<Rightarrow> 'a list) \<Rightarrow> bool" where
  "slist_reports s q \<longleftrightarrow> (\<forall>h n var body.
     SLIST_FIRST h s = TAILQ_FIRST (q h) \<and> (SLIST_EMPTY h s \<longleftrightarrow> q h = []) \<and>
     (length (q h) \<le> n \<longrightarrow>
        SLIST_FOREACH n h s = q h \<and>
        map snd (SLIST_FOREACH_PREVPTR n h s) = q h \<and>
        (\<forall>(prevp, x) \<in> set (SLIST_FOREACH_PREVPTR n h s). QMD_SLIST_CHECK_PREVPTR prevp x s) \<and>
        ((\<forall>x. var = Some x \<longrightarrow> x \<in> set (q h)) \<longrightarrow> SLIST_FOREACH_FROM n var h s = from_here var (q h) \<and>
          ((\<forall>x s r. r \<noteq> Next x \<longrightarrow> cell (body x s) r = cell s r) \<longrightarrow>
             fst (SLIST_FOREACH_FROM_SAFE n var h body s) = from_here var (q h) \<and>
             fst (SLIST_FOREACH_SAFE n h body s) = q h))))"

definition stailq_reports :: "('h, 'a) stailqs \<Rightarrow> ('h \<Rightarrow> 'a list) \<Rightarrow> bool" where
  "stailq_reports s q \<longleftrightarrow> (\<forall>h n var body.
     STAILQ_FIRST h s = TAILQ_FIRST (q h) \<and> (STAILQ_EMPTY h s \<longleftrightarrow> q h = []) \<and>
     STAILQ_LAST h s = Ok (TAILQ_FIRST (rev (q h))) \<and>
     (length (q h) \<le> n \<longrightarrow>
        STAILQ_FOREACH n h s = q h \<and>
        ((\<forall>x. var = Some x \<longrightarrow> x \<in> set (q h)) \<longrightarrow> STAILQ_FOREACH_FROM n var h s = from_here var (q h) \<and>
          ((\<forall>x s r. r \<noteq> Next x \<longrightarrow> cell (body x s) r = cell s r) \<longrightarrow>
             fst (STAILQ_FOREACH_FROM_SAFE n var h body s) = from_here var (q h) \<and>
             fst (STAILQ_FOREACH_SAFE n h body s) = q h))))"

definition list_reports :: "('h, 'a) lists \<Rightarrow> ('h \<Rightarrow> 'a list) \<Rightarrow> bool" where
  "list_reports s q \<longleftrightarrow> (\<forall>h n var body.
     LIST_FIRST h s = TAILQ_FIRST (q h) \<and> (LIST_EMPTY h s \<longleftrightarrow> q h = []) \<and> QMD_LIST_CHECK_HEAD h s \<and>
     (\<forall>xs x ys. q h = xs @ x # ys \<longrightarrow> LIST_PREV x h s = Ok (TAILQ_FIRST (rev xs)) \<and>
        LIST_NEXT x s = TAILQ_FIRST ys \<and> QMD_LIST_CHECK_NEXT x s \<and> QMD_LIST_CHECK_PREV x s) \<and>
     (length (q h) \<le> n \<longrightarrow>
        LIST_FOREACH n h s = q h \<and>
        ((\<forall>x. var = Some x \<longrightarrow> x \<in> set (q h)) \<longrightarrow> LIST_FOREACH_FROM n var h s = from_here var (q h) \<and>
          ((\<forall>x s r. r \<noteq> Next x \<longrightarrow> cell (body x s) r = cell s r) \<longrightarrow>
             fst (LIST_FOREACH_FROM_SAFE n var h body s) = from_here var (q h) \<and>
             fst (LIST_FOREACH_SAFE n h body s) = q h))))"

lemma hold_walks:
  assumes h: "hold (cell s) q" and n: "length (q h) \<le> n"
  shows "chain_walk n (ch_first s h) s = q h"
    and "map snd (prevptr_walk n (First h) s) = q h"
    and "\<forall>(prevp, x) \<in> set (prevptr_walk n (First h) s). cell s prevp = Some x"
    and "\<lbrakk>\<forall>x. var = Some x \<longrightarrow> x \<in> set (q h); \<And>x s. nxt x s = cell s (Next x);
       \<forall>x s r. r \<noteq> Next x \<longrightarrow> cell (body x s) r = cell s r\<rbrakk> \<Longrightarrow>
      fst (walk_safe nxt body n (from_or var (ch_first s h)) s) = from_here var (q h)"
proof -
  show "chain_walk n (ch_first s h) s = q h"
    using chain_walk_chain [OF holdD(2) [OF h] n] by simp
  have z: "prevptr_walk n (First h) s = zip (First h # map Next (q h)) (q h)"
    by (rule prevptr_walk_chain [OF holdD(2) [OF h] n])
  show "map snd (prevptr_walk n (First h) s) = q h" unfolding z by (rule map_snd_zip_take [THEN trans]) simp
  have "\<forall>(prevp, x) \<in> set (zip (r # map Next xs) xs). cell s prevp = Some x" if "chain (cell s) r xs" for r xs
    using that by (induction xs arbitrary: r) auto
  from this [OF holdD(2) [OF h]] show "\<forall>(prevp, x) \<in> set (prevptr_walk n (First h) s). cell s prevp = Some x"
    unfolding z .
  assume v: "\<forall>x. var = Some x \<longrightarrow> x \<in> set (q h)" and nb: "\<And>x s. nxt x s = cell s (Next x)"
    "\<forall>x s r. r \<noteq> Next x \<longrightarrow> cell (body x s) r = cell s r"
  note split = from_here_split [of var "q h", symmetric]
  have "length (from_here var (q h)) \<le> n" using n arg_cong [OF split, of length] by simp
  from walk_safe_frees [OF h split this nb(1)] nb(2)
  show "fst (walk_safe nxt body n (from_or var (ch_first s h)) s) = from_here var (q h)"
    using from_or_start [OF v] hold_first [OF h, of h] by simp
qed

lemma slists_report:
  assumes "slists_ok s q"
  shows "slist_reports s q"
proof -
  have h: "hold (cell s) q" using assms by (simp add: slists_ok_def)
  have none: "from_or None v = v" "from_here None xs = xs" for v :: "'b option" and xs :: "'b list"
    by (simp_all add: from_or_def)
  show ?thesis
    unfolding slist_reports_def SLIST_FOREACH_def SLIST_FOREACH_FROM_def SLIST_FOREACH_SAFE_def
      SLIST_FOREACH_FROM_SAFE_def SLIST_FOREACH_PREVPTR_def QMD_SLIST_CHECK_PREVPTR_def SLIST_FIRST_def SLIST_EMPTY_def
    using hold_walks(1-3) [OF h] hold_walk_from [OF h] hold_first [OF h]
      hold_walks(4) [OF h, where nxt = SLIST_NEXT] hold_walks(4) [OF h, where nxt = SLIST_NEXT and var = None, unfolded none]
    by (auto simp: SLIST_NEXT_def)
qed

lemma stailqs_report:
  assumes "stailqs_ok s q"
  shows "stailq_reports s q"
proof -
  have h: "hold (cell s) q" and l: "\<And>h. stqh_last s h = end_ref (First h) (q h)"
    using assms by (simp_all add: stailqs_ok_def)
  have none: "from_or None v = v" "from_here None xs = xs" for v :: "'b option" and xs :: "'b list"
    by (simp_all add: from_or_def)
  have "STAILQ_LAST h s = Ok (TAILQ_FIRST (rev (q h)))" for h
    using hold_first [OF h, of h] l [of h]
    by (cases "q h" rule: rev_cases) (auto simp: STAILQ_LAST_def STAILQ_EMPTY_def)
  then show ?thesis
    unfolding stailq_reports_def STAILQ_FOREACH_def STAILQ_FOREACH_FROM_def STAILQ_FOREACH_SAFE_def
      STAILQ_FOREACH_FROM_SAFE_def STAILQ_FIRST_def STAILQ_EMPTY_def
    using hold_walks(1) [OF h] hold_walk_from [OF h] hold_first [OF h]
      hold_walks(4) [OF h, where nxt = STAILQ_NEXT] hold_walks(4) [OF h, where nxt = STAILQ_NEXT and var = None, unfolded none]
    by (auto simp: STAILQ_NEXT_def)
qed

lemma lists_report:
  assumes ok: "lists_ok s q"
  shows "list_reports s q"
proof -
  have h: "hold (cell s) q" and b: "backs (cell s) q (le_prev s)" using ok by (simp_all add: lists_ok_def)
  have none: "from_or None v = v" "from_here None xs = xs" for v :: "'b option" and xs :: "'b list"
    by (simp_all add: from_or_def)
  have "QMD_LIST_CHECK_HEAD h s" for h
    using b live_simps(1) [of q h] by (auto simp: QMD_LIST_CHECK_HEAD_def LIST_FIRST_def backs_def split: option.splits)
  moreover have "LIST_PREV x h s = Ok (TAILQ_FIRST (rev xs)) \<and> LIST_NEXT x s = TAILQ_FIRST ys \<and>
      QMD_LIST_CHECK_NEXT x s \<and> QMD_LIST_CHECK_PREV x s" if q: "q h = xs @ x # ys" for h xs x ys
  proof -
    note p = lists_prev [OF ok q] and n = hold_next [OF h q]
    have "LIST_PREV x h s = Ok (TAILQ_FIRST (rev xs))"
      using p by (cases xs rule: rev_cases) (auto simp: LIST_PREV_def)
    moreover have "live q (Next x)" using q by (metis in_set_conv_decomp live_simps(2))
    then have "QMD_LIST_CHECK_NEXT x s"
      using b by (auto simp: QMD_LIST_CHECK_NEXT_def LIST_NEXT_def backs_def split: option.splits)
    ultimately show ?thesis using p n by (simp add: QMD_LIST_CHECK_PREV_def LIST_NEXT_def)
  qed
  ultimately show ?thesis
    unfolding list_reports_def LIST_FOREACH_def LIST_FOREACH_FROM_def LIST_FOREACH_SAFE_def
      LIST_FOREACH_FROM_SAFE_def LIST_FIRST_def LIST_EMPTY_def
    using hold_walks(1) [OF h] hold_walk_from [OF h] hold_first [OF h]
      hold_walks(4) [OF h, where nxt = LIST_NEXT] hold_walks(4) [OF h, where nxt = LIST_NEXT and var = None, unfolded none]
    by (auto simp: LIST_NEXT_def [abs_def])
qed

lemma hold_empty: "(\<And>h. c (First h) = None) \<Longrightarrow> hold c (\<lambda>_. [])"
  by (simp add: hold_def)

definition offered :: "('op \<Rightarrow> 'f option) \<Rightarrow> 'op list \<Rightarrow> bool" where
  "offered macro ops \<longleftrightarrow> (\<forall>op\<in>set ops. macro op \<noteq> None)"

text \<open>C19. From initialised heads, every sequence of the operations that a family offers and that respects the
  calling rules computes what the same sequence computes on lists, and afterwards every report of the
  family (first, last and neighbouring elements, all walks, the consistency checks) is that of the
  lists. This holds for \<^verbatim>\<open>SLIST\<close>, \<^verbatim>\<open>STAILQ\<close> and \<^verbatim>\<open>LIST\<close>.\<close>

theorem list_families_refine_lists:
  assumes "list_macro_run ops (\<lambda>_. []) q"
  shows "((\<forall>h. SLIST_EMPTY h s) \<and> offered slist_macro ops \<longrightarrow>
        (\<exists>s'. run_macros slist_macro ops s = Ok s' \<and> slist_reports s' q)) \<and>
    ((\<forall>h. STAILQ_EMPTY h t \<and> stqh_last t h = First h) \<and> offered stailq_macro ops \<longrightarrow>
        (\<exists>t'. run_macros stailq_macro ops t = Ok t' \<and> stailq_reports t' q)) \<and>
    ((\<forall>h. LIST_EMPTY h u) \<and> offered lists_macro ops \<longrightarrow>
        (\<exists>u'. run_macros lists_macro ops u = Ok u' \<and> list_reports u' q))"
proof (intro conjI impI; elim conjE)
  assume "\<forall>h. SLIST_EMPTY h s" "offered slist_macro ops"
  moreover from this have "slists_ok s (\<lambda>_. [])" by (simp add: slists_ok_def SLIST_EMPTY_def hold_empty)
  ultimately show "\<exists>s'. run_macros slist_macro ops s = Ok s' \<and> slist_reports s' q"
    using slist.run_macros_refines [OF assms] slists_report unfolding offered_def by blast
next
  assume "\<forall>h. STAILQ_EMPTY h t \<and> stqh_last t h = First h" "offered stailq_macro ops"
  moreover from this have "stailqs_ok t (\<lambda>_. [])" by (simp add: stailqs_ok_def STAILQ_EMPTY_def hold_empty)
  ultimately show "\<exists>t'. run_macros stailq_macro ops t = Ok t' \<and> stailq_reports t' q"
    using stailq.run_macros_refines [OF assms] stailqs_report unfolding offered_def by blast
next
  assume "\<forall>h. LIST_EMPTY h u" "offered lists_macro ops"
  moreover from this have "lists_ok u (\<lambda>_. [])"
    by (auto simp: lists_ok_def LIST_EMPTY_def hold_empty backs_def live_def split: nextref.splits)
  ultimately show "\<exists>u'. run_macros lists_macro ops u = Ok u' \<and> list_reports u' q"
    using lists.run_macros_refines [OF assms] lists_report unfolding offered_def by blast
qed

definition sample_ops :: "(bool, nat) list_macro list" where
  "sample_ops = [InsertHead False 1, InsertAfter False 1 2, InsertHead True 3, Concat True False, Remove True 1]"

definition empty_chains :: "(bool, nat) chains" where
  "empty_chains = \<lparr>ch_first = \<lambda>_. None, ch_next = \<lambda>_. Some 7\<rparr>"

definition empty_stailqs :: "(bool, nat) stailqs" where
  "empty_stailqs = \<lparr>ch_first = \<lambda>_. None, ch_next = \<lambda>_. Some 7, stqh_last = First\<rparr>"

definition empty_lists :: "(bool, nat) lists" where
  "empty_lists = \<lparr>ch_first = \<lambda>_. None, ch_next = \<lambda>_. Some 7, le_prev = \<lambda>_. First False\<rparr>"

lemma sample_ops_run: "list_macro_run sample_ops (\<lambda>_. []) ((\<lambda>_. [])(True := [3, 2]))"
proof -
  let ?e = "(\<lambda>_. []) :: bool \<Rightarrow> nat list"
  have 1: "list_macro_step (InsertHead False 1) ?e (?e(False := [1]))"
    using insert_head [of 1 ?e False] by simp
  have 2: "list_macro_step (InsertAfter False 1 2) (?e(False := [1])) (?e(False := [1, 2]))"
    using insert_after [of 2 "?e(False := [1])" False "[]" 1 "[]"] by simp
  have 3: "list_macro_step (InsertHead True 3) (?e(False := [1, 2])) (?e(False := [1, 2], True := [3]))"
    using insert_head [of 3 "?e(False := [1, 2])" True] by simp
  have "?e(False := [1, 2], True := [3, 1, 2], False := []) = ?e(True := [3, 1, 2])" by auto
  then have 4: "list_macro_step (Concat True False) (?e(False := [1, 2], True := [3])) (?e(True := [3, 1, 2]))"
    using concat [of True False "?e(False := [1, 2], True := [3])"] by simp
  have 5: "list_macro_step (Remove True 1) (?e(True := [3, 1, 2])) (?e(True := [3, 2]))"
    using remove [of "?e(True := [3, 1, 2])" True "[3]" 1 "[2]"] by simp
  show ?thesis
    unfolding sample_ops_def by (rule more [OF 1 more [OF 2 more [OF 3 more [OF 4 more [OF 5]]]]]) (rule nothing)
qed

lemma reported:
  "slist_reports s q \<Longrightarrow> length (q h) \<le> n \<Longrightarrow> SLIST_FOREACH n h s = q h"
  "stailq_reports t q \<Longrightarrow> STAILQ_LAST h t = Ok (TAILQ_FIRST (rev (q h)))"
  "list_reports u q \<Longrightarrow> q h = xs @ x # ys \<Longrightarrow> LIST_PREV x h u = Ok (TAILQ_FIRST (rev xs))"
  unfolding slist_reports_def stailq_reports_def list_reports_def by blast+

lemma list_families_refine_lists_witness:
  "(\<exists>s'. run_macros slist_macro sample_ops empty_chains = Ok s' \<and> SLIST_FOREACH 2 True s' = [3, 2]) \<and>
   (\<exists>t'. run_macros stailq_macro sample_ops empty_stailqs = Ok t' \<and> STAILQ_LAST True t' = Ok (Some 2)) \<and>
   (\<exists>u'. run_macros lists_macro sample_ops empty_lists = Ok u' \<and> LIST_PREV 2 True u' = Ok (Some 3))"
proof -
  have e: "\<forall>h. SLIST_EMPTY h empty_chains" "\<forall>h. STAILQ_EMPTY h empty_stailqs \<and> stqh_last empty_stailqs h = First h"
    "\<forall>h. LIST_EMPTY h empty_lists"
    by (simp_all add: SLIST_EMPTY_def empty_chains_def STAILQ_EMPTY_def empty_stailqs_def LIST_EMPTY_def empty_lists_def)
  have o: "offered slist_macro sample_ops" "offered stailq_macro sample_ops" "offered lists_macro sample_ops"
    by (simp_all add: offered_def sample_ops_def)
  note all = list_families_refine_lists [OF sample_ops_run, of empty_chains empty_stailqs empty_lists]
  obtain s' where s': "run_macros slist_macro sample_ops empty_chains = Ok s'" "slist_reports s' ((\<lambda>_. [])(True := [3, 2]))"
    using all e o by blast
  obtain t' where t': "run_macros stailq_macro sample_ops empty_stailqs = Ok t'" "stailq_reports t' ((\<lambda>_. [])(True := [3, 2]))"
    using all e o by blast
  obtain u' where u': "run_macros lists_macro sample_ops empty_lists = Ok u'" "list_reports u' ((\<lambda>_. [])(True := [3, 2]))"
    using all e o by blast
  have "SLIST_FOREACH 2 True s' = [3, 2]" using reported(1) [OF s'(2), of True 2] by simp
  moreover have "STAILQ_LAST True t' = Ok (Some 2)" using reported(2) [OF t'(2), of True] by simp
  moreover have "LIST_PREV 2 True u' = Ok (Some 3)" using reported(3) [OF u'(2), of True "[3]" 2 "[]"] by simp
  ultimately show ?thesis using s'(1) t'(1) u'(1) by blast
qed

end
