(* ===== verification/Splay.thy ===== *)
theory Splay
  imports Vmm_Prelude "HOL-Library.Tree"
begin

text \<open>
  The splay trees of \<^verbatim>\<open>kdk/tree.h\<close> (\<^verbatim>\<open>SPLAY_GENERATE\<close>). Every operation first moves an element next to
  its argument to the root, top down: the loop takes the tree apart into the elements it has found
  to be smaller and those found to be greater, which hang together in two chains, and
  \<^verbatim>\<open>SPLAY_ASSEMBLE\<close> puts the chains below the root it ends at. The model keeps a chain as the list of
  its links, the last one first; the dummy \<^verbatim>\<open>__node\<close> of the code, which holds the beginnings of the two
  chains, has no counterpart.
\<close>

section \<open>The macros\<close>

abbreviation elements :: "'a tree \<Rightarrow> 'a list" where
  "elements \<equiv> Tree.inorder"

definition SPLAY_INIT :: "'a tree" where
  "SPLAY_INIT = Leaf"

definition SPLAY_EMPTY :: "'a tree \<Rightarrow> bool" where
  "SPLAY_EMPTY head \<longleftrightarrow> head = Leaf"

fun SPLAY_ROTATE_RIGHT :: "'a tree \<Rightarrow> 'a tree" where
  "SPLAY_ROTATE_RIGHT (Node (Node l tmp m) a r) = Node l tmp (Node m a r)"
| "SPLAY_ROTATE_RIGHT t = t"

fun SPLAY_ROTATE_LEFT :: "'a tree \<Rightarrow> 'a tree" where
  "SPLAY_ROTATE_LEFT (Node l a (Node m tmp r)) = Node (Node l a m) tmp r"
| "SPLAY_ROTATE_LEFT t = t"

text \<open>\<^verbatim>\<open>SPLAY_LINKLEFT\<close> hangs the root with its right subtree below the last link of the chain of greater
  elements and goes on to the left; \<^verbatim>\<open>SPLAY_LINKRIGHT\<close> is its mirror image.\<close>

type_synonym 'a smaller = "('a tree \<times> 'a) list"
type_synonym 'a greater = "('a \<times> 'a tree) list"

fun SPLAY_LINKLEFT :: "'a tree \<Rightarrow> 'a greater \<Rightarrow> 'a tree \<times> 'a greater" where
  "SPLAY_LINKLEFT (Node l a r) hi = (l, (a, r) # hi)"
| "SPLAY_LINKLEFT Leaf hi = (Leaf, hi)"

fun SPLAY_LINKRIGHT :: "'a tree \<Rightarrow> 'a smaller \<Rightarrow> 'a tree \<times> 'a smaller" where
  "SPLAY_LINKRIGHT (Node l a r) lo = (r, (l, a) # lo)"
| "SPLAY_LINKRIGHT Leaf lo = (Leaf, lo)"

definition hang_smaller :: "'a smaller \<Rightarrow> 'a tree \<Rightarrow> 'a tree" where
  "hang_smaller = fold (\<lambda>(l, a) t. Node l a t)"

definition hang_greater :: "'a greater \<Rightarrow> 'a tree \<Rightarrow> 'a tree" where
  "hang_greater = fold (\<lambda>(a, r) t. Node t a r)"

fun SPLAY_ASSEMBLE :: "'a tree \<Rightarrow> 'a smaller \<Rightarrow> 'a greater \<Rightarrow> 'a tree" where
  "SPLAY_ASSEMBLE (Node l a r) lo hi = Node (hang_smaller lo l) a (hang_greater hi r)"
| "SPLAY_ASSEMBLE Leaf lo hi = Leaf"

section \<open>The main operation\<close>

function splay_loop :: "('k \<Rightarrow> 'a \<Rightarrow> int) \<Rightarrow> 'k \<Rightarrow> 'a tree \<Rightarrow> 'a smaller \<Rightarrow> 'a greater \<Rightarrow> 'a tree" where
  "splay_loop cmp elm root lo hi =
     (let comp = cmp elm (value root) in
      if comp = 0 then SPLAY_ASSEMBLE root lo hi
      else if comp < 0 then
        let tmp = left root in
        if tmp = Leaf then SPLAY_ASSEMBLE root lo hi
        else
          let rotate = cmp elm (value tmp) < 0;
              root = (if rotate then SPLAY_ROTATE_RIGHT root else root) in
          if rotate \<and> left root = Leaf then SPLAY_ASSEMBLE root lo hi
          else splay_loop cmp elm (fst (SPLAY_LINKLEFT root hi)) lo (snd (SPLAY_LINKLEFT root hi))
      else
        let tmp = right root in
        if tmp = Leaf then SPLAY_ASSEMBLE root lo hi
        else
          let rotate = cmp elm (value tmp) > 0;
              root = (if rotate then SPLAY_ROTATE_LEFT root else root) in
          if rotate \<and> right root = Leaf then SPLAY_ASSEMBLE root lo hi
          else splay_loop cmp elm (fst (SPLAY_LINKRIGHT root lo)) (snd (SPLAY_LINKRIGHT root lo)) hi)"
  by pat_completeness auto

lemma size_rotate [simp]:
  "size (SPLAY_ROTATE_RIGHT t) = size t" "size (SPLAY_ROTATE_LEFT t) = size t"
  subgoal by (cases t rule: SPLAY_ROTATE_RIGHT.cases) simp_all
  subgoal by (cases t rule: SPLAY_ROTATE_LEFT.cases) simp_all
  done

lemma size_link [simp]:
  "left t \<noteq> Leaf \<Longrightarrow> size (fst (SPLAY_LINKLEFT t hi)) < size t"
  "right t \<noteq> Leaf \<Longrightarrow> size (fst (SPLAY_LINKRIGHT t lo)) < size t"
  by (cases t; simp)+

lemma size_rotate_link [simp]:
  "left (SPLAY_ROTATE_RIGHT t) \<noteq> Leaf \<Longrightarrow> size (fst (SPLAY_LINKLEFT (SPLAY_ROTATE_RIGHT t) hi)) < size t"
  "right (SPLAY_ROTATE_LEFT t) \<noteq> Leaf \<Longrightarrow> size (fst (SPLAY_LINKRIGHT (SPLAY_ROTATE_LEFT t) lo)) < size t"
  using size_link(1) [of "SPLAY_ROTATE_RIGHT t"] size_link(2) [of "SPLAY_ROTATE_LEFT t"] by simp_all

termination splay_loop
  by (relation "measure (\<lambda>(cmp, elm, root, lo, hi). size root)") (auto split: if_splits)

declare splay_loop.simps [simp del]

definition SPLAY :: "('k \<Rightarrow> 'a \<Rightarrow> int) \<Rightarrow> 'k \<Rightarrow> 'a tree \<Rightarrow> 'a tree outcome" where
  "SPLAY cmp elm head = defined_if (head \<noteq> Leaf) ''SPLAY'' (Ok (splay_loop cmp elm head [] []))"

text \<open>\<^verbatim>\<open>SPLAY_MINMAX\<close> runs the same loop with a constant for the comparisons. The loop does not end if that is
  0, which the two macros that call it exclude; \<open>None\<close> stands for that.\<close>

partial_function (option) minmax_loop ::
    "int \<Rightarrow> 'a tree \<Rightarrow> 'a smaller \<Rightarrow> 'a greater \<Rightarrow> 'a tree option" where
  "minmax_loop val root lo hi =
     (if val < 0 then
        if left root = Leaf then Some (SPLAY_ASSEMBLE root lo hi)
        else
          let root = SPLAY_ROTATE_RIGHT root in
          if left root = Leaf then Some (SPLAY_ASSEMBLE root lo hi)
          else minmax_loop val (fst (SPLAY_LINKLEFT root hi)) lo (snd (SPLAY_LINKLEFT root hi))
      else if val > 0 then
        if right root = Leaf then Some (SPLAY_ASSEMBLE root lo hi)
        else
          let root = SPLAY_ROTATE_LEFT root in
          if right root = Leaf then Some (SPLAY_ASSEMBLE root lo hi)
          else minmax_loop val (fst (SPLAY_LINKRIGHT root lo)) (snd (SPLAY_LINKRIGHT root lo)) hi
      else minmax_loop val root lo hi)"

definition SPLAY_MINMAX :: "'a tree \<Rightarrow> int \<Rightarrow> 'a tree outcome" where
  "SPLAY_MINMAX head val =
     (case (if head = Leaf then None else minmax_loop val head [] []) of
        Some t \<Rightarrow> Ok t
      | None \<Rightarrow> Err (Undefined ''SPLAY_MINMAX''))"

section \<open>The operations\<close>

definition SPLAY_FIND :: "('k \<Rightarrow> 'a \<Rightarrow> int) \<Rightarrow> 'a tree \<Rightarrow> 'k \<Rightarrow> ('a option \<times> 'a tree) outcome" where
  "SPLAY_FIND cmp head elm =
     (if SPLAY_EMPTY head then Ok (None, head)
      else bnd (SPLAY cmp elm head) (\<lambda>head.
        Ok (if cmp elm (value head) = 0 then Some (value head) else None, head)))"

text \<open>The element that \<^verbatim>\<open>SPLAY_NEXT\<close> is given has to be in the tree: the code goes on at its link.\<close>

fun subtree_at :: "'a \<Rightarrow> 'a tree \<Rightarrow> 'a tree option" where
  "subtree_at elm Leaf = None"
| "subtree_at elm (Node l a r) =
     (if a = elm then Some (Node l a r)
      else case subtree_at elm l of Some t \<Rightarrow> Some t | None \<Rightarrow> subtree_at elm r)"

fun leftmost_of :: "'a tree \<Rightarrow> 'a option" where
  "leftmost_of Leaf = None"
| "leftmost_of (Node l a r) = (if l = Leaf then Some a else leftmost_of l)"

definition SPLAY_NEXT :: "('a \<Rightarrow> 'a \<Rightarrow> int) \<Rightarrow> 'a tree \<Rightarrow> 'a \<Rightarrow> ('a option \<times> 'a tree) outcome" where
  "SPLAY_NEXT cmp head elm =
     bnd (SPLAY cmp elm head) (\<lambda>head.
       case subtree_at elm head of
         None \<Rightarrow> Err (Undefined ''SPLAY_NEXT'')
       | Some t \<Rightarrow> Ok (leftmost_of (right t), head))"

definition SPLAY_MIN_MAX :: "'a tree \<Rightarrow> int \<Rightarrow> ('a option \<times> 'a tree) outcome" where
  "SPLAY_MIN_MAX head val = bnd (SPLAY_MINMAX head val) (\<lambda>head. Ok (Some (value head), head))"

definition SPLAY_MIN :: "'a tree \<Rightarrow> ('a option \<times> 'a tree) outcome" where
  "SPLAY_MIN head = (if SPLAY_EMPTY head then Ok (None, head) else SPLAY_MIN_MAX head (- 1))"

definition SPLAY_MAX :: "'a tree \<Rightarrow> ('a option \<times> 'a tree) outcome" where
  "SPLAY_MAX head = (if SPLAY_EMPTY head then Ok (None, head) else SPLAY_MIN_MAX head 1)"

definition SPLAY_INSERT :: "('a \<Rightarrow> 'a \<Rightarrow> int) \<Rightarrow> 'a tree \<Rightarrow> 'a \<Rightarrow> ('a option \<times> 'a tree) outcome" where
  "SPLAY_INSERT cmp head elm =
     (if SPLAY_EMPTY head then Ok (None, Node Leaf elm Leaf)
      else bnd (SPLAY cmp elm head) (\<lambda>head.
        let comp = cmp elm (value head) in
        if comp < 0 then Ok (None, Node (left head) elm (Node Leaf (value head) (right head)))
        else if comp > 0 then Ok (None, Node (Node (left head) (value head) Leaf) elm (right head))
        else Ok (Some (value head), head)))"

definition SPLAY_REMOVE :: "('a \<Rightarrow> 'a \<Rightarrow> int) \<Rightarrow> 'a tree \<Rightarrow> 'a \<Rightarrow> ('a option \<times> 'a tree) outcome" where
  "SPLAY_REMOVE cmp head elm =
     (if SPLAY_EMPTY head then Ok (None, head)
      else bnd (SPLAY cmp elm head) (\<lambda>head.
        if cmp elm (value head) = 0 then
          if left head = Leaf then Ok (Some elm, right head)
          else
            let tmp = right head in
            bnd (SPLAY cmp elm (left head)) (\<lambda>head.
              Ok (Some elm, Node (left head) (value head) tmp))
        else Ok (None, head)))"

text \<open>\<^verbatim>\<open>SPLAY_FOREACH\<close>, with a bound on the number of steps: the elements visited, and the tree afterwards,
  which every step rearranges.\<close>

fun splay_walk :: "('a \<Rightarrow> 'a \<Rightarrow> int) \<Rightarrow> nat \<Rightarrow> 'a option \<Rightarrow> 'a tree \<Rightarrow> ('a list \<times> 'a tree) outcome" where
  "splay_walk cmp (Suc n) (Some x) head =
     bnd (SPLAY_NEXT cmp head x) (\<lambda>(y, head).
       bnd (splay_walk cmp n y head) (\<lambda>(xs, head). Ok (x # xs, head)))"
| "splay_walk cmp n x head = Ok ([], head)"

definition SPLAY_FOREACH :: "('a \<Rightarrow> 'a \<Rightarrow> int) \<Rightarrow> nat \<Rightarrow> 'a tree \<Rightarrow> ('a list \<times> 'a tree) outcome" where
  "SPLAY_FOREACH cmp n head = bnd (SPLAY_MIN head) (\<lambda>(x, head). splay_walk cmp n x head)"

section \<open>The elements keep their order\<close>

definition smaller_elements :: "'a smaller \<Rightarrow> 'a list" where
  "smaller_elements lo = concat (map (\<lambda>(l, a). elements l @ [a]) (rev lo))"

definition greater_elements :: "'a greater \<Rightarrow> 'a list" where
  "greater_elements hi = concat (map (\<lambda>(a, r). a # elements r) hi)"

lemma smaller_greater_simps [simp]:
  "smaller_elements [] = []" "smaller_elements ((l, a) # lo) = smaller_elements lo @ elements l @ [a]"
  "greater_elements [] = []" "greater_elements ((a, r) # hi) = a # elements r @ greater_elements hi"
  by (simp_all add: smaller_elements_def greater_elements_def)

lemma elements_hang [simp]:
  "elements (hang_smaller lo t) = smaller_elements lo @ elements t"
  "elements (hang_greater hi t) = elements t @ greater_elements hi"
  by (induction lo arbitrary: t, auto simp: hang_smaller_def)
    (induction hi arbitrary: t, auto simp: hang_greater_def)

lemma elements_rotate [simp]:
  "elements (SPLAY_ROTATE_RIGHT t) = elements t" "elements (SPLAY_ROTATE_LEFT t) = elements t"
  subgoal by (cases t rule: SPLAY_ROTATE_RIGHT.cases) simp_all
  subgoal by (cases t rule: SPLAY_ROTATE_LEFT.cases) simp_all
  done

text \<open>The element is brought next to the root: what is left of the root is smaller, what is right of it
  greater.\<close>

definition split_at_root :: "('k \<Rightarrow> 'a \<Rightarrow> int) \<Rightarrow> 'k \<Rightarrow> 'a tree \<Rightarrow> bool" where
  "split_at_root cmp elm t \<longleftrightarrow> t \<noteq> Leaf \<and> (\<forall>x\<in>set (elements (left t)). cmp elm x > 0) \<and>
     (\<forall>x\<in>set (elements (right t)). cmp elm x < 0)"

definition separates :: "('k \<Rightarrow> 'a \<Rightarrow> int) \<Rightarrow> 'k \<Rightarrow> 'a list \<Rightarrow> bool" where
  "separates cmp elm xs \<longleftrightarrow> sorted_wrt (\<lambda>x y. cmp elm x \<le> 0 \<longrightarrow> cmp elm y < 0) xs"

lemma separates_root:
  assumes "separates cmp elm (elements t)" and "t \<noteq> Leaf"
  shows "separates cmp elm (elements (left t))" and "separates cmp elm (elements (right t))"
    and "cmp elm (value t) \<le> 0 \<Longrightarrow> \<forall>x\<in>set (elements (right t)). cmp elm x < 0"
    and "0 \<le> cmp elm (value t) \<Longrightarrow> \<forall>x\<in>set (elements (left t)). 0 < cmp elm x"
  using assms by (cases t, simp, force simp: separates_def sorted_wrt_append)+

lemma link_parts:
  assumes "t \<noteq> Leaf"
  shows "SPLAY_LINKLEFT t hi = (left t, (value t, right t) # hi)"
    and "SPLAY_LINKRIGHT t lo = (right t, (left t, value t) # lo)"
    and "SPLAY_ASSEMBLE t lo hi = Node (hang_smaller lo (left t)) (value t) (hang_greater hi (right t))"
    and "elements t = elements (left t) @ value t # elements (right t)"
  using assms by (cases t, simp_all)+

lemma rotate_parts:
  "left t \<noteq> Leaf \<Longrightarrow> value (SPLAY_ROTATE_RIGHT t) = value (left t)"
  "right t \<noteq> Leaf \<Longrightarrow> value (SPLAY_ROTATE_LEFT t) = value (right t)"
  by (cases t rule: SPLAY_ROTATE_RIGHT.cases; simp) (cases t rule: SPLAY_ROTATE_LEFT.cases; simp)

lemma rotate_Leaf_iff [simp]:
  "SPLAY_ROTATE_RIGHT t = Leaf \<longleftrightarrow> t = Leaf" "SPLAY_ROTATE_LEFT t = Leaf \<longleftrightarrow> t = Leaf"
  by (cases t rule: SPLAY_ROTATE_RIGHT.cases; simp) (cases t rule: SPLAY_ROTATE_LEFT.cases; simp)

definition chains_split :: "('k \<Rightarrow> 'a \<Rightarrow> int) \<Rightarrow> 'k \<Rightarrow> 'a smaller \<Rightarrow> 'a greater \<Rightarrow> bool" where
  "chains_split cmp elm lo hi \<longleftrightarrow> (\<forall>x\<in>set (smaller_elements lo). cmp elm x > 0) \<and>
     (\<forall>x\<in>set (greater_elements hi). cmp elm x < 0)"

lemma assemble_splits:
  assumes "separates cmp elm (elements t)" and "t \<noteq> Leaf" and "chains_split cmp elm lo hi"
    and "cmp elm (value t) < 0 \<Longrightarrow> left t = Leaf" and "0 < cmp elm (value t) \<Longrightarrow> right t = Leaf"
  shows "elements (SPLAY_ASSEMBLE t lo hi) = smaller_elements lo @ elements t @ greater_elements hi \<and>
    split_at_root cmp elm (SPLAY_ASSEMBLE t lo hi)"
  using assms separates_root(3,4) [OF assms(1,2)] link_parts(4) [OF assms(2)]
  by (cases "cmp elm (value t) = 0"; cases "cmp elm (value t) < 0")
    (auto simp: link_parts chains_split_def split_at_root_def)

lemma splay_loop_splits:
  assumes "root \<noteq> Leaf" and "separates cmp elm (elements root)" and "chains_split cmp elm lo hi"
  shows "elements (splay_loop cmp elm root lo hi) = smaller_elements lo @ elements root @ greater_elements hi \<and>
    split_at_root cmp elm (splay_loop cmp elm root lo hi)"
  using assms
proof (induction root arbitrary: lo hi rule: measure_induct_rule [where f = size])
  case (less root)
  note IH = less.IH [rule_format] and root = \<open>root \<noteq> Leaf\<close> and sep = \<open>separates cmp elm (elements root)\<close>
    and chains = \<open>chains_split cmp elm lo hi\<close>
  have down_left: "elements (splay_loop cmp elm (left t) lo ((value t, right t) # hi)) =
      smaller_elements lo @ elements root @ greater_elements hi \<and>
      split_at_root cmp elm (splay_loop cmp elm (left t) lo ((value t, right t) # hi))"
    if t: "elements t = elements root" "size t = size root" "left t \<noteq> Leaf" "cmp elm (value t) < 0" for t
  proof -
    have n: "t \<noteq> Leaf" using t(3) by auto
    have "size (left t) < size root" using t(2) n by (cases t) auto
    moreover have "chains_split cmp elm lo ((value t, right t) # hi)"
      using chains separates_root(3) [of cmp elm t] sep t n by (auto simp: chains_split_def)
    ultimately show ?thesis
      using IH [of "left t"] t separates_root(1) [of cmp elm t] sep n link_parts(4) [OF n] by simp
  qed
  have down_right: "elements (splay_loop cmp elm (right t) ((left t, value t) # lo) hi) =
      smaller_elements lo @ elements root @ greater_elements hi \<and>
      split_at_root cmp elm (splay_loop cmp elm (right t) ((left t, value t) # lo) hi)"
    if t: "elements t = elements root" "size t = size root" "right t \<noteq> Leaf" "0 < cmp elm (value t)" for t
  proof -
    have n: "t \<noteq> Leaf" using t(3) by auto
    have "size (right t) < size root" using t(2) n by (cases t) auto
    moreover have "chains_split cmp elm ((left t, value t) # lo) hi"
      using chains separates_root(4) [of cmp elm t] sep t n by (auto simp: chains_split_def)
    ultimately show ?thesis
      using IH [of "right t"] t separates_root(2) [of cmp elm t] sep n link_parts(4) [OF n] by simp
  qed
  have stop: "elements (SPLAY_ASSEMBLE t lo hi) = smaller_elements lo @ elements root @ greater_elements hi \<and>
      split_at_root cmp elm (SPLAY_ASSEMBLE t lo hi)"
    if "elements t = elements root" "t \<noteq> Leaf"
      "cmp elm (value t) < 0 \<Longrightarrow> left t = Leaf" "0 < cmp elm (value t) \<Longrightarrow> right t = Leaf" for t
    using assemble_splits [of cmp elm t] that sep chains by simp
  note unfold = splay_loop.simps [of cmp elm root] Let_def link_parts(1,2)
  show ?case
  proof (cases "cmp elm (value root) = 0 \<or> (if cmp elm (value root) < 0 then left root else right root) = Leaf")
    case True
    then show ?thesis using stop [of root] root by (auto simp: unfold)
  next
    case False
    show ?thesis
    proof (cases "cmp elm (value root) < 0")
      case True
      with False have "left root \<noteq> Leaf" by simp
      then show ?thesis
        using True root stop [of "SPLAY_ROTATE_RIGHT root"] down_left [of "SPLAY_ROTATE_RIGHT root"] down_left [of root]
        by (auto simp: unfold rotate_parts)
    next
      case less: False
      with False have "right root \<noteq> Leaf" "0 < cmp elm (value root)" by auto
      then show ?thesis
        using less root stop [of "SPLAY_ROTATE_LEFT root"] down_right [of "SPLAY_ROTATE_LEFT root"] down_right [of root]
        by (auto simp: unfold rotate_parts)
    qed
  qed
qed

lemma SPLAY_splits:
  assumes "head \<noteq> Leaf" and "separates cmp elm (elements head)"
  obtains t where "SPLAY cmp elm head = Ok t" and "elements t = elements head" and "split_at_root cmp elm t"
  using splay_loop_splits [OF assms, of "[]" "[]"] assms(1) that by (simp add: SPLAY_def chains_split_def)

lemma minmax_splay:
  assumes "val \<noteq> 0"
  shows "minmax_loop val root lo hi = Some (splay_loop (\<lambda>_ _. val) () root lo hi)"
proof (induction root arbitrary: lo hi rule: measure_induct_rule [where f = size])
  case (less root)
  with assms show ?case
    by (subst minmax_loop.simps, subst splay_loop.simps) (auto simp: Let_def)
qed

section \<open>A splay tree is a sorted list\<close>

definition orders :: "('a \<Rightarrow> 'a \<Rightarrow> int) \<Rightarrow> ('a \<Rightarrow> 'k::linorder) \<Rightarrow> bool" where
  "orders cmp key \<longleftrightarrow> (\<forall>x y. (cmp x y < 0 \<longleftrightarrow> key x < key y) \<and> (cmp x y > 0 \<longleftrightarrow> key y < key x))"

definition ascending :: "('a \<Rightarrow> 'k::linorder) \<Rightarrow> 'a list \<Rightarrow> bool" where
  "ascending key xs \<longleftrightarrow> sorted_wrt (\<lambda>x y. key x < key y) xs"

datatype 'a splay_call = Find 'a | Insert 'a | Remove 'a | Next_of 'a | Min | Max | Foreach

datatype 'a splay_result = Element "'a option" | Visited "'a list"

fun splay_op :: "('a \<Rightarrow> 'a \<Rightarrow> int) \<Rightarrow> 'a splay_call \<Rightarrow> 'a tree \<Rightarrow> ('a splay_result \<times> 'a tree) outcome" where
  "splay_op cmp (Find e) t = bnd (SPLAY_FIND cmp t e) (\<lambda>(x, t). Ok (Element x, t))"
| "splay_op cmp (Insert e) t = bnd (SPLAY_INSERT cmp t e) (\<lambda>(x, t). Ok (Element x, t))"
| "splay_op cmp (Remove e) t = bnd (SPLAY_REMOVE cmp t e) (\<lambda>(x, t). Ok (Element x, t))"
| "splay_op cmp (Next_of e) t = bnd (SPLAY_NEXT cmp t e) (\<lambda>(x, t). Ok (Element x, t))"
| "splay_op cmp Min t = bnd (SPLAY_MIN t) (\<lambda>(x, t). Ok (Element x, t))"
| "splay_op cmp Max t = bnd (SPLAY_MAX t) (\<lambda>(x, t). Ok (Element x, t))"
| "splay_op cmp Foreach t = bnd (SPLAY_FOREACH cmp (size t) t) (\<lambda>(xs, t). Ok (Visited xs, t))"

definition first_of :: "'a list \<Rightarrow> 'a option" where
  "first_of xs = (case xs of [] \<Rightarrow> None | x # _ \<Rightarrow> Some x)"

fun sorted_op :: "('a \<Rightarrow> 'k::linorder) \<Rightarrow> 'a splay_call \<Rightarrow> 'a list \<Rightarrow> ('a splay_result \<times> 'a list) outcome" where
  "sorted_op key (Find e) xs = Ok (Element (find (\<lambda>x. key x = key e) xs), xs)"
| "sorted_op key (Insert e) xs =
     (case find (\<lambda>x. key x = key e) xs of
        Some x \<Rightarrow> Ok (Element (Some x), xs)
      | None \<Rightarrow> Ok (Element None, filter (\<lambda>x. key x < key e) xs @ e # filter (\<lambda>x. key e < key x) xs))"
| "sorted_op key (Remove e) xs =
     Ok (Element (if \<exists>x\<in>set xs. key x = key e then Some e else None), filter (\<lambda>x. key x \<noteq> key e) xs)"
| "sorted_op key (Next_of e) xs =
     defined_if (e \<in> set xs) ''SPLAY_NEXT'' (Ok (Element (first_of (filter (\<lambda>x. key e < key x) xs)), xs))"
| "sorted_op key Min xs = Ok (Element (first_of xs), xs)"
| "sorted_op key Max xs = Ok (Element (first_of (rev xs)), xs)"
| "sorted_op key Foreach xs = Ok (Visited xs, xs)"

lemma orders_cmp:
  assumes "orders cmp key"
  shows "cmp x y < 0 \<longleftrightarrow> key x < key y" "0 < cmp x y \<longleftrightarrow> key y < key x" "cmp x y = 0 \<longleftrightarrow> key y = key x"
proof -
  show "cmp x y < 0 \<longleftrightarrow> key x < key y" "0 < cmp x y \<longleftrightarrow> key y < key x"
    using assms unfolding orders_def by blast+
  then show "cmp x y = 0 \<longleftrightarrow> key y = key x" by (cases "key x" "key y" rule: linorder_cases) auto
qed

lemma ascending_separates:
  assumes "orders cmp key" and "ascending key xs"
  shows "separates cmp elm xs"
  using assms(2) unfolding separates_def ascending_def
  by (rule sorted_wrt_mono_rel [rotated])
    (use orders_cmp [OF assms(1)] in \<open>auto simp: not_less [symmetric]\<close>)

text \<open>What a splay leaves: the elements around the root, by their keys.\<close>

lemma SPLAY_by_key:
  assumes "orders cmp key" and "ascending key (elements head)" and "head \<noteq> Leaf"
  obtains l a r where "SPLAY cmp e head = Ok (Node l a r)" and "elements head = elements l @ a # elements r"
    and "\<forall>x\<in>set (elements l). key x < key e" and "\<forall>x\<in>set (elements r). key e < key x"
proof -
  obtain t where t: "SPLAY cmp e head = Ok t" "elements t = elements head" "split_at_root cmp e t"
    using SPLAY_splits [OF assms(3) ascending_separates [OF assms(1,2)]] .
  then obtain l a r where "t = Node l a r" by (cases t) (auto simp: split_at_root_def)
  with t that show thesis using orders_cmp [OF assms(1)] by (auto simp: split_at_root_def)
qed

lemma find_around:
  assumes "\<forall>x\<in>set ls. key x < key e" and "\<forall>x\<in>set rs. key e < (key x :: 'k::linorder)"
  shows "find (\<lambda>x. key x = key e) (ls @ a # rs) = (if key a = key e then Some a else None)"
    and "key a < key e \<Longrightarrow> filter (\<lambda>x. key x < key e) (ls @ a # rs) = ls @ [a]"
    and "\<not> key a < key e \<Longrightarrow> filter (\<lambda>x. key x < key e) (ls @ a # rs) = ls"
    and "key e < key a \<Longrightarrow> filter (\<lambda>x. key e < key x) (ls @ a # rs) = a # rs"
    and "\<not> key e < key a \<Longrightarrow> filter (\<lambda>x. key e < key x) (ls @ a # rs) = rs"
    and "key a = key e \<Longrightarrow> filter (\<lambda>x. key x \<noteq> key e) (ls @ a # rs) = ls @ rs"
    and "key a \<noteq> key e \<Longrightarrow> filter (\<lambda>x. key x \<noteq> key e) (ls @ a # rs) = ls @ a # rs"
    and "(\<exists>x\<in>set (ls @ a # rs). key x = key e) \<longleftrightarrow> key a = key e"
    and "e \<in> set (ls @ a # rs) \<longleftrightarrow> a = e"
proof -
  have *: "\<forall>x\<in>set ls. key x \<noteq> key e \<and> \<not> key e < key x" "\<forall>x\<in>set rs. key x \<noteq> key e \<and> \<not> key x < key e"
    using assms by (auto dest: less_imp_not_less)
  show "find (\<lambda>x. key x = key e) (ls @ a # rs) = (if key a = key e then Some a else None)"
    using * by (induction ls) (auto simp: find_None_iff)
  have "filter (\<lambda>x. key x \<noteq> key e) ls = ls" "filter (\<lambda>x. key x \<noteq> key e) rs = rs"
    using * by (auto intro: filter_True)
  then show "key a = key e \<Longrightarrow> filter (\<lambda>x. key x \<noteq> key e) (ls @ a # rs) = ls @ rs"
    and "key a \<noteq> key e \<Longrightarrow> filter (\<lambda>x. key x \<noteq> key e) (ls @ a # rs) = ls @ a # rs" by auto
qed (use assms in \<open>auto simp: filter_id_conv filter_empty_conv dest: less_imp_not_less\<close>)

lemma SPLAY_FIND_sorted:
  assumes o: "orders cmp key" and asc: "ascending key (elements t)"
  obtains t' where "SPLAY_FIND cmp t e = Ok (find (\<lambda>x. key x = key e) (elements t), t')"
    and "elements t' = elements t"
proof (cases "t = Leaf")
  case True
  with that [of t] show thesis by (simp add: SPLAY_FIND_def SPLAY_EMPTY_def)
next
  case False
  from SPLAY_by_key [OF o asc False] obtain l a r where s: "SPLAY cmp e t = Ok (Node l a r)"
    "elements t = elements l @ a # elements r"
    "\<forall>x\<in>set (elements l). key x < key e" "\<forall>x\<in>set (elements r). key e < key x" .
  show thesis
    by (rule that [of "Node l a r"])
      (simp_all add: SPLAY_FIND_def SPLAY_EMPTY_def find_around(1) [OF s(3,4)] orders_cmp [OF o] s(1,2) False)
qed

lemma SPLAY_INSERT_sorted:
  assumes o: "orders cmp key" and asc: "ascending key (elements t)"
    and op: "sorted_op key (Insert e) (elements t) = Ok (Element x, xs)"
  obtains t' where "SPLAY_INSERT cmp t e = Ok (x, t')" and "elements t' = xs" and "ascending key xs"
proof (cases "t = Leaf")
  case True
  with that [of "Node Leaf e Leaf"] op show thesis by (auto simp: SPLAY_INSERT_def SPLAY_EMPTY_def ascending_def)
next
  case False
  from SPLAY_by_key [OF o asc False] obtain l a r where s: "SPLAY cmp e t = Ok (Node l a r)"
    "elements t = elements l @ a # elements r"
    "\<forall>x\<in>set (elements l). key x < key e" "\<forall>x\<in>set (elements r). key e < key x" .
  have asc': "ascending key (elements l @ a # elements r)" using asc s(2) by simp
  note defs = SPLAY_INSERT_def SPLAY_EMPTY_def orders_cmp [OF o] Let_def s(1) False
  note around = find_around(1-5) [OF s(3,4)] 
  have op': "(case find (\<lambda>x. key x = key e) (elements l @ a # elements r) of
      Some x \<Rightarrow> Ok (Element (Some x), elements l @ a # elements r)
    | None \<Rightarrow> Ok (Element None, filter (\<lambda>x. key x < key e) (elements l @ a # elements r) @
        e # filter (\<lambda>x. key e < key x) (elements l @ a # elements r))) = Ok (Element x, xs)"
    using op s(2) by simp
  show thesis
  proof (cases "key e" "key a" rule: linorder_cases)
    case less
    then have n: "key a \<noteq> key e" "\<not> key a < key e" by auto
    have xs: "x = None" "xs = elements l @ e # a # elements r"
      using op' less n unfolding around(1) around(3) [OF n(2)] around(4) [OF less] by auto
    have "ascending key xs" using asc' s(3,4) less unfolding xs by (auto simp: ascending_def sorted_wrt_append)
    with less show thesis by (intro that [of "Node l e (Node Leaf a r)"]) (simp_all add: defs xs)
  next
    case equal
    then have "x = Some a" "xs = elements t" using op' unfolding around(1) s(2) by auto
    with equal show thesis by (intro that [of "Node l a r"]) (simp_all add: defs s(2) asc')
  next
    case greater
    then have n: "key a \<noteq> key e" "\<not> key e < key a" by auto
    have xs: "x = None" "xs = elements l @ a # e # elements r"
      using op' greater n unfolding around(1) around(2) [OF greater] around(5) [OF n(2)] by auto
    have "ascending key xs" using asc' s(3,4) greater unfolding xs by (auto simp: ascending_def sorted_wrt_append)
    with greater n show thesis by (intro that [of "Node (Node l a Leaf) e r"]) (simp_all add: defs xs)
  qed
qed

lemma nothing_between: "\<forall>x\<in>set xs. f x < k \<Longrightarrow> \<forall>x\<in>set xs. k < f x \<Longrightarrow> xs = []"
  for k :: "'k::linorder"
  by (cases xs) (auto dest: less_imp_not_less)

lemma SPLAY_REMOVE_sorted:
  assumes o: "orders cmp key" and asc: "ascending key (elements t)"
  obtains t' where "SPLAY_REMOVE cmp t e = Ok (if \<exists>x\<in>set (elements t). key x = key e then Some e else None, t')"
    and "elements t' = filter (\<lambda>x. key x \<noteq> key e) (elements t)"
proof (cases "t = Leaf")
  case True
  with that [of t] show thesis by (simp add: SPLAY_REMOVE_def SPLAY_EMPTY_def)
next
  case False
  from SPLAY_by_key [OF o asc False] obtain l a r where s: "SPLAY cmp e t = Ok (Node l a r)"
    "elements t = elements l @ a # elements r"
    "\<forall>x\<in>set (elements l). key x < key e" "\<forall>x\<in>set (elements r). key e < key x" .
  note defs = SPLAY_REMOVE_def SPLAY_EMPTY_def orders_cmp [OF o] Let_def s(1) False
  have found: "(\<exists>x\<in>set (elements t). key x = key e) \<longleftrightarrow> key a = key e"
    unfolding s(2) by (rule find_around(8) [OF s(3,4)])
  show thesis
  proof (cases "key a = key e")
    case True
    then have rest: "filter (\<lambda>x. key x \<noteq> key e) (elements t) = elements l @ elements r"
      unfolding s(2) by (rule find_around(6) [OF s(3,4)])
    show thesis
    proof (cases "l = Leaf")
      case True
      with \<open>key a = key e\<close> rest show thesis by (intro that [of r]) (simp_all add: defs found del: Tree.set_inorder)
    next
      case l: False
      have "ascending key (elements l)" using asc s(2) by (simp add: ascending_def sorted_wrt_append)
      from SPLAY_by_key [OF o this l] obtain l' b r' where s': "SPLAY cmp e l = Ok (Node l' b r')"
        "elements l = elements l' @ b # elements r'" "\<forall>x\<in>set (elements l'). key x < key e"
        "\<forall>x\<in>set (elements r'). key e < key x" .
      have "\<forall>x\<in>set (elements r'). key x < key e" using s(3) unfolding s'(2) by simp
      then have "elements r' = []" using s'(4) by (rule nothing_between)
      then have e: "elements (Node l' b r) = filter (\<lambda>x. key x \<noteq> key e) (elements t)" using s'(2) rest by simp
      have "SPLAY_REMOVE cmp t e = Ok (Some e, Node l' b r)" using \<open>key a = key e\<close> l s'(1) by (simp add: defs)
      then show thesis
        by (intro that [OF _ e]) (simp add: found \<open>key a = key e\<close> del: Tree.set_inorder)
    qed
  next
    case False
    then have rest: "filter (\<lambda>x. key x \<noteq> key e) (elements t) = elements t"
      unfolding s(2) by (rule find_around(7) [OF s(3,4)])
    have r: "SPLAY_REMOVE cmp t e = Ok (None, Node l a r)" using False by (simp add: defs)
    show thesis
      by (rule that [of "Node l a r"]) (use False in \<open>simp add: r found del: Tree.set_inorder\<close>, unfold rest, simp add: s(2))
  qed
qed

lemma leftmost_first: "leftmost_of t = first_of (elements t)"
  by (induction t) (auto simp: first_of_def split: list.splits)

lemma SPLAY_NEXT_sorted:
  assumes o: "orders cmp key" and asc: "ascending key (elements t)" and "e \<in> set (elements t)"
  obtains t' where "SPLAY_NEXT cmp t e = Ok (first_of (filter (\<lambda>x. key e < key x) (elements t)), t')"
    and "elements t' = elements t"
proof -
  have "t \<noteq> Leaf" using assms(3) by auto
  from SPLAY_by_key [OF o asc this] obtain l a r where s: "SPLAY cmp e t = Ok (Node l a r)"
    "elements t = elements l @ a # elements r"
    "\<forall>x\<in>set (elements l). key x < key e" "\<forall>x\<in>set (elements r). key e < key x" .
  have "a = e" using assms(3) unfolding s(2) by (simp only: find_around(9) [OF s(3,4)])
  moreover have "filter (\<lambda>x. key e < key x) (elements l @ a # elements r) = elements r"
    by (rule find_around(5) [OF s(3,4)]) (simp add: \<open>a = e\<close>)
  ultimately show thesis
    using that [of "Node l a r"] s(1,2) by (simp add: SPLAY_NEXT_def leftmost_first)
qed

lemma SPLAY_MINMAX_splits:
  assumes "t \<noteq> Leaf" and "val \<noteq> 0"
  obtains l a r where "SPLAY_MINMAX t val = Ok (Node l a r)" and "elements t = elements l @ a # elements r"
    and "val < 0 \<Longrightarrow> l = Leaf" and "0 < val \<Longrightarrow> r = Leaf"
proof -
  let ?t = "splay_loop (\<lambda>_ _. val) () t [] []"
  have "separates (\<lambda>_ _. val) () (elements t)" if "val < 0"
    using that by (simp add: separates_def sorted_wrt_iff_nth_less)
  moreover have "separates (\<lambda>_ _. val) () (elements t)" if "0 < val"
    using that by (simp add: separates_def sorted_wrt_iff_nth_less)
  ultimately have "separates (\<lambda>_ _. val) () (elements t)" using assms(2) by linarith
  then have t: "elements ?t = elements t" "split_at_root (\<lambda>_ _. val) () ?t"
    using splay_loop_splits [OF assms(1), of "\<lambda>_ _. val" "()" "[]" "[]"] by (auto simp: chains_split_def)
  moreover have "SPLAY_MINMAX t val = Ok ?t"
    using assms(1) by (simp add: SPLAY_MINMAX_def minmax_splay [OF assms(2)])
  moreover obtain l a r where "?t = Node l a r" using t(2) by (cases ?t) (auto simp: split_at_root_def)
  ultimately show thesis using t by (intro that [of l a r]) (auto simp: split_at_root_def)
qed

lemma SPLAY_MIN_sorted:
  obtains t' where "SPLAY_MIN t = Ok (first_of (elements t), t')" and "elements t' = elements t"
proof (cases "t = Leaf")
  case True
  with that [of t] show thesis by (simp add: SPLAY_MIN_def SPLAY_EMPTY_def first_of_def)
next
  case False
  then obtain l a r where "SPLAY_MINMAX t (- 1) = Ok (Node l a r)" "elements t = elements l @ a # elements r" "l = Leaf"
    by (rule SPLAY_MINMAX_splits [where val = "- 1"]) auto
  with that [of "Node l a r"] False show thesis
    by (simp add: SPLAY_MIN_def SPLAY_MIN_MAX_def SPLAY_EMPTY_def first_of_def)
qed

lemma SPLAY_MAX_sorted:
  obtains t' where "SPLAY_MAX t = Ok (first_of (rev (elements t)), t')" and "elements t' = elements t"
proof (cases "t = Leaf")
  case True
  with that [of t] show thesis by (simp add: SPLAY_MAX_def SPLAY_EMPTY_def first_of_def)
next
  case False
  then obtain l a r where "SPLAY_MINMAX t 1 = Ok (Node l a r)" "elements t = elements l @ a # elements r" "r = Leaf"
    by (rule SPLAY_MINMAX_splits [where val = 1]) auto
  with that [of "Node l a r"] False show thesis
    by (simp add: SPLAY_MAX_def SPLAY_MIN_MAX_def SPLAY_EMPTY_def first_of_def)
qed

lemma splay_walk_sorted:
  assumes o: "orders cmp key" and "ascending key (elements t)" and "elements t = ps @ qs" and "length qs \<le> n"
  obtains t' where "splay_walk cmp n (first_of qs) t = Ok (qs, t')" and "elements t' = elements t"
  using assms(2-4)
proof (induction n arbitrary: t ps qs thesis)
  case 0
  then show ?case by (simp add: first_of_def)
next
  case (Suc n)
  show ?case
  proof (cases qs)
    case Nil
    with Suc.prems(1) [of t] show ?thesis by (simp add: first_of_def)
  next
    case (Cons x rest)
    have elems: "elements t = ps @ x # rest" using Suc.prems(3) Cons by simp
    have asc: "ascending key (ps @ x # rest)" using Suc.prems(2) elems by simp
    then have "filter (\<lambda>y. key x < key y) (ps @ x # rest) = rest"
      by (auto simp: ascending_def sorted_wrt_append filter_empty_conv filter_id_conv dest: less_imp_not_less)
    moreover have "x \<in> set (elements t)" by (simp add: elems)
    ultimately obtain t' where t': "SPLAY_NEXT cmp t x = Ok (first_of rest, t')" "elements t' = elements t"
      using SPLAY_NEXT_sorted [OF o Suc.prems(2)] elems by metis
    have "ascending key (elements t')" "elements t' = (ps @ [x]) @ rest" "length rest \<le> n"
      using t'(2) Suc.prems(2,4) elems Cons by auto
    then obtain t'' where "splay_walk cmp n (first_of rest) t' = Ok (rest, t'')" "elements t'' = elements t'"
      by (rule Suc.IH [rotated])
    with t' Cons Suc.prems(1) [of t''] show ?thesis by (simp add: first_of_def)
  qed
qed

lemma SPLAY_FOREACH_sorted:
  assumes "orders cmp key" and "ascending key (elements t)" and "length (elements t) \<le> n"
  obtains t' where "SPLAY_FOREACH cmp n t = Ok (elements t, t')" and "elements t' = elements t"
proof -
  obtain u where u: "SPLAY_MIN t = Ok (first_of (elements t), u)" "elements u = elements t"
    by (rule SPLAY_MIN_sorted)
  have "ascending key (elements u)" "elements u = [] @ elements t" using u(2) assms(2) by auto
  then obtain t' where "splay_walk cmp n (first_of (elements t)) u = Ok (elements t, t')" "elements t' = elements u"
    using assms(3) by (rule splay_walk_sorted [OF assms(1)])
  with u that show thesis by (simp add: SPLAY_FOREACH_def)
qed

lemma ascending_filter: "ascending key xs \<Longrightarrow> ascending key (filter P xs)"
  by (simp add: ascending_def sorted_wrt_filter)

lemma splay_op_simulation:
  assumes o: "orders cmp key" and asc: "ascending key (elements t)"
    and op: "sorted_op key c (elements t) = Ok (res, xs)"
  obtains t' where "splay_op cmp c t = Ok (res, t')" and "elements t' = xs" and "ascending key xs"
proof (cases c)
  case (Find e)
  show thesis by (rule SPLAY_FIND_sorted [OF o asc, of e]) (use Find op asc that in auto)
next
  case (Insert e)
  then obtain x where x: "sorted_op key (Insert e) (elements t) = Ok (Element x, xs)" "res = Element x"
    using op by (auto split: option.splits)
  show thesis by (rule SPLAY_INSERT_sorted [OF o asc x(1)]) (rule that, simp_all add: Insert x(2))
next
  case (Remove e)
  then have r: "res = Element (if \<exists>x\<in>set (elements t). key x = key e then Some e else None)"
    "xs = filter (\<lambda>x. key x \<noteq> key e) (elements t)" using op by auto
  show thesis
    by (rule SPLAY_REMOVE_sorted [OF o asc, of e]) (rule that, auto simp: Remove r intro: ascending_filter [OF asc])
next
  case (Next_of e)
  then have "e \<in> set (elements t)" using op by auto
  from SPLAY_NEXT_sorted [OF o asc this] obtain t' where
    "SPLAY_NEXT cmp t e = Ok (first_of (filter (\<lambda>x. key e < key x) (elements t)), t')" "elements t' = elements t" .
  then show thesis by (intro that [of t']) (use Next_of op asc in auto)
next
  case Min
  show thesis by (rule SPLAY_MIN_sorted [of t]) (use Min op asc that in auto)
next
  case Max
  show thesis by (rule SPLAY_MAX_sorted [of t]) (use Max op asc that in auto)
next
  case Foreach
  have "length (elements t) \<le> size t" by simp
  from SPLAY_FOREACH_sorted [OF o asc this] obtain t' where
    "SPLAY_FOREACH cmp (size t) t = Ok (elements t, t')" "elements t' = elements t" .
  then show thesis by (intro that [of t']) (use Foreach op asc in auto)
qed

fun splay_run :: "('a \<Rightarrow> 'a \<Rightarrow> int) \<Rightarrow> 'a splay_call list \<Rightarrow> 'a tree \<Rightarrow> ('a splay_result list \<times> 'a tree) outcome" where
  "splay_run cmp [] t = Ok ([], t)"
| "splay_run cmp (c # cs) t =
     bnd (splay_op cmp c t) (\<lambda>(r, t). bnd (splay_run cmp cs t) (\<lambda>(rs, t). Ok (r # rs, t)))"

fun sorted_run ::
    "('a \<Rightarrow> 'k::linorder) \<Rightarrow> 'a splay_call list \<Rightarrow> 'a list \<Rightarrow> ('a splay_result list \<times> 'a list) outcome" where
  "sorted_run key [] xs = Ok ([], xs)"
| "sorted_run key (c # cs) xs =
     bnd (sorted_op key c xs) (\<lambda>(r, xs). bnd (sorted_run key cs xs) (\<lambda>(rs, xs). Ok (r # rs, xs)))"

lemma splay_run_simulation:
  assumes "orders cmp key" and "ascending key (elements t)"
    and "sorted_run key cs (elements t) = Ok (rs, xs)"
  shows "\<exists>t'. splay_run cmp cs t = Ok (rs, t') \<and> elements t' = xs \<and> ascending key xs"
  using assms(2,3)
proof (induction cs arbitrary: t rs)
  case (Cons c cs)
  then obtain r ys rs' where c: "sorted_op key c (elements t) = Ok (r, ys)"
    and cs: "sorted_run key cs ys = Ok (rs', xs)" and rs: "rs = r # rs'" by auto
  obtain t' where "splay_op cmp c t = Ok (r, t')" "elements t' = ys" "ascending key ys"
    by (rule splay_op_simulation [OF assms(1) Cons.prems(1) c])
  with Cons.IH [of t' rs'] cs rs show ?case by auto
qed auto

text \<open>C20. Every sequence of operations on a splay tree that starts empty returns what the same sequence returns
  on a sorted list without duplicates: lookup, insertion (which returns the element in the way),
  removal (which returns its argument), the successor, the ends, and the walk over all elements. The
  tree keeps the elements in order through all its rotations.\<close>

theorem splay_trees_refine_sorted_lists:
  assumes "orders cmp key" and "sorted_run key cs [] = Ok (rs, xs)"
  shows "\<exists>t. splay_run cmp cs SPLAY_INIT = Ok (rs, t) \<and> elements t = xs \<and> ascending key xs"
proof -
  have "ascending key (elements SPLAY_INIT)" "sorted_run key cs (elements SPLAY_INIT) = Ok (rs, xs)"
    using assms(2) by (simp_all add: SPLAY_INIT_def ascending_def)
  then show ?thesis by (rule splay_run_simulation [OF assms(1)])
qed

definition sample_calls :: "int splay_call list" where
  "sample_calls = [Insert 4, Insert 9, Insert 2, Insert 7, Insert 9, Find 2, Next_of 4, Remove 7, Min, Max, Foreach]"

lemma splay_trees_refine_sorted_lists_witness:
  "\<exists>t. splay_run (-) sample_calls SPLAY_INIT =
       Ok ([Element None, Element None, Element None, Element None, Element (Some 9), Element (Some 2),
            Element (Some 7), Element (Some 7), Element (Some 2), Element (Some 9), Visited [2, 4, 9]], t) \<and>
     elements t = [2, 4, 9] \<and> ascending id [2, 4, 9 :: int]"
proof (rule splay_trees_refine_sorted_lists)
  show "orders (-) (id :: int \<Rightarrow> int)" by (auto simp: orders_def)
  show "sorted_run id sample_calls [] =
     Ok ([Element None, Element None, Element None, Element None, Element (Some 9), Element (Some 2),
          Element (Some 7), Element (Some 7), Element (Some 2), Element (Some 9), Visited [2, 4, 9]], [2, 4, 9])"
    by (simp add: sample_calls_def first_of_def)
qed

end
