(* ===== verification/Spec2Isabelle.thy ===== *)
theory Spec2Isabelle
  imports Memory_Refinement Memory_Returns Writeback Diagnostics Nanokern Lock_Discipline Main_Run Page_In Tailq_Ops List_Refinement Splay
begin

text \<open>
  A verification development for the virtual memory simulator vmmsim.

  \<^bold>\<open>The program.\<close> vmmsim simulates the virtual memory manager of a kernel in a user process. Physical
  memory is the array \<^verbatim>\<open>SOFT_pages\<close> of 32 pages, described by the page frame database \<^verbatim>\<open>mypages\<close>
  (\<^verbatim>\<open>vm/resident.c\<close>). Page tables of four levels live in those pages (\<^verbatim>\<open>vm/tables.c\<close>, format in
  \<^verbatim>\<open>vm/vmpsoft.h\<close>). A process has a working set list (\<^verbatim>\<open>vm/ws.c\<close>), kept in a tree (\<^verbatim>\<open>kdk/tree.h\<close>) and a
  tail queue (\<^verbatim>\<open>kdk/queue.h\<close>), and a tree of address ranges (\<^verbatim>\<open>vm/vad.c\<close>). An access of the simulated
  MMU (\<^verbatim>\<open>main.c\<close>) that finds no valid entry calls \<^verbatim>\<open>vm_fault\<close> (\<^verbatim>\<open>vm/fault.c\<close>), which wires the tables, maps
  a zero-filled page, takes a page back from transition or reads it from the page file. A full working
  set evicts its oldest entry; the page goes to the modified or the standby queue. The page writer
  (\<^verbatim>\<open>vm/pgwriter.c\<close>) writes modified pages to the page file through \<^verbatim>\<open>io.c\<close>; allocation steals standby
  pages; the balancer (\<^verbatim>\<open>vm/balancer.c\<close>) trims the working set when memory is short.

  \<^bold>\<open>The state.\<close> \<open>Vmm_State\<close> has one record \<open>vmm\<close> of the globals. A page pointer is an index into \<open>mypages\<close>, a
  pointer to a page-table entry is the physical address of the entry, and \<open>SOFT_pages\<close> maps the address
  of a 64-bit word to the word. Machine integers have their C widths as \<open>w word\<close>; addresses of physical
  memory are natural numbers. An operation returns an \<open>outcome\<close>: a value, or the assertion, the fatal
  error or the undefined behaviour it ends in. Every \<^verbatim>\<open>kassert\<close>, \<^verbatim>\<open>kfatal\<close> and every use of a queue macro
  outside its contract is such a branch of the model.

  \<^bold>\<open>The components.\<close> Each theory has the operations in the order of the code, then their properties.
    \<^item> \<open>Vmm_Prelude\<close>: outcomes and their automation, C integer types, bit fields.
    \<^item> \<open>Tailq\<close> (\<^verbatim>\<open>kdk/queue.h\<close>): the TAILQ macros on pointers and on lists, and the refinement between them;
      the locale \<open>shared_queues\<close> is what clients of the queues rely on.
    \<^item> \<open>Tailq_Ops\<close> (\<^verbatim>\<open>kdk/queue.h\<close>): the tail queue operations beyond those the program uses (insertion beside an
      element, concatenation, exchange, the walks backwards and those that allow removal), their refinement.
    \<^item> \<open>List_Families\<close>, \<open>Cell_Chains\<close>, \<open>List_Refinement\<close> (\<^verbatim>\<open>kdk/queue.h\<close>): the macros of the other three families (SLIST,
      STAILQ, LIST) on pointers; the changes they make to chains of cells; the locale \<open>list_family\<close>, the contract
      that each of them meets, and the refinement. The program does not use these families.
    \<^item> \<open>Splay\<close> (\<^verbatim>\<open>kdk/tree.h\<close>): the splay trees, which the program does not use either, refine sorted lists.
    \<^item> \<open>Rank_Tree\<close> (\<^verbatim>\<open>kdk/tree.h\<close>): search, insertion and removal with rank bits and rotations; the rank
      rule, the depth bound, and the locale \<open>keyed_tree\<close> of a tree that is a map from keys.
    \<^item> \<open>Tree_Walk\<close> (\<^verbatim>\<open>kdk/tree.h\<close>): the other RB operations on cursors, a subtree with the frames of its
      parents: next, previous, search for a lower bound, insertion beside an element, the walks.
    \<^item> \<open>Vmp_Soft\<close> (\<^verbatim>\<open>vm/vmpsoft.h\<close>, \<^verbatim>\<open>kdk/soft.h\<close>): entries as words, address unpacking; round trips.
    \<^item> \<open>Resident\<close>, \<open>Page_Alloc\<close> (\<^verbatim>\<open>vm/resident.c\<close>): the invariant \<open>pfndb\<close> says on which queue each page is and
      that the statistics are exact; initialisation, retain, release, allocation and stealing keep it.
    \<^item> \<open>Wsl\<close>, \<open>Working_Set\<close> (\<^verbatim>\<open>vm/ws.c\<close>): lookup, lock, unlock, remove; eviction, trimming, insertion.
    \<^item> \<open>Tables\<close>, \<open>Wire\<close> (\<^verbatim>\<open>vm/tables.c\<close>): accounting of table pages, deletion of empty tables, wiring.
    \<^item> \<open>Vad\<close> (\<^verbatim>\<open>vm/vad.c\<close>), \<open>Fault\<close> (\<^verbatim>\<open>vm/fault.c\<close>), \<open>Simulator\<close> (\<^verbatim>\<open>main.c\<close>).
    \<^item> \<open>Io\<close> (\<^verbatim>\<open>io.c\<close>), \<open>Pagefile\<close> and \<open>Pgwriter\<close> (\<^verbatim>\<open>vm/pgwriter.c\<close>, \<^verbatim>\<open>vm/balancer.c\<close>), \<open>Nanokern\<close> (\<^verbatim>\<open>kdk/nanokern.h\<close>).
    \<^item> \<open>Writeback\<close>: a pass of the page writer over a database in which each written page has a slot of its own
      saves the pages it takes; with a full page file it loses one.
    \<^item> \<open>Diagnostics\<close>: the reports (\<^verbatim>\<open>vm_dump_pages\<close>, \<^verbatim>\<open>vm_dump_page_summary\<close>, \<^verbatim>\<open>vmp_wsl_dump\<close>) as values.
    \<^item> \<open>Locks\<close>, \<open>Lock_Discipline\<close>: mutexes, spinlocks and events with threads that interleave; every routine as
      the sequence of its lock and event operations; the check \<open>locks_after\<close> of such a sequence and its
      soundness: what is left to run always passes the check with the locks that are held, there is no
      deadlock, and the declared lock requirements hold. Two calls of the code do without the locks they
      require (in the page writer and in \<^verbatim>\<open>main\<close>); they are marked \<open>Unguarded\<close>, and the property excepts them.

  \<^bold>\<open>The composition.\<close> The remaining theories show that the components work together.
    \<^item> \<open>Address_Space\<close>: the invariant \<open>space_ok W ps s\<close> of a process's address space. The tables form a tree, leaf
      entries and private pages point at each other, the counters of a table count its entries plus
      \<open>W\<close>, the wirings in progress, and the working set holds tables and mapped addresses. \<open>plenty k\<close> says
      that \<open>k\<close> pages can be allocated and \<open>k\<close> entries inserted without eviction or stealing: \<open>k\<close> pages are on the
      free queue, and when they are taken the free and standby pages still exceed the limits on
      allocation and on the growth of the working set.
    \<^item> \<open>Space_Growth\<close>: linking a free page into the tables keeps the invariant and everything mapped.
    \<^item> \<open>Wiring\<close>: \<^verbatim>\<open>vmp_wire_pte\<close> and its release, by induction on the level.
    \<^item> \<open>Leaf_Entries\<close>: an entry in core may change between valid and transition.
    \<^item> \<open>Logical_Memory\<close>: \<open>vm_word\<close>, the word that a virtual address denotes, wherever its page is; growth
      and changes of a page's state leave every word alone.
    \<^item> \<open>Private_Pages\<close>: the relation \<open>data_kept\<close> says that private pages keep their slots and contents and that a
      page which becomes read-only is dirty if it was writeable; growth and changes of an entry satisfy it.
    \<^item> \<open>Fault_Resolution\<close>, \<open>Simulation\<close>, \<open>Eviction\<close>: a fault ends in a valid mapping, an access through the MMU
      ends after a number of faults that is given, at most two; a write fault does not look at the protection
      of the range; the start-up establishes the invariant; trimming keeps it, or ends when it meets a table.
    \<^item> \<open>Low_Memory\<close>: a fault when memory is short gives up without a trace; without the tables it ends in an
      assertion.
    \<^item> \<open>Main_Run\<close>: the whole of \<^verbatim>\<open>main\<close>; its first 16 accesses complete without waiting.
    \<^item> \<open>Page_In\<close>: the read of a page-in is at slot \<open>-1\<close>, whatever the state it is begun in, and moves nothing.
    \<^item> \<open>Page_Copies\<close>: the invariant \<open>paging_inv\<close> between memory and page file: each slot in use belongs to one private
      page, and a clean page that cannot be stored to is in the file as it is in memory. The page file has 256
      slots for 32 page frames, so that the page writer always finds one.
    \<^item> \<open>Memory_Refinement\<close>: the locale \<open>flat_memory\<close> is the contract of a memory manager towards a program; its
      interpretation \<open>vm\<close> on faults, trimming, the balancer, the page writer and stores through the MMU gives the
      refinement theorem, that a program finds at each address the last word it stored there, and with it that
      the page file stays a copy of the pages that may be stolen. The runs are those in which a fault finds the
      pages it needs free, or gives up in a shortage; none steals a page or reads one in.
    \<^item> \<open>Memory_Returns\<close>: a fault that gave up in a shortage is resolved after a pass of the page writer, when the
      modified pages that the pass cleans are enough.

  \<^bold>\<open>Bounds.\<close> No definition uses fuel: loops are recursions on the number of levels, of array elements, of
  packets or of list elements that the code's own bounds give. A fault on an address needs a page for each
  table that is missing (\<open>tables_need\<close>, none or up to three) and one private page, and an access at most two
  faults, the second of which finds the tables: hence the bounds \<open>tables_need + 1\<close> and \<open>tables_need + 2\<close> in \<open>plenty\<close>;
  after start-up \<open>plenty 22\<close> holds. Addresses of the process are assumed to be below \<open>2^63\<close>, as the
  comparison of working set entries casts them to a signed type, and outside the direct map, whose
  addresses are the keys of page tables in the same list. \<^verbatim>\<open>SOFT_pages\<close> is assumed to lie below \<open>2^62\<close>.

  \<^bold>\<open>Not modelled.\<close> The theories about data follow one operation at a time between the points where it gives
  up its locks, which \<open>Lock_Discipline\<close> justifies for what those locks guard. Those points are the wait of \<^verbatim>\<open>vm_fault\<close>, where the relation \<open>others\<close> stands for the other threads,
  the page-in, which is split in three, and the page writer, whose pass is followed alone. \<^verbatim>\<open>kmem_alloc\<close> is
  taken to succeed where the code does not test it. \<^verbatim>\<open>vmp_fork\<close> has loops without a body and is modelled as
  its locking. The debugging aids of \<^verbatim>\<open>queue.h\<close> (traces, \<^verbatim>\<open>TRASHIT\<close>) are empty in the build and left out. The composition covers address spaces without pages in the page file, and faults that do not
  steal: the code loses stolen pages (the entry for slot 0 reads as zero, and the page-in reads at slot -1),
  as the properties of \<open>Vmp_Soft\<close> and \<open>Page_In\<close> show. \<^verbatim>\<open>SOFT_pages\<close> holds words at aligned addresses.
\<close>

end
